(* ===== verification/Prelude.thy ===== *)
theory Prelude
  imports Complex_Main "HOL-Library.Word"
begin

text \<open>
  Shared vocabulary of the development: Rust's machine integers as words, the three ways a Rust
  call can end (a value, an \<open>Err\<close>, a panic), saturating arithmetic, checked indexing, the
  first-minimum scan behind every victim selection, little-endian byte strings, files as byte
  strings, and slice chunking. The two collections \<open>panic_simps\<close> (rewrite rules for fallible
  steps) and \<open>bytes_simps\<close> (lengths and round trips of encodings) are what the component
  theories pass to the simplifier.
\<close>

named_theorems panic_simps
named_theorems bytes_simps

section \<open>Machine integers\<close>

type_synonym u8 = "8 word"
type_synonym u16 = "16 word"
type_synonym u32 = "32 word"
type_synonym u64 = "64 word"
type_synonym bytes = "u8 list"

lemma unat_ucast_16_32 [simp]: "unat (ucast w :: u32) = unat w" for w :: u16
  by (simp add: unsigned_ucast_eq take_bit_nat_eq_self_iff order.strict_trans [OF unsigned_less])

text \<open>Rust's \<open>saturating_add(1)\<close>: the largest value stays where it is.\<close>

definition sat_inc :: "'a::len word \<Rightarrow> 'a word" where
  "sat_inc w = (if w = - 1 then w else w + 1)"

lemma unat_lt: "unat w < 2 ^ LENGTH('a)" for w :: "'a::len word"
  by (rule unsigned_less)

lemma unat_max_word: "unat (- 1 :: 'a::len word) = 2 ^ LENGTH('a) - 1"
  by (simp add: unsigned_minus_1_eq_mask mask_eq_exp_minus_1)

lemma unat_inc: "w \<noteq> - 1 \<Longrightarrow> unat (w + 1) = Suc (unat w)" for w :: "'a::len word"
  by (metis add.commute add_eq_0_iff unatSuc)

lemma sat_inc_unat: "unat (sat_inc w) = min (unat w + 1) (unat (- 1 :: 'a::len word))" for w :: "'a::len word"
proof (cases "w = - 1")
  case True
  then show ?thesis by (simp add: sat_inc_def)
next
  case False
  then have "unat w < unat (- 1 :: 'a word)"
    by (simp add: word_order.not_eq_extremum flip: word_less_nat_alt)
  with False show ?thesis by (simp add: sat_inc_def unat_inc)
qed

lemma sat_inc_nonzero: "sat_inc w \<noteq> 0" for w :: "'a::len word"
proof -
  have "w + 1 \<noteq> 0" if "w \<noteq> - 1"
    using that by (metis eq_neg_iff_add_eq_0)
  then show ?thesis by (simp add: sat_inc_def)
qed

lemma inc_nonzero: "w \<noteq> - 1 \<Longrightarrow> w + 1 \<noteq> 0" for w :: "'a::len word"
  by (metis eq_neg_iff_add_eq_0)

section \<open>Outcomes of a Rust call\<close>

text \<open>
  A function returning \<open>Result\<close> ends in \<open>Ok\<close>, in \<open>Err\<close>, or panics (a failed
  \<open>assert!\<close>, an index out of range, an \<open>unwrap\<close> of nothing). A function that cannot
  return \<open>Err\<close> but can panic has an \<open>option\<close> result, \<open>None\<close> being the panic.
\<close>

datatype ('e, 'a) res = Ok 'a | Err 'e | Panic

fun bind_res :: "('e, 'a) res \<Rightarrow> ('a \<Rightarrow> ('e, 'b) res) \<Rightarrow> ('e, 'b) res" where
  "bind_res (Ok a) f = f a"
| "bind_res (Err e) f = Err e"
| "bind_res Panic f = Panic"

lemma bind_res_Ok [panic_simps]:
  "bind_res r f = Ok b \<longleftrightarrow> (\<exists>a. r = Ok a \<and> f a = Ok b)"
  by (cases r) auto

lemma bind_res_Panic [panic_simps]:
  "bind_res r f = Panic \<longleftrightarrow> r = Panic \<or> (\<exists>a. r = Ok a \<and> f a = Panic)"
  by (cases r) auto

text \<open>The same for calls that act on a state, which an error leaves as it is at that point.\<close>

fun and_then :: "('e, 'a) res \<times> 's \<Rightarrow> ('a \<Rightarrow> 's \<Rightarrow> ('e, 'b) res \<times> 's) \<Rightarrow> ('e, 'b) res \<times> 's" where
  "and_then (Ok a, s) f = f a s"
| "and_then (Err e, s) f = (Err e, s)"
| "and_then (Panic, s) f = (Panic, s)"

lemma and_then_Ok [panic_simps]: "and_then r f = (Ok b, t) \<longleftrightarrow> (\<exists>a s. r = (Ok a, s) \<and> f a s = (Ok b, t))"
  by (cases r; cases "fst r") auto

text \<open>Rust's \<open>xs[i]\<close>: out of range panics.\<close>

definition nth_opt :: "'a list \<Rightarrow> nat \<Rightarrow> 'a option" where
  "nth_opt xs i = (if i < length xs then Some (xs ! i) else None)"

lemma nth_opt_in [panic_simps]: "i < length xs \<Longrightarrow> nth_opt xs i = Some (xs ! i)"
  by (simp add: nth_opt_def)

lemma nth_opt_out [panic_simps]: "length xs \<le> i \<Longrightarrow> nth_opt xs i = None"
  by (simp add: nth_opt_def)

lemma nth_opt_eq_Some [panic_simps]: "nth_opt xs i = Some x \<longleftrightarrow> i < length xs \<and> x = xs ! i"
  by (auto simp: nth_opt_def)

lemma nth_opt_eq_None [panic_simps]: "nth_opt xs i = None \<longleftrightarrow> length xs \<le> i"
  by (auto simp: nth_opt_def)

text \<open>From an evaluated \<open>case\<close> to the value it found.\<close>

lemma option_holds: "(case x of None \<Rightarrow> False | Some a \<Rightarrow> P a) \<Longrightarrow> \<exists>a. x = Some a \<and> P a"
  by (cases x) auto

section \<open>The first element of least key\<close>

text \<open>
  The loop \<open>if best.is_none() || key < best_key { best = i; best_key = key }\<close>, which is also
  Rust's \<open>min_by_key\<close>: the earliest element among those of least key.
\<close>

fun first_min :: "('a \<Rightarrow> 'k::linorder) \<Rightarrow> 'a list \<Rightarrow> 'a option" where
  "first_min key [] = None"
| "first_min key (x # xs) =
     (case first_min key xs of
        None \<Rightarrow> Some x
      | Some y \<Rightarrow> if key y < key x then Some y else Some x)"

lemma first_min_None [simp]: "first_min key xs = None \<longleftrightarrow> xs = []"
  by (cases xs) (auto split: option.splits)

lemma first_min_mem: "first_min key xs = Some x \<Longrightarrow> x \<in> set xs"
  by (induction xs arbitrary: x) (auto split: option.splits if_splits)

lemma first_min_le: "first_min key xs = Some x \<Longrightarrow> y \<in> set xs \<Longrightarrow> key x \<le> key y"
  by (induction xs arbitrary: x y) (force split: option.splits if_splits)+

lemma first_min_ex: "xs \<noteq> [] \<Longrightarrow> \<exists>x. first_min key xs = Some x"
  using first_min_None by blast

lemma first_min_first:
  "first_min key xs = Some x \<Longrightarrow> xs = us @ y # vs \<Longrightarrow> x \<notin> set (us @ [y]) \<Longrightarrow> key x < key y"
proof (induction xs arbitrary: us x)
  case Nil
  then show ?case by simp
next
  case (Cons z zs)
  show ?case
  proof (cases us)
    case Nil
    with Cons.prems show ?thesis by (auto split: option.splits if_splits)
  next
    case (Cons u us')
    with Cons.prems have "first_min key zs = Some x"
      by (auto split: option.splits if_splits)
    with Cons.prems Cons Cons.IH show ?thesis by auto
  qed
qed

lemma first_min_sorted:
  "sorted_wrt (<) xs \<Longrightarrow> first_min key xs = Some x \<Longrightarrow> y \<in> set xs \<Longrightarrow> y < x \<Longrightarrow> key x < key y"
  for xs :: "'a::linorder list"
  by (induction xs arbitrary: x) (auto split: option.splits if_splits dest!: first_min_mem)

text \<open>The loop with its two mutable variables computes it.\<close>

definition min_step :: "('a \<Rightarrow> 'k::linorder) \<Rightarrow> 'a option \<times> 'k \<Rightarrow> 'a \<Rightarrow> 'a option \<times> 'k" where
  "min_step key b i =
     (if fst b = None \<or> key i < snd b then (Some i, key i) else b)"

lemma foldl_min_step_Some:
  "foldl (min_step key) (Some v, key v) xs = (case first_min key xs of
      None \<Rightarrow> (Some v, key v)
    | Some y \<Rightarrow> if key y < key v then (Some y, key y) else (Some v, key v))"
  by (induction xs arbitrary: v) (auto simp: min_step_def split: option.splits)

lemma foldl_min_step: "fst (foldl (min_step key) (None, k0) xs) = first_min key xs"
  by (cases xs) (auto simp: min_step_def foldl_min_step_Some split: option.splits)

lemma first_min_inj:
  assumes "set xs = set ys" and "inj_on key (set xs)"
  shows "first_min key xs = first_min key ys"
proof (cases "first_min key xs")
  case None
  with assms show ?thesis by (cases ys) auto
next
  case (Some x)
  with assms have "ys \<noteq> []" by (auto dest: first_min_mem)
  then obtain y where y: "first_min key ys = Some y" using first_min_ex by blast
  have "x \<in> set xs" "y \<in> set xs" using Some y assms by (auto dest: first_min_mem)
  moreover have "key x \<le> key y" "key y \<le> key x"
    using Some y assms calculation by (auto intro: first_min_le)
  ultimately show ?thesis using Some y assms(2) by (auto simp: inj_on_def)
qed

section \<open>Little-endian integers and files\<close>

text \<open>\<open>to_le k n\<close> is the \<open>k\<close>-byte little-endian encoding (\<open>to_le_bytes\<close>), \<open>from_le\<close> its reader.\<close>

fun to_le :: "nat \<Rightarrow> nat \<Rightarrow> bytes" where
  "to_le 0 n = []"
| "to_le (Suc k) n = of_nat (n mod 256) # to_le k (n div 256)"

fun from_le :: "bytes \<Rightarrow> nat" where
  "from_le [] = 0"
| "from_le (b # bs) = unat b + 256 * from_le bs"

lemma length_to_le [simp, bytes_simps]: "length (to_le k n) = k"
  by (induction k arbitrary: n) auto

lemma from_to_le: "n < 256 ^ k \<Longrightarrow> from_le (to_le k n) = n"
proof (induction k arbitrary: n)
  case 0
  then show ?case by simp
next
  case (Suc k)
  have "n div 256 < 256 ^ k"
    using Suc.prems by (simp add: less_mult_imp_div_less mult.commute)
  moreover have "unat (of_nat (n mod 256) :: u8) = n mod 256"
    by (simp add: unat_of_nat)
  ultimately show ?case using Suc.IH by simp
qed

lemma from_to_le_u32 [simp, bytes_simps]: "from_le (to_le 4 (unat (w :: u32))) = unat w"
  by (rule from_to_le) (use unat_lt [of w] in simp)

lemma from_to_le_u64 [simp, bytes_simps]: "from_le (to_le 8 (unat (w :: u64))) = unat w"
  by (rule from_to_le) (use unat_lt [of w] in simp)

lemma from_le_bound: "from_le bs < 256 ^ length bs"
proof (induction bs)
  case Nil
  then show ?case by simp
next
  case (Cons b bs)
  have "unat b < 256" using unat_lt [of b] by simp
  with Cons show ?case by simp
qed

text \<open>
  A file is its bytes. Writing at a position past the end leaves a hole of zeros, as a POSIX
  file does; reading exactly \<open>n\<close> bytes fails when the file is shorter.
\<close>

type_synonym file_bytes = bytes

definition zeros :: "nat \<Rightarrow> bytes" where
  "zeros n = replicate n 0"

lemma length_zeros [simp, bytes_simps]: "length (zeros n) = n"
  by (simp add: zeros_def)

definition write_at :: "nat \<Rightarrow> bytes \<Rightarrow> file_bytes \<Rightarrow> file_bytes" where
  "write_at p bs f = (if bs = [] then f else
     take p f @ zeros (p - length f) @ bs @ drop (p + length bs) f)"

definition read_at :: "file_bytes \<Rightarrow> nat \<Rightarrow> nat \<Rightarrow> bytes option" where
  "read_at f p n = (if p + n \<le> length f then Some (take n (drop p f)) else None)"

lemma read_at_append: "read_at (a @ b @ c) (length a) (length b) = Some b"
  by (simp add: read_at_def)

lemma read_at_len: "read_at f p n = Some bs \<Longrightarrow> length bs = n"
  by (auto simp: read_at_def split: if_splits)

lemma write_at_end: "write_at (length f) bs f = f @ bs"
  by (simp add: write_at_def zeros_def)

section \<open>Slices\<close>

text \<open>Rust's \<open>xs.chunks(n)\<close> for \<open>0 < n\<close>: blocks of \<open>n\<close>, the last one possibly shorter.\<close>

function chunks :: "nat \<Rightarrow> 'a list \<Rightarrow> 'a list list" where
  "chunks n xs = (if xs = [] \<or> n = 0 then [] else take n xs # chunks n (drop n xs))"
  by pat_completeness auto
termination
  by (relation "measure (\<lambda>(n, xs). length xs)") auto

declare chunks.simps [simp del]

lemma chunks_Nil [simp]: "chunks n [] = []"
  by (simp add: chunks.simps)

lemma concat_chunks: "0 < n \<Longrightarrow> concat (chunks n xs) = xs"
proof (induction n xs rule: chunks.induct)
  case (1 n xs)
  then show ?case by (cases "xs = []") (auto simp: chunks.simps [of n xs])
qed

lemma chunks_bounds: "c \<in> set (chunks n xs) \<Longrightarrow> 0 < length c \<and> length c \<le> n"
proof (induction n xs rule: chunks.induct)
  case (1 n xs)
  then show ?case
    by (cases "xs = [] \<or> n = 0") (auto simp: chunks.simps [of n xs])
qed

lemma chunks_nonempty: "0 < n \<Longrightarrow> xs \<noteq> [] \<Longrightarrow> chunks n xs \<noteq> []"
  by (simp add: chunks.simps [of n xs])

end
