(* ===== verification/Expert_Cache.thy ===== *)
theory Expert_Cache
  imports Prelude "HOL-Library.Product_Lexorder"
begin

text \<open>
  The aged-LFU expert cache of \<open>llmpager-core/src/cache.rs\<close>: slots drawn from partitions, a
  map from expert ids to slots per partition, reference-counted pins, and a victim scan for the
  unpinned slot of least \<open>(freq, occupied)\<close>. The struct fields keep their order; \<open>s_\<close>,
  \<open>p_\<close> and \<open>c_\<close> prefix the fields of \<open>SlotState\<close>, \<open>Partition\<close> and
  \<open>ExpertCache\<close>. Slot indices (\<open>u32\<close> in the source, used as indices only) are
  \<open>nat\<close>; every counter keeps its width. \<open>None\<close> is a panic. The theory ends with the
  contract \<open>expert_pool\<close> that the pager and the host-RAM tier rely on, and its
  interpretation on this cache.
\<close>

section \<open>Data\<close>

type_synonym expert_id = u32
type_synonym slot = nat

datatype lookup = Hit slot | Miss slot "expert_id option" | Stalled

record slot_state =
  s_id :: "expert_id option"
  s_freq :: u32
  s_pins :: u32
  s_ready :: bool

record partition =
  p_base :: nat
  p_len :: nat
  p_map :: "expert_id \<rightharpoonup> slot"
  p_inserts :: u32

record expert_cache =
  c_slots :: "slot_state list"
  c_parts :: "partition list"
  c_ids :: u32
  c_decay :: u32
  c_hits :: u64
  c_misses :: u64

section \<open>Construction\<close>

definition empty_slot :: slot_state where
  "empty_slot = \<lparr>s_id = None, s_freq = 0, s_pins = 0, s_ready = False\<rparr>"

definition partitioned :: "u32 \<Rightarrow> u32 \<Rightarrow> u32 \<Rightarrow> u32 \<Rightarrow> expert_cache option" where
  "partitioned partitions ids_per slots_per decay =
     (if 0 < partitions \<and> 0 < slots_per \<and> 0 < decay then
        Some \<lparr>c_slots = replicate (unat partitions * unat slots_per) empty_slot,
              c_parts = map (\<lambda>p. \<lparr>p_base = unat (of_nat p * slots_per), p_len = unat slots_per,
                                  p_map = Map.empty, p_inserts = 0\<rparr>) [0..<unat partitions],
              c_ids = ids_per, c_decay = decay, c_hits = 0, c_misses = 0\<rparr>
      else None)"

definition cache_new :: "u16 \<Rightarrow> u32 \<Rightarrow> u32 \<Rightarrow> expert_cache option" where
  "cache_new num_layers slots_per_layer decay =
     partitioned (ucast num_layers) (- 1) slots_per_layer decay"

definition fold_id :: "u16 \<Rightarrow> u16 \<Rightarrow> u32 \<Rightarrow> expert_id" where
  "fold_id layer expert per_layer = ucast layer * per_layer + ucast expert"

definition slots_per_partition :: "expert_cache \<Rightarrow> nat option" where
  "slots_per_partition c = map_option p_len (nth_opt (c_parts c) 0)"

definition part_of :: "expert_cache \<Rightarrow> expert_id \<Rightarrow> nat option" where
  "part_of c i =
     (if length (c_parts c) = 1 then Some 0
      else if c_ids c = 0 then None
      else Some (min (unat (i div c_ids c)) (length (c_parts c) - 1)))"

section \<open>Operations\<close>

definition victim_key :: "slot_state \<Rightarrow> u32 \<times> bool" where
  "victim_key s = (s_freq s, s_id s \<noteq> None)"

definition scan_victim :: "slot_state list \<Rightarrow> nat \<Rightarrow> nat \<Rightarrow> slot option" where
  "scan_victim ss base len =
     fst (foldl (\<lambda>v i. if 0 < s_pins (ss ! i) then v else min_step (\<lambda>j. victim_key (ss ! j)) v i)
                (None, (- 1, False)) [base..<base + len])"

definition halve :: "slot_state \<Rightarrow> slot_state" where
  "halve s = s\<lparr>s_freq := s_freq s div 2\<rparr>"

definition halve_range :: "slot_state list \<Rightarrow> nat \<Rightarrow> nat \<Rightarrow> slot_state list" where
  "halve_range ss base len = foldl (\<lambda>ss i. ss[i := halve (ss ! i)]) ss [base..<base + len]"

definition pin_hit :: "slot_state \<Rightarrow> slot_state" where
  "pin_hit s = s\<lparr>s_freq := sat_inc (s_freq s), s_pins := s_pins s + 1\<rparr>"

definition insert_miss :: "expert_cache \<Rightarrow> nat \<Rightarrow> partition \<Rightarrow> expert_id \<Rightarrow> slot \<Rightarrow> expert_cache" where
  "insert_miss c p P i v =
     (let m = (case s_id (c_slots c ! v) of None \<Rightarrow> p_map P | Some old \<Rightarrow> (p_map P)(old := None));
          ss = (c_slots c)[v := \<lparr>s_id = Some i, s_freq = 1, s_pins = 1, s_ready = False\<rparr>];
          n = p_inserts P + 1;
          aged = (c_decay c \<le> n)
      in c\<lparr>c_slots := (if aged then halve_range ss (p_base P) (p_len P) else ss),
           c_parts := (c_parts c)[p := P\<lparr>p_map := m(i \<mapsto> v), p_inserts := (if aged then 0 else n)\<rparr>],
           c_misses := c_misses c + 1\<rparr>)"

definition acquire :: "expert_cache \<Rightarrow> expert_id \<Rightarrow> (lookup \<times> expert_cache) option" where
  "acquire c i =
     (case part_of c i of None \<Rightarrow> None | Some p \<Rightarrow>
      case nth_opt (c_parts c) p of None \<Rightarrow> None | Some P \<Rightarrow>
      case p_map P i of
        Some s \<Rightarrow>
          (case nth_opt (c_slots c) s of None \<Rightarrow> None | Some st \<Rightarrow>
             Some (Hit s, c\<lparr>c_slots := (c_slots c)[s := pin_hit st], c_hits := c_hits c + 1\<rparr>))
      | None \<Rightarrow>
          if length (c_slots c) < p_base P + p_len P then None
          else (case scan_victim (c_slots c) (p_base P) (p_len P) of
                  None \<Rightarrow> Some (Stalled, c)
                | Some v \<Rightarrow> Some (Miss v (s_id (c_slots c ! v)), insert_miss c p P i v)))"

definition lookup_ready :: "expert_cache \<Rightarrow> expert_id \<Rightarrow> (slot option \<times> expert_cache) option" where
  "lookup_ready c i =
     (case part_of c i of None \<Rightarrow> None | Some p \<Rightarrow>
      case nth_opt (c_parts c) p of None \<Rightarrow> None | Some P \<Rightarrow>
      case p_map P i of None \<Rightarrow> Some (None, c) | Some s \<Rightarrow>
      case nth_opt (c_slots c) s of None \<Rightarrow> None | Some st \<Rightarrow>
        if \<not> s_ready st then Some (None, c)
        else Some (Some s, c\<lparr>c_slots := (c_slots c)[s := pin_hit st], c_hits := c_hits c + 1\<rparr>))"

definition publish :: "expert_cache \<Rightarrow> slot \<Rightarrow> expert_cache option" where
  "publish c s = map_option (\<lambda>st. c\<lparr>c_slots := (c_slots c)[s := st\<lparr>s_ready := True\<rparr>]\<rparr>) (nth_opt (c_slots c) s)"

definition is_ready :: "expert_cache \<Rightarrow> slot \<Rightarrow> bool option" where
  "is_ready c s = map_option s_ready (nth_opt (c_slots c) s)"

definition release :: "expert_cache \<Rightarrow> slot \<Rightarrow> expert_cache option" where
  "release c s =
     (case nth_opt (c_slots c) s of None \<Rightarrow> None | Some st \<Rightarrow>
        if s_pins st = 0 then None
        else Some (c\<lparr>c_slots := (c_slots c)[s := st\<lparr>s_pins := s_pins st - 1\<rparr>]\<rparr>))"

definition decay_all :: "expert_cache \<Rightarrow> expert_cache" where
  "decay_all c = c\<lparr>c_slots := map halve (c_slots c),
                   c_parts := map (\<lambda>P. P\<lparr>p_inserts := 0\<rparr>) (c_parts c)\<rparr>"

definition is_wedged :: "expert_cache \<Rightarrow> expert_id \<Rightarrow> bool option" where
  "is_wedged c i =
     (case part_of c i of None \<Rightarrow> None | Some p \<Rightarrow>
      case nth_opt (c_parts c) p of None \<Rightarrow> None | Some P \<Rightarrow>
        if length (c_slots c) < p_base P + p_len P then None
        else Some (list_all (\<lambda>j. 0 < s_pins (c_slots c ! j) \<and> s_ready (c_slots c ! j))
                            [p_base P..<p_base P + p_len P]))"

section \<open>What a slot shows to its users\<close>

text \<open>
  Occupant, pins and readiness of a slot: all that callers of the cache can observe of it. The
  abstract cache is the map from slots to these triples.
\<close>

type_synonym slot_view = "expert_id option \<times> u32 \<times> bool"

definition view :: "expert_cache \<Rightarrow> slot \<rightharpoonup> slot_view" where
  "view c s = map_option (\<lambda>x. (s_id x, s_pins x, s_ready x)) (nth_opt (c_slots c) s)"

text \<open>The slots an id may use: those of its partition.\<close>

definition pool_of :: "expert_cache \<Rightarrow> expert_id \<Rightarrow> slot set" where
  "pool_of c i =
     (case part_of c i of None \<Rightarrow> {} | Some p \<Rightarrow>
        {p_base (c_parts c ! p)..<p_base (c_parts c ! p) + p_len (c_parts c ! p)})"

section \<open>The representation invariant\<close>

text \<open>
  The partitions tile the slot array in equal blocks, and each partition's map is exactly the
  occupants of its block.
\<close>

definition cache_shape :: "expert_cache \<Rightarrow> nat \<Rightarrow> bool" where
  "cache_shape c L \<longleftrightarrow>
     0 < L \<and> c_parts c \<noteq> [] \<and> length (c_slots c) = length (c_parts c) * L \<and>
     (length (c_parts c) = 1 \<or> c_ids c \<noteq> 0) \<and>
     (\<forall>p < length (c_parts c). p_base (c_parts c ! p) = p * L \<and> p_len (c_parts c ! p) = L)"

definition cache_maps :: "expert_cache \<Rightarrow> nat \<Rightarrow> bool" where
  "cache_maps c L \<longleftrightarrow>
     (\<forall>p < length (c_parts c). \<forall>i s.
        p_map (c_parts c ! p) i = Some s \<longleftrightarrow>
          p * L \<le> s \<and> s < p * L + L \<and> s_id (c_slots c ! s) = Some i) \<and>
     (\<forall>s < length (c_slots c). \<forall>i. s_id (c_slots c ! s) = Some i \<longrightarrow> part_of c i = Some (s div L))"

definition cache_age :: "expert_cache \<Rightarrow> bool" where
  "cache_age c \<longleftrightarrow> (\<forall>P \<in> set (c_parts c). p_inserts P < c_decay c)"

definition cache_wf :: "expert_cache \<Rightarrow> bool" where
  "cache_wf c \<longleftrightarrow> (\<exists>L. cache_shape c L \<and> cache_maps c L) \<and> cache_age c"


section \<open>Helper lemmas\<close>

lemma cache_cases:
  assumes "part_of c i = Some p"
  shows "length (c_parts c) = 1 \<and> p = 0 \<or> length (c_parts c) \<noteq> 1 \<and> p \<le> length (c_parts c) - 1"
  using assms by (auto simp: part_of_def split: if_splits)

lemma shape_part_of:
  assumes "cache_shape c L"
  obtains p where "part_of c i = Some p" "p < length (c_parts c)"
proof -
  have "\<exists>p. part_of c i = Some p \<and> p < length (c_parts c)"
  proof (cases "length (c_parts c) = 1")
    case True
    then show ?thesis by (simp add: part_of_def)
  next
    case False
    with assms show ?thesis by (auto simp: part_of_def cache_shape_def min_less_iff_disj)
  qed
  with that show thesis by blast
qed

lemma block_bound: "p < n \<Longrightarrow> p * L + L \<le> n * L" for p :: nat
  by (metis Suc_leI mult.commute mult_Suc_right mult_le_mono2 add.commute)

lemma block_div: "0 < L \<Longrightarrow> p * L \<le> s \<Longrightarrow> s < p * L + L \<Longrightarrow> s div L = p" for p :: nat
  by (metis div_mult_self1_is_m div_nat_eqI mult.commute mult_Suc_right add.commute mult_Suc)

lemma halve_simps [simp]:
  "s_id (halve s) = s_id s" "s_pins (halve s) = s_pins s" "s_ready (halve s) = s_ready s"
  "s_freq (halve s) = s_freq s div 2"
  by (simp_all add: halve_def)

lemma halve_upds:
  "length (foldl (\<lambda>ss i. ss[i := halve (ss ! i)]) ss is) = length ss \<and>
   (distinct is \<longrightarrow> (\<forall>j < length ss.
      foldl (\<lambda>ss i. ss[i := halve (ss ! i)]) ss is ! j = (if j \<in> set is then halve (ss ! j) else ss ! j)))"
proof (induction "is" arbitrary: ss)
  case Nil
  then show ?case by simp
next
  case (Cons i "is")
  note IH = Cons [of "ss[i := halve (ss ! i)]"]
  show ?case
  proof (intro conjI impI allI)
    show "length (foldl (\<lambda>ss i. ss[i := halve (ss ! i)]) ss (i # is)) = length ss"
      using IH by simp
  next
    fix j assume "distinct (i # is)" "j < length ss"
    then show "foldl (\<lambda>ss i. ss[i := halve (ss ! i)]) ss (i # is) ! j =
        (if j \<in> set (i # is) then halve (ss ! j) else ss ! j)"
      using IH by (cases "i = j") auto
  qed
qed

lemma length_halve_range [simp]: "length (halve_range ss b n) = length ss"
  by (simp add: halve_range_def halve_upds)

lemma nth_halve_range:
  "j < length ss \<Longrightarrow>
   halve_range ss b n ! j = (if b \<le> j \<and> j < b + n then halve (ss ! j) else ss ! j)"
  using halve_upds [of ss "[b..<b + n]"] by (auto simp: halve_range_def)

lemma nth_halve_range_fields [simp]:
  assumes "j < length ss"
  shows "s_id (halve_range ss b n ! j) = s_id (ss ! j)"
    "s_pins (halve_range ss b n ! j) = s_pins (ss ! j)"
    "s_ready (halve_range ss b n ! j) = s_ready (ss ! j)"
  using assms by (simp_all add: nth_halve_range)

lemma foldl_skip:
  "foldl (\<lambda>v i. if P i then v else f v i) v xs = foldl f v (filter (\<lambda>i. \<not> P i) xs)"
  by (induction xs arbitrary: v) auto

text \<open>The victim loop selects the first slot of least key among the unpinned ones.\<close>

lemma scan_victim_first_min:
  "scan_victim ss b n =
     first_min (\<lambda>i. victim_key (ss ! i)) (filter (\<lambda>i. s_pins (ss ! i) = 0) [b..<b + n])"
  unfolding scan_victim_def foldl_skip foldl_min_step
  by (simp add: word_neq_0_conv [symmetric])

lemma scan_victim_None:
  "scan_victim ss b n = None \<longleftrightarrow> (\<forall>i. b \<le> i \<and> i < b + n \<longrightarrow> s_pins (ss ! i) \<noteq> 0)"
  by (auto simp: scan_victim_first_min filter_empty_conv)

lemma scan_victim_Some:
  assumes "scan_victim ss b n = Some v"
  shows "b \<le> v" "v < b + n" "s_pins (ss ! v) = 0"
    "\<And>i. b \<le> i \<Longrightarrow> i < b + n \<Longrightarrow> s_pins (ss ! i) = 0 \<Longrightarrow> victim_key (ss ! v) \<le> victim_key (ss ! i)"
  using assms first_min_mem [OF assms [unfolded scan_victim_first_min]]
    first_min_le [OF assms [unfolded scan_victim_first_min]]
  by auto

lemma view_eq: "view c s = (if s < length (c_slots c) then
    Some (s_id (c_slots c ! s), s_pins (c_slots c ! s), s_ready (c_slots c ! s)) else None)"
  by (simp add: view_def nth_opt_def)

section \<open>Every operation keeps the invariant\<close>

lemma shape_facts:
  assumes "cache_shape c L" "p < length (c_parts c)"
  shows "p_base (c_parts c ! p) = p * L" "p_len (c_parts c ! p) = L"
    "p * L + L \<le> length (c_slots c)" "0 < L"
  using assms block_bound [of p "length (c_parts c)" L] by (auto simp: cache_shape_def)

lemma part_of_cong:
  "length (c_parts c') = length (c_parts c) \<Longrightarrow> c_ids c' = c_ids c \<Longrightarrow> part_of c' i = part_of c i"
  by (simp add: part_of_def)

text \<open>Changing counters only keeps both parts of the invariant.\<close>

lemma shape_maps_cong:
  assumes "cache_shape c L" "cache_maps c L"
    and len: "length (c_parts c') = length (c_parts c)" "length (c_slots c') = length (c_slots c)"
      "c_ids c' = c_ids c"
    and parts: "\<And>p. p < length (c_parts c) \<Longrightarrow> p_base (c_parts c' ! p) = p_base (c_parts c ! p) \<and>
      p_len (c_parts c' ! p) = p_len (c_parts c ! p) \<and> p_map (c_parts c' ! p) = p_map (c_parts c ! p)"
    and slots: "\<And>s. s < length (c_slots c) \<Longrightarrow> s_id (c_slots c' ! s) = s_id (c_slots c ! s)"
  shows "cache_shape c' L \<and> cache_maps c' L"
proof
  show "cache_shape c' L"
    using assms(1) len parts by (auto simp: cache_shape_def)
  have po: "part_of c' i = part_of c i" for i
    using len by (intro part_of_cong)
  have "p * L \<le> s \<and> s < p * L + L \<Longrightarrow> s_id (c_slots c' ! s) = s_id (c_slots c ! s)"
    if "p < length (c_parts c)" for p s
    using shape_facts(3) [OF assms(1) that] slots [of s] by auto
  then show "cache_maps c' L"
    using assms(2) len parts slots unfolding cache_maps_def po by auto
qed

lemma wf_slot_upd:
  assumes "cache_wf c" "s < length (c_slots c)" "s_id st = s_id (c_slots c ! s)"
  shows "cache_wf (c\<lparr>c_slots := (c_slots c)[s := st], c_hits := h\<rparr>)"
proof -
  obtain L where L: "cache_shape c L" "cache_maps c L" and age: "cache_age c"
    using assms(1) by (auto simp: cache_wf_def)
  have "s_id ((c_slots c)[s := st] ! t) = s_id (c_slots c ! t)" for t
    using assms(2,3) by (cases "s = t") auto
  then have "cache_shape (c\<lparr>c_slots := (c_slots c)[s := st], c_hits := h\<rparr>) L \<and>
      cache_maps (c\<lparr>c_slots := (c_slots c)[s := st], c_hits := h\<rparr>) L"
    by (intro shape_maps_cong [OF L]) auto
  with age show ?thesis by (auto simp: cache_wf_def cache_age_def)
qed

lemma wf_slot_upd': 
  assumes "cache_wf c" "s < length (c_slots c)" "s_id st = s_id (c_slots c ! s)"
  shows "cache_wf (c\<lparr>c_slots := (c_slots c)[s := st]\<rparr>)"
  using wf_slot_upd [OF assms, of "c_hits c"] by simp

lemma publish_wf: "cache_wf c \<Longrightarrow> publish c s = Some c' \<Longrightarrow> cache_wf c'"
  by (auto simp: publish_def nth_opt_eq_Some intro!: wf_slot_upd')

lemma release_wf: "cache_wf c \<Longrightarrow> release c s = Some c' \<Longrightarrow> cache_wf c'"
  by (auto simp: release_def nth_opt_eq_Some split: option.splits if_splits intro!: wf_slot_upd')

lemma lookup_ready_wf: "cache_wf c \<Longrightarrow> lookup_ready c i = Some (r, c') \<Longrightarrow> cache_wf c'"
  by (auto simp: lookup_ready_def nth_opt_eq_Some pin_hit_def split: option.splits if_splits
      intro!: wf_slot_upd)

lemma decay_all_wf:
  assumes "cache_wf c"
  shows "cache_wf (decay_all c)"
proof -
  obtain L where L: "cache_shape c L" "cache_maps c L" and age: "cache_age c"
    using assms by (auto simp: cache_wf_def)
  have "cache_shape (decay_all c) L \<and> cache_maps (decay_all c) L"
    by (intro shape_maps_cong [OF L]) (simp_all add: decay_all_def)
  moreover have "cache_age (decay_all c)"
    using age by (auto simp: cache_age_def decay_all_def intro: order.strict_trans1 [OF word_zero_le])
  ultimately show ?thesis by (auto simp: cache_wf_def)
qed


lemma map_iff:
  assumes "cache_shape c L" "cache_maps c L" "part_of c i = Some p" "p < length (c_parts c)"
  shows "p_map (c_parts c ! p) i = Some s \<longleftrightarrow> s < length (c_slots c) \<and> s_id (c_slots c ! s) = Some i"
proof
  assume "p_map (c_parts c ! p) i = Some s"
  then show "s < length (c_slots c) \<and> s_id (c_slots c ! s) = Some i"
    using assms(2,4) shape_facts(3) [OF assms(1,4)] by (auto simp: cache_maps_def)
next
  assume r: "s < length (c_slots c) \<and> s_id (c_slots c ! s) = Some i"
  then have "s div L = p" using assms(2,3) by (auto simp: cache_maps_def)
  then have "p * L \<le> s" "s < p * L + L"
    using shape_facts(4) [OF assms(1,4)] by (auto simp: dividend_less_div_times add.commute)
  with r show "p_map (c_parts c ! p) i = Some s"
    using assms(2,4) by (auto simp: cache_maps_def)
qed

lemma insert_miss_maps:
  assumes sh: "cache_shape c L" and mp: "cache_maps c L"
    and p: "part_of c i = Some p" "p < length (c_parts c)" and P: "P = c_parts c ! p"
    and new: "p_map P i = None" and v: "p * L \<le> v" "v < p * L + L"
  shows "cache_shape (insert_miss c p P i v) L \<and> cache_maps (insert_miss c p P i v) L"
proof -
  let ?c' = "insert_miss c p P i v"
  let ?m = "case s_id (c_slots c ! v) of None \<Rightarrow> p_map P | Some old \<Rightarrow> (p_map P)(old := None)"
  have vlen: "v < length (c_slots c)" using shape_facts(3) [OF sh p(2)] v by simp
  have len: "length (c_slots ?c') = length (c_slots c)" "length (c_parts ?c') = length (c_parts c)"
    "c_ids ?c' = c_ids c"
    by (simp_all add: insert_miss_def Let_def)
  have po: "part_of ?c' j = part_of c j" for j
    using len by (intro part_of_cong) simp_all
  have sid: "s_id (c_slots ?c' ! t) = (if t = v then Some i else s_id (c_slots c ! t))"
    if "t < length (c_slots c)" for t
    using that vlen by (auto simp: insert_miss_def Let_def nth_list_update)
  have parts: "c_parts ?c' ! q = (if q = p then P\<lparr>p_map := ?m(i \<mapsto> v),
      p_inserts := (if c_decay c \<le> p_inserts P + 1 then 0 else p_inserts P + 1)\<rparr> else c_parts c ! q)"
    if "q < length (c_parts c)" for q
    using that by (simp add: insert_miss_def Let_def nth_list_update)
  have old: "p_map P j = Some s \<longleftrightarrow> p * L \<le> s \<and> s < p * L + L \<and> s_id (c_slots c ! s) = Some j" for j s
    using mp p(2) P by (simp add: cache_maps_def)
  have "cache_shape ?c' L"
    using sh p(2) P len parts by (auto simp: cache_shape_def)
  moreover have "p_map (c_parts ?c' ! q) j = Some s \<longleftrightarrow>
      q * L \<le> s \<and> s < q * L + L \<and> s_id (c_slots ?c' ! s) = Some j" if q: "q < length (c_parts c)" for q j s
  proof (cases "q * L \<le> s \<and> s < q * L + L")
    case blk: True
    then have s: "s < length (c_slots c)" using shape_facts(3) [OF sh q] by simp
    show ?thesis
    proof (cases "q = p")
      case True
      have ev: "s_id (c_slots c ! v) = Some j \<Longrightarrow> p_map P j = Some v" for j
        using old v by simp
      have pm: "p_map (c_parts ?c' ! q) = ?m(i \<mapsto> v)" using True p(2) by (simp add: parts)
      show ?thesis
        unfolding pm sid [OF s] using True blk new old [of j s] old [of i s] ev
        by (auto split: option.splits)
    next
      case False
      then have "s \<noteq> v"
        using blk v block_div [of L q s] block_div [of L p s] shape_facts(4) [OF sh q] by auto
      then show ?thesis
        using False q mp by (simp add: parts sid [OF s] cache_maps_def)
    qed
  next
    case False
    then have "p_map (c_parts c ! q) j \<noteq> Some s" using mp q by (auto simp: cache_maps_def)
    then have "p_map (c_parts ?c' ! q) j \<noteq> Some s"
      unfolding parts [OF q] using False v P by (auto split: option.splits)
    then show ?thesis using False by auto
  qed
  moreover have "part_of ?c' j = Some (s div L)"
    if "s < length (c_slots c)" "s_id (c_slots ?c' ! s) = Some j" for s j
    using that mp p v block_div [OF shape_facts(4) [OF sh p(2)] v]
    by (auto simp: sid po cache_maps_def split: if_splits)
  ultimately show ?thesis by (simp add: cache_maps_def len)
qed

lemma insert_miss_age:
  assumes "cache_age c" "P \<in> set (c_parts c)"
  shows "cache_age (insert_miss c p P i v)"
proof -
  have "0 < c_decay c"
    using assms by (auto simp: cache_age_def intro: order.strict_trans1 [OF word_zero_le])
  with assms show ?thesis
    by (auto simp: cache_age_def insert_miss_def Let_def not_le dest!: set_update_subset_insert [THEN subsetD])
qed

section \<open>What acquire does, case by case\<close>

definition resident :: "expert_cache \<Rightarrow> expert_id \<Rightarrow> bool" where
  "resident c i \<longleftrightarrow> (\<exists>s < length (c_slots c). s_id (c_slots c ! s) = Some i)"

lemma wf_obtain:
  assumes "cache_wf c"
  obtains L p where "cache_shape c L" "cache_maps c L" "cache_age c"
    "part_of c i = Some p" "p < length (c_parts c)"
    "pool_of c i = {p * L..<p * L + L}" "p * L + L \<le> length (c_slots c)"
proof -
  obtain L where L: "cache_shape c L" "cache_maps c L" "cache_age c"
    using assms by (auto simp: cache_wf_def)
  obtain p where p: "part_of c i = Some p" "p < length (c_parts c)"
    using shape_part_of [OF L(1)] .
  show thesis
    using that [OF L p] shape_facts [OF L(1) p(2)] p by (simp add: pool_of_def)
qed

lemma acquire_hit_eq:
  assumes "cache_wf c" "s < length (c_slots c)" "s_id (c_slots c ! s) = Some i"
  shows "acquire c i = Some (Hit s,
    c\<lparr>c_slots := (c_slots c)[s := pin_hit (c_slots c ! s)], c_hits := c_hits c + 1\<rparr>)"
proof -
  obtain L p where L: "cache_shape c L" "cache_maps c L" and p: "part_of c i = Some p" "p < length (c_parts c)"
    using wf_obtain [OF assms(1), of i] by metis
  have "p_map (c_parts c ! p) i = Some s" using map_iff [OF L p] assms by simp
  then show ?thesis using p assms by (simp add: acquire_def nth_opt_def)
qed

lemma acquire_new_eq:
  assumes "cache_wf c" "\<not> resident c i" "part_of c i = Some p"
  shows "acquire c i = (case scan_victim (c_slots c) (p_base (c_parts c ! p)) (p_len (c_parts c ! p)) of
     None \<Rightarrow> Some (Stalled, c)
   | Some v \<Rightarrow> Some (Miss v (s_id (c_slots c ! v)), insert_miss c p (c_parts c ! p) i v))"
proof -
  obtain L q where L: "cache_shape c L" "cache_maps c L" and q: "part_of c i = Some q" "q < length (c_parts c)"
    using wf_obtain [OF assms(1), of i] by metis
  have "p_map (c_parts c ! q) i = None"
    using map_iff [OF L q] assms(2) by (cases "p_map (c_parts c ! q) i") (auto simp: resident_def)
  moreover have "q = p" using q assms(3) by simp
  ultimately show ?thesis
    using q shape_facts [OF L(1) q(2)] by (simp add: acquire_def nth_opt_def)
qed

lemma pool_sub: "cache_wf c \<Longrightarrow> s \<in> pool_of c i \<Longrightarrow> s < length (c_slots c)"
  by (erule wf_obtain [where i = i]) auto

text \<open>
  The three outcomes, read backwards: what a given answer of \<open>acquire\<close> tells about the
  cache before and after it.
\<close>

lemma acquire_Hit:
  assumes "cache_wf c" "acquire c i = Some (Hit s, c')"
  shows "s < length (c_slots c)" "s_id (c_slots c ! s) = Some i"
    "c' = c\<lparr>c_slots := (c_slots c)[s := pin_hit (c_slots c ! s)], c_hits := c_hits c + 1\<rparr>"
proof -
  obtain L p where L: "cache_shape c L" "cache_maps c L" and p: "part_of c i = Some p" "p < length (c_parts c)"
    using wf_obtain [OF assms(1), of i] by metis
  have "resident c i"
    using acquire_new_eq [OF assms(1) _ p(1)] assms(2) by (rule_tac ccontr) (auto split: option.splits)
  then obtain t where t: "t < length (c_slots c)" "s_id (c_slots c ! t) = Some i"
    by (auto simp: resident_def)
  with acquire_hit_eq [OF assms(1) t] assms(2)
  show "s < length (c_slots c)" "s_id (c_slots c ! s) = Some i"
    "c' = c\<lparr>c_slots := (c_slots c)[s := pin_hit (c_slots c ! s)], c_hits := c_hits c + 1\<rparr>"
    by auto
qed

lemma acquire_Miss:
  assumes "cache_wf c" "acquire c i = Some (Miss v ev, c')"
  shows "\<not> resident c i" "v \<in> pool_of c i" "v < length (c_slots c)" "s_pins (c_slots c ! v) = 0"
    "ev = s_id (c_slots c ! v)"
    "\<And>t. t \<in> pool_of c i \<Longrightarrow> s_pins (c_slots c ! t) = 0 \<Longrightarrow>
       victim_key (c_slots c ! v) \<le> victim_key (c_slots c ! t)"
    "\<exists>p. part_of c i = Some p \<and> c' = insert_miss c p (c_parts c ! p) i v"
proof -
  obtain L p where L: "cache_shape c L" "cache_maps c L" and p: "part_of c i = Some p" "p < length (c_parts c)"
    using wf_obtain [OF assms(1), of i] by metis
  show nr: "\<not> resident c i"
    using acquire_hit_eq [OF assms(1)] assms(2) by (auto simp: resident_def)
  have sc: "scan_victim (c_slots c) (p_base (c_parts c ! p)) (p_len (c_parts c ! p)) = Some v"
    and "ev = s_id (c_slots c ! v)" "c' = insert_miss c p (c_parts c ! p) i v"
    using acquire_new_eq [OF assms(1) nr p(1)] assms(2) by (auto split: option.splits)
  with p show "ev = s_id (c_slots c ! v)"
    "\<exists>p. part_of c i = Some p \<and> c' = insert_miss c p (c_parts c ! p) i v"
    by auto
  show "v \<in> pool_of c i" "s_pins (c_slots c ! v) = 0"
    "\<And>t. t \<in> pool_of c i \<Longrightarrow> s_pins (c_slots c ! t) = 0 \<Longrightarrow>
       victim_key (c_slots c ! v) \<le> victim_key (c_slots c ! t)"
    using scan_victim_Some [OF sc] p by (auto simp: pool_of_def)
  then show "v < length (c_slots c)" using pool_sub [OF assms(1)] by blast
qed

lemma acquire_Stalled:
  assumes "cache_wf c" "acquire c i = Some (Stalled, c')"
  shows "c' = c" "\<not> resident c i" "\<And>t. t \<in> pool_of c i \<Longrightarrow> s_pins (c_slots c ! t) \<noteq> 0"
proof -
  obtain L p where L: "cache_shape c L" "cache_maps c L" and p: "part_of c i = Some p" "p < length (c_parts c)"
    using wf_obtain [OF assms(1), of i] by metis
  show nr: "\<not> resident c i"
    using acquire_hit_eq [OF assms(1)] assms(2) by (auto simp: resident_def)
  show "c' = c" "\<And>t. t \<in> pool_of c i \<Longrightarrow> s_pins (c_slots c ! t) \<noteq> 0"
    using acquire_new_eq [OF assms(1) nr p(1)] assms(2) p
    by (auto simp: scan_victim_None pool_of_def split: option.splits)
qed

lemma acquire_total: "cache_wf c \<Longrightarrow> \<exists>r c'. acquire c i = Some (r, c')"
proof (cases "resident c i")
  case True
  moreover assume "cache_wf c"
  ultimately show ?thesis by (auto simp: resident_def dest: acquire_hit_eq)
next
  case False
  assume wf: "cache_wf c"
  obtain L p where "part_of c i = Some p"
    using wf_obtain [OF wf, of i] by metis
  from acquire_new_eq [OF wf False this] show ?thesis by (auto split: option.splits)
qed

lemma acquire_wf:
  assumes "cache_wf c" "acquire c i = Some (r, c')"
  shows "cache_wf c'"
proof (cases r)
  case (Hit s)
  note h = acquire_Hit [OF assms(1) assms(2) [unfolded Hit]]
  show ?thesis
    unfolding h(3) using h(1) by (intro wf_slot_upd assms(1)) (simp_all add: pin_hit_def)
next
  case (Miss v ev)
  obtain L p where L: "cache_shape c L" "cache_maps c L" "cache_age c"
    and p: "part_of c i = Some p" "p < length (c_parts c)"
    and pool: "pool_of c i = {p * L..<p * L + L}"
    using wf_obtain [OF assms(1), of i] by metis
  note m = acquire_Miss [OF assms(1), of i v ev c']
  have new: "p_map (c_parts c ! p) i = None"
    using map_iff [OF L(1,2) p] m(1) assms(2) Miss
    by (cases "p_map (c_parts c ! p) i") (auto simp: resident_def)
  have "c' = insert_miss c p (c_parts c ! p) i v" "p * L \<le> v" "v < p * L + L"
    using m(2,7) assms(2) Miss p pool by auto
  with insert_miss_maps [OF L(1,2) p refl new] insert_miss_age [OF L(3) nth_mem [OF p(2)]]
  show ?thesis by (auto simp: cache_wf_def)
next
  case Stalled
  with acquire_Stalled [OF assms(1)] assms show ?thesis by auto
qed


section \<open>The contract of an expert pool\<close>

text \<open>
  What a user of the cache relies on, in terms of the slot view only: \<open>acquire\<close> pins, never
  touches a pinned occupant, keeps ids unique, and \<open>publish\<close>/\<open>release\<close> change one field.
\<close>

locale expert_pool =
  fixes wf :: "'c \<Rightarrow> bool"
    and vw :: "'c \<Rightarrow> slot \<rightharpoonup> slot_view"
    and pool :: "'c \<Rightarrow> expert_id \<Rightarrow> slot set"
    and acq :: "'c \<Rightarrow> expert_id \<Rightarrow> (lookup \<times> 'c) option"
    and pub :: "'c \<Rightarrow> slot \<Rightarrow> 'c option"
    and rel :: "'c \<Rightarrow> slot \<Rightarrow> 'c option"
  assumes acq_defined: "wf c \<Longrightarrow> acq c i \<noteq> None"
    and acq_keeps_wf: "wf c \<Longrightarrow> acq c i = Some (a, c') \<Longrightarrow> wf c'"
    and acq_hit: "wf c \<Longrightarrow> acq c i = Some (Hit s, c') \<Longrightarrow>
      \<exists>p r. vw c s = Some (Some i, p, r) \<and> vw c' = (vw c)(s \<mapsto> (Some i, p + 1, r))"
    and acq_miss: "wf c \<Longrightarrow> acq c i = Some (Miss s ev, c') \<Longrightarrow>
      s \<in> pool c i \<and> (\<exists>r. vw c s = Some (ev, 0, r)) \<and> vw c' = (vw c)(s \<mapsto> (Some i, 1, False))"
    and acq_miss_new: "wf c \<Longrightarrow> acq c i = Some (Miss s ev, c') \<Longrightarrow> vw c t \<noteq> Some (Some i, p, r)"
    and acq_stalled: "wf c \<Longrightarrow> acq c i = Some (Stalled, c') \<Longrightarrow> c' = c"
    and pub_law: "wf c \<Longrightarrow> vw c s = Some (e, p, r) \<Longrightarrow>
      \<exists>c'. pub c s = Some c' \<and> wf c' \<and> vw c' = (vw c)(s \<mapsto> (e, p, True))"
    and rel_law: "wf c \<Longrightarrow> vw c s = Some (e, p, r) \<Longrightarrow> p \<noteq> 0 \<Longrightarrow>
      \<exists>c'. rel c s = Some c' \<and> wf c' \<and> vw c' = (vw c)(s \<mapsto> (e, p - 1, r))"
    and occupant_unique: "wf c \<Longrightarrow> vw c s = Some (Some i, p, r) \<Longrightarrow> vw c t = Some (Some i, p', r') \<Longrightarrow> s = t"
begin

lemma acq_keeps_pinned:
  assumes "wf c" "acq c i = Some (a, c')" "vw c t = Some (e, p, r)" "p \<noteq> 0"
  shows "\<exists>p'. vw c' t = Some (e, p', r) \<and> (p' = p \<or> p' = p + 1)"
proof (cases a)
  case (Hit s)
  with acq_hit [OF assms(1), of i s c'] assms show ?thesis by (auto split: if_splits)
next
  case (Miss s ev)
  with acq_miss [OF assms(1), of i s ev c'] assms show ?thesis by (auto split: if_splits)
next
  case Stalled
  with acq_stalled [OF assms(1)] assms show ?thesis by auto
qed

lemma acq_result:
  assumes "wf c" "acq c i = Some (a, c')" "a = Hit s \<or> a = Miss s ev"
  shows "\<exists>p r. vw c' s = Some (Some i, p, r)"
  using assms acq_hit [of c i s c'] acq_miss [of c i s ev c'] by auto

lemma acq_dom:
  assumes "wf c" "acq c i = Some (a, c')"
  shows "dom (vw c') = dom (vw c)"
proof (cases a)
  case (Hit s)
  then obtain p r where "vw c s = Some (Some i, p, r)" "vw c' = (vw c)(s \<mapsto> (Some i, p + 1, r))"
    using acq_hit [OF assms(1), of i s c'] assms(2) by auto
  then show ?thesis by (simp add: insert_absorb domI)
next
  case (Miss s ev)
  then obtain r where "vw c s = Some (ev, 0, r)" "vw c' = (vw c)(s \<mapsto> (Some i, 1, False))"
    using acq_miss [OF assms(1), of i s ev c'] assms(2) by auto
  then show ?thesis by (simp add: insert_absorb domI)
next
  case Stalled
  with acq_stalled [OF assms(1)] assms(2) show ?thesis by auto
qed

end

text \<open>A pool that can also be read through: a hit-only lookup that pins what it finds.\<close>

locale read_through_pool = expert_pool wf vw pool acq pub rel
  for wf :: "'c \<Rightarrow> bool" and vw and pool and acq and pub and rel +
  fixes look :: "'c \<Rightarrow> expert_id \<Rightarrow> (slot option \<times> 'c) option"
  assumes look_defined: "wf c \<Longrightarrow> look c i \<noteq> None"
    and look_none: "wf c \<Longrightarrow> look c i = Some (None, c') \<Longrightarrow> c' = c"
    and look_some: "wf c \<Longrightarrow> look c i = Some (Some s, c') \<Longrightarrow>
      wf c' \<and> (\<exists>p. vw c s = Some (Some i, p, True) \<and> vw c' = (vw c)(s \<mapsto> (Some i, p + 1, True)))"
    and look_finds: "wf c \<Longrightarrow> vw c s = Some (Some i, p, True) \<Longrightarrow> \<exists>c'. look c i = Some (Some s, c')"
begin

text \<open>Looking up and releasing again leaves the view as it was.\<close>

lemma look_release:
  assumes "wf c" "look c i = Some (Some s, c1)" "vw c s = Some (Some i, p, True)" "p \<noteq> - 1"
  shows "\<exists>c2. rel c1 s = Some c2 \<and> wf c2 \<and> vw c2 = vw c"
proof -
  have c1: "wf c1" "vw c1 = (vw c)(s \<mapsto> (Some i, p + 1, True))"
    using look_some [OF assms(1,2)] assms(3) by auto
  obtain c2 where "rel c1 s = Some c2" "wf c2" "vw c2 = (vw c1)(s \<mapsto> (Some i, p, True))"
    using rel_law [of c1 s "Some i" "p + 1" True] c1 inc_nonzero [OF assms(4)] by auto
  with c1 assms(3) show ?thesis by (auto simp: fun_upd_idem)
qed

end

section \<open>The cache meets the contract\<close>

lemma view_upd:
  assumes "s < length (c_slots c)"
  shows "view (c\<lparr>c_slots := (c_slots c)[s := st], c_hits := h\<rparr>) =
    (view c)(s \<mapsto> (s_id st, s_pins st, s_ready st))"
  using assms by (auto simp: view_eq fun_eq_iff nth_list_update)

lemma view_upd':
  assumes "s < length (c_slots c)"
  shows "view (c\<lparr>c_slots := (c_slots c)[s := st]\<rparr>) = (view c)(s \<mapsto> (s_id st, s_pins st, s_ready st))"
  using assms by (auto simp: view_eq fun_eq_iff nth_list_update)

lemma view_insert_miss:
  assumes "v < length (c_slots c)"
  shows "view (insert_miss c p P i v) = (view c)(v \<mapsto> (Some i, 1, False))"
  using assms by (auto simp: view_eq insert_miss_def Let_def fun_eq_iff nth_list_update)

lemma view_decay_all: "view (decay_all c) = view c"
  by (auto simp: view_eq decay_all_def fun_eq_iff)

lemma occupant_inj:
  assumes "cache_wf c" "s < length (c_slots c)" "t < length (c_slots c)"
    "s_id (c_slots c ! s) = Some i" "s_id (c_slots c ! t) = Some i"
  shows "s = t"
proof -
  obtain L p where L: "cache_shape c L" "cache_maps c L" and p: "part_of c i = Some p" "p < length (c_parts c)"
    using wf_obtain [OF assms(1), of i] by metis
  have "p_map (c_parts c ! p) i = Some s" "p_map (c_parts c ! p) i = Some t"
    using map_iff [OF L p] assms by blast+
  then show ?thesis by simp
qed

lemma lookup_ready_defined: "cache_wf c \<Longrightarrow> lookup_ready c i \<noteq> None"
proof -
  assume "cache_wf c"
  then obtain L p where L: "cache_shape c L" "cache_maps c L" and p: "part_of c i = Some p" "p < length (c_parts c)"
    using wf_obtain [of c i] by metis
  have "s < length (c_slots c)" if "p_map (c_parts c ! p) i = Some s" for s
    using map_iff [OF L p] that by blast
  with p show ?thesis by (auto simp: lookup_ready_def nth_opt_def split: option.splits)
qed

lemma lookup_ready_None: "lookup_ready c i = Some (None, c') \<Longrightarrow> c' = c"
  by (auto simp: lookup_ready_def split: option.splits if_splits)

lemma lookup_ready_finds:
  assumes "cache_wf c" "s < length (c_slots c)" "s_id (c_slots c ! s) = Some i" "s_ready (c_slots c ! s)"
  shows "\<exists>c'. lookup_ready c i = Some (Some s, c')"
proof -
  obtain L p where L: "cache_shape c L" "cache_maps c L" and p: "part_of c i = Some p" "p < length (c_parts c)"
    using wf_obtain [OF assms(1), of i] by metis
  have "p_map (c_parts c ! p) i = Some s" using map_iff [OF L p] assms by blast
  with p assms show ?thesis by (simp add: lookup_ready_def nth_opt_def)
qed

lemma lookup_ready_Some:
  assumes "cache_wf c" "lookup_ready c i = Some (Some s, c')"
  shows "s < length (c_slots c)" "s_id (c_slots c ! s) = Some i" "s_ready (c_slots c ! s)"
    "c' = c\<lparr>c_slots := (c_slots c)[s := pin_hit (c_slots c ! s)], c_hits := c_hits c + 1\<rparr>"
proof -
  obtain L p where L: "cache_shape c L" "cache_maps c L" and p: "part_of c i = Some p" "p < length (c_parts c)"
    using wf_obtain [OF assms(1), of i] by metis
  have m: "p_map (c_parts c ! p) i = Some s"
    using assms(2) p by (auto simp: lookup_ready_def nth_opt_def split: option.splits if_splits)
  with map_iff [OF L p] show s: "s < length (c_slots c)" "s_id (c_slots c ! s) = Some i"
    by blast+
  show "s_ready (c_slots c ! s)"
    "c' = c\<lparr>c_slots := (c_slots c)[s := pin_hit (c_slots c ! s)], c_hits := c_hits c + 1\<rparr>"
    using assms(2) m p s by (auto simp: lookup_ready_def nth_opt_def split: if_splits)
qed

interpretation ec: read_through_pool cache_wf view pool_of acquire publish release lookup_ready
proof (unfold_locales, goal_cases)
  case (1 c i)
  then show ?case using acquire_total by (metis option.distinct(1))
next
  case (2 c i r c')
  then show ?case by (rule acquire_wf)
next
  case (3 c i s c')
  note h = acquire_Hit [OF 3]
  show ?case unfolding h(3) using h(1,2) by (simp add: view_upd pin_hit_def) (simp add: view_eq)
next
  case (4 c i s ev c')
  note m = acquire_Miss [OF 4]
  from m show ?case by (auto simp: view_insert_miss) (simp add: view_eq)
next
  case (5 c i s ev c' t p r)
  then show ?case using acquire_Miss(1) [OF 5] by (auto simp: view_eq resident_def)
next
  case (6 c i c')
  then show ?case by (rule acquire_Stalled(1))
next
  case (7 c s e p r)
  then have "s < length (c_slots c)" by (simp add: view_eq split: if_splits)
  with 7 show ?case
    by (auto simp: publish_def nth_opt_def view_upd' intro!: publish_wf [OF 7(1), of s]) (simp_all add: view_eq)
next
  case (8 c s e p r)
  then have "s < length (c_slots c)" by (simp add: view_eq split: if_splits)
  with 8 show ?case
    by (auto simp: release_def nth_opt_def view_upd' intro!: release_wf [OF 8(1), of s]) (simp_all add: view_eq)
next
  case (9 c s i p r t p' r')
  then show ?case by (auto simp: view_eq split: if_splits intro: occupant_inj)
next
  case (10 c i)
  then show ?case by (rule lookup_ready_defined)
next
  case (11 c i c')
  then show ?case by (blast dest: lookup_ready_None)
next
  case (12 c i s c')
  note h = lookup_ready_Some [OF 12]
  show ?case
    using h(1-3) lookup_ready_wf [OF 12] unfolding h(4)
    by (simp add: view_upd pin_hit_def) (simp add: view_eq)
next
  case (13 c s i p)
  then show ?case by (auto simp: view_eq split: if_splits intro: lookup_ready_finds)
qed

end
