(* ===== verification/Cache_Safety.thy ===== *)
theory Cache_Safety
  imports Expert_Cache
begin

text \<open>
  Properties of whole runs of the expert cache: no operation sequence from a fresh cache breaks
  the partition maps, evicts a pinned expert, or panics; the victim is least frequently used;
  aging halves; a wedged pool stays wedged until somebody releases a pin.
\<close>

section \<open>Runs\<close>

datatype cache_op = Acquire expert_id | Lookup expert_id | Publish slot | Release slot | Decay

fun cache_do :: "expert_cache \<Rightarrow> cache_op \<Rightarrow> expert_cache option" where
  "cache_do c (Acquire i) = map_option snd (acquire c i)"
| "cache_do c (Lookup i) = map_option snd (lookup_ready c i)"
| "cache_do c (Publish s) = publish c s"
| "cache_do c (Release s) = release c s"
| "cache_do c Decay = Some (decay_all c)"

fun cache_run :: "expert_cache \<Rightarrow> cache_op list \<Rightarrow> expert_cache option" where
  "cache_run c [] = Some c"
| "cache_run c (x # xs) = (case cache_do c x of None \<Rightarrow> None | Some c' \<Rightarrow> cache_run c' xs)"

lemma partitioned_wf:
  assumes "partitioned n ids L d = Some c" "unat n * unat L < 2 ^ 32" "n = 1 \<or> ids \<noteq> 0"
  shows "cache_wf c \<and> length (c_slots c) = unat n * unat L"
proof -
  from assms(1) have pos: "0 < n" "0 < L" "0 < d"
    and c: "c_slots c = replicate (unat n * unat L) empty_slot" "c_ids c = ids" "c_decay c = d"
      "c_parts c = map (\<lambda>p. \<lparr>p_base = unat (of_nat p * L), p_len = unat L,
                              p_map = Map.empty, p_inserts = 0\<rparr>) [0..<unat n]"
    by (auto simp: partitioned_def split: if_splits)
  have base: "unat (of_nat p * L) = p * unat L" if "p < unat n" for p
  proof -
    have "p * unat L < 2 ^ 32"
      using that assms(2) by (meson le_less_trans less_imp_le mult_le_mono1)
    moreover have "p < 2 ^ 32" using that unat_lt [of n] by simp
    ultimately show ?thesis by (simp add: unat_word_ariths unat_of_nat)
  qed
  have nz: "0 < unat n" "0 < unat L" using pos by (simp_all add: word_less_nat_alt)
  have "cache_shape c (unat L)"
    using nz assms(3) by (auto simp: cache_shape_def c base)
  moreover have "cache_maps c (unat L)"
  proof -
    have "s < unat n * unat L" if "p < unat n" "s < p * unat L + unat L" for p s
      using block_bound [OF that(1), of "unat L"] that(2) by simp
    then show ?thesis by (auto simp: cache_maps_def c empty_slot_def)
  qed
  moreover have "cache_age c" using pos by (auto simp: cache_age_def c)
  ultimately show ?thesis by (auto simp: cache_wf_def c)
qed

lemma do_wf: "cache_wf c \<Longrightarrow> cache_do c x = Some c' \<Longrightarrow> cache_wf c'"
  by (cases x) (auto intro: acquire_wf lookup_ready_wf publish_wf release_wf decay_all_wf)

lemma run_wf: "cache_wf c \<Longrightarrow> cache_run c xs = Some c' \<Longrightarrow> cache_wf c'"
  by (induction xs arbitrary: c) (auto split: option.splits dest: do_wf)

lemma do_shape:
  "cache_do c x = Some c' \<Longrightarrow>
   length (c_slots c') = length (c_slots c) \<and> length (c_parts c') = length (c_parts c) \<and> c_ids c' = c_ids c"
  by (cases x) (auto simp: acquire_def lookup_ready_def publish_def release_def decay_all_def
      insert_miss_def Let_def split: option.splits if_splits)

lemma run_shape:
  "cache_run c xs = Some c' \<Longrightarrow>
   length (c_slots c') = length (c_slots c) \<and> length (c_parts c') = length (c_parts c) \<and> c_ids c' = c_ids c"
  by (induction xs arbitrary: c) (auto split: option.splits dest: do_shape)

text \<open>C1: From a fresh cache whose slot count fits \<open>u32\<close>, every run of operations keeps the number
  of slots, keeps each expert in at most one slot, and keeps every expert inside the pool its id
  selects.\<close>

theorem cache_runs_keep_experts_unique:
  assumes "partitioned n ids L d = Some c0" "unat n * unat L < 2 ^ 32" "n = 1 \<or> ids \<noteq> 0"
    and "cache_run c0 ops = Some c"
  shows "length (c_slots c) = unat n * unat L \<and>
    (\<forall>s < length (c_slots c). \<forall>i. s_id (c_slots c ! s) = Some i \<longrightarrow>
       s \<in> pool_of c i \<and> (\<forall>t < length (c_slots c). s_id (c_slots c ! t) = Some i \<longrightarrow> t = s))"
proof -
  have w0: "cache_wf c0 \<and> length (c_slots c0) = unat n * unat L"
    using partitioned_wf [OF assms(1-3)] .
  have w: "cache_wf c" using run_wf w0 assms(4) by blast
  have "s \<in> pool_of c i" if s: "s < length (c_slots c)" "s_id (c_slots c ! s) = Some i" for s i
  proof -
    obtain M p where M: "cache_maps c M" "part_of c i = Some p" "p < length (c_parts c)"
      "pool_of c i = {p * M..<p * M + M}" "cache_shape c M"
      using wf_obtain [OF w, of i] by metis
    with map_iff [OF M(5) M(1-3)] s show ?thesis by (auto simp: cache_maps_def)
  qed
  with run_shape [OF assms(4)] w0 show ?thesis by (auto intro: occupant_inj [OF w])
qed

definition demo_ops :: "cache_op list" where
  "demo_ops = [Acquire 1, Publish 0, Release 0, Acquire 9, Publish 2, Acquire 3, Release 1, Acquire 1,
               Decay, Acquire 2, Lookup 9]"

lemma cache_runs_keep_experts_unique_witness:
  "\<exists>c0 c. partitioned 2 8 2 3 = Some c0 \<and> cache_run c0 demo_ops = Some c \<and>
     length (c_slots c) = 4 \<and> s_id (c_slots c ! 0) = Some 1 \<and>
     (\<forall>t < length (c_slots c). s_id (c_slots c ! t) = Some 1 \<longrightarrow> t = 0)"
proof -
  have r: "(case partitioned 2 8 2 3 of None \<Rightarrow> False | Some c0 \<Rightarrow>
      case cache_run c0 demo_ops of None \<Rightarrow> False | Some c \<Rightarrow>
        map s_id (c_slots c) = [Some 1, Some 2, Some 9, None])"
    by code_simp
  then obtain c0 c where c: "partitioned 2 8 2 3 = Some c0" "cache_run c0 demo_ops = Some c"
    "map s_id (c_slots c) = [Some 1, Some 2, Some 9, None]"
    by (auto split: option.splits)
  then have l: "length (c_slots c) = 4" "s_id (c_slots c ! 0) = Some 1"
    by (auto dest: map_eq_imp_length_eq simp flip: nth_map)
  show ?thesis
    using cache_runs_keep_experts_unique [OF c(1) _ _ c(2)] c l by auto
qed

section \<open>Pins\<close>

lemma do_keeps_pinned:
  assumes "cache_wf c" "cache_do c x = Some c'" "view c s = Some (e, p, r)" "p \<noteq> 0" "x \<noteq> Release s"
  shows "\<exists>p' r'. view c' s = Some (e, p', r') \<and> (p' = p \<or> p' = p + 1) \<and> (r \<longrightarrow> r')"
proof (cases x)
  case (Acquire i)
  with assms obtain a where "acquire c i = Some (a, c')" by auto
  from ec.acq_keeps_pinned [OF assms(1) this assms(3,4)] show ?thesis by auto
next
  case (Lookup i)
  with assms obtain a where a: "lookup_ready c i = Some (a, c')" by auto
  show ?thesis
  proof (cases a)
    case None
    with ec.look_none [OF assms(1)] a assms(3) show ?thesis by blast
  next
    case (Some t)
    with ec.look_some [OF assms(1)] a assms(3) show ?thesis by (fastforce split: if_splits)
  qed
next
  case (Publish t)
  with assms show ?thesis
    by (auto simp: publish_def nth_opt_eq_Some view_upd') (auto simp: view_eq split: if_splits)
next
  case (Release t)
  with assms show ?thesis
    by (auto simp: release_def nth_opt_eq_Some view_upd' split: option.splits if_splits)
next
  case Decay
  with assms show ?thesis by (auto simp: view_decay_all)
qed

lemma run_keeps_pinned:
  assumes "cache_wf c" "cache_run c xs = Some c'" "view c s = Some (e, p, r)" "p \<noteq> 0"
    "Release s \<notin> set xs" "unat p + length xs < 2 ^ 32"
  shows "\<exists>p' r'. view c' s = Some (e, p', r') \<and> unat p \<le> unat p' \<and> (r \<longrightarrow> r')"
  using assms
proof (induction xs arbitrary: c p r)
  case Nil
  then show ?case by auto
next
  case (Cons x xs)
  then obtain c1 where c1: "cache_do c x = Some c1" "cache_run c1 xs = Some c'"
    by (auto split: option.splits)
  obtain p1 r1 where v: "view c1 s = Some (e, p1, r1)" "p1 = p \<or> p1 = p + 1" "r \<longrightarrow> r1"
    using do_keeps_pinned [OF Cons.prems(1) c1(1) Cons.prems(3,4)] Cons.prems(5) by auto
  have u: "p1 \<noteq> 0 \<and> unat p \<le> unat p1 \<and> unat p1 \<le> unat p + 1"
  proof (cases "p1 = p")
    case False
    then have "p1 = p + 1" using v by simp
    moreover have "p \<noteq> - 1" using Cons.prems(6) by (auto simp: unat_max_word)
    ultimately show ?thesis using unat_inc inc_nonzero by (metis le_add1 Suc_eq_plus1 order_refl)
  qed (use Cons.prems in simp)
  have "\<exists>p' r'. view c' s = Some (e, p', r') \<and> unat p1 \<le> unat p' \<and> (r1 \<longrightarrow> r')"
    using Cons.prems(5,6) u
    by (intro Cons.IH [OF do_wf [OF Cons.prems(1) c1(1)] c1(2) v(1)]) auto
  with u v(3) show ?case by (meson le_trans)
qed

text \<open>C2: A pinned expert is never evicted: as long as nobody releases its slot, no sequence of
  operations (of a length the \<open>u32\<close> pin counter can absorb) changes the slot's occupant, drops
  its pins, or takes back its readiness.\<close>

theorem pinned_expert_never_evicted:
  assumes "cache_wf c" "s < length (c_slots c)" "s_pins (c_slots c ! s) \<noteq> 0"
    and "cache_run c ops = Some c'" "Release s \<notin> set ops"
    and "unat (s_pins (c_slots c ! s)) + length ops < 2 ^ 32"
  shows "s_id (c_slots c' ! s) = s_id (c_slots c ! s) \<and>
    unat (s_pins (c_slots c ! s)) \<le> unat (s_pins (c_slots c' ! s)) \<and>
    (s_ready (c_slots c ! s) \<longrightarrow> s_ready (c_slots c' ! s))"
proof -
  have "view c s = Some (s_id (c_slots c ! s), s_pins (c_slots c ! s), s_ready (c_slots c ! s))"
    using assms(2) by (simp add: view_eq)
  from run_keeps_pinned [OF assms(1,4) this assms(3,5,6)]
  show ?thesis by (auto simp: view_eq split: if_splits)
qed

definition one_pinned :: expert_cache where
  "one_pinned = the (cache_run (the (partitioned 1 8 2 3)) [Acquire 1, Publish 0])"

lemma one_pinned_facts:
  "cache_wf one_pinned" "length (c_slots one_pinned) = 2" "s_id (c_slots one_pinned ! 0) = Some 1"
  "s_pins (c_slots one_pinned ! 0) = 1" "s_ready (c_slots one_pinned ! 0)"
proof -
  have r: "(case partitioned 1 8 2 3 of None \<Rightarrow> False | Some c0 \<Rightarrow>
      cache_run c0 [Acquire 1, Publish 0] \<noteq> None)"
    unfolding Option.is_none_def [symmetric] by code_simp
  then obtain c0 where c0: "partitioned 1 8 2 3 = Some c0" "cache_run c0 [Acquire 1, Publish 0] = Some one_pinned"
    by (auto simp: one_pinned_def split: option.splits)
  have "cache_wf c0" using partitioned_wf [OF c0(1)] by auto
  then show "cache_wf one_pinned" using run_wf c0(2) by blast
  show "length (c_slots one_pinned) = 2" "s_id (c_slots one_pinned ! 0) = Some 1"
    "s_pins (c_slots one_pinned ! 0) = 1" "s_ready (c_slots one_pinned ! 0)"
    by (code_simp)+
qed

lemma pinned_expert_never_evicted_witness:
  "\<exists>c'. cache_run one_pinned [Acquire 2, Release 1, Acquire 3, Acquire 1] = Some c' \<and>
     s_id (c_slots c' ! 0) = Some 1"
proof -
  have r: "\<not> Option.is_none (cache_run one_pinned [Acquire 2, Release 1, Acquire 3, Acquire 1])"
    by code_simp
  then obtain c' where "cache_run one_pinned [Acquire 2, Release 1, Acquire 3, Acquire 1] = Some c'"
    by (auto simp: Option.is_none_def)
  with pinned_expert_never_evicted [OF one_pinned_facts(1) _ _ this] one_pinned_facts
  show ?thesis by auto
qed


section \<open>Outcomes of acquire\<close>

lemma filter_upt_sorted: "sorted_wrt (<) (filter P [b..<b + n])"
  by (simp add: sorted_wrt_filter)

text \<open>C3: \<open>acquire\<close> never panics and its three answers are exact. A hit names the slot that holds
  the id. A miss names the first slot of least \<open>(freq, occupied)\<close> among the unpinned slots of the
  pool, reports its old occupant, and leaves every other slot's occupant alone. It stalls exactly
  when the id is absent and every slot of its pool is pinned, and then changes nothing.\<close>

theorem acquire_outcomes:
  assumes wf: "cache_wf c"
  shows "case acquire c i of
      None \<Rightarrow> False
    | Some (Hit s, c') \<Rightarrow> s_id (c_slots c ! s) = Some i \<and> s \<in> pool_of c i \<and>
        s_pins (c_slots c' ! s) = s_pins (c_slots c ! s) + 1 \<and>
        s_freq (c_slots c' ! s) = sat_inc (s_freq (c_slots c ! s))
    | Some (Miss v ev, c') \<Rightarrow> \<not> resident c i \<and> v \<in> pool_of c i \<and> s_pins (c_slots c ! v) = 0 \<and>
        ev = s_id (c_slots c ! v) \<and> s_id (c_slots c' ! v) = Some i \<and>
        (\<forall>t \<in> pool_of c i. s_pins (c_slots c ! t) = 0 \<longrightarrow>
           victim_key (c_slots c ! v) \<le> victim_key (c_slots c ! t) \<and>
           (t < v \<longrightarrow> victim_key (c_slots c ! v) < victim_key (c_slots c ! t))) \<and>
        (\<forall>t < length (c_slots c). t \<noteq> v \<longrightarrow> s_id (c_slots c' ! t) = s_id (c_slots c ! t))
    | Some (Stalled, c') \<Rightarrow> c' = c \<and> \<not> resident c i \<and> (\<forall>t \<in> pool_of c i. s_pins (c_slots c ! t) \<noteq> 0)"
proof -
  obtain r c' where a: "acquire c i = Some (r, c')" using acquire_total [OF wf] by blast
  obtain L p where L: "cache_shape c L" "cache_maps c L" and p: "part_of c i = Some p" "p < length (c_parts c)"
    and pool: "pool_of c i = {p * L..<p * L + L}" "p * L + L \<le> length (c_slots c)"
    using wf_obtain [OF wf, of i] by metis
  show ?thesis
  proof (cases r)
    case (Hit s)
    note h = acquire_Hit [OF wf a [unfolded Hit]]
    have "s \<in> pool_of c i"
      using map_iff [OF L p, of s] h L(2) p pool by (auto simp: cache_maps_def)
    with h show ?thesis unfolding a Hit by (simp add: pin_hit_def)
  next
    case (Miss v ev)
    note m = acquire_Miss [OF wf a [unfolded Miss]]
    have c': "c' = insert_miss c p (c_parts c ! p) i v" using m(7) p by auto
    have sc: "scan_victim (c_slots c) (p * L) L = Some v"
      using acquire_new_eq [OF wf m(1) p(1)] a Miss shape_facts [OF L(1) p(2)]
      by (auto split: option.splits)
    have "victim_key (c_slots c ! v) < victim_key (c_slots c ! t)"
      if "t \<in> pool_of c i" "s_pins (c_slots c ! t) = 0" "t < v" for t
      using first_min_sorted [OF filter_upt_sorted sc [unfolded scan_victim_first_min]] that pool by auto
    with m have "?thesis \<longleftrightarrow> s_id (c_slots c' ! v) = Some i \<and>
        (\<forall>t < length (c_slots c). t \<noteq> v \<longrightarrow> s_id (c_slots c' ! t) = s_id (c_slots c ! t))"
      unfolding a Miss by auto
    then show ?thesis
      unfolding c' using m(3) by (auto simp: insert_miss_def Let_def nth_list_update)
  next
    case Stalled
    with acquire_Stalled [OF wf a [unfolded Stalled]] a show ?thesis by simp
  qed
qed

lemma acquire_outcomes_witness:
  "\<exists>c'. acquire one_pinned 2 = Some (Miss 1 None, c') \<and> \<not> resident one_pinned 2 \<and>
     s_id (c_slots c' ! 1) = Some 2 \<and> s_id (c_slots c' ! 0) = Some 1"
proof -
  have "(case acquire one_pinned 2 of Some (Miss v None, c') \<Rightarrow> v = 1 | _ \<Rightarrow> False)"
    by code_simp
  then obtain c' where c': "acquire one_pinned 2 = Some (Miss 1 None, c')"
    by (auto split: option.splits lookup.splits)
  from acquire_outcomes [OF one_pinned_facts(1), of 2] one_pinned_facts c' show ?thesis by auto
qed

text \<open>Aging. A miss gives the new expert frequency one and counts an insertion; when the count
  reaches the decay interval, every frequency of that partition (the newcomer's too) is halved and
  the count restarts. Slots of other partitions are untouched in every field.\<close>

theorem acquire_miss_ages_partition:
  assumes wf: "cache_wf c" and miss: "acquire c i = Some (Miss v ev, c')" and p: "part_of c i = Some p"
    and t: "t < length (c_slots c)"
  shows "let n = p_inserts (c_parts c ! p) + 1; aged = (c_decay c \<le> n);
             f = (if t = v then 1 else s_freq (c_slots c ! t))
         in s_freq (c_slots c' ! t) = (if aged \<and> t \<in> pool_of c i then f div 2 else f) \<and>
            p_inserts (c_parts c' ! p) = (if aged then 0 else n) \<and>
            (t \<notin> pool_of c i \<longrightarrow> c_slots c' ! t = c_slots c ! t)"
proof -
  note m = acquire_Miss [OF wf miss]
  have pl: "p < length (c_parts c)"
    using wf_obtain [OF wf, of i] p by (metis option.inject)
  have c': "c' = insert_miss c p (c_parts c ! p) i v" using m(7) p by auto
  have "t \<in> pool_of c i \<longleftrightarrow> p_base (c_parts c ! p) \<le> t \<and> t < p_base (c_parts c ! p) + p_len (c_parts c ! p)"
    using p by (simp add: pool_of_def)
  with t pl m(2,3) show ?thesis
    by (auto simp: c' insert_miss_def Let_def nth_halve_range nth_list_update)
qed

lemma acquire_miss_ages_partition_witness:
  "\<exists>c v ev c'. cache_wf c \<and> acquire c 7 = Some (Miss v ev, c') \<and>
     s_freq (c_slots c ! 0) = 5 \<and> s_freq (c_slots c' ! 0) = 2"
proof -
  let ?ops = "[Acquire 1, Acquire 1, Acquire 1, Acquire 1, Acquire 5, Release 1]"
  have "(case cache_run one_pinned ?ops of None \<Rightarrow> False | Some c \<Rightarrow>
      (case acquire c 7 of Some (Miss v ev, c') \<Rightarrow> v = 1 | _ \<Rightarrow> False) \<and>
      s_freq (c_slots c ! 0) = 5 \<and> part_of c 7 = Some 0 \<and> p_inserts (c_parts c ! 0) = 2 \<and>
      c_decay c = 3 \<and> length (c_slots c) = 2 \<and> p_base (c_parts c ! 0) = 0 \<and> p_len (c_parts c ! 0) = 2)"
    by code_simp
  from option_holds [OF this] obtain c where c: "cache_run one_pinned ?ops = Some c"
    and f: "(case acquire c 7 of Some (Miss v ev, c') \<Rightarrow> v = 1 | _ \<Rightarrow> False)"
      "s_freq (c_slots c ! 0) = 5" "part_of c 7 = Some 0" "p_inserts (c_parts c ! 0) = 2"
      "c_decay c = 3" "length (c_slots c) = 2" "p_base (c_parts c ! 0) = 0" "p_len (c_parts c ! 0) = 2"
    by blast
  have w: "cache_wf c" by (rule run_wf [OF one_pinned_facts(1) c])
  from f(1) obtain ev c' where c': "acquire c 7 = Some (Miss 1 ev, c')"
    by (auto split: option.splits lookup.splits)
  have "s_freq (c_slots c' ! 0) = 2"
    using acquire_miss_ages_partition [OF w c' f(3), of 0] f by (simp add: Let_def pool_of_def)
  with w c' f(2) show ?thesis by blast
qed

lemma pool_eq:
  assumes "cache_wf c" "cache_wf c'" "length (c_slots c') = length (c_slots c)"
    "length (c_parts c') = length (c_parts c)" "c_ids c' = c_ids c"
  shows "pool_of c' i = pool_of c i"
proof -
  obtain L p where L: "cache_shape c L" "part_of c i = Some p" "pool_of c i = {p * L..<p * L + L}"
    using wf_obtain [OF assms(1), of i] by metis
  obtain L' p' where L': "cache_shape c' L'" "part_of c' i = Some p'" "pool_of c' i = {p' * L'..<p' * L' + L'}"
    using wf_obtain [OF assms(2), of i] by metis
  have "p' = p" using part_of_cong [OF assms(4,5)] L(2) L'(2) by simp
  moreover have "L' = L" using L(1) L'(1) assms(3,4) by (auto simp: cache_shape_def)
  ultimately show ?thesis using L L' by simp
qed

lemma is_wedged_iff:
  assumes "cache_wf c"
  shows "is_wedged c i = Some (\<forall>t \<in> pool_of c i. s_pins (c_slots c ! t) \<noteq> 0 \<and> s_ready (c_slots c ! t))"
proof -
  obtain L p where L: "cache_shape c L" and p: "part_of c i = Some p" "p < length (c_parts c)"
    using wf_obtain [OF assms, of i] by metis
  then show ?thesis
    using shape_facts [OF L p(2)] by (auto simp: is_wedged_def nth_opt_def list_all_iff pool_of_def word_neq_0_conv)
qed

text \<open>Deadlock detection is sound: once every slot an absent id could use is pinned and published,
  no sequence of operations without a release of one of those slots frees one, so \<open>acquire\<close> keeps
  stalling and \<open>is_wedged\<close> keeps saying so.\<close>

theorem wedged_pool_stays_wedged:
  assumes wf: "cache_wf c" and w: "is_wedged c i = Some True" and run: "cache_run c ops = Some c'"
    and nr: "\<forall>t \<in> pool_of c i. Release t \<notin> set ops \<and> unat (s_pins (c_slots c ! t)) + length ops < 2 ^ 32"
    and absent: "\<not> resident c i"
  shows "is_wedged c' i = Some True \<and> acquire c' i = Some (Stalled, c')"
proof -
  have wf': "cache_wf c'" using run_wf [OF wf run] .
  have pool: "pool_of c' i = pool_of c i"
    using pool_eq [OF wf wf'] run_shape [OF run] by blast
  have keep: "s_id (c_slots c' ! t) = s_id (c_slots c ! t) \<and> s_pins (c_slots c' ! t) \<noteq> 0 \<and> s_ready (c_slots c' ! t)"
    if t: "t \<in> pool_of c i" for t
  proof -
    have p: "s_pins (c_slots c ! t) \<noteq> 0" "s_ready (c_slots c ! t)"
      using w t is_wedged_iff [OF wf] by auto
    then have "unat (s_pins (c_slots c ! t)) \<noteq> 0" by (simp add: unat_eq_0)
    moreover have "view c t = Some (s_id (c_slots c ! t), s_pins (c_slots c ! t), s_ready (c_slots c ! t))"
      using pool_sub [OF wf t] by (simp add: view_eq)
    ultimately show ?thesis
      using run_keeps_pinned [OF wf run, of t] p nr t by (fastforce simp: view_eq split: if_splits)
  qed
  then have w': "is_wedged c' i = Some True" using is_wedged_iff [OF wf'] pool by auto
  have "\<not> resident c' i"
  proof
    assume "resident c' i"
    then obtain t where t: "t < length (c_slots c')" "s_id (c_slots c' ! t) = Some i"
      by (auto simp: resident_def)
    obtain M q where M: "cache_shape c' M" "cache_maps c' M" "part_of c' i = Some q" "q < length (c_parts c')"
      "pool_of c' i = {q * M..<q * M + M}"
      using wf_obtain [OF wf', of i] by metis
    then have "t \<in> pool_of c' i"
      using map_iff [OF M(1-4)] t by (auto simp: cache_maps_def)
    with keep pool absent t pool_sub [OF wf] show False by (auto simp: resident_def)
  qed
  note absent' = this
  obtain r c2 where a: "acquire c' i = Some (r, c2)" using acquire_total [OF wf'] by blast
  show ?thesis
  proof (cases r)
    case (Hit s)
    from acquire_Hit(1,2) [OF wf' a [unfolded Hit]] absent' show ?thesis by (auto simp: resident_def)
  next
    case (Miss v ev)
    from acquire_Miss(2,4) [OF wf' a [unfolded Miss]] keep [of v] pool show ?thesis by simp
  next
    case Stalled
    from acquire_Stalled(1) [OF wf' a [unfolded Stalled]] a w' Stalled show ?thesis by simp
  qed
qed


lemma wedged_pool_stays_wedged_witness:
  "\<exists>c c'. cache_run one_pinned [Acquire 2, Publish 1] = Some c \<and> is_wedged c 3 = Some True \<and>
     cache_run c [Acquire 1, Acquire 3, Decay] = Some c' \<and> acquire c' 3 = Some (Stalled, c')"
proof -
  let ?ops = "[Acquire 2, Publish 1]"
  have r: "(case cache_run one_pinned ?ops of None \<Rightarrow> False | Some c \<Rightarrow>
      is_wedged c 3 = Some True \<and> length (c_slots c) = 2 \<and> map s_id (c_slots c) = [Some 1, Some 2] \<and>
      map s_pins (c_slots c) = [1, 1] \<and> p_base (c_parts c ! 0) = 0 \<and> p_len (c_parts c ! 0) = 2 \<and>
      part_of c 3 = Some 0 \<and> \<not> Option.is_none (cache_run c [Acquire 1, Acquire 3, Decay]))"
    by code_simp
  from option_holds [OF r] obtain c where c: "cache_run one_pinned ?ops = Some c"
    and f: "is_wedged c 3 = Some True" "length (c_slots c) = 2" "map s_id (c_slots c) = [Some 1, Some 2]"
      "map s_pins (c_slots c) = [1, 1]" "p_base (c_parts c ! 0) = 0" "p_len (c_parts c ! 0) = 2"
      "part_of c 3 = Some 0" "\<not> Option.is_none (cache_run c [Acquire 1, Acquire 3, Decay])"
    by (elim exE conjE) (rule that)
  obtain c' where c': "cache_run c [Acquire 1, Acquire 3, Decay] = Some c'"
    using f(8) by (metis Option.is_none_simps(1) not_None_eq)
  have w: "cache_wf c" by (rule run_wf [OF one_pinned_facts(1) c])
  have ids: "s_id (c_slots c ! t) = [Some 1, Some 2] ! t" "s_pins (c_slots c ! t) = [1, 1] ! t"
    if "t < 2" for t
    unfolding f(3,4) [symmetric] using that f(2) by (simp_all only: nth_map)
  have pool: "pool_of c 3 = {0..<2}" by (simp only: pool_of_def f(5-7) option.case add_0)
  have "\<not> resident c 3"
  proof
    assume "resident c 3"
    then obtain s where s: "s < 2" "s_id (c_slots c ! s) = Some 3" using f(2) by (auto simp: resident_def)
    then have "s = 0 \<or> s = 1" by arith
    with s ids(1) [of 0] ids(1) [of 1] show False by auto
  qed
  moreover have "Release t \<notin> set [Acquire 1, Acquire 3, Decay] \<and>
      unat (s_pins (c_slots c ! t)) + length [Acquire 1, Acquire 3, Decay] < 2 ^ 32" if "t < 2" for t
  proof -
    have "t = 0 \<or> t = 1" using that by arith
    with ids(2) [of 0] ids(2) [of 1] show ?thesis by auto
  qed
  ultimately have "\<forall>t \<in> pool_of c 3. Release t \<notin> set [Acquire 1, Acquire 3, Decay] \<and>
      unat (s_pins (c_slots c ! t)) + length [Acquire 1, Acquire 3, Decay] < 2 ^ 32"
    unfolding pool by (meson atLeastLessThan_iff)
  from wedged_pool_stays_wedged [OF w f(1) c' this \<open>\<not> resident c 3\<close>]
  have "is_wedged c' 3 = Some True \<and> acquire c' 3 = Some (Stalled, c')" .
  with c c' f(1) show ?thesis by blast
qed

section \<open>Identifiers and partitions\<close>

lemma fold_id_unat:
  "unat (fold_id l e epl) = unat l * unat epl + unat e" if "unat epl < 2 ^ 16"
proof -
  have "unat l < 2 ^ 16" "unat e < 2 ^ 16" using unat_lt [of l] unat_lt [of e] by simp_all
  then have "unat l * unat epl \<le> 65535 * 65535" using that by (intro mult_le_mono) simp_all
  moreover have "unat (ucast l :: u32) = unat l" "unat (ucast e :: u32) = unat e"
    by simp_all
  ultimately show ?thesis
    using \<open>unat e < 2 ^ 16\<close> by (simp add: fold_id_def unat_word_ariths)
qed

text \<open>Folding a layer and an expert into one id loses nothing: for a pack with at most 65535
  experts per layer no \<open>u32\<close> overflow occurs, the pair is recovered by division, and with one
  partition per layer the id selects its layer's partition.\<close>

theorem fold_id_faithful:
  assumes "unat epl < 2 ^ 16" "unat e < unat epl" "unat l < length (c_parts c)"
    and "c_ids c = epl" "length (c_parts c) \<noteq> 1"
  shows "unat (fold_id l e epl) = unat l * unat epl + unat e \<and>
    unat (fold_id l e epl) div unat epl = unat l \<and> unat (fold_id l e epl) mod unat epl = unat e \<and>
    part_of c (fold_id l e epl) = Some (unat l)"
proof -
  have u: "unat (fold_id l e epl) = unat l * unat epl + unat e" by (rule fold_id_unat [OF assms(1)])
  moreover have "(unat l * unat epl + unat e) div unat epl = unat l" using assms(2) by simp
  ultimately show ?thesis
    using assms by (auto simp: part_of_def unat_div_distrib min_def)
qed

lemma fold_id_faithful_witness:
  "\<exists>c. partitioned 3 128 2 9 = Some c \<and> part_of c (fold_id 2 127 128) = Some 2"
proof -
  have "(case partitioned 3 128 2 9 of None \<Rightarrow> False | Some c \<Rightarrow> length (c_parts c) = 3 \<and> c_ids c = 128)"
    by code_simp
  then obtain c where c: "partitioned 3 128 2 9 = Some c" "length (c_parts c) = 3" "c_ids c = 128"
    by (auto split: option.splits)
  with fold_id_faithful [of 128 127 2 c] show ?thesis by simp
qed

end
