(* ===== verification/Pager.thy ===== *)
theory Pager
  imports Cache_Safety
begin

text \<open>
  The asynchronous expert pager of \<open>llmpager-cuda/src/pager.rs\<close>: the shared state under its
  mutex (cache bookkeeping and a fill state per slot), the job channel to the I/O workers, and the
  operations \<open>new\<close>, \<open>request\<close>, \<open>prefetch\<close>, \<open>wait\<close>, \<open>release\<close>, \<open>tick\<close> and the
  worker's completion. Each critical section of the source is one function here. Device memory and
  the pack's contents enter in the machine of theory \<open>Pager_Machine\<close>; the CUDA driver is outside
  the model, its answers are arguments.
\<close>

section \<open>State\<close>

datatype fill = FEmpty | InFlight | FReady

record job =
  j_layer :: u16
  j_expert :: u16
  j_slot :: slot
  j_release :: bool

record expert_handle =
  h_layer :: u16
  h_expert :: u16
  h_slot :: slot
  h_dev :: u64
  h_len :: nat

record pager_config =
  cfg_slots :: u32
  cfg_io_threads :: nat
  cfg_decay :: u32
  cfg_direct :: bool
  cfg_ram_bytes :: u64
  cfg_reserve :: u64

definition default_config :: pager_config where
  "default_config = \<lparr>cfg_slots = 32, cfg_io_threads = 4, cfg_decay = 256, cfg_direct = True,
     cfg_ram_bytes = 0, cfg_reserve = 0\<rparr>"

record pager =
  g_cache :: expert_cache
  g_fill :: "fill list"
  g_queue :: "job list"
  g_dev_slots :: "u64 list"
  g_slots_per_layer :: u32
  g_span :: nat
  g_epl :: u16
  g_global :: bool
  g_decay_tokens :: u32
  g_ticks :: u64
  g_bytes :: u64
  g_fetches :: u64
  g_fetch_counts :: "u64 list"

datatype pager_error = NoRoom u64 u64 u64 u64 | AllocFailed | TooMany nat nat | Deadlock nat u16 | NoMemInfo

section \<open>Sizing the arena\<close>

definition sat_sub :: "'a::len word \<Rightarrow> 'a word \<Rightarrow> 'a word" where
  "sat_sub a b = (if b \<le> a then a - b else 0)"

definition align_span :: "nat \<Rightarrow> nat" where
  "align_span n = ((n + 4095) div 4096) * 4096"

text \<open>
  The clamp at the start of \<open>Pager::new\<close>: with a reserve, no more slots per layer than the free
  memory minus the reserve can hold, an error when not even one fits.
\<close>

definition clamp_slots :: "(u64 \<times> u64) option \<Rightarrow> u16 \<Rightarrow> nat \<Rightarrow> pager_config \<Rightarrow> (pager_error, u32) res" where
  "clamp_slots mem layers spn cfg =
     (if 0 < cfg_reserve cfg then
        (case mem of None \<Rightarrow> Err NoMemInfo | Some (free, tot) \<Rightarrow>
          let per_slot = ucast layers * of_nat spn :: u64;
              spare = sat_sub free (cfg_reserve cfg);
              fits = ucast (spare div (max per_slot 1)) :: u32
          in if fits < cfg_slots cfg then
               (if fits = 0 then Err (NoRoom (cfg_reserve cfg) free tot per_slot) else Ok fits)
             else Ok (cfg_slots cfg))
      else Ok (cfg_slots cfg))"

text \<open>One arena per layer, sliced into slots; \<open>alloc\<close> gives the base of each layer's arena.\<close>

fun alloc_arenas :: "(nat \<Rightarrow> u64 option) \<Rightarrow> nat \<Rightarrow> nat \<Rightarrow> nat list \<Rightarrow> (u64 list \<times> u64 list) option" where
  "alloc_arenas alloc slots spn [] = Some ([], [])"
| "alloc_arenas alloc slots spn (l # ls) =
     (case alloc l of None \<Rightarrow> None | Some base \<Rightarrow>
      case alloc_arenas alloc slots spn ls of None \<Rightarrow> None | Some (arenas, dev) \<Rightarrow>
        Some (base # arenas, map (\<lambda>s. base + of_nat s * of_nat spn) [0..<slots] @ dev))"

definition pager_new ::
  "(u64 \<times> u64) option \<Rightarrow> (nat \<Rightarrow> u64 option) \<Rightarrow> bool \<Rightarrow> u32 option \<Rightarrow> u16 \<Rightarrow> u16 \<Rightarrow> nat \<Rightarrow> pager_config
   \<Rightarrow> (pager_error, pager) res" where
  "pager_new mem alloc global_pool decay_env layers epl max_blob cfg =
     (let spn = align_span max_blob in
      bind_res (clamp_slots mem layers spn cfg) (\<lambda>slots.
        let tot = unat layers * unat slots in
        case alloc_arenas alloc (unat slots) spn [0..<unat layers] of
          None \<Rightarrow> Err AllocFailed
        | Some (arenas, dev) \<Rightarrow>
            (case (if global_pool then partitioned 1 (ucast epl) (of_nat tot) (- 1)
                   else partitioned (ucast layers) (ucast epl) slots (cfg_decay cfg)) of
               None \<Rightarrow> Panic
             | Some c \<Rightarrow>
                 Ok \<lparr>g_cache = c, g_fill = replicate tot FEmpty, g_queue = [], g_dev_slots = dev,
                     g_slots_per_layer = slots, g_span = spn, g_epl = epl, g_global = global_pool,
                     g_decay_tokens = max (case decay_env of None \<Rightarrow> 4 | Some v \<Rightarrow> v) 1, g_ticks = 0,
                     g_bytes = 0, g_fetches = 0,
                     g_fetch_counts = replicate (unat layers * unat epl) 0\<rparr>)))"

section \<open>Lookups\<close>

definition id_of :: "pager \<Rightarrow> u16 \<Rightarrow> u16 \<Rightarrow> expert_id" where
  "id_of g layer expert = ucast layer * ucast (g_epl g) + ucast expert"

lemma id_of_fold: "id_of g l e = fold_id l e (ucast (g_epl g))"
  by (simp add: id_of_def fold_id_def)

definition mk_handle :: "(u16 \<Rightarrow> u16 \<Rightarrow> nat) \<Rightarrow> pager \<Rightarrow> u16 \<Rightarrow> u16 \<Rightarrow> slot \<Rightarrow> expert_handle option" where
  "mk_handle entry_len g layer expert s =
     map_option (\<lambda>dev. \<lparr>h_layer = layer, h_expert = expert, h_slot = s, h_dev = dev,
                        h_len = entry_len layer expert\<rparr>) (nth_opt (g_dev_slots g) s)"

text \<open>
  A claimed slot goes in flight under the lock and its job is sent as the lock is dropped; the
  queue holds the jobs sent or about to be.
\<close>

definition dispatch :: "pager \<Rightarrow> expert_cache \<Rightarrow> u16 \<Rightarrow> u16 \<Rightarrow> slot \<Rightarrow> bool \<Rightarrow> pager" where
  "dispatch g c layer expert s rel =
     g\<lparr>g_cache := c, g_fill := (g_fill g)[s := InFlight],
       g_queue := g_queue g @ [\<lparr>j_layer = layer, j_expert = expert, j_slot = s, j_release = rel\<rparr>]\<rparr>"

text \<open>
  One pass through \<open>request\<close>'s inner loop under the lock: the slot to hand out, or \<open>None\<close> for a
  stall. The outer \<open>option\<close> is the panic.
\<close>

definition request_one :: "pager \<Rightarrow> u16 \<Rightarrow> u16 \<Rightarrow> (slot option \<times> pager) option" where
  "request_one g layer expert =
     (case acquire (g_cache g) (id_of g layer expert) of
        None \<Rightarrow> None
      | Some (Hit s, c) \<Rightarrow> Some (Some s, g\<lparr>g_cache := c\<rparr>)
      | Some (Miss s _, c) \<Rightarrow>
          if s < length (g_fill g) then Some (Some s, dispatch g c layer expert s False) else None
      | Some (Stalled, c) \<Rightarrow> Some (None, g\<lparr>g_cache := c\<rparr>))"

text \<open>
  The whole of \<open>request\<close>. Waiting on the condition variable gives up the lock: \<open>wake n g\<close> is the
  state in which the \<open>n\<close>-th wait returns, and whether it timed out. Fuel bounds the waits;
  running out of it is the outer \<open>None\<close>. The state is returned with an error too: the pins taken
  before it are still there.
\<close>

fun request_loop ::
  "(u16 \<Rightarrow> u16 \<Rightarrow> nat) \<Rightarrow> (nat \<Rightarrow> pager \<Rightarrow> pager \<times> bool) \<Rightarrow> nat \<Rightarrow> pager \<Rightarrow> u16 \<Rightarrow> u16 list \<Rightarrow> expert_handle list
   \<Rightarrow> ((pager_error, expert_handle list) res \<times> pager) option" where
  "request_loop entry_len wake fuel g layer [] out = Some (Ok out, g)"
| "request_loop entry_len wake 0 g layer (e # es) out = None"
| "request_loop entry_len wake (Suc fuel) g layer (e # es) out =
     (case request_one g layer e of
        None \<Rightarrow> Some (Panic, g)
      | Some (Some s, g') \<Rightarrow>
          (case mk_handle entry_len g' layer e s of
             None \<Rightarrow> Some (Panic, g')
           | Some h \<Rightarrow> request_loop entry_len wake fuel g' layer es (out @ [h]))
      | Some (None, g') \<Rightarrow>
          (let (g2, timed_out) = wake fuel g' in
           if timed_out then
             (case is_wedged (g_cache g2) (id_of g2 layer e) of
                None \<Rightarrow> Some (Panic, g2)
              | Some True \<Rightarrow> Some (Err (Deadlock (unat (g_slots_per_layer g2)) layer), g2)
              | Some False \<Rightarrow> request_loop entry_len wake fuel g2 layer (e # es) out)
           else request_loop entry_len wake fuel g2 layer (e # es) out))"

definition request ::
  "(u16 \<Rightarrow> u16 \<Rightarrow> nat) \<Rightarrow> (nat \<Rightarrow> pager \<Rightarrow> pager \<times> bool) \<Rightarrow> nat \<Rightarrow> pager \<Rightarrow> u16 \<Rightarrow> u16 list
   \<Rightarrow> ((pager_error, expert_handle list) res \<times> pager) option" where
  "request entry_len wake fuel g layer experts =
     (case slots_per_partition (g_cache g) of
        None \<Rightarrow> Some (Panic, g)
      | Some capacity \<Rightarrow>
          if capacity < length experts then Some (Err (TooMany (length experts) capacity), g)
          else request_loop entry_len wake fuel g layer experts [])"

definition prefetch_one :: "pager \<Rightarrow> u16 \<Rightarrow> u16 \<Rightarrow> pager option" where
  "prefetch_one g layer expert =
     (case acquire (g_cache g) (id_of g layer expert) of
        None \<Rightarrow> None
      | Some (Hit s, c) \<Rightarrow> map_option (\<lambda>c'. g\<lparr>g_cache := c'\<rparr>) (release c s)
      | Some (Miss s _, c) \<Rightarrow>
          if s < length (g_fill g) then Some (dispatch g c layer expert s True) else None
      | Some (Stalled, c) \<Rightarrow> Some (g\<lparr>g_cache := c\<rparr>))"

fun prefetch :: "pager \<Rightarrow> u16 \<Rightarrow> u16 list \<Rightarrow> pager option" where
  "prefetch g layer [] = Some g"
| "prefetch g layer (e # es) =
     (case prefetch_one g layer e of None \<Rightarrow> None | Some g' \<Rightarrow> prefetch g' layer es)"

text \<open>\<open>wait\<close> returns once the slot's fill state is \<open>Ready\<close>: the test of its loop.\<close>

definition wait_done :: "pager \<Rightarrow> expert_handle \<Rightarrow> bool option" where
  "wait_done g h = map_option (\<lambda>f. f = FReady) (nth_opt (g_fill g) (h_slot h))"

definition pager_release :: "pager \<Rightarrow> expert_handle \<Rightarrow> pager option" where
  "pager_release g h = map_option (\<lambda>c. g\<lparr>g_cache := c\<rparr>) (release (g_cache g) (h_slot h))"

definition tick :: "pager \<Rightarrow> pager" where
  "tick g =
     (if \<not> g_global g then g
      else let n = g_ticks g + 1; g' = g\<lparr>g_ticks := n\<rparr>
           in if n mod ucast (g_decay_tokens g) = 0 then g'\<lparr>g_cache := decay_all (g_cache g')\<rparr> else g')"

section \<open>The worker's completion\<close>

text \<open>
  After the copy: the counters, then under the lock the fill state, \<open>publish\<close>, and the pin of a
  prefetch. \<open>len\<close> is the number of bytes fetched.
\<close>

definition complete_job :: "pager \<Rightarrow> job \<Rightarrow> nat \<Rightarrow> pager option" where
  "complete_job g j len =
     (let k = unat (j_layer j) * unat (g_epl g) + unat (j_expert j) in
      case nth_opt (g_fetch_counts g) k of None \<Rightarrow> None | Some n \<Rightarrow>
      case nth_opt (g_fill g) (j_slot j) of None \<Rightarrow> None | Some _ \<Rightarrow>
      case publish (g_cache g) (j_slot j) of None \<Rightarrow> None | Some c \<Rightarrow>
      case (if j_release j then release c (j_slot j) else Some c) of None \<Rightarrow> None | Some c' \<Rightarrow>
        Some (g\<lparr>g_cache := c', g_fill := (g_fill g)[j_slot j := FReady],
                g_bytes := g_bytes g + of_nat len, g_fetches := g_fetches g + 1,
                g_fetch_counts := (g_fetch_counts g)[k := n + 1]\<rparr>))"

definition latency_bucket :: "rat \<Rightarrow> nat" where
  "latency_bucket ms =
     (if ms < 1 then 0 else if ms < 2 then 1 else if ms < 5 then 2 else if ms < 10 then 3
      else if ms < 20 then 4 else if ms < 50 then 5 else 6)"

end
