(* ===== verification/Pager_Machine.thy ===== *)
theory Pager_Machine
  imports Pager "HOL-Library.Multiset"
begin

text \<open>
  The pager with everybody who touches it: callers of \<open>request\<close>, \<open>prefetch\<close> and \<open>release\<close>,
  the I/O workers, and device memory. A step is one critical section or one copy to the device;
  steps interleave freely. A job is sent just after the lock is dropped, so the order of the sends
  is not that of the critical sections; a worker may take any queued job. The parameter \<open>W\<close> is the pack: the bytes stored under each flat expert
  id. The rules follow the one discipline every caller in \<open>llmpager-run\<close> keeps: a handle is
  released only after a wait on it returned.
\<close>

section \<open>The machine\<close>

record machine =
  m_g :: pager
  m_busy :: "job list"
  m_copied :: "job list"
  m_lost :: "job list"
  m_handles :: "expert_handle list"
  m_dev :: "slot \<Rightarrow> bytes"

definition jid :: "machine \<Rightarrow> job \<Rightarrow> expert_id" where
  "jid m j = id_of (m_g m) (j_layer j) (j_expert j)"

definition hid :: "machine \<Rightarrow> expert_handle \<Rightarrow> expert_id" where
  "hid m h = id_of (m_g m) (h_layer h) (h_expert h)"

text \<open>Every fetch that is queued, being read, copied but not published, or died with its worker.\<close>

definition jobs_of :: "machine \<Rightarrow> job multiset" where
  "jobs_of m = mset (g_queue (m_g m)) + mset (m_busy m) + mset (m_copied m) + mset (m_lost m)"

definition counter_room :: "machine \<Rightarrow> bool" where
  "counter_room m \<longleftrightarrow> length (m_handles m) + size (jobs_of m) + 2 < 2 ^ 32"

inductive pstep :: "(expert_id \<Rightarrow> bytes) \<Rightarrow> machine \<Rightarrow> machine \<Rightarrow> bool" for W where
  request: "request_one (m_g m) l e = Some (Some s, g') \<Longrightarrow> counter_room m \<Longrightarrow>
     h_layer h = l \<Longrightarrow> h_expert h = e \<Longrightarrow> h_slot h = s \<Longrightarrow>
     pstep W m (m\<lparr>m_g := g', m_handles := h # m_handles m\<rparr>)"
| stalled: "request_one (m_g m) l e = Some (None, g') \<Longrightarrow> pstep W m (m\<lparr>m_g := g'\<rparr>)"
| prefetched: "prefetch_one (m_g m) l e = Some g' \<Longrightarrow> counter_room m \<Longrightarrow> pstep W m (m\<lparr>m_g := g'\<rparr>)"
| take_job: "g_queue (m_g m) = xs @ j # ys \<Longrightarrow>
     pstep W m (m\<lparr>m_g := (m_g m)\<lparr>g_queue := xs @ ys\<rparr>, m_busy := j # m_busy m\<rparr>)"
| copy: "m_busy m = xs @ j # ys \<Longrightarrow>
     pstep W m (m\<lparr>m_busy := xs @ ys, m_copied := j # m_copied m,
                  m_dev := (m_dev m)(j_slot j := W (jid m j))\<rparr>)"
| finish: "m_copied m = xs @ j # ys \<Longrightarrow> complete_job (m_g m) j n = Some g' \<Longrightarrow>
     pstep W m (m\<lparr>m_g := g', m_copied := xs @ ys\<rparr>)"
| worker_dies: "m_busy m = xs @ j # ys \<Longrightarrow>
     pstep W m (m\<lparr>m_busy := xs @ ys, m_lost := j # m_lost m\<rparr>)"
| released: "m_handles m = xs @ h # ys \<Longrightarrow> wait_done (m_g m) h = Some True \<Longrightarrow>
     pager_release (m_g m) h = Some g' \<Longrightarrow> pstep W m (m\<lparr>m_g := g', m_handles := xs @ ys\<rparr>)"
| ticked: "pstep W m (m\<lparr>m_g := tick (m_g m)\<rparr>)"

inductive preach :: "(expert_id \<Rightarrow> bytes) \<Rightarrow> machine \<Rightarrow> machine \<Rightarrow> bool" for W m0 where
  here: "preach W m0 m0"
| more: "preach W m0 m \<Longrightarrow> pstep W m m' \<Longrightarrow> preach W m0 m'"

definition boot :: "pager \<Rightarrow> (slot \<Rightarrow> bytes) \<Rightarrow> machine" where
  "boot g dev = \<lparr>m_g = g, m_busy = [], m_copied = [], m_lost = [], m_handles = [], m_dev = dev\<rparr>"

section \<open>The invariant\<close>

text \<open>
  Per slot: the pins are the handles and prefetches on it, readiness and fill state agree, whoever
  holds or fetches the slot means its occupant, a plain fetch has a handle waiting for it, and a
  \<open>Ready\<close> slot holds its occupant's bytes; a slot in flight has its fetch, a slot never
  filled has no occupant.
\<close>

definition pin_count :: "machine \<Rightarrow> slot \<Rightarrow> nat" where
  "pin_count m s = size (filter_mset (\<lambda>h. h_slot h = s) (mset (m_handles m))) +
                   size (filter_mset (\<lambda>j. j_slot j = s \<and> j_release j) (jobs_of m))"

definition slot_ok :: "(expert_id \<Rightarrow> bytes) \<Rightarrow> machine \<Rightarrow> slot \<Rightarrow> bool" where
  "slot_ok W m s \<longleftrightarrow>
     (\<exists>e p r. view (g_cache (m_g m)) s = Some (e, p, r) \<and> p = of_nat (pin_count m s) \<and>
        (r \<longleftrightarrow> g_fill (m_g m) ! s = FReady) \<and>
        (\<forall>h \<in> set (m_handles m). h_slot h = s \<longrightarrow> e = Some (hid m h)) \<and>
        (\<forall>j. j \<in># jobs_of m \<and> j_slot j = s \<longrightarrow> e = Some (jid m j) \<and> g_fill (m_g m) ! s = InFlight \<and>
           (\<not> j_release j \<longrightarrow> (\<exists>h \<in> set (m_handles m). h_slot h = s)) \<and>
           (j \<in> set (m_copied m) \<longrightarrow> m_dev m s = W (jid m j))) \<and>
        (g_fill (m_g m) ! s = FReady \<longrightarrow> (\<exists>i. e = Some i \<and> m_dev m s = W i)) \<and>
        (g_fill (m_g m) ! s = InFlight \<longrightarrow> (\<exists>j. j \<in># jobs_of m \<and> j_slot j = s)) \<and>
        (g_fill (m_g m) ! s = FEmpty \<longrightarrow> e = None))"

definition minv :: "(expert_id \<Rightarrow> bytes) \<Rightarrow> machine \<Rightarrow> bool" where
  "minv W m \<longleftrightarrow> cache_wf (g_cache (m_g m)) \<and>
     length (g_fill (m_g m)) = length (c_slots (g_cache (m_g m))) \<and>
     (\<forall>s < length (g_fill (m_g m)). slot_ok W m s) \<and>
     (\<forall>s. size (filter_mset (\<lambda>j. j_slot j = s) (jobs_of m)) \<le> 1) \<and>
     (\<forall>j. j \<in># jobs_of m \<longrightarrow> j_slot j < length (g_fill (m_g m))) \<and>
     (\<forall>h \<in> set (m_handles m). h_slot h < length (g_fill (m_g m))) \<and>
     length (m_handles m) + size (jobs_of m) < 2 ^ 32"

lemma pin_count_bound: "pin_count m s \<le> length (m_handles m) + size (jobs_of m)"
  unfolding pin_count_def by (intro add_mono) (auto intro: size_filter_mset_lesseq simp flip: size_mset)

lemma minv_slot: "minv W m \<Longrightarrow> s < length (g_fill (m_g m)) \<Longrightarrow> slot_ok W m s"
  by (simp add: minv_def)

lemma slot_unpinned_free:
  assumes "minv W m" "view (g_cache (m_g m)) s = Some (e, 0, r)"
  shows "\<forall>h \<in> set (m_handles m). h_slot h \<noteq> s" "\<forall>j. j \<in># jobs_of m \<longrightarrow> j_slot j \<noteq> s"
proof -
  have s: "s < length (g_fill (m_g m))"
    using assms by (auto simp: minv_def view_eq split: if_splits)
  then have ok: "slot_ok W m s" and b: "length (m_handles m) + size (jobs_of m) < 2 ^ 32"
    using assms(1) by (auto simp: minv_def)
  then have "of_nat (pin_count m s) = (0 :: u32)" using assms(2) by (auto simp: slot_ok_def)
  then have z: "pin_count m s = 0"
    using b pin_count_bound [of m s] by (auto simp: word_of_nat_eq_0_iff dest: dvd_imp_le)
  then show h: "\<forall>h \<in> set (m_handles m). h_slot h \<noteq> s"
    by (auto simp: pin_count_def filter_mset_eq_conv)
  from z have "\<forall>j. j \<in># jobs_of m \<longrightarrow> j_slot j = s \<longrightarrow> \<not> j_release j"
    by (auto simp: pin_count_def)
  with ok h show "\<forall>j. j \<in># jobs_of m \<longrightarrow> j_slot j \<noteq> s"
    unfolding slot_ok_def by blast
qed

lemma slot_held_pinned:
  assumes "minv W m" "s < length (g_fill (m_g m))" "0 < pin_count m s"
  shows "\<exists>e p r. view (g_cache (m_g m)) s = Some (e, p, r) \<and> p \<noteq> 0"
proof -
  have b: "pin_count m s < 2 ^ 32"
    using assms(1) pin_count_bound [of m s] by (auto simp: minv_def)
  then have "of_nat (pin_count m s) \<noteq> (0 :: u32)"
    using assms(3) by (auto simp: word_of_nat_eq_0_iff dest: dvd_imp_le)
  with minv_slot [OF assms(1,2)] show ?thesis unfolding slot_ok_def by blast
qed

lemma slot_okI:
  assumes "view (g_cache (m_g m)) s = Some (e, p, r)" "p = of_nat (pin_count m s)"
    "r \<longleftrightarrow> g_fill (m_g m) ! s = FReady"
    "\<And>h. h \<in> set (m_handles m) \<Longrightarrow> h_slot h = s \<Longrightarrow> e = Some (hid m h)"
    "\<And>j. j \<in># jobs_of m \<Longrightarrow> j_slot j = s \<Longrightarrow> e = Some (jid m j)"
    "\<And>j. j \<in># jobs_of m \<Longrightarrow> j_slot j = s \<Longrightarrow> g_fill (m_g m) ! s = InFlight"
    "\<And>j. j \<in># jobs_of m \<Longrightarrow> j_slot j = s \<Longrightarrow> \<not> j_release j \<Longrightarrow> \<exists>h \<in> set (m_handles m). h_slot h = s"
    "\<And>j. j \<in># jobs_of m \<Longrightarrow> j_slot j = s \<Longrightarrow> j \<in> set (m_copied m) \<Longrightarrow> m_dev m s = W (jid m j)"
    "g_fill (m_g m) ! s = FReady \<Longrightarrow> \<exists>i. e = Some i \<and> m_dev m s = W i"
    "g_fill (m_g m) ! s = InFlight \<Longrightarrow> \<exists>j. j \<in># jobs_of m \<and> j_slot j = s"
    "g_fill (m_g m) ! s = FEmpty \<Longrightarrow> e = None"
  shows "slot_ok W m s"
  unfolding slot_ok_def
  by (intro exI [of _ e] exI [of _ p] exI [of _ r]) (use assms in blast)

text \<open>A step that leaves everything about a slot alone leaves its \<open>slot_ok\<close> alone.\<close>

definition same_at :: "machine \<Rightarrow> machine \<Rightarrow> slot \<Rightarrow> bool" where
  "same_at m m' s \<longleftrightarrow>
     view (g_cache (m_g m')) s = view (g_cache (m_g m)) s \<and>
     g_fill (m_g m') ! s = g_fill (m_g m) ! s \<and> m_dev m' s = m_dev m s \<and>
     filter_mset (\<lambda>h. h_slot h = s) (mset (m_handles m')) = filter_mset (\<lambda>h. h_slot h = s) (mset (m_handles m)) \<and>
     filter_mset (\<lambda>j. j_slot j = s) (jobs_of m') = filter_mset (\<lambda>j. j_slot j = s) (jobs_of m) \<and>
     (\<forall>j. j_slot j = s \<longrightarrow> j \<in> set (m_copied m') \<longrightarrow> j \<in> set (m_copied m))"

lemma slot_ok_cong:
  assumes ok: "slot_ok W m s" and epl: "g_epl (m_g m') = g_epl (m_g m)" and same: "same_at m m' s"
  shows "slot_ok W m' s"
proof -
  note eqs = same [unfolded same_at_def, THEN conjunct1] same [unfolded same_at_def, THEN conjunct2, THEN conjunct1]
    same [unfolded same_at_def, THEN conjunct2, THEN conjunct2, THEN conjunct1]
  have hf: "filter_mset (\<lambda>h. h_slot h = s) (mset (m_handles m')) = filter_mset (\<lambda>h. h_slot h = s) (mset (m_handles m))"
    and jf: "filter_mset (\<lambda>j. j_slot j = s) (jobs_of m') = filter_mset (\<lambda>j. j_slot j = s) (jobs_of m)"
    and cp: "\<And>j. j_slot j = s \<Longrightarrow> j \<in> set (m_copied m') \<Longrightarrow> j \<in> set (m_copied m)"
    using same unfolding same_at_def by blast+
  have h: "h \<in> set (m_handles m') \<and> h_slot h = s \<longleftrightarrow> h \<in> set (m_handles m) \<and> h_slot h = s" for h
    using arg_cong [OF hf, of set_mset] by (auto simp: set_eq_iff)
  have j: "j \<in># jobs_of m' \<and> j_slot j = s \<longleftrightarrow> j \<in># jobs_of m \<and> j_slot j = s" for j
    using arg_cong [OF jf, of set_mset] by (auto simp: set_eq_iff)
  have "filter_mset (\<lambda>j. j_slot j = s \<and> j_release j) (jobs_of x) =
      filter_mset j_release (filter_mset (\<lambda>j. j_slot j = s) (jobs_of x))" for x
    by (simp add: filter_filter_mset conj_commute)
  then have pc: "pin_count m' s = pin_count m s"
    unfolding pin_count_def hf by (simp add: jf)
  have ids: "hid m' = hid m" "jid m' = jid m"
    using epl by (auto simp: hid_def jid_def id_of_def fun_eq_iff)
  from ok obtain e p r where v: "view (g_cache (m_g m)) s = Some (e, p, r)" "p = of_nat (pin_count m s)"
    "r \<longleftrightarrow> g_fill (m_g m) ! s = FReady"
    and hs: "\<forall>h \<in> set (m_handles m). h_slot h = s \<longrightarrow> e = Some (hid m h)"
    and js: "\<forall>j. j \<in># jobs_of m \<and> j_slot j = s \<longrightarrow> e = Some (jid m j) \<and> g_fill (m_g m) ! s = InFlight \<and>
           (\<not> j_release j \<longrightarrow> (\<exists>h \<in> set (m_handles m). h_slot h = s)) \<and>
           (j \<in> set (m_copied m) \<longrightarrow> m_dev m s = W (jid m j))"
    and rd: "g_fill (m_g m) ! s = FReady \<longrightarrow> (\<exists>i. e = Some i \<and> m_dev m s = W i)"
    and fl: "g_fill (m_g m) ! s = InFlight \<longrightarrow> (\<exists>j. j \<in># jobs_of m \<and> j_slot j = s)"
      "g_fill (m_g m) ! s = FEmpty \<longrightarrow> e = None"
    unfolding slot_ok_def by blast
  show ?thesis
  proof (rule slot_okI, unfold ids pc eqs)
    show "view (g_cache (m_g m)) s = Some (e, p, r)" "p = of_nat (pin_count m s)" "r \<longleftrightarrow> g_fill (m_g m) ! s = FReady"
      using v by simp_all
    show "g_fill (m_g m) ! s = FReady \<Longrightarrow> \<exists>i. e = Some i \<and> m_dev m s = W i"
      "g_fill (m_g m) ! s = FEmpty \<Longrightarrow> e = None" using rd fl by blast+
    show "g_fill (m_g m) ! s = InFlight \<Longrightarrow> \<exists>j. j \<in># jobs_of m' \<and> j_slot j = s" using fl j by blast
    show "e = Some (hid m k)" if "k \<in> set (m_handles m')" "h_slot k = s" for k using hs h that by blast
    fix k assume k: "k \<in># jobs_of m'" "j_slot k = s"
    then have "k \<in># jobs_of m" using j by blast
    with k(2) js have kk: "e = Some (jid m k) \<and> g_fill (m_g m) ! s = InFlight \<and>
        (\<not> j_release k \<longrightarrow> (\<exists>h \<in> set (m_handles m). h_slot h = s)) \<and>
        (k \<in> set (m_copied m) \<longrightarrow> m_dev m s = W (jid m k))" by blast
    then show "e = Some (jid m k)" "g_fill (m_g m) ! s = InFlight" by simp_all
    show "\<exists>h \<in> set (m_handles m'). h_slot h = s" if "\<not> j_release k" using kk that h by blast
    show "m_dev m s = W (jid m k)" if "k \<in> set (m_copied m')" using kk cp [OF k(2) that] by simp
  qed
qed


text \<open>A step that touches one slot only has to re-establish that slot.\<close>

lemma minv_at:
  assumes inv: "minv W m" and wf: "cache_wf (g_cache (m_g m'))" and epl: "g_epl (m_g m') = g_epl (m_g m)"
    and len: "length (g_fill (m_g m')) = length (g_fill (m_g m))"
      "length (c_slots (g_cache (m_g m'))) = length (c_slots (g_cache (m_g m)))"
    and other: "\<And>s. s \<noteq> t \<Longrightarrow> same_at m m' s"
    and at_t: "t < length (g_fill (m_g m)) \<Longrightarrow> slot_ok W m' t"
      "size (filter_mset (\<lambda>j. j_slot j = t) (jobs_of m')) \<le> 1"
    and bounds: "\<And>j. j \<in># jobs_of m' \<Longrightarrow> j_slot j < length (g_fill (m_g m))"
      "\<And>h. h \<in> set (m_handles m') \<Longrightarrow> h_slot h < length (g_fill (m_g m))"
      "length (m_handles m') + size (jobs_of m') < 2 ^ 32"
  shows "minv W m'"
proof -
  have "slot_ok W m' s" if "s < length (g_fill (m_g m))" for s
    using that at_t(1) other [of s] minv_slot [OF inv that] slot_ok_cong [OF _ epl] by (cases "s = t") auto
  moreover have "size (filter_mset (\<lambda>j. j_slot j = s) (jobs_of m')) \<le> 1" for s
  proof (cases "s = t")
    case False
    then have "filter_mset (\<lambda>j. j_slot j = s) (jobs_of m') = filter_mset (\<lambda>j. j_slot j = s) (jobs_of m)"
      using other [OF False] unfolding same_at_def by blast
    with inv show ?thesis unfolding minv_def by presburger
  qed (use at_t(2) in simp)
  moreover have "length (g_fill (m_g m)) = length (c_slots (g_cache (m_g m)))"
    using inv unfolding minv_def by blast
  ultimately show ?thesis
    using wf len bounds unfolding minv_def by metis
qed

lemma minv_same:
  assumes inv: "minv W m" and "cache_wf (g_cache (m_g m'))" "g_epl (m_g m') = g_epl (m_g m)"
    and "g_fill (m_g m') = g_fill (m_g m)" "view (g_cache (m_g m')) = view (g_cache (m_g m))"
      "length (c_slots (g_cache (m_g m'))) = length (c_slots (g_cache (m_g m)))"
      "m_dev m' = m_dev m" "m_handles m' = m_handles m" and jobs: "jobs_of m' = jobs_of m"
    and "set (m_copied m') \<subseteq> set (m_copied m)"
  shows "minv W m'"
proof (rule minv_at [OF inv assms(2,3), of "length (g_fill (m_g m))"])
  show "size (filter_mset (\<lambda>j. j_slot j = length (g_fill (m_g m))) (jobs_of m')) \<le> 1"
    using inv unfolding minv_def jobs by blast
  show "j_slot j < length (g_fill (m_g m))" if "j \<in># jobs_of m'" for j
    using inv that unfolding minv_def jobs by blast
  show "h_slot h < length (g_fill (m_g m))" if "h \<in> set (m_handles m')" for h
    using inv that unfolding minv_def assms(8) by blast
  show "length (m_handles m') + size (jobs_of m') < 2 ^ 32"
    using inv unfolding minv_def jobs assms(8) by blast
qed (use assms in \<open>auto simp: same_at_def\<close>)

lemma dom_view: "dom (view c) = {..<length (c_slots c)}"
  by (auto simp: view_eq dom_def split: if_splits)

lemma view_len: "dom (view c') = dom (view c) \<Longrightarrow> length (c_slots c') = length (c_slots c)"
  by (simp add: dom_view)

lemma view_in: "view c s = Some x \<Longrightarrow> s < length (c_slots c)"
  by (simp add: view_eq split: if_splits)

lemma filter_none: "(\<And>x. x \<in># M \<Longrightarrow> \<not> P x) \<Longrightarrow> filter_mset P M = {#}"
  by (auto simp: filter_mset_eq_conv)

end
