(* ===== verification/Pager_Safety.thy ===== *)
theory Pager_Safety
  imports Pager_Machine
begin

text \<open>
  Every step of the pager machine keeps its invariant, and what that gives the callers of the
  pager: the bytes a wait promises, their stability while the handle is held, one fetch per slot,
  and the fate of a fetch whose worker died.
\<close>

section \<open>Lookups keep the invariant\<close>

text \<open>Claiming a free slot for a new fetch, with the handle that waits for it or as a prefetch.\<close>

lemma minv_claim:
  assumes inv: "minv W m" and room: "counter_room m"
    and acq: "acquire (g_cache (m_g m)) (id_of (m_g m) l e) = Some (Miss s ev, c')"
    and m': "m' = m\<lparr>m_g := dispatch (m_g m) c' l e s rel, m_handles := hs @ m_handles m\<rparr>"
    and hs: "rel \<and> hs = [] \<or> \<not> rel \<and> (\<exists>h. hs = [h] \<and> h_layer h = l \<and> h_expert h = e \<and> h_slot h = s)"
  shows "minv W m'"
proof -
  let ?j = "\<lparr>j_layer = l, j_expert = e, j_slot = s, j_release = rel\<rparr>"
  have wf: "cache_wf (g_cache (m_g m))" using inv by (simp add: minv_def)
  obtain r where v: "view (g_cache (m_g m)) s = Some (ev, 0, r)"
    "view c' = (view (g_cache (m_g m)))(s \<mapsto> (Some (id_of (m_g m) l e), 1, False))"
    using ec.acq_miss [OF wf acq] by auto
  note free = slot_unpinned_free [OF inv v(1)]
  have sl: "s < length (g_fill (m_g m))" using view_in [OF v(1)] inv by (simp add: minv_def)
  have jobs: "jobs_of m' = add_mset ?j (jobs_of m)"
    by (simp add: m' jobs_of_def dispatch_def)
  have jf: "filter_mset (\<lambda>j. j_slot j = s) (jobs_of m) = {#}"
    and jr: "filter_mset (\<lambda>j. j_slot j = s \<and> j_release j) (jobs_of m) = {#}"
    using free(2) by (auto intro!: filter_none)
  have hf: "filter_mset (\<lambda>h. h_slot h = s) (mset (m_handles m)) = {#}"
    using free(1) by (auto intro!: filter_none)
  have hslots: "h_slot h = s" if "h \<in> set hs" for h using hs that by auto
  have pc: "pin_count m' s = 1"
    unfolding pin_count_def jobs using hs jr hf by (auto simp: m')
  have cp: "?j \<notin> set (m_copied m)"
    using free(2) by (auto simp: jobs_of_def)
  have fields: "view (g_cache (m_g m')) s = Some (Some (id_of (m_g m) l e), 1, False)"
    "g_fill (m_g m') ! s = InFlight" "m_handles m' = hs @ m_handles m" "m_copied m' = m_copied m"
    using v(2) sl by (simp_all add: m' dispatch_def)
  have ids: "j_layer j = l \<Longrightarrow> j_expert j = e \<Longrightarrow> jid m' j = id_of (m_g m) l e"
    "h_layer h = l \<Longrightarrow> h_expert h = e \<Longrightarrow> hid m' h = id_of (m_g m) l e" for h j
    by (simp_all add: jid_def hid_def id_of_def m' dispatch_def)
  show ?thesis
  proof (rule minv_at [OF inv, of _ s])
    show "cache_wf (g_cache (m_g m'))" using acquire_wf [OF wf acq] by (simp add: m' dispatch_def)
    show "length (c_slots (g_cache (m_g m'))) = length (c_slots (g_cache (m_g m)))"
      using view_len [OF ec.acq_dom [OF wf acq]] by (simp add: m' dispatch_def)
    show "slot_ok W m' s"
    proof (rule slot_okI [OF fields(1)])
      show "1 = of_nat (pin_count m' s)" by (simp add: pc)
      show "Some (id_of (m_g m) l e) = Some (hid m' h)" if "h \<in> set (m_handles m')" "h_slot h = s" for h
        using that free(1) hs ids(2) by (auto simp: fields)
      fix j assume j: "j \<in># jobs_of m'" "j_slot j = s"
      then have jn: "j = ?j" using free(2) by (auto simp: jobs)
      then show "Some (id_of (m_g m) l e) = Some (jid m' j)" using ids(1) by simp
      show "\<exists>h \<in> set (m_handles m'). h_slot h = s" if "\<not> j_release j"
        using that hs by (auto simp: fields jn)
      show "m_dev m' s = W (jid m' j)" if "j \<in> set (m_copied m')"
        using that cp by (simp add: fields jn)
    next
      show "\<exists>j. j \<in># jobs_of m' \<and> j_slot j = s" unfolding jobs by (intro exI [of _ ?j]) simp
    qed (simp_all add: fields)
    show "size (filter_mset (\<lambda>j. j_slot j = s) (jobs_of m')) \<le> 1" by (simp add: jobs jf)
    show "length (m_handles m') + size (jobs_of m') < 2 ^ 32"
      unfolding jobs fields using room hs by (auto simp: counter_room_def)
    show "j_slot j < length (g_fill (m_g m))" if "j \<in># jobs_of m'" for j
      using that sl inv by (auto simp: jobs minv_def)
    show "h_slot h < length (g_fill (m_g m))" if "h \<in> set (m_handles m')" for h
      using that sl inv hslots by (auto simp: m' minv_def)
    show "same_at m m' t" if "t \<noteq> s" for t
      using that v(2) hs by (auto simp: same_at_def jobs) (auto simp: m' dispatch_def)
  qed (simp_all add: m' dispatch_def)
qed

lemma minv_request:
  assumes inv: "minv W m" and room: "counter_room m"
    and rq: "request_one (m_g m) l e = Some (Some s, g')"
    and h: "h_layer h = l" "h_expert h = e" "h_slot h = s"
  shows "minv W (m\<lparr>m_g := g', m_handles := h # m_handles m\<rparr>)"
proof -
  let ?i = "id_of (m_g m) l e"
  have wf: "cache_wf (g_cache (m_g m))" using inv by (simp add: minv_def)
  obtain r c' where a: "acquire (g_cache (m_g m)) ?i = Some (r, c')" using acquire_total [OF wf] by blast
  show ?thesis
  proof (cases r)
    case (Miss t ev)
    then have "t = s" "g' = dispatch (m_g m) c' l e s False"
      using rq a by (auto simp: request_one_def split: if_splits)
    with minv_claim [OF inv room a [unfolded Miss], of _ "[h]" False] h show ?thesis by simp
  next
    case (Hit t)
    then have t: "t = s" "g' = (m_g m)\<lparr>g_cache := c'\<rparr>"
      using rq a by (auto simp: request_one_def)
    obtain p r where v: "view (g_cache (m_g m)) s = Some (Some ?i, p, r)"
      "view c' = (view (g_cache (m_g m)))(s \<mapsto> (Some ?i, p + 1, r))"
      using ec.acq_hit [OF wf a [unfolded Hit]] t by auto
    have sl: "s < length (g_fill (m_g m))" using view_in [OF v(1)] inv by (simp add: minv_def)
    let ?m' = "m\<lparr>m_g := g', m_handles := h # m_handles m\<rparr>"
    have jobs: "jobs_of ?m' = jobs_of m" by (simp add: jobs_of_def t)
    have pc: "pin_count ?m' s = Suc (pin_count m s)" by (simp add: pin_count_def jobs h)
    note ok = minv_slot [OF inv sl]
    show ?thesis
    proof (rule minv_at [OF inv, of _ s])
      show "cache_wf (g_cache (m_g ?m'))" using acquire_wf [OF wf a] by (simp add: t)
      show "length (c_slots (g_cache (m_g ?m'))) = length (c_slots (g_cache (m_g m)))"
        using view_len [OF ec.acq_dom [OF wf a]] by (simp add: t)
      show "slot_ok W ?m' s"
        unfolding slot_ok_def pc jobs
        using ok v h by (auto simp: slot_ok_def t hid_def jid_def id_of_def add.commute)
      show "size (filter_mset (\<lambda>j. j_slot j = s) (jobs_of ?m')) \<le> 1"
        using inv by (simp add: jobs minv_def)
      show "length (m_handles ?m') + size (jobs_of ?m') < 2 ^ 32"
        using room by (simp add: counter_room_def jobs)
      show "j_slot j < length (g_fill (m_g m))" if "j \<in># jobs_of ?m'" for j
        using that inv by (auto simp: jobs minv_def)
      show "h_slot k < length (g_fill (m_g m))" if "k \<in> set (m_handles ?m')" for k
        using that sl inv h by (auto simp: minv_def)
      show "same_at m ?m' u" if "u \<noteq> s" for u
        unfolding same_at_def jobs using that v(2) h by (auto simp: t)
    qed (simp_all add: t)
  next
    case Stalled
    with rq a show ?thesis by (simp add: request_one_def)
  qed
qed

lemma release_Some:
  assumes "release c s = Some c'"
  shows "\<exists>e p r. view c s = Some (e, p, r) \<and> p \<noteq> 0 \<and> view c' = (view c)(s \<mapsto> (e, p - 1, r))"
  using assms by (auto simp: release_def nth_opt_def view_upd' view_eq split: option.splits if_splits)

lemma publish_Some:
  assumes "publish c s = Some c'"
  shows "\<exists>e p r. view c s = Some (e, p, r) \<and> view c' = (view c)(s \<mapsto> (e, p, True))"
  using assms by (auto simp: publish_def nth_opt_eq_Some view_upd' view_eq split: if_splits)

lemma minv_prefetch:
  assumes inv: "minv W m" and room: "counter_room m" and pf: "prefetch_one (m_g m) l e = Some g'"
  shows "minv W (m\<lparr>m_g := g'\<rparr>)"
proof -
  let ?i = "id_of (m_g m) l e"
  have wf: "cache_wf (g_cache (m_g m))" using inv by (simp add: minv_def)
  obtain r c' where a: "acquire (g_cache (m_g m)) ?i = Some (r, c')" using acquire_total [OF wf] by blast
  show ?thesis
  proof (cases r)
    case (Miss t ev)
    then have "g' = dispatch (m_g m) c' l e t True"
      using pf a by (auto simp: prefetch_one_def split: if_splits)
    with minv_claim [OF inv room a [unfolded Miss], of _ "[]" True] show ?thesis by simp
  next
    case (Hit t)
    then obtain c2 where c2: "release c' t = Some c2" "g' = (m_g m)\<lparr>g_cache := c2\<rparr>"
      using pf a by (auto simp: prefetch_one_def)
    obtain p r where v: "view (g_cache (m_g m)) t = Some (Some ?i, p, r)"
      "view c' = (view (g_cache (m_g m)))(t \<mapsto> (Some ?i, p + 1, r))"
      using ec.acq_hit [OF wf a [unfolded Hit]] by auto
    have vw: "view c2 = view (g_cache (m_g m))"
      using release_Some [OF c2(1)] v by (auto simp: fun_upd_idem)
    have "cache_wf c2" by (rule release_wf [OF acquire_wf [OF wf a] c2(1)])
    then show ?thesis
      using vw view_len [of c2 "g_cache (m_g m)"]
      by (intro minv_same [OF inv]) (simp_all add: c2 jobs_of_def)
  next
    case Stalled
    with pf a ec.acq_stalled [OF wf] have "g' = m_g m" by (auto simp: prefetch_one_def)
    with inv show ?thesis by simp
  qed
qed

section \<open>The workers keep the invariant\<close>

lemma jobs_single:
  assumes "minv W m" "j \<in># jobs_of m" "k \<in># jobs_of m - {#j#}"
  shows "j_slot k \<noteq> j_slot j"
proof
  assume eq: "j_slot k = j_slot j"
  have "{#j, k#} \<subseteq># jobs_of m"
    using assms(2,3) by (simp add: insert_subset_eq_iff)
  then have "filter_mset (\<lambda>x. j_slot x = j_slot j) {#j, k#} \<subseteq># filter_mset (\<lambda>x. j_slot x = j_slot j) (jobs_of m)"
    by (rule multiset_filter_mono)
  from size_mset_mono [OF this] have "2 \<le> size (filter_mset (\<lambda>x. j_slot x = j_slot j) (jobs_of m))"
    using eq by simp
  moreover have "size (filter_mset (\<lambda>x. j_slot x = j_slot j) (jobs_of m)) \<le> 1"
    using assms(1) unfolding minv_def by blast
  ultimately show False by simp
qed

lemma job_in_bounds: "minv W m \<Longrightarrow> j \<in># jobs_of m \<Longrightarrow> j_slot j < length (g_fill (m_g m))"
  unfolding minv_def by blast

lemma handle_in_bounds: "minv W m \<Longrightarrow> h \<in> set (m_handles m) \<Longrightarrow> h_slot h < length (g_fill (m_g m))"
  unfolding minv_def by blast

lemma minv_take_job:
  assumes inv: "minv W m" and q: "g_queue (m_g m) = xs @ j # ys"
  shows "minv W (m\<lparr>m_g := (m_g m)\<lparr>g_queue := xs @ ys\<rparr>, m_busy := j # m_busy m\<rparr>)"
  by (rule minv_same [OF inv]) (use inv q in \<open>simp_all add: jobs_of_def minv_def\<close>)

lemma minv_worker_dies:
  assumes inv: "minv W m" and b: "m_busy m = xs @ j # ys"
  shows "minv W (m\<lparr>m_busy := xs @ ys, m_lost := j # m_lost m\<rparr>)"
  by (rule minv_same [OF inv]) (use inv b in \<open>simp_all add: jobs_of_def minv_def\<close>)

lemma minv_copy:
  assumes inv: "minv W m" and b: "m_busy m = xs @ j # ys"
  shows "minv W (m\<lparr>m_busy := xs @ ys, m_copied := j # m_copied m, m_dev := (m_dev m)(j_slot j := W (jid m j))\<rparr>)"
    (is "minv W ?m'")
proof -
  have jobs: "jobs_of ?m' = jobs_of m" using b by (simp add: jobs_of_def)
  have jm: "j \<in># jobs_of m" using b by (simp add: jobs_of_def)
  have one: "k = j" if "k \<in># jobs_of m" "j_slot k = j_slot j" for k
  proof (rule ccontr)
    assume "k \<noteq> j"
    with that have "k \<in># jobs_of m - {#j#}" by (auto simp: in_diff_count not_in_iff [symmetric])
    from jobs_single [OF inv jm this] that show False by simp
  qed
  have sl: "j_slot j < length (g_fill (m_g m))" by (rule job_in_bounds [OF inv jm])
  have pc: "pin_count ?m' (j_slot j) = pin_count m (j_slot j)" unfolding pin_count_def jobs by simp
  have ids: "hid ?m' = hid m" "jid ?m' = jid m" by (simp_all add: hid_def jid_def fun_eq_iff)
  show ?thesis
  proof (rule minv_at [OF inv, of _ "j_slot j"])
    show "slot_ok W ?m' (j_slot j)"
    proof -
      obtain e p r where v: "view (g_cache (m_g m)) (j_slot j) = Some (e, p, r)" "p = of_nat (pin_count m (j_slot j))"
        "r \<longleftrightarrow> g_fill (m_g m) ! j_slot j = FReady"
        and hs: "\<forall>h \<in> set (m_handles m). h_slot h = j_slot j \<longrightarrow> e = Some (hid m h)"
        and js: "e = Some (jid m j)" "g_fill (m_g m) ! j_slot j = InFlight"
          "\<not> j_release j \<longrightarrow> (\<exists>h \<in> set (m_handles m). h_slot h = j_slot j)"
        using minv_slot [OF inv sl] jm unfolding slot_ok_def by blast
      show ?thesis
        using v hs js jm by (intro slot_okI [of _ _ e p r], unfold pc jobs ids) (auto dest: one)
    qed
    show "same_at m ?m' s" if "s \<noteq> j_slot j" for s
      unfolding same_at_def jobs using that by auto
  qed (use inv in \<open>auto simp: minv_def jobs\<close>)
qed

lemma complete_job_Some:
  assumes "complete_job g j n = Some g'"
  shows "\<exists>e p r. view (g_cache g) (j_slot j) = Some (e, p, r) \<and> (j_release j \<longrightarrow> p \<noteq> 0) \<and>
    view (g_cache g') = (view (g_cache g))(j_slot j \<mapsto> (e, if j_release j then p - 1 else p, True)) \<and>
    g_fill g' = (g_fill g)[j_slot j := FReady] \<and> g_queue g' = g_queue g \<and> g_epl g' = g_epl g"
proof -
  obtain c where c: "publish (g_cache g) (j_slot j) = Some c"
    "(if j_release j then release c (j_slot j) else Some c) = Some (g_cache g')"
    and rest: "g_fill g' = (g_fill g)[j_slot j := FReady]" "g_queue g' = g_queue g" "g_epl g' = g_epl g"
    using assms by (auto simp: complete_job_def Let_def split: option.splits)
  obtain e p r where v: "view (g_cache g) (j_slot j) = Some (e, p, r)"
    "view c = (view (g_cache g))(j_slot j \<mapsto> (e, p, True))"
    using publish_Some [OF c(1)] by blast
  show ?thesis
  proof (cases "j_release j")
    case True
    with c(2) have "release c (j_slot j) = Some (g_cache g')" by simp
    from release_Some [OF this] v True rest show ?thesis by auto
  next
    case False
    with c(2) v rest show ?thesis by simp
  qed
qed

lemma complete_job_wf:
  assumes "cache_wf (g_cache g)" "complete_job g j n = Some g'"
  shows "cache_wf (g_cache g')"
  using assms by (auto simp: complete_job_def Let_def split: option.splits if_splits intro: publish_wf release_wf)

lemma minv_finish:
  assumes inv: "minv W m" and b: "m_copied m = xs @ j # ys" and fin: "complete_job (m_g m) j n = Some g'"
  shows "minv W (m\<lparr>m_g := g', m_copied := xs @ ys\<rparr>)" (is "minv W ?m'")
proof -
  let ?s = "j_slot j"
  obtain e p r where v: "view (g_cache (m_g m)) ?s = Some (e, p, r)"
    "view (g_cache g') = (view (g_cache (m_g m)))(?s \<mapsto> (e, if j_release j then p - 1 else p, True))"
    and g': "g_fill g' = (g_fill (m_g m))[?s := FReady]" "g_queue g' = g_queue (m_g m)" "g_epl g' = g_epl (m_g m)"
    using complete_job_Some [OF fin] by blast
  have jobs: "jobs_of m = add_mset j (jobs_of ?m')" using b g' by (simp add: jobs_of_def)
  have jm: "j \<in># jobs_of m" by (simp add: jobs)
  have sl: "?s < length (g_fill (m_g m))" by (rule job_in_bounds [OF inv jm])
  have none: "j_slot k \<noteq> ?s" if "k \<in># jobs_of ?m'" for k
    using jobs_single [OF inv jm, of k] that by (simp add: jobs)
  have jf: "filter_mset (\<lambda>k. j_slot k = ?s) (jobs_of ?m') = {#}"
    and jr: "filter_mset (\<lambda>k. j_slot k = ?s \<and> j_release k) (jobs_of ?m') = {#}"
    using none by (auto intro!: filter_none)
  have ids: "hid ?m' = hid m" "jid ?m' = jid m" by (simp_all add: hid_def jid_def id_of_def g' fun_eq_iff)
  have pc: "pin_count m ?s = pin_count ?m' ?s + (if j_release j then 1 else 0)"
    unfolding pin_count_def jobs by (simp add: jr)
  have ok: "slot_ok W m ?s" by (rule minv_slot [OF inv sl])
  have p: "p = of_nat (pin_count m ?s)" and e: "e = Some (jid m j)" and d: "m_dev m ?s = W (jid m j)"
    and hs: "\<forall>h \<in> set (m_handles m). h_slot h = ?s \<longrightarrow> e = Some (hid m h)"
    using ok v(1) jm b unfolding slot_ok_def by auto
  show ?thesis
  proof (rule minv_at [OF inv, of _ ?s])
    show "cache_wf (g_cache (m_g ?m'))" using complete_job_wf [OF _ fin] inv by (simp add: minv_def)
    show "length (c_slots (g_cache (m_g ?m'))) = length (c_slots (g_cache (m_g m)))"
      using v by (intro view_len) (auto simp: dom_def)
    show "slot_ok W ?m' ?s"
    proof (rule slot_okI)
      show "view (g_cache (m_g ?m')) ?s = Some (e, if j_release j then p - 1 else p, True)" by (simp add: v)
      show "(if j_release j then p - 1 else p) = of_nat (pin_count ?m' ?s)" by (simp add: p pc)
      show "e = Some (hid ?m' h)" if "h \<in> set (m_handles ?m')" "h_slot h = ?s" for h
        using hs that by (simp add: ids)
      show "\<exists>i. e = Some i \<and> m_dev ?m' ?s = W i" by (simp add: e d)
    qed (use none sl in \<open>auto simp: g'\<close>)
    show "size (filter_mset (\<lambda>k. j_slot k = ?s) (jobs_of ?m')) \<le> 1" by (simp add: jf)
    show "j_slot k < length (g_fill (m_g m))" if "k \<in># jobs_of ?m'" for k
      using job_in_bounds [OF inv, of k] that by (simp add: jobs)
    show "length (m_handles ?m') + size (jobs_of ?m') < 2 ^ 32"
      using inv unfolding minv_def jobs by simp
    show "same_at m ?m' s" if "s \<noteq> ?s" for s
      unfolding same_at_def jobs using that v b by (auto simp: g')
  qed (use inv in \<open>auto simp: minv_def g'\<close>)
qed

section \<open>Releases, ticks, and the start\<close>

lemma minv_released:
  assumes inv: "minv W m" and b: "m_handles m = xs @ h # ys" and w: "wait_done (m_g m) h = Some True"
    and rl: "pager_release (m_g m) h = Some g'"
  shows "minv W (m\<lparr>m_g := g', m_handles := xs @ ys\<rparr>)" (is "minv W ?m'")
proof -
  let ?s = "h_slot h"
  obtain c' where c': "release (g_cache (m_g m)) ?s = Some c'" "g' = (m_g m)\<lparr>g_cache := c'\<rparr>"
    using rl by (auto simp: pager_release_def)
  obtain e p r where v: "view (g_cache (m_g m)) ?s = Some (e, p, r)" "p \<noteq> 0"
    "view c' = (view (g_cache (m_g m)))(?s \<mapsto> (e, p - 1, r))"
    using release_Some [OF c'(1)] by blast
  have rd: "g_fill (m_g m) ! ?s = FReady" and sl: "?s < length (g_fill (m_g m))"
    using w by (auto simp: wait_done_def nth_opt_def split: if_splits)
  have jobs: "jobs_of ?m' = jobs_of m" by (simp add: jobs_of_def c')
  have pc: "pin_count m ?s = Suc (pin_count ?m' ?s)"
    unfolding pin_count_def jobs using b by simp
  have ids: "hid ?m' = hid m" "jid ?m' = jid m" by (simp_all add: hid_def jid_def id_of_def c' fun_eq_iff)
  have p: "p = of_nat (pin_count m ?s)" "r"
    and hs: "\<forall>h' \<in> set (m_handles m). h_slot h' = ?s \<longrightarrow> e = Some (hid m h')"
    and js: "\<forall>j. j \<in># jobs_of m \<longrightarrow> j_slot j \<noteq> ?s" and dv: "\<exists>i. e = Some i \<and> m_dev m ?s = W i"
    using minv_slot [OF inv sl] v(1) rd unfolding slot_ok_def by auto
  have wf: "cache_wf (g_cache (m_g m))" using inv by (simp add: minv_def)
  show ?thesis
  proof (rule minv_at [OF inv, of _ ?s])
    show "cache_wf (g_cache (m_g ?m'))" using release_wf [OF wf c'(1)] by (simp add: c')
    show "length (c_slots (g_cache (m_g ?m'))) = length (c_slots (g_cache (m_g m)))"
      using v by (intro view_len) (auto simp: dom_def c')
    show "slot_ok W ?m' ?s"
    proof (rule slot_okI)
      show "view (g_cache (m_g ?m')) ?s = Some (e, p - 1, r)" by (simp add: c' v)
      show "p - 1 = of_nat (pin_count ?m' ?s)" by (simp add: p pc)
      show "e = Some (hid ?m' k)" if "k \<in> set (m_handles ?m')" "h_slot k = ?s" for k
        using hs that b by (auto simp: ids)
    qed (use js rd p dv in \<open>auto simp: jobs, auto simp: c'\<close>)
    show "size (filter_mset (\<lambda>k. j_slot k = ?s) (jobs_of ?m')) \<le> 1"
      using inv unfolding minv_def jobs by blast
    show "j_slot k < length (g_fill (m_g m))" if "k \<in># jobs_of ?m'" for k
      using job_in_bounds [OF inv, of k] that by (simp add: jobs)
    show "length (m_handles ?m') + size (jobs_of ?m') < 2 ^ 32"
      using inv b unfolding minv_def jobs by simp
    show "h_slot k < length (g_fill (m_g m))" if "k \<in> set (m_handles ?m')" for k
      using handle_in_bounds [OF inv, of k] that b by auto
    show "same_at m ?m' s" if "s \<noteq> ?s" for s
      unfolding same_at_def jobs using that v(3) b by (auto simp: c')
  qed (simp_all add: c')
qed

lemma minv_ticked:
  assumes inv: "minv W m"
  shows "minv W (m\<lparr>m_g := tick (m_g m)\<rparr>)"
proof (rule minv_same [OF inv])
  have wf: "cache_wf (g_cache (m_g m))" using inv by (simp add: minv_def)
  then show "cache_wf (g_cache (m_g (m\<lparr>m_g := tick (m_g m)\<rparr>)))"
    by (simp add: tick_def Let_def decay_all_wf)
  show "view (g_cache (m_g (m\<lparr>m_g := tick (m_g m)\<rparr>))) = view (g_cache (m_g m))"
    by (simp add: tick_def Let_def view_decay_all)
  show "length (c_slots (g_cache (m_g (m\<lparr>m_g := tick (m_g m)\<rparr>)))) = length (c_slots (g_cache (m_g m)))"
    by (simp add: tick_def Let_def decay_all_def)
qed (use inv in \<open>simp_all add: tick_def Let_def jobs_of_def\<close>)

lemma pstep_minv:
  assumes "pstep W m m'" "minv W m"
  shows "minv W m'"
  using assms
proof (cases rule: pstep.cases)
  case (stalled l e g')
  have wf: "cache_wf (g_cache (m_g m))" using assms(2) by (simp add: minv_def)
  have "g' = m_g m"
    using stalled(2) ec.acq_stalled [OF wf] by (auto simp: request_one_def split: option.splits lookup.splits if_splits)
  with stalled assms(2) show ?thesis by simp
qed (use assms(2) in \<open>auto intro: minv_request minv_prefetch minv_take_job minv_copy minv_finish
  minv_worker_dies minv_released minv_ticked\<close>)

lemma preach_minv: "preach W m0 m \<Longrightarrow> minv W m0 \<Longrightarrow> minv W m"
  by (induction rule: preach.induct) (auto intro: pstep_minv)

lemma partitioned_view:
  assumes "partitioned n ids sp d = Some c"
  shows "view c = (\<lambda>s. if s < unat n * unat sp then Some (None, 0, False) else None)"
    "length (c_slots c) = unat n * unat sp"
  using assms by (auto simp: partitioned_def view_eq empty_slot_def fun_eq_iff split: if_splits)

lemma pager_new_cache:
  assumes "pager_new mem alloc global_pool env layers epl blob cfg = Ok g"
    and "unat layers * unat (g_slots_per_layer g) < 2 ^ 32" "epl \<noteq> 0"
  shows "\<exists>n ids sp d. partitioned n ids sp d = Some (g_cache g) \<and> ids \<noteq> 0 \<and>
    unat n * unat sp = unat layers * unat (g_slots_per_layer g) \<and>
    g_fill g = replicate (unat layers * unat (g_slots_per_layer g)) FEmpty \<and> g_queue g = []"
proof -
  obtain slots where s: "clamp_slots mem layers (align_span blob) cfg = Ok slots"
    using assms(1) by (cases "clamp_slots mem layers (align_span blob) cfg") (auto simp: pager_new_def Let_def)
  obtain c where g: "g_cache g = c" "g_slots_per_layer g = slots"
      "g_fill g = replicate (unat layers * unat slots) FEmpty" "g_queue g = []"
    and c: "(if global_pool then partitioned 1 (ucast epl) (of_nat (unat layers * unat slots)) (- 1)
                   else partitioned (ucast layers) (ucast epl) slots (cfg_decay cfg)) = Some c"
    using assms(1) s by (auto simp: pager_new_def Let_def split: option.splits prod.splits)
  have e: "(ucast epl :: u32) \<noteq> 0" using assms(3) by (metis unat_eq_0 unat_ucast_16_32)
  show ?thesis
  proof (cases global_pool)
    case True
    have "unat (of_nat (unat layers * unat slots) :: u32) = unat layers * unat slots"
      using assms(2) by (simp add: unat_of_nat take_bit_eq_mod g del: of_nat_mult)
    moreover have "partitioned 1 (ucast epl) (of_nat (unat layers * unat slots)) (- 1) = Some (g_cache g)"
      using c True g by simp
    ultimately show ?thesis using e g by (metis mult_1 unat_1)
  next
    case False
    then have "partitioned (ucast layers) (ucast epl) slots (cfg_decay cfg) = Some (g_cache g)"
      using c g by simp
    then show ?thesis using e g by (metis unat_ucast_16_32)
  qed
qed

lemma boot_minv:
  assumes new: "pager_new mem alloc global_pool env layers epl blob cfg = Ok g"
    and fits: "unat layers * unat (g_slots_per_layer g) < 2 ^ 32" and epl: "epl \<noteq> 0"
  shows "minv W (boot g dev)"
proof -
  obtain n ids sp d where p: "partitioned n ids sp d = Some (g_cache g)" "ids \<noteq> 0"
    "unat n * unat sp = unat layers * unat (g_slots_per_layer g)"
    and g: "g_fill g = replicate (unat layers * unat (g_slots_per_layer g)) FEmpty" "g_queue g = []"
    using pager_new_cache [OF assms] by blast
  have wf: "cache_wf (g_cache g)" using partitioned_wf [OF p(1)] p fits by simp
  have jobs: "jobs_of (boot g dev) = {#}" by (simp add: jobs_of_def boot_def g)
  have "slot_ok W (boot g dev) s" if "s < length (g_fill g)" for s
    by (rule slot_okI [of _ _ None 0 False], unfold jobs)
      (use that p in \<open>simp_all add: boot_def partitioned_view [OF p(1)] g pin_count_def jobs [unfolded boot_def]\<close>)
  then show ?thesis
    unfolding minv_def jobs using wf p by (simp add: boot_def partitioned_view [OF p(1)] g)
qed

end
