(* ===== verification/Pager_Props.thy ===== *)
theory Pager_Props
  imports Pager_Safety
begin

text \<open>
  What the pager promises its callers, from the invariant of \<open>Pager_Safety\<close>: the bytes behind a
  finished wait, their stability while the handle is held, one fetch per slot, that the workers can
  always finish a fetch somebody waits for, and that a fetch whose worker died never finishes.
\<close>

section \<open>The workers can finish\<close>

definition job_indexed :: "pager \<Rightarrow> job \<Rightarrow> bool" where
  "job_indexed g j \<longleftrightarrow>
     unat (j_layer j) * unat (g_epl g) + unat (j_expert j) < length (g_fetch_counts g)"

lemma preach_trans: "preach W m1 m2 \<Longrightarrow> preach W m0 m1 \<Longrightarrow> preach W m0 m2"
  by (induction rule: preach.induct) (auto intro: preach.more)

lemma preach_step: "pstep W m m' \<Longrightarrow> preach W m m'"
  using preach.here preach.more by blast

lemma complete_job_total:
  assumes inv: "minv W m" and j: "j \<in># jobs_of m" "job_indexed (m_g m) j"
  shows "\<exists>g'. complete_job (m_g m) j n = Some g'"
proof -
  let ?s = "j_slot j" and ?c = "g_cache (m_g m)"
  have wf: "cache_wf ?c" using inv by (simp add: minv_def)
  have sl: "?s < length (g_fill (m_g m))" by (rule job_in_bounds [OF inv j(1)])
  obtain e p r where v: "view ?c ?s = Some (e, p, r)" "p = of_nat (pin_count m ?s)"
    using minv_slot [OF inv sl] unfolding slot_ok_def by blast
  obtain c1 where c1: "publish ?c ?s = Some c1" "cache_wf c1" "view c1 = (view ?c)(?s \<mapsto> (e, p, True))"
    using ec.pub_law [OF wf v(1)] by blast
  have rel: "\<exists>c2. release c1 ?s = Some c2" if "j_release j"
  proof -
    have "0 < pin_count m ?s"
      using j(1) that by (auto simp: pin_count_def nonempty_has_size [symmetric])
    then have "p \<noteq> 0" using slot_held_pinned [OF inv sl] v by auto
    with ec.rel_law [OF c1(2), of ?s e p True] c1(3) show ?thesis by auto
  qed
  show ?thesis
    using j(2) sl c1(1) rel
    by (cases "j_release j") (auto simp: complete_job_def Let_def job_indexed_def nth_opt_def)
qed

lemma finish_from_copied:
  assumes inv: "minv W m" and j: "j \<in> set (m_copied m)" "job_indexed (m_g m) j"
  shows "\<exists>m'. preach W m m' \<and> m_handles m' = m_handles m \<and> g_fill (m_g m') ! j_slot j = FReady \<and>
    length (g_fill (m_g m')) = length (g_fill (m_g m))"
proof -
  obtain xs ys where sp: "m_copied m = xs @ j # ys" using split_list [OF j(1)] by blast
  have jm: "j \<in># jobs_of m" using j(1) by (simp add: jobs_of_def)
  obtain g' where g': "complete_job (m_g m) j 0 = Some g'"
    using complete_job_total [OF inv jm j(2)] by blast
  have "g_fill g' = (g_fill (m_g m))[j_slot j := FReady]" using complete_job_Some [OF g'] by blast
  with preach_step [OF pstep.finish [OF sp g']] job_in_bounds [OF inv jm] show ?thesis
    by (intro exI [of _ "m\<lparr>m_g := g', m_copied := xs @ ys\<rparr>"]) simp
qed

lemma finish_from_busy:
  assumes inv: "minv W m" and j: "j \<in> set (m_busy m)" "job_indexed (m_g m) j"
  shows "\<exists>m'. preach W m m' \<and> m_handles m' = m_handles m \<and> g_fill (m_g m') ! j_slot j = FReady \<and>
    length (g_fill (m_g m')) = length (g_fill (m_g m))"
proof -
  obtain xs ys where sp: "m_busy m = xs @ j # ys" using split_list [OF j(1)] by blast
  note st = pstep.copy [OF sp, of W]
  show ?thesis
    using finish_from_copied [OF pstep_minv [OF st inv], of j] j(2) preach_step [OF st]
    by (auto intro: preach_trans)
qed

lemma finish_from_queue:
  assumes inv: "minv W m" and j: "j \<in> set (g_queue (m_g m))" "job_indexed (m_g m) j"
  shows "\<exists>m'. preach W m m' \<and> m_handles m' = m_handles m \<and> g_fill (m_g m') ! j_slot j = FReady \<and>
    length (g_fill (m_g m')) = length (g_fill (m_g m))"
proof -
  obtain xs ys where sp: "g_queue (m_g m) = xs @ j # ys" using split_list [OF j(1)] by blast
  note st = pstep.take_job [OF sp, of W]
  show ?thesis
    using finish_from_busy [OF pstep_minv [OF st inv], of j] j(2) preach_step [OF st]
    by (auto simp: job_indexed_def intro: preach_trans)
qed

lemma held_slot_cases:
  assumes inv: "minv W m" and h: "h \<in> set (m_handles m)"
  shows "g_fill (m_g m) ! h_slot h = FReady \<and> m_dev m (h_slot h) = W (hid m h) \<or>
    g_fill (m_g m) ! h_slot h = InFlight \<and> (\<exists>j. j \<in># jobs_of m \<and> j_slot j = h_slot h \<and> jid m j = hid m h)"
proof -
  let ?s = "h_slot h"
  have "slot_ok W m ?s" by (rule minv_slot [OF inv handle_in_bounds [OF inv h]])
  then obtain e p r where e: "e = Some (hid m h)"
    and js: "\<forall>j. j \<in># jobs_of m \<and> j_slot j = ?s \<longrightarrow> e = Some (jid m j)"
    and rd: "g_fill (m_g m) ! ?s = FReady \<longrightarrow> (\<exists>i. e = Some i \<and> m_dev m ?s = W i)"
    and fl: "g_fill (m_g m) ! ?s = InFlight \<longrightarrow> (\<exists>j. j \<in># jobs_of m \<and> j_slot j = ?s)"
    and em: "g_fill (m_g m) ! ?s = FEmpty \<longrightarrow> e = None"
    using h unfolding slot_ok_def by blast
  show ?thesis
  proof (cases "g_fill (m_g m) ! ?s")
    case FReady
    with rd e show ?thesis by auto
  next
    case InFlight
    with fl obtain j where "j \<in># jobs_of m" "j_slot j = ?s" by blast
    with js e InFlight show ?thesis by auto
  qed (use em e in simp)
qed

lemma fetch_drains:
  assumes inv: "minv W m" and alive: "m_lost m = []" and h: "h \<in> set (m_handles m)"
    and ix: "\<And>j. j \<in># jobs_of m \<Longrightarrow> job_indexed (m_g m) j"
  shows "\<exists>m'. preach W m m' \<and> h \<in> set (m_handles m') \<and> wait_done (m_g m') h = Some True"
proof -
  have hb: "h_slot h < length (g_fill (m_g m))" by (rule handle_in_bounds [OF inv h])
  show ?thesis
    using held_slot_cases [OF inv h]
  proof (elim disjE conjE exE)
    assume "g_fill (m_g m) ! h_slot h = FReady"
    with hb h preach.here show ?thesis
      by (intro exI [of _ m]) (simp add: wait_done_def nth_opt_def)
  next
    fix j assume j: "j \<in># jobs_of m" "j_slot j = h_slot h"
    then have "j \<in> set (g_queue (m_g m)) \<or> j \<in> set (m_busy m) \<or> j \<in> set (m_copied m)"
      using alive by (auto simp: jobs_of_def)
    then obtain m' where "preach W m m'" "m_handles m' = m_handles m" "g_fill (m_g m') ! j_slot j = FReady"
      "length (g_fill (m_g m')) = length (g_fill (m_g m))"
      using finish_from_queue [OF inv] finish_from_busy [OF inv] finish_from_copied [OF inv] ix [OF j(1)] by blast
    with hb h j show ?thesis
      by (intro exI [of _ m']) (simp add: wait_done_def nth_opt_def)
  qed
qed

section \<open>A small pager\<close>

text \<open>One layer of two slots, eight experts, blobs of a hundred bytes; expert 3 is then requested.\<close>

definition cache2 :: expert_cache where
  "cache2 = the (partitioned 1 8 2 256)"

definition cache2_miss :: expert_cache where
  "cache2_miss = snd (the (acquire cache2 3))"

definition pager2 :: pager where
  "pager2 = \<lparr>g_cache = cache2, g_fill = [FEmpty, FEmpty], g_queue = [], g_dev_slots = [0, 4096],
     g_slots_per_layer = 2, g_span = 4096, g_epl = 8, g_global = False, g_decay_tokens = 4, g_ticks = 0,
     g_bytes = 0, g_fetches = 0, g_fetch_counts = replicate 8 0\<rparr>"

definition demo_pack :: "expert_id \<Rightarrow> bytes" where
  "demo_pack i = to_le 4 (unat i)"

definition hand3 :: expert_handle where
  "hand3 = \<lparr>h_layer = 0, h_expert = 3, h_slot = 0, h_dev = 0, h_len = 100\<rparr>"

definition asked3 :: machine where
  "asked3 = (boot pager2 (\<lambda>_. []))\<lparr>m_g := dispatch pager2 cache2_miss 0 3 0 False, m_handles := [hand3]\<rparr>"

lemma cache2_new: "partitioned 1 8 2 256 = Some cache2"
  by (simp add: cache2_def partitioned_def)

lemma pager2_new:
  "pager_new None (\<lambda>_. Some 0) False None 1 8 100 (default_config\<lparr>cfg_slots := 2\<rparr>) = Ok pager2"
proof -
  have u: "[0..<Suc 0] = [0]" "[0..<2] = [0, 1 :: nat]" by (simp_all add: upt_rec)
  have a: "alloc_arenas (\<lambda>_. Some 0) 2 4096 [0..<Suc 0] = Some ([0], [0, 4096])"
    unfolding u alloc_arenas.simps option.case u by simp
  have r: "replicate 2 FEmpty = [FEmpty, FEmpty]" by (simp add: numeral_2_eq_2)
  have s: "align_span 100 = 4096" by (simp add: align_span_def)
  show ?thesis
    by (simp add: pager_new_def Let_def clamp_slots_def default_config_def s a r u cache2_new
        pager2_def)
qed

lemma cache2_acquire: "acquire cache2 3 = Some (Miss 0 None, cache2_miss)"
proof -
  have "(case acquire cache2 3 of Some (Miss v None, c) \<Rightarrow> v = 0 | _ \<Rightarrow> False)" by code_simp
  then show ?thesis by (auto simp: cache2_miss_def split: option.splits lookup.splits)
qed

lemma boot2_minv: "minv W (boot pager2 dev)"
  by (rule boot_minv [OF pager2_new]) (simp_all add: pager2_def)

lemma asked3_step: "pstep W (boot pager2 (\<lambda>_. [])) asked3"
proof -
  let ?m = "boot pager2 (\<lambda>_. [])"
  have "request_one (m_g ?m) 0 3 = Some (Some 0, dispatch pager2 cache2_miss 0 3 0 False)"
    by (simp add: request_one_def boot_def pager2_def id_of_def cache2_acquire)
  moreover have "counter_room ?m"
    by (simp add: counter_room_def boot_def jobs_of_def pager2_def)
  ultimately show ?thesis
    using pstep.request [of ?m 0 3 0 _ hand3 W] by (simp add: hand3_def asked3_def boot_def)
qed

lemma asked3_reach: "preach W (boot pager2 (\<lambda>_. [])) asked3"
  by (rule preach_step [OF asked3_step])

lemma asked3_facts:
  "hand3 \<in> set (m_handles asked3)" "m_lost asked3 = []" "hid asked3 hand3 = 3"
  "jobs_of asked3 = {#\<lparr>j_layer = 0, j_expert = 3, j_slot = 0, j_release = False\<rparr>#}"
  "job_indexed (m_g asked3) \<lparr>j_layer = 0, j_expert = 3, j_slot = 0, j_release = False\<rparr>"
  by (simp_all add: asked3_def boot_def hid_def id_of_def hand3_def jobs_of_def dispatch_def pager2_def
      job_indexed_def)

section \<open>Properties\<close>

text \<open>C4: \<open>Ready\<close> means data-valid. In every state reachable from a fresh pager, whatever requests,
  prefetches, releases, evictions and worker completions interleaved, a caller whose \<open>wait\<close> on a
  handle it still holds has returned finds the bytes of exactly that expert in the slot.\<close>

theorem waited_handle_reads_its_expert:
  assumes new: "pager_new mem alloc global_pool env layers epl blob cfg = Ok g"
    and fits: "unat layers * unat (g_slots_per_layer g) < 2 ^ 32" "epl \<noteq> 0"
    and reach: "preach W (boot g dev) m"
    and held: "h \<in> set (m_handles m)" and waited: "wait_done (m_g m) h = Some True"
  shows "m_dev m (h_slot h) = W (hid m h)"
proof -
  have inv: "minv W m" by (rule preach_minv [OF reach boot_minv [OF new fits]])
  from held_slot_cases [OF inv held] waited show ?thesis
    by (auto simp: wait_done_def nth_opt_def split: if_splits)
qed

lemma waited_handle_reads_its_expert_witness:
  "\<exists>m. preach demo_pack (boot pager2 (\<lambda>_. [])) m \<and> hand3 \<in> set (m_handles m) \<and> m_dev m 0 = demo_pack (hid m hand3)"
proof -
  note inv = preach_minv [OF asked3_reach boot2_minv]
  obtain m where m: "preach demo_pack asked3 m" "hand3 \<in> set (m_handles m)" "wait_done (m_g m) hand3 = Some True"
    using fetch_drains [OF inv asked3_facts(2,1)] asked3_facts(4,5) by auto
  have r: "preach demo_pack (boot pager2 (\<lambda>_. [])) m" by (rule preach_trans [OF m(1) asked3_reach])
  have "m_dev m (h_slot hand3) = demo_pack (hid m hand3)"
    by (rule waited_handle_reads_its_expert [OF pager2_new _ _ r m(2,3)]) (simp_all add: pager2_def)
  with r m(2) show ?thesis by (auto simp: hand3_def)
qed

text \<open>The runs during which a handle stays outstanding.\<close>

inductive held_through :: "(expert_id \<Rightarrow> bytes) \<Rightarrow> expert_handle \<Rightarrow> machine \<Rightarrow> machine \<Rightarrow> bool" for W h where
  start: "h \<in> set (m_handles m) \<Longrightarrow> held_through W h m m"
| step: "held_through W h m m1 \<Longrightarrow> pstep W m1 m2 \<Longrightarrow> h \<in> set (m_handles m2) \<Longrightarrow> held_through W h m m2"

lemma held_through_ends: "held_through W h m m' \<Longrightarrow> h \<in> set (m_handles m) \<and> h \<in> set (m_handles m')"
  by (induction rule: held_through.induct) auto

lemma held_through_preach: "held_through W h m m' \<Longrightarrow> preach W m m'"
  by (induction rule: held_through.induct) (auto intro: preach.here preach.more)

lemma acquire_keeps_view:
  assumes "cache_wf c" "acquire c i = Some (a, c')" "view c t = Some (e, p, r)" "p \<noteq> 0"
  shows "a \<noteq> Miss t ev"
  using ec.acq_miss [OF assms(1), of i t ev c'] assms by auto

lemma pstep_epl: "pstep W m m' \<Longrightarrow> g_epl (m_g m') = g_epl (m_g m)"
  by (erule pstep.cases)
    (auto simp: request_one_def prefetch_one_def dispatch_def complete_job_def Let_def pager_release_def tick_def
      split: option.splits lookup.splits if_splits)

lemma preach_epl: "preach W m m' \<Longrightarrow> g_epl (m_g m') = g_epl (m_g m)"
  by (induction rule: preach.induct) (auto simp: pstep_epl)

text \<open>No step empties a slot or takes back its \<open>Ready\<close> while somebody holds it.\<close>

lemma step_keeps_ready:
  assumes inv: "minv W m" and st: "pstep W m m'" and h: "h \<in> set (m_handles m)"
    and rd: "g_fill (m_g m) ! h_slot h = FReady"
  shows "g_fill (m_g m') ! h_slot h = FReady"
proof -
  let ?s = "h_slot h"
  have wf: "cache_wf (g_cache (m_g m))" using inv by (simp add: minv_def)
  have hb: "?s < length (g_fill (m_g m))" by (rule handle_in_bounds [OF inv h])
  have "0 < pin_count m ?s"
    using h by (auto simp: pin_count_def nonempty_has_size [symmetric])
  then obtain e p r where v: "view (g_cache (m_g m)) ?s = Some (e, p, r)" "p \<noteq> 0"
    using slot_held_pinned [OF inv hb] by blast
  note nomiss = acquire_keeps_view [OF wf _ v]
  show ?thesis
    using st
  proof (cases rule: pstep.cases)
    case (request l e' t g' k)
    then show ?thesis
      using rd nomiss by (fastforce simp: request_one_def dispatch_def nth_list_update split: option.splits lookup.splits if_splits)
  next
    case (stalled l e' g')
    then show ?thesis using rd by (auto simp: request_one_def split: option.splits lookup.splits if_splits)
  next
    case (prefetched l e' g')
    then show ?thesis
      using rd nomiss by (fastforce simp: prefetch_one_def dispatch_def nth_list_update split: option.splits lookup.splits if_splits)
  next
    case (finish xs j ys n g')
    have "g_fill g' = (g_fill (m_g m))[j_slot j := FReady]" using complete_job_Some [OF finish(3)] by blast
    with rd hb finish(1) show ?thesis by (cases "j_slot j = h_slot h") auto
  qed (use rd in \<open>auto simp: pager_release_def tick_def Let_def\<close>)
qed

text \<open>A held, waited-for expert stays put: over every run during which the handle is outstanding,
  the fill state stays \<open>Ready\<close> (so a second \<open>wait\<close> returns at once) and the bytes in the slot do not
  change.\<close>

theorem held_expert_is_stable:
  assumes new: "pager_new mem alloc global_pool env layers epl blob cfg = Ok g"
    and fits: "unat layers * unat (g_slots_per_layer g) < 2 ^ 32" "epl \<noteq> 0"
    and reach: "preach W (boot g dev) m" and waited: "wait_done (m_g m) h = Some True"
    and run: "held_through W h m m'"
  shows "wait_done (m_g m') h = Some True \<and> m_dev m' (h_slot h) = m_dev m (h_slot h)"
proof -
  have inv: "minv W m" by (rule preach_minv [OF reach boot_minv [OF new fits]])
  have inv': "minv W m'" by (rule preach_minv [OF held_through_preach [OF run] inv])
  have rd: "g_fill (m_g m) ! h_slot h = FReady"
    using waited by (auto simp: wait_done_def nth_opt_def split: if_splits)
  have "g_fill (m_g m') ! h_slot h = FReady"
    using run inv rd
  proof (induction rule: held_through.induct)
    case (step m m1 m2)
    then show ?case
      using step_keeps_ready preach_minv [OF held_through_preach] held_through_ends by blast
  qed
  then show ?thesis
    using held_slot_cases [OF inv, of h] held_slot_cases [OF inv', of h] held_through_ends [OF run] rd
      handle_in_bounds [OF inv', of h] preach_epl [OF held_through_preach [OF run]]
    by (auto simp: wait_done_def nth_opt_def hid_def id_of_def)
qed

lemma held_expert_is_stable_witness:
  "\<exists>m m'. preach demo_pack (boot pager2 (\<lambda>_. [])) m \<and> held_through demo_pack hand3 m m' \<and>
     wait_done (m_g m') hand3 = Some True \<and> m_dev m' (h_slot hand3) = m_dev m (h_slot hand3)"
proof -
  note inv = preach_minv [OF asked3_reach boot2_minv]
  obtain m where m: "preach demo_pack asked3 m" "hand3 \<in> set (m_handles m)" "wait_done (m_g m) hand3 = Some True"
    using fetch_drains [OF inv asked3_facts(2,1)] asked3_facts(4,5) by auto
  have r: "preach demo_pack (boot pager2 (\<lambda>_. [])) m" by (rule preach_trans [OF m(1) asked3_reach])
  let ?m' = "m\<lparr>m_g := tick (m_g m)\<rparr>"
  have run: "held_through demo_pack hand3 m ?m'"
    by (rule held_through.step [OF held_through.start [OF m(2)] pstep.ticked]) (simp add: m(2))
  have "wait_done (m_g ?m') hand3 = Some True \<and> m_dev ?m' (h_slot hand3) = m_dev m (h_slot hand3)"
    by (rule held_expert_is_stable [OF pager2_new _ _ r m(3) run]) (simp_all add: pager2_def)
  with r m(2,3) run show ?thesis by blast
qed

text \<open>At most one fetch is ever queued, in progress, or waiting to be published per slot; while it
  is, the slot is in flight, belongs to the fetched expert, and is pinned, so it can be neither handed
  out for another expert nor evicted before the data arrives.\<close>

theorem one_fetch_per_slot:
  assumes new: "pager_new mem alloc global_pool env layers epl blob cfg = Ok g"
    and fits: "unat layers * unat (g_slots_per_layer g) < 2 ^ 32" "epl \<noteq> 0"
    and reach: "preach W (boot g dev) m" and job: "j \<in># jobs_of m"
  shows "size (filter_mset (\<lambda>k. j_slot k = j_slot j) (jobs_of m)) = 1 \<and>
    g_fill (m_g m) ! j_slot j = InFlight \<and>
    (\<exists>p. view (g_cache (m_g m)) (j_slot j) = Some (Some (jid m j), p, False) \<and> p \<noteq> 0)"
proof -
  have inv: "minv W m" by (rule preach_minv [OF reach boot_minv [OF new fits]])
  let ?s = "j_slot j"
  have sl: "?s < length (g_fill (m_g m))" by (rule job_in_bounds [OF inv job])
  have "{#j#} \<subseteq># filter_mset (\<lambda>k. j_slot k = ?s) (jobs_of m)" using job by simp
  from size_mset_mono [OF this] have "1 \<le> size (filter_mset (\<lambda>k. j_slot k = ?s) (jobs_of m))"
    by simp
  moreover have "size (filter_mset (\<lambda>k. j_slot k = ?s) (jobs_of m)) \<le> 1"
    using inv unfolding minv_def by blast
  moreover obtain e p r where v: "view (g_cache (m_g m)) ?s = Some (e, p, r)" "e = Some (jid m j)"
      "r \<longleftrightarrow> g_fill (m_g m) ! ?s = FReady" and fl: "g_fill (m_g m) ! ?s = InFlight"
      and hd: "\<not> j_release j \<longrightarrow> (\<exists>h \<in> set (m_handles m). h_slot h = ?s)"
    using minv_slot [OF inv sl] job unfolding slot_ok_def by blast
  moreover have "0 < pin_count m ?s"
    using job hd by (cases "j_release j") (auto simp: pin_count_def nonempty_has_size [symmetric])
  ultimately show ?thesis
    using slot_held_pinned [OF inv sl] by auto
qed

lemma one_fetch_per_slot_witness:
  "size (filter_mset (\<lambda>k. j_slot k = 0) (jobs_of asked3)) = 1 \<and> g_fill (m_g asked3) ! 0 = InFlight"
proof -
  let ?j = "\<lparr>j_layer = 0, j_expert = 3, j_slot = 0, j_release = False\<rparr>"
  have j: "?j \<in># jobs_of asked3" by (simp add: asked3_facts)
  have "size (filter_mset (\<lambda>k. j_slot k = j_slot ?j) (jobs_of asked3)) = 1 \<and> g_fill (m_g asked3) ! j_slot ?j = InFlight"
    using one_fetch_per_slot [OF pager2_new _ _ asked3_reach j] by (simp add: pager2_def)
  then show ?thesis by simp
qed



lemma pstep_lost: "pstep W m m' \<Longrightarrow> set (m_lost m) \<subseteq> set (m_lost m')"
  by (erule pstep.cases) auto

lemma preach_lost: "preach W m m' \<Longrightarrow> set (m_lost m) \<subseteq> set (m_lost m')"
  by (induction rule: preach.induct) (use pstep_lost in blast)+

text \<open>A worker that returns early from its loop (a failed read or copy) takes its fetch with it:
  the slot stays in flight for ever, so in no later state does \<open>wait\<close> return for any handle on that
  slot, and the expert can never be evicted or fetched again.\<close>

theorem dead_worker_strands_waiters:
  assumes new: "pager_new mem alloc global_pool env layers epl blob cfg = Ok g"
    and fits: "unat layers * unat (g_slots_per_layer g) < 2 ^ 32" "epl \<noteq> 0"
    and reach: "preach W (boot g dev) m" and lost: "j \<in> set (m_lost m)" and later: "preach W m m'"
    and h: "h_slot h = j_slot j"
  shows "wait_done (m_g m') h = Some False \<and>
    (\<exists>p. view (g_cache (m_g m')) (h_slot h) = Some (Some (jid m' j), p, False) \<and> p \<noteq> 0)"
proof -
  have inv: "minv W m'" by (rule preach_minv [OF later preach_minv [OF reach boot_minv [OF new fits]]])
  have j: "j \<in># jobs_of m'" using preach_lost [OF later] lost by (auto simp: jobs_of_def)
  let ?s = "j_slot j"
  have sl: "?s < length (g_fill (m_g m'))" by (rule job_in_bounds [OF inv j])
  obtain e p r where v: "view (g_cache (m_g m')) ?s = Some (e, p, r)" "e = Some (jid m' j)"
      "r \<longleftrightarrow> g_fill (m_g m') ! ?s = FReady" and fl: "g_fill (m_g m') ! ?s = InFlight"
      and hd: "\<not> j_release j \<longrightarrow> (\<exists>h \<in> set (m_handles m'). h_slot h = ?s)"
    using minv_slot [OF inv sl] j unfolding slot_ok_def by blast
  moreover have "0 < pin_count m' ?s"
    using j hd by (cases "j_release j") (auto simp: pin_count_def nonempty_has_size [symmetric])
  ultimately show ?thesis
    using slot_held_pinned [OF inv sl] sl h by (auto simp: wait_done_def nth_opt_def)
qed

lemma dead_worker_strands_waiters_witness:
  "\<exists>m. preach demo_pack asked3 m \<and> wait_done (m_g m) hand3 = Some False \<and> m_lost m \<noteq> []"
proof -
  let ?j = "\<lparr>j_layer = 0, j_expert = 3, j_slot = 0, j_release = False\<rparr>"
  let ?m1 = "asked3\<lparr>m_g := (m_g asked3)\<lparr>g_queue := []\<rparr>, m_busy := [?j]\<rparr>"
  let ?m2 = "?m1\<lparr>m_busy := [], m_lost := [?j]\<rparr>"
  have 1: "pstep demo_pack asked3 ?m1"
    using pstep.take_job [of asked3 "[]" ?j "[]" demo_pack] by (simp add: asked3_def boot_def dispatch_def pager2_def)
  have 2: "pstep demo_pack ?m1 ?m2"
    using pstep.worker_dies [of ?m1 "[]" ?j "[]" demo_pack] by (simp add: asked3_def boot_def)
  have r: "preach demo_pack asked3 ?m2" by (rule preach.more [OF preach_step [OF 1] 2])
  have "wait_done (m_g ?m2) hand3 = Some False"
    using dead_worker_strands_waiters [OF pager2_new _ _ preach_trans [OF r asked3_reach] _ preach.here, of ?j hand3]
    by (simp add: pager2_def hand3_def)
  with r show ?thesis by (intro exI [of _ ?m2]) simp
qed

end
