(* ===== verification/Pager_Request.thy ===== *)
theory Pager_Request
  imports Pager_Props
begin

text \<open>
  The whole of \<open>Pager::request\<close> on its own: when a pool has room for the experts asked for, the
  request never waits, cannot fail, and returns handles that all stay valid together (the guarantee
  the decoder's waves rely on); what a request that gives up leaves behind; and the arena the pager
  slices its slots from.
\<close>

section \<open>Requests with room\<close>

definition pinned_slots :: "expert_cache \<Rightarrow> slot set" where
  "pinned_slots c = {s. \<exists>e p r. view c s = Some (e, p, r) \<and> p \<noteq> 0}"

definition holds :: "expert_cache \<Rightarrow> slot \<Rightarrow> expert_id \<Rightarrow> bool" where
  "holds c s i \<longleftrightarrow> (\<exists>p r. view c s = Some (Some i, p, r) \<and> p \<noteq> 0)"

text \<open>Every pin counter can absorb \<open>n\<close> more pins.\<close>

definition pins_room :: "expert_cache \<Rightarrow> nat \<Rightarrow> bool" where
  "pins_room c n \<longleftrightarrow> (\<forall>s e p r. view c s = Some (e, p, r) \<longrightarrow> unat p + n < 2 ^ 32)"

lemma acquire_pool:
  assumes "cache_wf c" "acquire c i = Some (a, c')"
  shows "pool_of c' k = pool_of c k" "length (c_slots c') = length (c_slots c)"
proof -
  have r: "cache_run c [Acquire i] = Some c'" using assms(2) by simp
  show "pool_of c' k = pool_of c k"
    using pool_eq [OF assms(1) acquire_wf [OF assms]] run_shape [OF r] by blast
  show "length (c_slots c') = length (c_slots c)" using run_shape [OF r] by blast
qed

lemma acquire_with_room:
  assumes wf: "cache_wf c" and room: "card (pinned_slots c \<inter> pool_of c i) < card (pool_of c i)"
    and pins: "pins_room c (Suc n)"
  obtains s c' where "acquire c i = Some (Hit s, c') \<or> (\<exists>ev. acquire c i = Some (Miss s ev, c'))"
    "s < length (c_slots c)" "pinned_slots c' \<subseteq> insert s (pinned_slots c)" "holds c' s i" "pins_room c' n"
    "\<And>t k. holds c t k \<Longrightarrow> holds c' t k"
proof -
  obtain a c' where a: "acquire c i = Some (a, c')" using acquire_total [OF wf] by blast
  have p1: "p \<noteq> - 1" if "view c s = Some (e, p, r)" for s e p r
  proof
    assume "p = - 1"
    then have "unat p = 2 ^ 32 - 1" by (simp add: unat_max_word)
    moreover have "unat p + Suc n < 2 ^ 32" using pins that unfolding pins_room_def by blast
    ultimately show False by simp
  qed
  have bump: "unat (p + 1) + n < 2 ^ 32" if "view c s = Some (e, p, r)" for s e p r
    using unat_inc [OF p1 [OF that]] pins that by (auto simp: pins_room_def)
  show thesis
  proof (cases a)
    case (Hit s)
    obtain p r where v: "view c s = Some (Some i, p, r)" "view c' = (view c)(s \<mapsto> (Some i, p + 1, r))"
      using ec.acq_hit [OF wf a [unfolded Hit]] by blast
    show thesis
    proof (rule that)
      show "acquire c i = Some (Hit s, c') \<or> (\<exists>ev. acquire c i = Some (Miss s ev, c'))"
        using a Hit by simp
      show "s < length (c_slots c)" by (rule view_in [OF v(1)])
      show "pinned_slots c' \<subseteq> insert s (pinned_slots c)" by (auto simp: pinned_slots_def v(2))
      show "holds c' s i" using inc_nonzero [OF p1 [OF v(1)]] by (simp add: holds_def v(2))
      show "pins_room c' n"
        using pins bump [OF v(1)] by (fastforce simp: pins_room_def v(2))
      show "holds c' t k" if "holds c t k" for t k
        using that v(1) inc_nonzero [OF p1 [OF v(1)]] by (auto simp: holds_def v(2))
    qed
  next
    case (Miss s ev)
    obtain r where v: "view c s = Some (ev, 0, r)" "view c' = (view c)(s \<mapsto> (Some i, 1, False))"
      using ec.acq_miss [OF wf a [unfolded Miss]] by blast
    show thesis
    proof (rule that)
      show "acquire c i = Some (Hit s, c') \<or> (\<exists>ev. acquire c i = Some (Miss s ev, c'))"
        using a Miss by simp
      show "s < length (c_slots c)" by (rule view_in [OF v(1)])
      show "pinned_slots c' \<subseteq> insert s (pinned_slots c)" by (auto simp: pinned_slots_def v(2))
      show "holds c' s i" unfolding holds_def v(2) by (intro exI [of _ 1] exI [of _ False]) simp
      show "pins_room c' n"
        using pins bump [OF v(1)] by (fastforce simp: pins_room_def v(2))
      show "holds c' t k" if "holds c t k" for t k
        using that v(1) by (auto simp: holds_def v(2))
    qed
  next
    case Stalled
    have "pool_of c i \<subseteq> pinned_slots c"
      using acquire_Stalled(3) [OF wf a [unfolded Stalled]] pool_sub [OF wf]
      by (auto simp: pinned_slots_def view_eq)
    then have "pinned_slots c \<inter> pool_of c i = pool_of c i" by blast
    with room show thesis by simp
  qed
qed

lemma finite_pool: "cache_wf c \<Longrightarrow> finite (pool_of c i)"
  by (erule wf_obtain [where i = i]) auto

lemma request_loop_with_room:
  assumes "cache_wf (g_cache g)"
    and "\<forall>e \<in> set es. pool_of (g_cache g) (id_of g layer e) = P"
    and "card (pinned_slots (g_cache g) \<inter> P) + length es \<le> card P"
    and "pins_room (g_cache g) (length es)"
    and "length (g_fill g) = length (c_slots (g_cache g))" "length (g_dev_slots g) = length (c_slots (g_cache g))"
    and "\<forall>h \<in> set out. holds (g_cache g) (h_slot h) (id_of g (h_layer h) (h_expert h))"
  shows "\<exists>hs g'. request_loop entry_len wake (length es) g layer es out = Some (Ok (out @ hs), g') \<and>
    map h_expert hs = es \<and> (\<forall>h \<in> set hs. h_layer h = layer) \<and> g_epl g' = g_epl g \<and>
    (\<forall>h \<in> set (out @ hs). holds (g_cache g') (h_slot h) (id_of g' (h_layer h) (h_expert h)))"
  using assms
proof (induction es arbitrary: g out)
  case Nil
  then show ?case by simp
next
  case (Cons e es)
  let ?i = "id_of g layer e" and ?c = "g_cache g"
  have P: "pool_of ?c ?i = P" using Cons.prems(2) by simp
  have lt: "card (pinned_slots ?c \<inter> pool_of ?c ?i) < card (pool_of ?c ?i)" using Cons.prems(3) P by simp
  have pr: "pins_room ?c (Suc (length es))" using Cons.prems(4) by simp
  obtain s c' where acq: "acquire ?c ?i = Some (Hit s, c') \<or> (\<exists>ev. acquire ?c ?i = Some (Miss s ev, c'))"
    and s: "s < length (c_slots ?c)" "pinned_slots c' \<subseteq> insert s (pinned_slots ?c)" "holds c' s ?i"
      "pins_room c' (length es)" and keep: "\<And>t k. holds ?c t k \<Longrightarrow> holds c' t k"
    using acquire_with_room [OF Cons.prems(1) lt pr] by metis
  then obtain a where a: "acquire ?c ?i = Some (a, c')" by blast
  have wf': "cache_wf c'" by (rule acquire_wf [OF Cons.prems(1) a])
  note sh = acquire_pool [OF Cons.prems(1) a]
  define g' where "g' = (case a of Hit _ \<Rightarrow> g\<lparr>g_cache := c'\<rparr> | _ \<Rightarrow> dispatch g c' layer e s False)"
  have one: "request_one g layer e = Some (Some s, g')"
    using acq a s(1) Cons.prems(5) by (auto simp: request_one_def g'_def)
  have g': "g_cache g' = c'" "g_epl g' = g_epl g" "length (g_fill g') = length (g_fill g)" "g_dev_slots g' = g_dev_slots g"
    by (auto simp: g'_def dispatch_def split: lookup.splits)
  have ids: "id_of g' = id_of g" by (simp add: id_of_def g' fun_eq_iff)
  obtain h where h: "mk_handle entry_len g' layer e s = Some h" "h_layer h = layer" "h_expert h = e" "h_slot h = s"
    using s(1) Cons.prems(6) by (simp add: mk_handle_def g' nth_opt_def)
  have fin: "finite P" using finite_pool [OF Cons.prems(1)] P by metis
  have "card (pinned_slots c' \<inter> P) \<le> card (insert s (pinned_slots ?c \<inter> P))"
    using s(2) fin by (intro card_mono) auto
  also have "\<dots> \<le> Suc (card (pinned_slots ?c \<inter> P))" using fin by (simp add: card_insert_le_m1 card_insert_if)
  finally have c2: "card (pinned_slots c' \<inter> P) + length es \<le> card P" using Cons.prems(3) by simp
  obtain hs g'' where IH: "request_loop entry_len wake (length es) g' layer es (out @ [h]) = Some (Ok ((out @ [h]) @ hs), g'')"
    "map h_expert hs = es" "\<forall>h \<in> set hs. h_layer h = layer" "g_epl g'' = g_epl g'"
    "\<forall>h \<in> set ((out @ [h]) @ hs). holds (g_cache g'') (h_slot h) (id_of g'' (h_layer h) (h_expert h))"
    using Cons.IH [of g' "out @ [h]"] wf' Cons.prems(2,5-7) c2 s(3,4) sh keep h by (auto simp: g' ids)
  show ?case
    using IH h one by (intro exI [of _ "h # hs"] exI [of _ g'']) (auto simp: g')
qed

lemma capacity_is_pool_size:
  assumes "cache_wf c"
  shows "slots_per_partition c = Some (card (pool_of c i))"
proof -
  obtain L p where L: "cache_shape c L" "p < length (c_parts c)" "pool_of c i = {p * L..<p * L + L}"
    using wf_obtain [OF assms, of i] by metis
  then have "0 < length (c_parts c)" by (cases "c_parts c") auto
  with shape_facts [OF L(1) this] L show ?thesis by (simp add: slots_per_partition_def nth_opt_def)
qed

text \<open>A request whose pool has as many unpinned slots as there are experts never waits and never
  fails, whatever the condition variable would have done: it returns one handle per expert, in order,
  and when it returns every handle's slot is pinned and holds its expert, so no later expert of the
  same call has evicted an earlier one.\<close>

theorem request_with_room_succeeds:
  assumes wf: "cache_wf (g_cache g)" and ne: "experts \<noteq> []"
    and pool: "\<forall>e \<in> set experts. pool_of (g_cache g) (id_of g layer e) = P"
    and room: "card (pinned_slots (g_cache g) \<inter> P) + length experts \<le> card P"
    and pins: "pins_room (g_cache g) (length experts)"
    and arr: "length (g_fill g) = length (c_slots (g_cache g))" "length (g_dev_slots g) = length (c_slots (g_cache g))"
  shows "\<exists>hs g'. request entry_len wake (length experts) g layer experts = Some (Ok hs, g') \<and>
    map h_expert hs = experts \<and>
    (\<forall>h \<in> set hs. h_layer h = layer \<and> holds (g_cache g') (h_slot h) (id_of g layer (h_expert h)))"
proof -
  obtain hs g' where l: "request_loop entry_len wake (length experts) g layer experts [] = Some (Ok ([] @ hs), g')"
    "map h_expert hs = experts" "\<forall>h \<in> set hs. h_layer h = layer" "g_epl g' = g_epl g"
    "\<forall>h \<in> set ([] @ hs). holds (g_cache g') (h_slot h) (id_of g' (h_layer h) (h_expert h))"
    using request_loop_with_room [OF wf pool room pins arr, of "[]" entry_len wake] by fastforce
  obtain e where "e \<in> set experts" using ne by (meson last_in_set)
  then have "slots_per_partition (g_cache g) = Some (card P)" using capacity_is_pool_size [OF wf] pool by metis
  moreover have "id_of g' = id_of g" using l(4) by (simp add: id_of_def fun_eq_iff)
  ultimately show ?thesis
    using l room by (intro exI [of _ hs] exI [of _ g']) (auto simp: request_def)
qed

lemma request_with_room_succeeds_witness:
  "\<exists>hs g'. request (\<lambda>_ _. 100) (\<lambda>_ g. (g, True)) 2 pager2 0 [3, 5] = Some (Ok hs, g') \<and> map h_expert hs = [3, 5]"
proof -
  have wf: "cache_wf (g_cache pager2)" using boot2_minv by (simp add: minv_def boot_def)
  have vw: "view (g_cache pager2) = (\<lambda>s. if s < 2 then Some (None, 0, False) else None)"
    using partitioned_view [OF cache2_new] by (simp add: pager2_def)
  have ln: "length (c_slots (g_cache pager2)) = 2"
    using partitioned_view [OF cache2_new] by (simp add: pager2_def)
  have ln2: "length (g_fill pager2) = 2" "length (g_dev_slots pager2) = 2" by (simp_all add: pager2_def)
  have pl: "length (c_parts cache2) = 1" "p_base (c_parts cache2 ! 0) = 0" "p_len (c_parts cache2 ! 0) = 2"
    by (simp_all add: cache2_def partitioned_def)
  have po: "pool_of (g_cache pager2) i = {0..<2}" for i
    using pl by (simp add: pool_of_def part_of_def pager2_def numeral_2_eq_2)
  have "pinned_slots (g_cache pager2) = {}" by (auto simp: pinned_slots_def vw split: if_splits)
  moreover have "pins_room (g_cache pager2) 2" by (auto simp: pins_room_def vw split: if_splits)
  ultimately have "\<exists>hs g'. request (\<lambda>_ _. 100) (\<lambda>_ g. (g, True)) (length [3 :: u16, 5]) pager2 0 [3, 5] =
      Some (Ok hs, g') \<and> map h_expert hs = [3, 5] \<and>
      (\<forall>h \<in> set hs. h_layer h = 0 \<and> holds (g_cache g') (h_slot h) (id_of pager2 0 (h_expert h)))"
    using po ln ln2 by (intro request_with_room_succeeds [OF wf, where P = "{0..<2}"]) (simp_all add: numeral_2_eq_2)
  then show ?thesis by (auto simp: numeral_2_eq_2)
qed

section \<open>Requests that give up\<close>

lemma fst_snd_the:
  "(case x of Some (Some s, g) \<Rightarrow> s = n | _ \<Rightarrow> False) \<Longrightarrow> x = Some (Some n, snd (the x))"
  by (auto split: option.splits prod.splits)

lemma request_one_wf:
  assumes "request_one g l e = Some (x, g')" "cache_wf (g_cache g)"
  shows "cache_wf (g_cache g')"
proof -
  have "\<exists>r. acquire (g_cache g) (id_of g l e) = Some (r, g_cache g')"
    using assms(1) by (auto simp: request_one_def dispatch_def split: option.splits lookup.splits if_splits)
  with acquire_wf [OF assms(2)] show ?thesis by blast
qed

text \<open>A request that gives up keeps the pins it took. If the pool of the second expert is wedged
  when the grace period ends (nobody having dropped the first expert's pin in the meantime), the whole
  request fails, no handle is returned, and the slot of the first expert is still pinned: nobody is
  left who could release it.\<close>

theorem deadlock_error_keeps_pin:
  assumes wf: "cache_wf (g_cache g)" and pins: "pins_room (g_cache g) 1"
    and cap: "slots_per_partition (g_cache g) = Some cap" "2 \<le> cap"
    and first: "request_one g layer e1 = Some (Some s, g1)" "mk_handle entry_len g1 layer e1 s = Some h"
    and second: "request_one g1 layer e2 = Some (None, g2)"
    and woken: "wake 0 g2 = (g3, True)" "is_wedged (g_cache g3) (id_of g3 layer e2) = Some True"
    and kept: "\<forall>t i. holds (g_cache g2) t i \<longrightarrow> holds (g_cache g3) t i"
  shows "request entry_len wake 2 g layer [e1, e2] =
      Some (Err (Deadlock (unat (g_slots_per_layer g3)) layer), g3) \<and>
    holds (g_cache g3) s (id_of g layer e1)"
proof -
  let ?i = "id_of g layer e1"
  obtain a c where a: "acquire (g_cache g) ?i = Some (a, c)" using acquire_total [OF wf] by blast
  have bump: "p + 1 \<noteq> 0" if "view (g_cache g) t = Some (e, p, r)" for t e p r
  proof -
    have "unat p + 1 < 2 ^ 32" using pins that unfolding pins_room_def by blast
    then have "p \<noteq> - 1" by (auto simp: unat_max_word)
    then show ?thesis by (rule inc_nonzero)
  qed
  have "g_cache g1 = c \<and> holds c s ?i"
  proof (cases a)
    case (Hit t)
    then have t: "t = s" "g_cache g1 = c" using first(1) a by (auto simp: request_one_def)
    with ec.acq_hit [OF wf a [unfolded Hit]] bump show ?thesis by (fastforce simp: holds_def)
  next
    case (Miss t ev)
    then have t: "t = s" "g_cache g1 = c" using first(1) a by (auto simp: request_one_def dispatch_def split: if_splits)
    have "view c s = Some (Some ?i, 1, False)" using ec.acq_miss [OF wf a [unfolded Miss]] t by auto
    then have "holds c s ?i" unfolding holds_def by (intro exI [of _ 1] exI [of _ False]) simp
    with t show ?thesis by simp
  next
    case Stalled
    with first(1) a show ?thesis by (auto simp: request_one_def)
  qed
  moreover have wf1: "cache_wf c" by (rule acquire_wf [OF wf a])
  moreover have "g_cache g2 = g_cache g1"
    using second calculation ec.acq_stalled [of c]
    by (auto simp: request_one_def split: option.splits lookup.splits if_splits)
  ultimately have "holds (g_cache g3) s ?i" using kept by auto
  with assms show ?thesis by (simp add: request_def numeral_2_eq_2)
qed

text \<open>
  Slot 0 holds expert 3, published and pinned by some caller. A request for 5 and 7 takes slot 1 for
  expert 5, then stalls on 7; when the fetch of 5 completes, the pool is wedged and the request
  fails. The pin it took on slot 1 stays, and no handle for it was ever returned.
\<close>

definition empty_pager :: pager where
  "empty_pager = \<lparr>g_cache = cache2, g_fill = [FEmpty, FEmpty], g_queue = [], g_dev_slots = [0, 1],
     g_slots_per_layer = 2, g_span = 1, g_epl = 8, g_global = False, g_decay_tokens = 4, g_ticks = 0,
     g_bytes = 0, g_fetches = 0, g_fetch_counts = replicate 8 0\<rparr>"

definition held_pager :: pager where
  "held_pager = (let g = empty_pager; g1 = snd (the (request_one g 0 3))
     in the (complete_job g1 (hd (g_queue g1)) 1))"

definition fetch_lands :: "nat \<Rightarrow> pager \<Rightarrow> pager \<times> bool" where
  "fetch_lands n g = (the (complete_job g (last (g_queue g)) 1), True)"

definition asked5 :: pager where
  "asked5 = snd (the (request_one held_pager 0 5))"

definition stalled7 :: pager where
  "stalled7 = snd (the (request_one asked5 0 7))"

definition landed5 :: pager where
  "landed5 = fst (fetch_lands 1 stalled7)"

lemma deadlock_error_keeps_pin_witness:
  "s_pins (c_slots (g_cache held_pager) ! 1) = 0 \<and>
   request (\<lambda>_ _. 1) fetch_lands 2 held_pager 0 [5, 7] = Some (Err (Deadlock 2 0), landed5) \<and>
   s_pins (c_slots (g_cache landed5) ! 1) = 1 \<and> holds (g_cache landed5) 1 5"
proof -
  have a: "request_one held_pager 0 5 = Some (Some 1, asked5)"
  proof -
    have "(case request_one held_pager 0 5 of Some (Some s, g) \<Rightarrow> s = 1 | _ \<Rightarrow> False)" by code_simp
    then show ?thesis unfolding asked5_def by (rule fst_snd_the)
  qed
  have b: "request_one asked5 0 7 = Some (None, stalled7)"
  proof -
    have "(case request_one asked5 0 7 of Some (None, g) \<Rightarrow> True | _ \<Rightarrow> False)" by code_simp
    then show ?thesis unfolding stalled7_def by (auto split: option.splits)
  qed
  have w: "fetch_lands n stalled7 = (landed5, True)" for n by (simp add: fetch_lands_def landed5_def)
  have h: "\<exists>h. mk_handle (\<lambda>_ _. 1) asked5 0 5 1 = Some h"
  proof -
    have "length (g_dev_slots asked5) = 2" by code_simp
    then show ?thesis by (simp add: mk_handle_def nth_opt_def)
  qed
  have d: "is_wedged (g_cache landed5) (id_of landed5 0 7) = Some True" "g_slots_per_layer landed5 = 2"
    "s_pins (c_slots (g_cache landed5) ! 1) = 1" "s_pins (c_slots (g_cache held_pager) ! 1) = 0"
    "slots_per_partition (g_cache held_pager) = Some 2"
    by code_simp+
  have wf: "cache_wf (g_cache held_pager)"
  proof -
    let ?g1 = "snd (the (request_one empty_pager 0 3))"
    have "(case request_one empty_pager 0 3 of Some (Some s, g) \<Rightarrow> s = 0 | _ \<Rightarrow> False)" by code_simp
    then have 1: "request_one empty_pager 0 3 = Some (Some 0, ?g1)" by (rule fst_snd_the)
    have "cache_wf (g_cache empty_pager)"
      using partitioned_wf [OF cache2_new] by (simp add: empty_pager_def)
    then have w1: "cache_wf (g_cache ?g1)" by (rule request_one_wf [OF 1])
    have "\<not> Option.is_none (complete_job ?g1 (hd (g_queue ?g1)) 1)" by code_simp
    then have "complete_job ?g1 (hd (g_queue ?g1)) 1 = Some held_pager"
      by (auto simp: held_pager_def Let_def Option.is_none_def)
    from complete_job_wf [OF w1 this] show ?thesis .
  qed
  have land: "complete_job stalled7 (last (g_queue stalled7)) 1 = Some landed5" "\<not> j_release (last (g_queue stalled7))"
  proof -
    have "\<not> Option.is_none (complete_job stalled7 (last (g_queue stalled7)) 1)" by code_simp
    then show "complete_job stalled7 (last (g_queue stalled7)) 1 = Some landed5"
      by (auto simp: landed5_def fetch_lands_def Option.is_none_def)
    show "\<not> j_release (last (g_queue stalled7))" by code_simp
  qed
  have "list_all (\<lambda>x. s_pins x \<le> 1) (c_slots (g_cache held_pager))" by code_simp
  then have pr: "pins_room (g_cache held_pager) 1"
    by (auto simp: pins_room_def view_eq list_all_length word_le_nat_alt split: if_splits)
  have "request (\<lambda>_ _. 1) fetch_lands 2 held_pager 0 [5, 7] = Some (Err (Deadlock (unat (g_slots_per_layer landed5)) 0), landed5) \<and>
      holds (g_cache landed5) 1 (id_of held_pager 0 5)"
  proof (rule deadlock_error_keeps_pin [where wake = fetch_lands, OF wf pr d(5) _ a _ b w [of 0] d(1)])
    show "\<forall>t i. holds (g_cache stalled7) t i \<longrightarrow> holds (g_cache landed5) t i"
      using complete_job_Some [OF land(1)] land(2) by (auto simp: holds_def)
    show "mk_handle (\<lambda>_ _. 1) asked5 0 5 1 = Some (the (mk_handle (\<lambda>_ _. 1) asked5 0 5 1))"
      using h by auto
  qed simp
  moreover have "id_of held_pager 0 5 = 5" by code_simp
  ultimately show ?thesis using d by simp
qed

section \<open>The arena\<close>

lemma align_span_ge: "n \<le> align_span n"
  unfolding align_span_def using div_mult_mod_eq [of "n + 4095" 4096] mod_less_divisor [of 4096 "n + 4095"]
  by linarith

lemma align_span_dvd: "4096 dvd align_span n"
  by (simp add: align_span_def)

text \<open>The clamp never hands out more slots per layer than asked for, never zero when a reserve is
  set, and leaves the reserve free: all layers' slots together fit the memory above the reserve.\<close>

theorem clamp_leaves_reserve:
  assumes ok: "clamp_slots (Some (free, tot)) layers spn cfg = Ok n" and res: "0 < cfg_reserve cfg"
    and layers: "layers \<noteq> 0" and spn: "0 < spn" "unat layers * spn < 2 ^ 64"
    and asked: "0 < cfg_slots cfg" and small: "unat free div (unat layers * spn) < 2 ^ 32"
  shows "n \<le> cfg_slots cfg \<and> n \<noteq> 0 \<and>
    unat n * (unat layers * spn) \<le> unat free - unat (cfg_reserve cfg)"
proof -
  define per where "per = (ucast layers * of_nat spn :: u64)"
  have s64: "unat (of_nat spn :: u64) = spn"
  proof -
    have "spn \<le> unat layers * spn" using layers
      by (metis One_nat_def Suc_leI mult.commute mult_le_mono2 mult_1_right not_gr_zero unat_eq_0)
    then have "spn < 2 ^ 64" using spn(2) by linarith
    then show ?thesis by (simp add: unat_of_nat take_bit_eq_mod)
  qed
  have l64: "unat (ucast layers :: u64) = unat layers"
    by (simp add: unsigned_ucast_eq take_bit_nat_eq_self_iff order.strict_trans [OF unsigned_less])
  have per: "unat per = unat layers * spn"
    unfolding per_def using spn(2) by (subst unat_mult_lem [THEN iffD1]) (simp_all add: s64 l64)
  have perpos: "0 < unat per" using per layers spn by (simp add: unat_gt_0)
  then have "1 \<le> per" by (simp add: word_le_nat_alt)
  then have mx: "max per 1 = per" by (rule max_absorb1)
  define spare where "spare = sat_sub free (cfg_reserve cfg)"
  have sp: "unat spare = unat free - unat (cfg_reserve cfg)"
    by (auto simp: spare_def sat_sub_def unat_sub word_le_nat_alt)
  define fits where "fits = (ucast (spare div per) :: u32)"
  have dv: "unat spare div unat per \<le> unat free div unat per" by (rule div_le_mono) (simp add: sp)
  have f: "unat fits = unat spare div unat per"
    using dv small by (simp add: fits_def unsigned_ucast_eq take_bit_eq_mod per unat_div)
  have le: "unat fits * unat per \<le> unat spare" by (simp add: f)
  have n: "n = (if fits < cfg_slots cfg then fits else cfg_slots cfg)" "fits < cfg_slots cfg \<longrightarrow> fits \<noteq> 0"
    using ok res unfolding clamp_slots_def Let_def
    by (auto simp: per_def [symmetric] mx spare_def [symmetric] fits_def [symmetric] split: if_splits)
  have "n \<le> fits" "n \<le> cfg_slots cfg" "n \<noteq> 0" using n asked by (auto simp: not_less)
  then have "unat n * unat per \<le> unat fits * unat per" by (simp add: word_le_nat_alt)
  then have "unat n * unat per \<le> unat spare" using le by linarith
  with sp per \<open>n \<le> cfg_slots cfg\<close> \<open>n \<noteq> 0\<close> show ?thesis by simp
qed

lemma clamp_leaves_reserve_witness:
  "clamp_slots (Some (1000000, 2000000)) 2 4096 (default_config\<lparr>cfg_reserve := 900000\<rparr>) = Ok 12 \<and>
   unat (12 :: u32) * (unat (2 :: u16) * 4096) \<le> unat (1000000 :: u64) - unat (900000 :: u64)"
proof -
  have e: "clamp_slots (Some (1000000, 2000000)) 2 4096 (default_config\<lparr>cfg_reserve := 900000\<rparr>) = Ok 12"
    by (simp add: clamp_slots_def default_config_def sat_sub_def Let_def max_def word_le_nat_alt)
  from clamp_leaves_reserve [OF e] e show ?thesis by (simp add: default_config_def)
qed

lemma alloc_arenas_nth:
  assumes "alloc_arenas alloc n spn ls = Some (arenas, dev)"
  shows "length arenas = length ls \<and> length dev = length ls * n \<and>
    (\<forall>k < length ls. alloc (ls ! k) = Some (arenas ! k) \<and>
       (\<forall>s < n. dev ! (k * n + s) = arenas ! k + of_nat s * of_nat spn))"
  using assms
proof (induction ls arbitrary: arenas dev)
  case (Cons l ls)
  then obtain base as ds where *: "alloc l = Some base" "alloc_arenas alloc n spn ls = Some (as, ds)"
    "arenas = base # as" "dev = map (\<lambda>s. base + of_nat s * of_nat spn) [0..<n] @ ds"
    by (auto split: option.splits)
  note IH = Cons.IH [OF *(2)]
  have "alloc ((l # ls) ! k) = Some (arenas ! k) \<and> (\<forall>s < n. dev ! (k * n + s) = arenas ! k + of_nat s * of_nat spn)"
    if "k < length (l # ls)" for k
  proof (cases k)
    case (Suc k')
    with that IH * show ?thesis by (auto simp: nth_append algebra_simps)
  qed (use * in \<open>simp add: nth_append\<close>)
  with IH * show ?case by simp
qed simp



end
