(* ===== verification/Ram_Tier.thy ===== *)
theory Ram_Tier
  imports Pager_Safety "HOL-Library.Multiset"
begin

text \<open>
  The host-RAM tier of \<open>llmpager-cuda/src/pager.rs\<close> (\<open>RamTier\<close>) and what feeds it: slabs of one
  anonymous mapping, handed out by a single-pool expert cache under 16-bit keys. \<open>t_slab\<close> is the
  mapping, one byte string per slab. The cache is used through the contract \<open>read_through_pool\<close>.
\<close>

section \<open>Model\<close>

record ram_tier =
  t_cache :: expert_cache
  t_slab :: "slot \<Rightarrow> bytes"
  t_bytes :: nat
  t_span :: nat
  t_epl :: u32
  t_hits :: u64

text \<open>\<open>mapped\<close> says whether \<open>mmap\<close> succeeded; the fresh mapping reads as zeros.\<close>

definition ram_new :: "bool \<Rightarrow> u64 \<Rightarrow> nat \<Rightarrow> u16 \<Rightarrow> u16 \<Rightarrow> (unit, ram_tier option) res" where
  "ram_new mapped nbytes spn layers epl =
     (if spn = 0 then Panic
      else let slots = of_nat (unat nbytes div spn) :: u32;
               tot = ucast layers * ucast epl :: u32
           in if slots = 0 \<or> 65535 < tot then Ok None
              else if \<not> mapped then Ok None
              else (case cache_new 1 slots (max slots 64 * 4) of None \<Rightarrow> Panic
                    | Some c \<Rightarrow> Ok (Some \<lparr>t_cache = c, t_slab = (\<lambda>_. zeros spn), t_bytes = unat slots * spn,
                                 t_span = spn, t_epl = ucast epl, t_hits = 0\<rparr>)))"

definition ram_key :: "ram_tier \<Rightarrow> u16 \<Rightarrow> u16 \<Rightarrow> u16" where
  "ram_key t layer expert = ucast (ucast layer * t_epl t + ucast expert)"

text \<open>
  \<open>get\<close>: the bytes copied out, if any. \<open>None\<close> is a panic. The two critical sections of the source
  are one here: the slab is pinned in between.
\<close>

definition ram_get :: "ram_tier \<Rightarrow> u16 \<Rightarrow> u16 \<Rightarrow> (bytes option \<times> ram_tier) option" where
  "ram_get t layer expert =
     (case lookup_ready (t_cache t) (ucast (ram_key t layer expert)) of
        None \<Rightarrow> None
      | Some (None, c) \<Rightarrow> Some (None, t\<lparr>t_cache := c\<rparr>)
      | Some (Some s, c) \<Rightarrow>
          (case release c s of None \<Rightarrow> None
           | Some c' \<Rightarrow> Some (Some (take (t_span t) (t_slab t s)), t\<lparr>t_cache := c', t_hits := t_hits t + 1\<rparr>)))"

definition ram_put :: "ram_tier \<Rightarrow> u16 \<Rightarrow> u16 \<Rightarrow> bytes \<Rightarrow> ram_tier option" where
  "ram_put t layer expert src =
     (case acquire (t_cache t) (ucast (ram_key t layer expert)) of
        None \<Rightarrow> None
      | Some (Hit s, c) \<Rightarrow> map_option (\<lambda>c'. t\<lparr>t_cache := c'\<rparr>) (release c s)
      | Some (Stalled, c) \<Rightarrow> Some (t\<lparr>t_cache := c\<rparr>)
      | Some (Miss s _, c) \<Rightarrow>
          let slab = (t_slab t)(s := take (t_span t) src) in
          (case publish c s of None \<Rightarrow> None | Some c1 \<Rightarrow>
           case release c1 s of None \<Rightarrow> None | Some c2 \<Rightarrow> Some (t\<lparr>t_cache := c2, t_slab := slab\<rparr>)))"

text \<open>
  \<open>prewarm\<close>: the indices it loads (the highest counts that fit, in pack order) and the puts.
  \<open>ranked\<close> is the sorted list the unstable sort produced: any permutation of the candidates in
  descending order of count.
\<close>

definition candidates :: "u64 list \<Rightarrow> (u64 \<times> nat) list" where
  "candidates counts = filter (\<lambda>(c, _). 0 < c) (zip counts [0..<length counts])"

definition warm_order :: "(u64 \<times> nat) list \<Rightarrow> nat \<Rightarrow> nat list" where
  "warm_order ranked capacity = sort (map snd (take capacity ranked))"

fun warm_puts :: "(u16 \<Rightarrow> u16 \<Rightarrow> bytes option) \<Rightarrow> nat \<Rightarrow> ram_tier \<Rightarrow> nat list \<Rightarrow> nat \<Rightarrow> (unit, nat \<times> ram_tier) res" where
  "warm_puts blob epl t [] n = Ok (n, t)"
| "warm_puts blob epl t (i # is) n =
     (if epl = 0 then Panic
      else let layer = of_nat (i div epl); expert = of_nat (i mod epl) in
        (case blob layer expert of None \<Rightarrow> Err ()
         | Some b \<Rightarrow> (case ram_put t layer expert b of None \<Rightarrow> Panic
                      | Some t' \<Rightarrow> warm_puts blob epl t' is (n + 1))))"

definition prewarm :: "(u16 \<Rightarrow> u16 \<Rightarrow> bytes option) \<Rightarrow> nat \<Rightarrow> ram_tier option \<Rightarrow> (u64 \<times> nat) list
    \<Rightarrow> (unit, nat \<times> ram_tier option) res" where
  "prewarm blob epl tier ranked =
     (case tier of None \<Rightarrow> Ok (0, None)
      | Some t \<Rightarrow> if t_span t = 0 then Panic
          else bind_res (warm_puts blob epl t (warm_order ranked (t_bytes t div t_span t)) 0)
                 (\<lambda>(n, t'). Ok (n, Some t')))"

section \<open>The tier is a transparent cache\<close>

text \<open>Every published slab holds the blob of its occupant, and nothing stays pinned between calls.\<close>

definition slab_ok :: "(u16 \<Rightarrow> bytes) \<Rightarrow> nat \<Rightarrow> bytes \<Rightarrow> slot_view \<Rightarrow> bool" where
  "slab_ok W spn b x \<longleftrightarrow> (case x of (e, p, r) \<Rightarrow>
     p = 0 \<and> (e \<noteq> None \<longrightarrow> r) \<and> (r \<longrightarrow> (\<exists>k. e = Some (ucast k) \<and> b = take spn (W k))))"

definition tier_ok :: "(u16 \<Rightarrow> bytes) \<Rightarrow> ram_tier \<Rightarrow> bool" where
  "tier_ok W t \<longleftrightarrow> cache_wf (t_cache t) \<and>
     (\<forall>s x. view (t_cache t) s = Some x \<longrightarrow> slab_ok W (t_span t) (t_slab t s) x)"

lemma tier_ok_slot:
  assumes "tier_ok W t" "view (t_cache t) s = Some (e, p, r)"
  shows "p = 0" "e \<noteq> None \<Longrightarrow> r" "r \<Longrightarrow> \<exists>k. e = Some (ucast k) \<and> t_slab t s = take (t_span t) (W k)"
proof -
  have "slab_ok W (t_span t) (t_slab t s) (e, p, r)" using assms by (simp add: tier_ok_def)
  then show "p = 0" "e \<noteq> None \<Longrightarrow> r" "r \<Longrightarrow> \<exists>k. e = Some (ucast k) \<and> t_slab t s = take (t_span t) (W k)"
    unfolding slab_ok_def by blast+
qed

lemma tier_ok_cong:
  assumes "tier_ok W t" "cache_wf (t_cache t')" "view (t_cache t') = view (t_cache t)"
    "t_slab t' = t_slab t" "t_span t' = t_span t"
  shows "tier_ok W t'"
  using assms by (simp add: tier_ok_def)

lemma tier_ok_upd:
  assumes "tier_ok W t" "cache_wf (t_cache t')" "view (t_cache t') = (view (t_cache t))(s \<mapsto> (Some (ucast k), 0, True))"
    "t_slab t' = (t_slab t)(s := take (t_span t) (W k))" "t_span t' = t_span t"
  shows "tier_ok W t'"
proof -
  have "slab_ok W (t_span t) (take (t_span t) (W k)) (Some (ucast k), 0, True)" by (auto simp: slab_ok_def)
  with assms show ?thesis by (simp add: tier_ok_def)
qed

lemma ucast_16_32_inj: "(ucast (a :: u16) :: u32) = ucast b \<longleftrightarrow> a = b"
  by (metis unat_ucast_16_32 word_unat_eq_iff)

lemma ram_get_ok:
  assumes ok: "tier_ok W t"
  shows "\<exists>r t'. ram_get t l e = Some (r, t') \<and> tier_ok W t' \<and> view (t_cache t') = view (t_cache t) \<and>
    t_slab t' = t_slab t \<and> t_span t' = t_span t \<and> t_epl t' = t_epl t \<and>
    (\<forall>b. r = Some b \<longrightarrow> b = take (t_span t) (W (ram_key t l e))) \<and>
    (r = None \<longleftrightarrow> \<not> (\<exists>s p. view (t_cache t) s = Some (Some (ucast (ram_key t l e)), p, True)))"
proof -
  let ?c = "t_cache t" and ?i = "ucast (ram_key t l e) :: u32"
  have wf: "cache_wf ?c" using ok by (simp add: tier_ok_def)
  obtain x c1 where lk: "lookup_ready ?c ?i = Some (x, c1)" using ec.look_defined [OF wf, of ?i] by auto
  show ?thesis
  proof (cases x)
    case None
    have c1: "c1 = ?c" using ec.look_none [OF wf] lk None by blast
    have "\<not> (\<exists>s p. view ?c s = Some (Some ?i, p, True))"
    proof
      assume "\<exists>s p. view ?c s = Some (Some ?i, p, True)"
      then obtain s p c where "lookup_ready ?c ?i = Some (Some s, c)" using ec.look_finds [OF wf] by blast
      with lk None show False by simp
    qed
    with lk None c1 ok show ?thesis by (simp add: ram_get_def)
  next
    case (Some s)
    obtain p where v: "view ?c s = Some (Some ?i, p, True)"
      using ec.look_some [OF wf] lk Some by blast
    obtain k where k: "p = 0" "?i = ucast k" "t_slab t s = take (t_span t) (W k)"
      using tier_ok_slot [OF ok v] by blast
    obtain c2 where c2: "release c1 s = Some c2" "cache_wf c2" "view c2 = view ?c"
      using ec.look_release [OF wf lk [unfolded Some] v] k(1) by auto
    have "k = ram_key t l e" using k(2) by (simp add: ucast_16_32_inj)
    then have g: "ram_get t l e = Some (Some (take (t_span t) (W (ram_key t l e))), t\<lparr>t_cache := c2, t_hits := t_hits t + 1\<rparr>)"
      using k(3) by (simp add: ram_get_def lk Some c2(1))
    have "tier_ok W (t\<lparr>t_cache := c2, t_hits := t_hits t + 1\<rparr>)" using c2 by (intro tier_ok_cong [OF ok]) simp_all
    with g v c2(3) show ?thesis by auto
  qed
qed

lemma ram_put_ok:
  assumes ok: "tier_ok W t" and src: "src = W (ram_key t l e)"
  shows "\<exists>t'. ram_put t l e src = Some t' \<and> tier_ok W t' \<and> t_span t' = t_span t \<and> t_epl t' = t_epl t"
proof -
  let ?c = "t_cache t" and ?i = "ucast (ram_key t l e) :: u32"
  have wf: "cache_wf ?c" using ok by (simp add: tier_ok_def)
  obtain a c1 where a: "acquire ?c ?i = Some (a, c1)" using acquire_total [OF wf] by blast
  have wf1: "cache_wf c1" by (rule acquire_wf [OF wf a])
  show ?thesis
  proof (cases a)
    case (Hit s)
    obtain p r where v: "view ?c s = Some (Some ?i, p, r)" "view c1 = (view ?c)(s \<mapsto> (Some ?i, p + 1, r))"
      using ec.acq_hit [OF wf a [unfolded Hit]] by blast
    have "p = 0" by (rule tier_ok_slot [OF ok v(1)])
    then obtain c2 where c2: "release c1 s = Some c2" "cache_wf c2" "view c2 = (view c1)(s \<mapsto> (Some ?i, 0, r))"
      using ec.rel_law [OF wf1, of s "Some ?i" 1 r] v by auto
    have "view c2 = view ?c" using c2 v \<open>p = 0\<close> by (simp add: fun_upd_idem)
    then have "tier_ok W (t\<lparr>t_cache := c2\<rparr>)" using c2 by (intro tier_ok_cong [OF ok]) simp_all
    with c2 a Hit show ?thesis by (simp add: ram_put_def)
  next
    case (Miss s ev)
    have v1: "view c1 = (view ?c)(s \<mapsto> (Some ?i, 1, False))"
      using ec.acq_miss [OF wf a [unfolded Miss]] by blast
    obtain c2 where c2: "publish c1 s = Some c2" "cache_wf c2" "view c2 = (view c1)(s \<mapsto> (Some ?i, 1, True))"
      using ec.pub_law [OF wf1, of s "Some ?i" 1 False] v1 by auto
    obtain c3 where c3: "release c2 s = Some c3" "cache_wf c3" "view c3 = (view c2)(s \<mapsto> (Some ?i, 0, True))"
      using ec.rel_law [OF c2(2), of s "Some ?i" 1 True] c2 by auto
    have "view c3 = (view ?c)(s \<mapsto> (Some ?i, 0, True))" using c3 c2 v1 by simp
    then have "tier_ok W (t\<lparr>t_cache := c3, t_slab := (t_slab t)(s := take (t_span t) src)\<rparr>)"
      using c3 src by (intro tier_ok_upd [OF ok]) simp_all
    with a Miss c2 c3 show ?thesis by (simp add: ram_put_def Let_def)
  next
    case Stalled
    then have "c1 = ?c" using ec.acq_stalled [OF wf] a by blast
    with a ok Stalled show ?thesis by (auto simp: ram_put_def)
  qed
qed

text \<open>A run of the tier: each \<open>put\<close> stores the pack's blob, as both callers of it do.\<close>

datatype tier_op = TGet u16 u16 | TPut u16 u16

fun tier_run :: "(u16 \<Rightarrow> bytes) \<Rightarrow> ram_tier \<Rightarrow> tier_op list \<Rightarrow> ram_tier option" where
  "tier_run W t [] = Some t"
| "tier_run W t (TGet l e # xs) = (case ram_get t l e of None \<Rightarrow> None | Some (_, t') \<Rightarrow> tier_run W t' xs)"
| "tier_run W t (TPut l e # xs) =
     (case ram_put t l e (W (ram_key t l e)) of None \<Rightarrow> None | Some t' \<Rightarrow> tier_run W t' xs)"

lemma tier_run_ok:
  "tier_ok W t \<Longrightarrow> \<exists>t'. tier_run W t xs = Some t' \<and> tier_ok W t' \<and> t_span t' = t_span t \<and> t_epl t' = t_epl t"
proof (induction W t xs rule: tier_run.induct)
  case (2 W t l e xs)
  obtain r t1 where "ram_get t l e = Some (r, t1)" "tier_ok W t1" "t_span t1 = t_span t" "t_epl t1 = t_epl t"
    using ram_get_ok [OF 2(2), of l e] by auto
  with 2(1) show ?case by fastforce
next
  case (3 W t l e xs)
  obtain t1 where "ram_put t l e (W (ram_key t l e)) = Some t1" "tier_ok W t1" "t_span t1 = t_span t" "t_epl t1 = t_epl t"
    using ram_put_ok [OF 3(2) refl, of l e] by auto
  with 3(1) show ?case by fastforce
qed simp

lemma ram_new_ok:
  assumes "ram_new mapped n spn layers epl = Ok (Some t)"
  shows "tier_ok W t \<and> t_span t = spn \<and> t_epl t = ucast epl"
proof -
  obtain slots c where c: "cache_new 1 slots (max slots 64 * 4) = Some c" "t_cache t = c"
    "t_span t = spn" "t_epl t = ucast epl"
    using assms by (auto simp: ram_new_def Let_def split: if_splits option.splits)
  have p: "partitioned 1 (- 1) slots (max slots 64 * 4) = Some c" using c(1) by (simp add: cache_new_def)
  have vw: "view c = (\<lambda>s. if s < unat slots then Some (None, 0, False) else None)"
    using p by (auto simp: partitioned_def view_eq empty_slot_def fun_eq_iff split: if_splits)
  have "cache_wf c" using partitioned_wf [OF p] unat_lt [of slots] by simp
  with c vw show ?thesis by (auto simp: tier_ok_def slab_ok_def split: if_splits)
qed

text \<open>C11: The RAM tier is transparent. From a fresh tier, after any sequence of gets and puts in which
  every put stores the pack's blob, no operation panics, and a \<open>get\<close> that answers delivers exactly
  the first \<open>span\<close> bytes of the blob of the key asked for, however much was evicted in between.\<close>

theorem ram_tier_transparent:
  assumes "ram_new mapped n spn layers epl = Ok (Some t0)" and "tier_run W t0 ops = Some t"
  shows "\<exists>r t'. ram_get t l e = Some (r, t') \<and> (\<forall>b. r = Some b \<longrightarrow> b = take spn (W (ram_key t0 l e)))"
proof -
  have t0: "tier_ok W t0" "t_span t0 = spn" using ram_new_ok [OF assms(1)] by auto
  obtain t' where "tier_run W t0 ops = Some t'" "tier_ok W t'" "t_span t' = spn" "t_epl t' = t_epl t0"
    using tier_run_ok [OF t0(1), of ops] t0(2) by auto
  with assms(2) have t: "tier_ok W t" "t_span t = spn" "ram_key t l e = ram_key t0 l e"
    by (auto simp: ram_key_def)
  from ram_get_ok [OF t(1), of l e] t show ?thesis by auto
qed

definition tier2 :: ram_tier where
  "tier2 = \<lparr>t_cache = the (cache_new 1 2 256), t_slab = (\<lambda>_. zeros 4), t_bytes = 8, t_span = 4, t_epl = 8, t_hits = 0\<rparr>"

lemma tier2_new: "ram_new True 8 4 2 8 = Ok (Some tier2)"
  by (simp add: ram_new_def Let_def cache_new_def partitioned_def tier2_def max_def word_le_nat_alt)

lemma ram_tier_transparent_witness:
  "\<exists>t r t'. tier_run (\<lambda>k. to_le 4 (unat k)) tier2 [TPut 0 1, TPut 1 2, TPut 0 3, TGet 0 1] = Some t \<and>
     ram_get t 0 3 = Some (r, t') \<and> (\<forall>b. r = Some b \<longrightarrow> b = take 4 (to_le 4 3))"
proof -
  let ?W = "\<lambda>k :: u16. to_le 4 (unat k)" and ?ops = "[TPut 0 1, TPut 1 2, TPut 0 3, TGet 0 1]"
  obtain t where t: "tier_run ?W tier2 ?ops = Some t"
    using tier_run_ok ram_new_ok [OF tier2_new] by blast
  have "unat (ram_key tier2 0 3) = 3" by (simp add: ram_key_def tier2_def)
  with ram_tier_transparent [OF tier2_new t, of 0 3] t show ?thesis by auto
qed

text \<open>Write-allocate works: right after a \<open>put\<close>, a \<open>get\<close> of the same expert hits and returns its
  bytes, also when the tier was full or held the expert already.\<close>

theorem ram_put_then_get:
  assumes ok: "tier_ok W t" and put: "ram_put t l e (W (ram_key t l e)) = Some t1"
  shows "\<exists>t2. ram_get t1 l e = Some (Some (take (t_span t) (W (ram_key t l e))), t2)"
proof -
  let ?c = "t_cache t" and ?i = "ucast (ram_key t l e) :: u32"
  have wf: "cache_wf ?c" using ok by (simp add: tier_ok_def)
  obtain t1' where "ram_put t l e (W (ram_key t l e)) = Some t1'" "tier_ok W t1'" "t_span t1' = t_span t" "t_epl t1' = t_epl t"
    using ram_put_ok [OF ok refl, of l e] by auto
  with put have t1: "tier_ok W t1" "t_span t1 = t_span t" "ram_key t1 l e = ram_key t l e"
    by (auto simp: ram_key_def)
  obtain a c1 where a: "acquire ?c ?i = Some (a, c1)" using acquire_total [OF wf] by blast
  have found: "\<exists>s p. view (t_cache t1) s = Some (Some ?i, p, True)"
  proof (cases a)
    case (Hit s)
    obtain p r where v: "view ?c s = Some (Some ?i, p, r)" "view c1 = (view ?c)(s \<mapsto> (Some ?i, p + 1, r))"
      using ec.acq_hit [OF wf a [unfolded Hit]] by blast
    obtain c2 where "release c1 s = Some c2" "t_cache t1 = c2"
      using put a Hit by (auto simp: ram_put_def)
    moreover have "r" using tier_ok_slot(2) [OF ok v(1)] by simp
    ultimately show ?thesis using v release_Some [of c1 s c2] by auto
  next
    case (Miss s ev)
    have v1: "view c1 = (view ?c)(s \<mapsto> (Some ?i, 1, False))"
      using ec.acq_miss [OF wf a [unfolded Miss]] by blast
    obtain c2 where c2: "publish c1 s = Some c2" "cache_wf c2" "view c2 = (view c1)(s \<mapsto> (Some ?i, 1, True))"
      using ec.pub_law [OF acquire_wf [OF wf a], of s "Some ?i" 1 False] v1 by auto
    obtain c3 where c3: "release c2 s = Some c3" "view c3 = (view c2)(s \<mapsto> (Some ?i, 0, True))"
      using ec.rel_law [OF c2(2), of s "Some ?i" 1 True] c2 by auto
    have "t_cache t1 = c3" using put a Miss c2 c3 by (auto simp: ram_put_def Let_def)
    with c3 show ?thesis by auto
  next
    case Stalled
    obtain L p where L: "pool_of ?c ?i = {p * L..<p * L + L}" "p * L + L \<le> length (c_slots ?c)" "cache_shape ?c L"
      using wf_obtain [OF wf, of ?i] by metis
    then have "0 < L" by (simp add: cache_shape_def)
    with L(1,2) have in_pool: "p * L \<in> pool_of ?c ?i" "p * L < length (c_slots ?c)" by (simp, linarith)
    then have "s_pins (c_slots ?c ! (p * L)) \<noteq> 0"
      using acquire_Stalled(3) [OF wf a [unfolded Stalled]] by blast
    moreover have "s_pins (c_slots ?c ! (p * L)) = 0"
      using tier_ok_slot(1) [OF ok, of "p * L"] in_pool(2) by (simp add: view_eq)
    ultimately show ?thesis by simp
  qed
  obtain r t2 where r: "ram_get t1 l e = Some (r, t2)"
    "r = None \<longleftrightarrow> \<not> (\<exists>s p. view (t_cache t1) s = Some (Some (ucast (ram_key t1 l e)), p, True))"
    "\<forall>b. r = Some b \<longrightarrow> b = take (t_span t1) (W (ram_key t1 l e))"
    using ram_get_ok [OF t1(1), of l e] by blast
  with found t1 show ?thesis by (cases r) auto
qed

lemma ram_put_then_get_witness:
  "\<exists>t1 t2. ram_put tier2 1 2 [1, 2, 3, 4, 5] = Some t1 \<and> ram_get t1 1 2 = Some (Some [1, 2, 3, 4], t2)"
proof -
  let ?W = "\<lambda>_ :: u16. [1, 2, 3, 4, 5 :: u8]"
  have ok: "tier_ok ?W tier2" using ram_new_ok [OF tier2_new] by blast
  obtain t1 where t1: "ram_put tier2 1 2 [1, 2, 3, 4, 5] = Some t1"
    using ram_put_ok [OF ok refl, of 1 2] by auto
  have "view (t_cache tier2) s \<noteq> Some (Some i, p, r)" for s i p r
    by (simp add: tier2_def cache_new_def partitioned_def view_eq empty_slot_def)
  then show ?thesis using ram_put_then_get [OF ok t1] t1 by (simp add: tier2_def)
qed

section \<open>Pre-warming\<close>

lemma candidates_mem: "(c, i) \<in> set (candidates counts) \<longleftrightarrow> i < length counts \<and> c = counts ! i \<and> 0 < c"
  by (auto simp: candidates_def in_set_zip set_zip)

lemma candidates_distinct: "distinct (map snd (candidates counts))"
proof -
  have "distinct (map snd (zip counts [0..<length counts]))" by simp
  then show ?thesis unfolding candidates_def by (rule distinct_map_filter)
qed

text \<open>Pre-warming picks the hottest experts, whatever order the unstable sort gives equal counts:
  the indices are distinct, in pack order, as many as fit, all with a positive count, and no index
  left out has a higher count than one taken.\<close>

theorem prewarm_picks_hottest:
  assumes perm: "mset ranked = mset (candidates counts)"
    and desc: "sorted_wrt (\<lambda>a b. fst b \<le> fst a) ranked"
  shows "sorted (warm_order ranked cap) \<and> distinct (warm_order ranked cap) \<and>
    length (warm_order ranked cap) = min cap (length (candidates counts)) \<and>
    (\<forall>i \<in> set (warm_order ranked cap). i < length counts \<and> 0 < counts ! i \<and>
       (\<forall>j < length counts. j \<notin> set (warm_order ranked cap) \<longrightarrow> counts ! j \<le> counts ! i))"
proof -
  have st: "set ranked = set (candidates counts)" by (rule mset_eq_setD [OF perm])
  have "distinct (map snd ranked)"
    using candidates_distinct [of counts] perm by (metis mset_eq_imp_distinct_iff mset_map)
  then have d: "distinct (map snd (take cap ranked))" by (metis distinct_take take_map)
  have ln: "length ranked = length (candidates counts)" using perm by (rule mset_eq_length)
  have "sorted_wrt (\<lambda>a b. fst b \<le> fst a) (take cap ranked @ drop cap ranked)" using desc by simp
  then have td: "fst b \<le> fst a" if "a \<in> set (take cap ranked)" "b \<in> set (drop cap ranked)" for a b
    using that unfolding sorted_wrt_append by blast
  have hot: "i < length counts \<and> 0 < counts ! i \<and>
      (\<forall>j < length counts. j \<notin> set (warm_order ranked cap) \<longrightarrow> counts ! j \<le> counts ! i)"
    if i: "i \<in> set (warm_order ranked cap)" for i
  proof -
    obtain c where c: "(c, i) \<in> set (take cap ranked)" using i by (auto simp: warm_order_def)
    then have "(c, i) \<in> set (candidates counts)" unfolding st [symmetric] by (rule in_set_takeD)
    then have ci: "i < length counts" "c = counts ! i" "0 < c" unfolding candidates_mem by blast+
    have "counts ! j \<le> counts ! i" if j: "j < length counts" "j \<notin> set (warm_order ranked cap)" for j
    proof (cases "0 < counts ! j")
      case True
      then have "(counts ! j, j) \<in> set ranked" using st j by (simp add: candidates_mem)
      moreover have "(counts ! j, j) \<notin> set (take cap ranked)"
        using j(2) by (force simp: warm_order_def)
      ultimately have "(counts ! j, j) \<in> set (drop cap ranked)"
        by (metis Un_iff append_take_drop_id set_append)
      from td [OF c this] ci show ?thesis by simp
    qed (simp add: word_neq_0_conv [symmetric])
    with ci show ?thesis by blast
  qed
  have "sorted (warm_order ranked cap)" "distinct (warm_order ranked cap)"
    "length (warm_order ranked cap) = min cap (length (candidates counts))"
    using d ln by (simp_all add: warm_order_def)
  with hot show ?thesis by blast
qed

lemma prewarm_picks_hottest_witness:
  "warm_order [(9, 2), (7, 3), (4, 0)] 2 = [2, 3] \<and> (4 :: u64) \<le> [4, 0, 9, 7] ! 3"
proof -
  have w: "warm_order [(9, 2), (7, 3), (4, 0)] 2 = [2, 3]" by (simp add: warm_order_def)
  have "mset [(9, 2), (7, 3), (4, 0)] = mset (candidates [4, 0, 9, 7 :: u64])"
  proof -
    have "candidates [4, 0, 9, 7 :: u64] = [(4, 0), (9, 2), (7, 3)]" by code_simp
    then show ?thesis by (simp add: add_mset_commute)
  qed
  from prewarm_picks_hottest [OF this, of 2] w show ?thesis by auto
qed

end
