(* ===== verification/Kv_Lanes.thy ===== *)
theory Kv_Lanes
  imports Prelude
begin

text \<open>
  The KV caches of \<open>llmpager-run/src/decode.rs\<close>: per layer one key and one value buffer, each
  holding \<open>batch_cap\<close> sequence slots of \<open>[kv_heads, max_seq, head_dim]\<close>. \<open>kv_export\<close> and
  \<open>kv_import\<close> copy a prefix of a slot out and in; \<open>step_multi\<close> appends the row of each entry.
  What the kernels compute is the parameter \<open>kern\<close>: the new row from the slot's earlier rows and the
  token. The theory ends with the contract \<open>kv_lanes\<close> that the session store relies on.
\<close>

section \<open>Buffers\<close>

definition rd :: "(nat \<Rightarrow> u8) \<Rightarrow> nat \<Rightarrow> nat \<Rightarrow> bytes" where
  "rd m off n = map m [off..<off + n]"

definition wr :: "(nat \<Rightarrow> u8) \<Rightarrow> nat \<Rightarrow> bytes \<Rightarrow> nat \<Rightarrow> u8" where
  "wr m off bs x = (if off \<le> x \<and> x < off + length bs then bs ! (x - off) else m x)"

lemma length_rd [simp]: "length (rd m off n) = n"
  by (simp add: rd_def)

lemma rd_cong: "(\<And>x. off \<le> x \<Longrightarrow> x < off + n \<Longrightarrow> m x = m' x) \<Longrightarrow> rd m off n = rd m' off n"
  by (simp add: rd_def)

lemma rd_wr_same: "length bs = n \<Longrightarrow> rd (wr m off bs) off n = bs"
  by (intro nth_equalityI) (auto simp: rd_def wr_def)

lemma rd_sub: "p < n \<Longrightarrow> rd m (off + p * r) r = take r (drop (p * r) (rd m off (n * r)))"
proof -
  assume "p < n"
  then have le: "p * r + r \<le> n * r" using mult_le_mono1 [of "Suc p" n r] by simp
  then have "drop (p * r) [off..<off + n * r] = [off + p * r..<off + n * r]" by (simp add: drop_upt)
  moreover have "take r [off + p * r..<off + n * r] = [off + p * r..<off + p * r + r]"
    using le by (intro take_upt) simp
  ultimately show ?thesis by (simp add: rd_def take_map drop_map)
qed

text \<open>The decoder's KV state: buffer \<open>2 * l\<close> is layer \<open>l\<close>'s keys, \<open>2 * l + 1\<close> its values.\<close>

record kv_dec =
  d_layers :: nat
  d_kv_heads :: nat
  d_head_dim :: nat
  d_kv_f16 :: bool
  d_max_seq :: nat
  d_batch_cap :: nat
  d_chunk_cap :: nat
  d_mem :: "nat \<Rightarrow> nat \<Rightarrow> u8"

datatype kv_error = SlotTooLarge nat nat | LenTooLarge nat nat | BlobSize nat nat | BadEntries nat
  | PosTooLarge nat nat | DriverFailed

definition kv_elem :: "kv_dec \<Rightarrow> nat" where
  "kv_elem d = (if d_kv_f16 d then 2 else 4)"

definition kv_bytes_per_token :: "kv_dec \<Rightarrow> nat" where
  "kv_bytes_per_token d = 2 * d_layers d * d_kv_heads d * d_head_dim d * kv_elem d"

definition row_bytes :: "kv_dec \<Rightarrow> nat" where
  "row_bytes d = d_head_dim d * kv_elem d"

definition kv_geometry :: "kv_dec \<Rightarrow> nat \<Rightarrow> nat \<Rightarrow> (kv_error, nat \<times> nat \<times> nat) res" where
  "kv_geometry d seq n =
     (if d_batch_cap d \<le> seq then Err (SlotTooLarge seq (d_batch_cap d))
      else if d_max_seq d < n then Err (LenTooLarge n (d_max_seq d))
      else let run = n * d_head_dim d * kv_elem d;
               head_stride = d_max_seq d * d_head_dim d * kv_elem d
           in Ok (run, head_stride, seq * d_kv_heads d * head_stride))"

text \<open>The copies in the order of the source: layers, keys then values, heads.\<close>

definition runs :: "kv_dec \<Rightarrow> (nat \<times> nat) list" where
  "runs d = concat (map (\<lambda>l. concat (map (\<lambda>b. map (\<lambda>h. (b, h)) [0..<d_kv_heads d]) [2 * l, 2 * l + 1]))
                        [0..<d_layers d])"

definition kv_export :: "kv_dec \<Rightarrow> nat \<Rightarrow> nat \<Rightarrow> (kv_error, bytes) res" where
  "kv_export d seq n =
     bind_res (kv_geometry d seq n) (\<lambda>(run, stride, off).
       Ok (concat (map (\<lambda>(b, h). rd (d_mem d b) (off + h * stride) run) (runs d))))"

fun copy_in :: "(nat \<Rightarrow> nat \<Rightarrow> u8) \<Rightarrow> nat \<Rightarrow> nat \<Rightarrow> nat \<Rightarrow> (nat \<times> nat) list \<Rightarrow> bytes \<Rightarrow> nat \<Rightarrow> nat \<Rightarrow> u8" where
  "copy_in mem off stride run [] blob = mem"
| "copy_in mem off stride run ((b, h) # rs) blob =
     copy_in (mem(b := wr (mem b) (off + h * stride) (take run blob))) off stride run rs (drop run blob)"

definition kv_import :: "kv_dec \<Rightarrow> nat \<Rightarrow> nat \<Rightarrow> bytes \<Rightarrow> (kv_error, kv_dec) res" where
  "kv_import d seq n blob =
     bind_res (kv_geometry d seq n) (\<lambda>(run, stride, off).
       let want = kv_bytes_per_token d * n in
       if length blob \<noteq> want then Err (BlobSize (length blob) want)
       else Ok (d\<lparr>d_mem := copy_in (d_mem d) off stride run (runs d) blob\<rparr>))"

section \<open>Rows\<close>

text \<open>The state of one position of a slot: one piece per buffer and head.\<close>

definition slot_row :: "kv_dec \<Rightarrow> nat \<Rightarrow> nat \<Rightarrow> bytes list" where
  "slot_row d seq p =
     map (\<lambda>(b, h). rd (d_mem d b)
            (seq * d_kv_heads d * (d_max_seq d * row_bytes d) + h * (d_max_seq d * row_bytes d) + p * row_bytes d)
            (row_bytes d)) (runs d)"

definition slot_rows :: "kv_dec \<Rightarrow> nat \<Rightarrow> nat \<Rightarrow> bytes list list" where
  "slot_rows d seq n = map (slot_row d seq) [0..<n]"

text \<open>Same shape: everything but the memory.\<close>

definition kv_geo :: "kv_dec \<Rightarrow> nat \<times> nat \<times> nat \<times> bool \<times> nat \<times> nat \<times> nat" where
  "kv_geo d = (d_layers d, d_kv_heads d, d_head_dim d, d_kv_f16 d, d_max_seq d, d_batch_cap d, d_chunk_cap d)"

lemma distinct_runs: "distinct (runs d)"
proof -
  have "distinct (concat (map (\<lambda>l. concat (map (\<lambda>b. map (\<lambda>h. (b, h)) [0..<H]) [2 * l, 2 * l + 1])) [0..<n]))" for n H :: nat
    by (induction n) (auto simp: distinct_map inj_on_def, presburger+)
  then show ?thesis by (simp add: runs_def)
qed

lemma runs_heads: "(b, h) \<in> set (runs d) \<Longrightarrow> h < d_kv_heads d"
  by (auto simp: runs_def)

lemma length_runs: "length (runs d) = 2 * d_layers d * d_kv_heads d"
proof -
  have "length (concat (map (\<lambda>l. concat (map (\<lambda>b. map (\<lambda>h. (b, h)) [0..<H]) [2 * l, 2 * l + 1])) [0..<n])) = 2 * n * H"
    for n H :: nat
    by (induction n) simp_all
  then show ?thesis by (simp add: runs_def)
qed

text \<open>What a copy writes and what it leaves alone.\<close>

lemma copy_in_other:
  assumes "\<And>h. (b, h) \<in> set rs \<Longrightarrow> x < off + h * stride \<or> off + h * stride + run \<le> x"
  shows "copy_in mem off stride run rs blob b x = mem b x"
  using assms
proof (induction rs arbitrary: mem blob)
  case (Cons r rs)
  obtain b' h where r: "r = (b', h)" by (cases r)
  let ?mem = "mem(b' := wr (mem b') (off + h * stride) (take run blob))"
  have "copy_in mem off stride run (r # rs) blob b x = copy_in ?mem off stride run rs (drop run blob) b x"
    by (simp only: r copy_in.simps)
  also have "\<dots> = ?mem b x" by (rule Cons.IH) (simp add: Cons.prems)
  also have "\<dots> = mem b x" using Cons.prems [of h] by (auto simp: wr_def r)
  finally show ?case .
qed simp

lemma strides_apart:
  fixes x :: nat
  assumes "run \<le> stride" "h \<noteq> h'" "off + h * stride \<le> x" "x < off + h * stride + run"
  shows "x < off + h' * stride \<or> off + h' * stride + run \<le> x"
proof (cases "h < h'")
  case True
  then have "Suc h * stride \<le> h' * stride" by (intro mult_le_mono1) simp
  with assms show ?thesis by simp
next
  case False
  with assms(2) have "Suc h' * stride \<le> h * stride" by (intro mult_le_mono1) simp
  with assms show ?thesis by simp
qed

lemma copy_in_reads:
  assumes "distinct rs" "run \<le> stride" "length blob = length rs * run"
  shows "map (\<lambda>(b, h). rd (copy_in mem off stride run rs blob b) (off + h * stride) run) rs =
    map (\<lambda>k. take run (drop (k * run) blob)) [0..<length rs]"
  using assms
proof (induction rs arbitrary: mem blob)
  case (Cons r rs)
  obtain b h where r: "r = (b, h)" by (cases r)
  let ?mem = "mem(b := wr (mem b) (off + h * stride) (take run blob))"
  have tl: "map (\<lambda>(b, h). rd (copy_in ?mem off stride run rs (drop run blob) b) (off + h * stride) run) rs =
    map (\<lambda>k. take run (drop (k * run) (drop run blob))) [0..<length rs]"
    by (rule Cons.IH) (use Cons.prems in simp_all)
  have "rd (copy_in ?mem off stride run rs (drop run blob) b) (off + h * stride) run = rd (?mem b) (off + h * stride) run"
  proof (rule rd_cong)
    fix x assume x: "off + h * stride \<le> x" "x < off + h * stride + run"
    show "copy_in ?mem off stride run rs (drop run blob) b x = ?mem b x"
    proof (rule copy_in_other)
      fix h' assume "(b, h') \<in> set rs"
      then have "h \<noteq> h'" using Cons.prems(1) r by auto
      then show "x < off + h' * stride \<or> off + h' * stride + run \<le> x"
        using strides_apart [OF Cons.prems(2) _ x] by blast
    qed
  qed
  then have hd: "rd (copy_in ?mem off stride run rs (drop run blob) b) (off + h * stride) run = take run blob"
    using Cons.prems(3) by (simp add: rd_wr_same)
  have up: "[0..<length (r # rs)] = 0 # map Suc [0..<length rs]"
    by (simp add: map_Suc_upt upt_conv_Cons del: upt_Suc)
  have ci: "copy_in mem off stride run (r # rs) blob = copy_in ?mem off stride run rs (drop run blob)"
    by (simp only: r copy_in.simps)
  show ?case
    unfolding up ci using hd tl by (simp add: r comp_def add.commute del: upt_Suc fun_upd_apply)
qed simp

section \<open>Export and import\<close>

lemma slot_offset:
  "seq * H * S + h * S = (seq * H + h) * (S :: nat)"
  by (simp add: algebra_simps)

text \<open>Slots do not overlap: an address of head \<open>h\<close> of slot \<open>s\<close> is none of another slot's.\<close>

lemma slots_apart:
  fixes x :: nat
  assumes "s \<noteq> s'" "h < H" "h' < H" "n \<le> S" "m \<le> S"
    and "s * H * S + h * S \<le> x" "x < s * H * S + h * S + n"
  shows "x < s' * H * S + h' * S \<or> s' * H * S + h' * S + m \<le> x"
proof -
  have "s * H + h \<noteq> s' * H + h'"
  proof
    assume "s * H + h = s' * H + h'"
    then have "(s * H + h) div H = (s' * H + h') div H" by simp
    with assms(1-3) show False by simp
  qed
  then consider "Suc (s * H + h) \<le> s' * H + h'" | "Suc (s' * H + h') \<le> s * H + h" by linarith
  then show ?thesis
  proof cases
    case 1
    then have "Suc (s * H + h) * S \<le> (s' * H + h') * S" by (rule mult_le_mono1)
    with assms(4-7) show ?thesis unfolding slot_offset by simp
  next
    case 2
    then have "Suc (s' * H + h') * S \<le> (s * H + h) * S" by (rule mult_le_mono1)
    with assms(4-7) show ?thesis unfolding slot_offset by simp
  qed
qed

lemma geometry_Ok:
  "kv_geometry d s n = Ok x \<longleftrightarrow> s < d_batch_cap d \<and> n \<le> d_max_seq d \<and>
     x = (n * row_bytes d, d_max_seq d * row_bytes d, s * d_kv_heads d * (d_max_seq d * row_bytes d))"
  by (auto simp: kv_geometry_def row_bytes_def Let_def mult.assoc)

lemma export_Ok:
  "kv_export d s n = Ok b \<longleftrightarrow> s < d_batch_cap d \<and> n \<le> d_max_seq d \<and>
     b = concat (map (\<lambda>(b, h). rd (d_mem d b) (s * d_kv_heads d * (d_max_seq d * row_bytes d) +
            h * (d_max_seq d * row_bytes d)) (n * row_bytes d)) (runs d))"
  unfolding kv_export_def kv_geometry_def by (auto simp: row_bytes_def Let_def mult.assoc)

lemma import_Ok:
  "kv_import d s n b = Ok d' \<longleftrightarrow> s < d_batch_cap d \<and> n \<le> d_max_seq d \<and>
     length b = kv_bytes_per_token d * n \<and>
     d' = d\<lparr>d_mem := copy_in (d_mem d) (s * d_kv_heads d * (d_max_seq d * row_bytes d)) (d_max_seq d * row_bytes d)
              (n * row_bytes d) (runs d) b\<rparr>"
  unfolding kv_import_def kv_geometry_def by (auto simp: row_bytes_def Let_def mult.assoc)

lemma blob_size: "kv_bytes_per_token d * n = length (runs d) * (n * row_bytes d)"
  by (simp add: kv_bytes_per_token_def length_runs row_bytes_def algebra_simps)

lemma runs_geo: "kv_geo d' = kv_geo d \<Longrightarrow> runs d' = runs d"
  by (simp add: kv_geo_def runs_def)

lemma row_bytes_geo: "kv_geo d' = kv_geo d \<Longrightarrow> row_bytes d' = row_bytes d"
  by (simp add: kv_geo_def row_bytes_def kv_elem_def)

text \<open>A row is a piece of the run that contains it.\<close>

lemma row_in_run:
  assumes "p < n"
  shows "slot_row d s p = map (\<lambda>r. take (row_bytes d) (drop (p * row_bytes d) r))
    (map (\<lambda>(b, h). rd (d_mem d b) (s * d_kv_heads d * (d_max_seq d * row_bytes d) +
            h * (d_max_seq d * row_bytes d)) (n * row_bytes d)) (runs d))"
  using rd_sub [OF assms] by (simp add: slot_row_def case_prod_beta)

lemma concat_pieces:
  "\<forall>x \<in> set xs. length x = n \<Longrightarrow> map (\<lambda>k. take n (drop (k * n) (concat xs))) [0..<length xs] = xs"
proof (induction xs)
  case (Cons x xs)
  have up: "[0..<length (x # xs)] = 0 # map Suc [0..<length xs]"
    by (simp add: map_Suc_upt upt_conv_Cons del: upt_Suc)
  have "take n (drop (Suc k * n) (concat (x # xs))) = take n (drop (k * n) (concat xs))" for k
    using Cons.prems by simp
  then have "map ((\<lambda>k. take n (drop (k * n) (concat (x # xs)))) \<circ> Suc) [0..<length xs] = xs"
    using Cons by (simp add: comp_def)
  moreover have "take n (drop (0 * n) (concat (x # xs))) = x" using Cons.prems by simp
  ultimately show ?case unfolding up by (simp only: list.map map_map)
qed simp

lemma import_restores:
  assumes ex: "kv_export d s n = Ok b" and im: "kv_import d2 s2 n b = Ok d3" and geo: "kv_geo d2 = kv_geo d"
  shows "slot_rows d3 s2 n = slot_rows d s n" "kv_geo d3 = kv_geo d2"
proof -
  note g = runs_geo [OF geo] row_bytes_geo [OF geo]
  have d3: "d_mem d3 = copy_in (d_mem d2) (s2 * d_kv_heads d2 * (d_max_seq d2 * row_bytes d2)) (d_max_seq d2 * row_bytes d2)
              (n * row_bytes d2) (runs d2) b" and len: "length b = kv_bytes_per_token d2 * n" "n \<le> d_max_seq d2"
    using im by (auto simp: import_Ok)
  show geo3: "kv_geo d3 = kv_geo d2" using im by (auto simp: import_Ok kv_geo_def)
  let ?R = "map (\<lambda>(b, h). rd (d_mem d b) (s * d_kv_heads d * (d_max_seq d * row_bytes d) +
            h * (d_max_seq d * row_bytes d)) (n * row_bytes d)) (runs d)"
  have b: "b = concat ?R" using ex by (simp add: export_Ok)
  have "map (\<lambda>(b, h). rd (d_mem d3 b) (s2 * d_kv_heads d2 * (d_max_seq d2 * row_bytes d2) +
            h * (d_max_seq d2 * row_bytes d2)) (n * row_bytes d2)) (runs d2)
      = map (\<lambda>k. take (n * row_bytes d2) (drop (k * (n * row_bytes d2)) b)) [0..<length (runs d2)]"
    unfolding d3 using len by (intro copy_in_reads) (simp_all add: distinct_runs blob_size mult_le_mono1)
  also have "\<dots> = ?R"
    using concat_pieces [of ?R "n * row_bytes d"] by (simp add: b g case_prod_beta)
  finally have "slot_row d3 s2 p = slot_row d s p" if "p < n" for p
    using row_in_run [OF that, of d3 s2] row_in_run [OF that, of d s] runs_geo [OF geo3] row_bytes_geo [OF geo3] g
      geo3 geo
    by (simp add: kv_geo_def)
  then show "slot_rows d3 s2 n = slot_rows d s n" by (simp add: slot_rows_def)
qed

lemma import_other:
  assumes im: "kv_import d s n b = Ok d'" and ne: "s' \<noteq> s" and p: "p < d_max_seq d"
  shows "slot_row d' s' p = slot_row d s' p"
proof -
  have d': "d' = d\<lparr>d_mem := copy_in (d_mem d) (s * d_kv_heads d * (d_max_seq d * row_bytes d)) (d_max_seq d * row_bytes d)
              (n * row_bytes d) (runs d) b\<rparr>" and n: "n \<le> d_max_seq d"
    using im by (auto simp: import_Ok)
  have geo: "kv_geo d' = kv_geo d" by (simp add: d' kv_geo_def)
  let ?S = "d_max_seq d * row_bytes d" and ?r = "row_bytes d"
  have "rd (d_mem d' b) (s' * d_kv_heads d * ?S + h * ?S + p * ?r) ?r = rd (d_mem d b) (s' * d_kv_heads d * ?S + h * ?S + p * ?r) ?r"
    if "(b, h) \<in> set (runs d)" for b h
  proof (rule rd_cong)
    fix x assume x: "s' * d_kv_heads d * ?S + h * ?S + p * ?r \<le> x" "x < s' * d_kv_heads d * ?S + h * ?S + p * ?r + ?r"
    have "Suc p * ?r \<le> ?S" using p by (intro mult_le_mono1) simp
    then have x2: "s' * d_kv_heads d * ?S + h * ?S \<le> x" "x < s' * d_kv_heads d * ?S + h * ?S + ?S" using x by simp_all
    have nS: "n * ?r \<le> ?S" using n by (rule mult_le_mono1)
    show "d_mem d' b x = d_mem d b x"
      unfolding d'
      using slots_apart [OF ne runs_heads [OF that] _ order_refl nS x2] runs_heads
      by (simp add: copy_in_other)
  qed
  then show ?thesis
    unfolding slot_row_def runs_geo [OF geo] row_bytes_geo [OF geo] using geo by (auto simp: kv_geo_def)
qed

section \<open>The multi-token step\<close>

definition last_for_slot :: "(u32 \<times> nat \<times> nat) list \<Rightarrow> nat \<Rightarrow> bool" where
  "last_for_slot entries t \<longleftrightarrow> list_all (\<lambda>e. snd (snd e) \<noteq> snd (snd (entries ! t))) (drop (t + 1) entries)"

fun check_entries :: "kv_dec \<Rightarrow> (u32 \<times> nat \<times> nat) list \<Rightarrow> (kv_error, unit) res" where
  "check_entries d [] = Ok ()"
| "check_entries d ((t, pos, seq) # es) =
     (if d_max_seq d \<le> pos then Err (PosTooLarge pos (d_max_seq d))
      else if d_batch_cap d \<le> seq then Err (SlotTooLarge seq (d_batch_cap d))
      else check_entries d es)"

text \<open>
  What the kernels put into each byte of a new row, from the slot's earlier rows and the token: per
  buffer and head, \<open>head_dim\<close> elements.
\<close>

type_synonym kernel = "bytes list list \<Rightarrow> u32 \<Rightarrow> nat \<Rightarrow> nat \<Rightarrow> nat \<Rightarrow> u8"

text \<open>One entry: the kernels compute its row from the slot's rows below \<open>pos\<close>, and it is appended.\<close>

definition new_row :: "kernel \<Rightarrow> kv_dec \<Rightarrow> bytes list list \<Rightarrow> u32 \<Rightarrow> bytes list" where
  "new_row kern d rows tok = map (\<lambda>(b, h). map (kern rows tok b h) [0..<row_bytes d]) (runs d)"

definition append_row :: "kernel \<Rightarrow> kv_dec \<Rightarrow> u32 \<times> nat \<times> nat \<Rightarrow> kv_dec" where
  "append_row kern d = (\<lambda>(tok, pos, seq).
     d\<lparr>d_mem := copy_in (d_mem d) (seq * d_kv_heads d * (d_max_seq d * row_bytes d) + pos * row_bytes d)
                  (d_max_seq d * row_bytes d) (row_bytes d) (runs d) (concat (new_row kern d (slot_rows d seq pos) tok))\<rparr>)"

definition step_multi ::
  "kernel \<Rightarrow> (bytes list list \<Rightarrow> u32) \<Rightarrow> kv_dec \<Rightarrow> (u32 \<times> nat \<times> nat) list \<Rightarrow> bool
   \<Rightarrow> (kv_error, u32 list \<times> kv_dec) res" where
  "step_multi kern head d entries want =
     (let n = length entries in
      if n = 0 \<or> d_chunk_cap d < n then Err (BadEntries n)
      else bind_res (check_entries d entries) (\<lambda>_.
        let d' = foldl (append_row kern) d entries in
        Ok (if \<not> want then replicate n 0
            else map (\<lambda>t. if last_for_slot entries t
                       then head (slot_rows d' (snd (snd (entries ! t))) (fst (snd (entries ! t)) + 1)) else 0) [0..<n],
            d')))"

section \<open>Which tokens a slot holds\<close>

text \<open>The rows a token sequence produces, and when a slot holds exactly those.\<close>

definition kv_states :: "kernel \<Rightarrow> kv_dec \<Rightarrow> u32 list \<Rightarrow> bytes list list" where
  "kv_states kern d = foldl (\<lambda>rows t. rows @ [new_row kern d rows t]) []"

definition covers :: "kernel \<Rightarrow> kv_dec \<Rightarrow> nat \<Rightarrow> u32 list \<Rightarrow> bool" where
  "covers kern d s ts \<longleftrightarrow> length ts \<le> d_max_seq d \<and> slot_rows d s (length ts) = kv_states kern d ts"

lemma kv_states_snoc: "kv_states kern d (ts @ [t]) = kv_states kern d ts @ [new_row kern d (kv_states kern d ts) t]"
  by (simp add: kv_states_def)

lemma length_kv_states [simp]: "length (kv_states kern d ts) = length ts"
proof (induction ts rule: rev_induct)
  case (snoc t ts)
  then show ?case by (simp add: kv_states_snoc)
qed (simp add: kv_states_def)

lemma kv_states_take: "kv_states kern d (take n ts) = take n (kv_states kern d ts)"
proof (induction ts rule: rev_induct)
  case (snoc t ts)
  then show ?case by (cases "n \<le> length ts") (simp_all add: kv_states_snoc)
qed (simp add: kv_states_def)

lemma slot_rows_take: "n \<le> m \<Longrightarrow> slot_rows d s n = take n (slot_rows d s m)"
  by (simp add: slot_rows_def take_map)

lemma covers_nil: "covers kern d s []"
  by (simp add: covers_def slot_rows_def kv_states_def)

lemma covers_take:
  assumes "covers kern d s ts"
  shows "covers kern d s (take n ts)"
proof (cases "n \<le> length ts")
  case True
  then show ?thesis
    using assms slot_rows_take [OF True] by (simp add: covers_def kv_states_take min_absorb2)
qed (use assms in simp)

text \<open>Cells: the pieces of a buffer one row of one head of one slot occupies.\<close>

lemma cells_apart:
  fixes x :: nat
  assumes "(s, p) \<noteq> (s', p')" "h < H" "h' < H" "p < M" "p' < M"
    and x: "s * H * (M * r) + h * (M * r) + p * r \<le> x" "x < s * H * (M * r) + h * (M * r) + p * r + r"
  shows "x < s' * H * (M * r) + p' * r + h' * (M * r) \<or> s' * H * (M * r) + p' * r + h' * (M * r) + r \<le> x"
proof -
  let ?i = "(s * H + h) * M + p" and ?j = "(s' * H + h') * M + p'"
  have "?i \<noteq> ?j"
  proof
    assume eq: "?i = ?j"
    then have "?i div M = ?j div M" "?i mod M = ?j mod M" by simp_all
    then have "s * H + h = s' * H + h'" "p = p'" using assms(4,5) by simp_all
    then have "(s * H + h) div H = (s' * H + h') div H" by simp
    with assms(1-3) \<open>p = p'\<close> show False by simp
  qed
  have i: "s * H * (M * r) + h * (M * r) + p * r = ?i * r" "s' * H * (M * r) + p' * r + h' * (M * r) = ?j * r"
    by (simp_all add: algebra_simps)
  from \<open>?i \<noteq> ?j\<close> consider "Suc ?i \<le> ?j" | "Suc ?j \<le> ?i" by linarith
  then show ?thesis
  proof cases
    case 1
    then have "Suc ?i * r \<le> ?j * r" by (rule mult_le_mono1)
    with x show ?thesis unfolding i by simp
  next
    case 2
    then have "Suc ?j * r \<le> ?i * r" by (rule mult_le_mono1)
    with x show ?thesis unfolding i by simp
  qed
qed

lemma append_row_geo [simp]: "kv_geo (append_row kern d e) = kv_geo d"
  by (simp add: append_row_def kv_geo_def case_prod_beta)

lemma kv_states_geo:
  assumes "kv_geo d' = kv_geo d"
  shows "kv_states kern d' = kv_states kern d"
  unfolding kv_states_def new_row_def runs_geo [OF assms] row_bytes_geo [OF assms] by (rule refl)

lemma append_row_other:
  assumes "(s', q) \<noteq> (seq, pos)" "q < d_max_seq d" "pos < d_max_seq d"
  shows "slot_row (append_row kern d (tok, pos, seq)) s' q = slot_row d s' q"
proof -
  let ?d = "append_row kern d (tok, pos, seq)" and ?S = "d_max_seq d * row_bytes d" and ?r = "row_bytes d"
  have geo: "kv_geo ?d = kv_geo d" by simp
  have "rd (d_mem ?d b) (s' * d_kv_heads d * ?S + h * ?S + q * ?r) ?r = rd (d_mem d b) (s' * d_kv_heads d * ?S + h * ?S + q * ?r) ?r"
    if "(b, h) \<in> set (runs d)" for b h
  proof (rule rd_cong)
    fix x assume x: "s' * d_kv_heads d * ?S + h * ?S + q * ?r \<le> x" "x < s' * d_kv_heads d * ?S + h * ?S + q * ?r + ?r"
    show "d_mem ?d b x = d_mem d b x"
      unfolding append_row_def prod.case
      using cells_apart [OF assms(1) runs_heads [OF that] _ assms(2,3) x] runs_heads by (simp add: copy_in_other)
  qed
  then show ?thesis
    unfolding slot_row_def runs_geo [OF geo] row_bytes_geo [OF geo] using geo by (auto simp: kv_geo_def)
qed

lemma length_concat_const: "\<forall>x \<in> set xs. length x = n \<Longrightarrow> length (concat xs) = length xs * n"
  by (induction xs) auto

lemma append_row_own:
  assumes pos: "pos < d_max_seq d"
  shows "slot_row (append_row kern d (tok, pos, seq)) seq pos = new_row kern d (slot_rows d seq pos) tok"
proof -
  let ?d = "append_row kern d (tok, pos, seq)" and ?S = "d_max_seq d * row_bytes d" and ?r = "row_bytes d"
  let ?k = "new_row kern d (slot_rows d seq pos) tok" and ?off = "seq * d_kv_heads d * (d_max_seq d * row_bytes d) + pos * row_bytes d"
  have geo: "kv_geo ?d = kv_geo d" by simp
  have kl: "length ?k = length (runs d)" "\<forall>x \<in> set ?k. length x = ?r" by (auto simp: new_row_def)
  have len: "length (concat ?k) = length (runs d) * ?r"
    using length_concat_const [OF kl(2)] kl(1) by simp
  have rs: "?r \<le> ?S" using mult_le_mono1 [of "Suc 0" "d_max_seq d" ?r] pos by simp
  have "map (\<lambda>(b, h). rd (d_mem ?d b) (?off + h * ?S) ?r) (runs d) =
      map (\<lambda>k. take ?r (drop (k * ?r) (concat ?k))) [0..<length (runs d)]"
    unfolding append_row_def prod.case using copy_in_reads [OF distinct_runs rs len] by simp
  also have "\<dots> = ?k" using concat_pieces [OF kl(2)] kl(1) by simp
  finally show ?thesis
    unfolding slot_row_def runs_geo [OF geo] row_bytes_geo [OF geo] using geo by (simp add: kv_geo_def add.commute add.left_commute)
qed

lemma append_row_rows_below:
  "n \<le> pos \<Longrightarrow> pos < d_max_seq d \<Longrightarrow> slot_rows (append_row kern d (tok, pos, seq)) seq n = slot_rows d seq n"
  unfolding slot_rows_def by (intro map_cong refl append_row_other) auto

lemma append_row_covers:
  assumes "covers kern d s ts" "length ts < d_max_seq d"
  shows "covers kern (append_row kern d (t, length ts, s)) s (ts @ [t])"
proof -
  let ?d = "append_row kern d (t, length ts, s)"
  have m: "d_max_seq ?d = d_max_seq d" by (simp add: append_row_def)
  have st: "kv_states kern ?d = kv_states kern d" by (rule kv_states_geo) simp
  have "slot_rows ?d s (Suc (length ts)) = slot_rows ?d s (length ts) @ [slot_row ?d s (length ts)]"
    by (simp add: slot_rows_def)
  also have "\<dots> = kv_states kern d (ts @ [t])"
    using assms by (simp add: append_row_rows_below append_row_own kv_states_snoc covers_def)
  finally show ?thesis using assms(2) m by (simp add: covers_def st)
qed

lemma append_row_covers_other:
  assumes "covers kern d s' ts" "s' \<noteq> seq" "pos < d_max_seq d"
  shows "covers kern (append_row kern d (tok, pos, seq)) s' ts"
proof -
  have "slot_rows (append_row kern d (tok, pos, seq)) s' (length ts) = slot_rows d s' (length ts)"
    unfolding slot_rows_def using assms by (intro map_cong refl append_row_other) (auto simp: covers_def)
  moreover have "kv_states kern (append_row kern d (tok, pos, seq)) = kv_states kern d" by (rule kv_states_geo) simp
  moreover have "d_max_seq (append_row kern d (tok, pos, seq)) = d_max_seq d" by (simp add: append_row_def)
  ultimately show ?thesis using assms(1) by (simp add: covers_def)
qed

lemma check_entries_Ok:
  "check_entries d es = Ok () \<longleftrightarrow> (\<forall>(t, pos, seq) \<in> set es. pos < d_max_seq d \<and> seq < d_batch_cap d)"
  by (induction d es rule: check_entries.induct) auto

lemma step_multi_Ok:
  assumes "step_multi kern head d es want = Ok (out, d')"
  shows "d' = foldl (append_row kern) d es" "\<forall>(t, pos, seq) \<in> set es. pos < d_max_seq d \<and> seq < d_batch_cap d"
    "es \<noteq> []" "length es \<le> d_chunk_cap d"
proof -
  have "check_entries d es = Ok () \<and> d' = foldl (append_row kern) d es \<and> es \<noteq> [] \<and> length es \<le> d_chunk_cap d"
    using assms by (cases "check_entries d es") (auto simp: step_multi_def Let_def split: if_splits)
  then show "d' = foldl (append_row kern) d es" "\<forall>(t, pos, seq) \<in> set es. pos < d_max_seq d \<and> seq < d_batch_cap d"
    "es \<noteq> []" "length es \<le> d_chunk_cap d"
    by (simp_all add: check_entries_Ok)
qed

lemma foldl_append_geo: "kv_geo (foldl (append_row kern) d es) = kv_geo d"
  by (induction es arbitrary: d) simp_all

lemma geo_max_seq: "kv_geo d' = kv_geo d \<Longrightarrow> d_max_seq d' = d_max_seq d"
  by (simp add: kv_geo_def)

definition run_entries :: "nat \<Rightarrow> nat \<Rightarrow> u32 list \<Rightarrow> (u32 \<times> nat \<times> nat) list" where
  "run_entries s start us = map (\<lambda>i. (us ! i, start + i, s)) [0..<length us]"

lemma run_entries_Cons: "run_entries s start (u # us) = (u, start, s) # run_entries s (Suc start) us"
proof -
  have "[0..<length (u # us)] = 0 # map Suc [0..<length us]"
    by (simp add: map_Suc_upt upt_conv_Cons del: upt_Suc)
  then show ?thesis by (simp add: run_entries_def comp_def del: upt_Suc)
qed

lemma foldl_covers:
  assumes "covers kern d s ts" "length ts + length us \<le> d_max_seq d"
  shows "covers kern (foldl (append_row kern) d (run_entries s (length ts) us)) s (ts @ us)"
  using assms
proof (induction us arbitrary: d ts)
  case (Cons u us)
  let ?d = "append_row kern d (u, length ts, s)"
  have "covers kern ?d s (ts @ [u])" using Cons.prems by (intro append_row_covers) simp_all
  moreover have "d_max_seq ?d = d_max_seq d" by (simp add: append_row_def)
  ultimately show ?case
    using Cons.IH [of ?d "ts @ [u]"] Cons.prems(2) by (simp add: run_entries_Cons)
qed (simp add: run_entries_def)

lemma foldl_covers_other:
  assumes "covers kern d s' xs" "\<forall>(t, pos, seq) \<in> set es. pos < d_max_seq d \<and> seq \<noteq> s'"
  shows "covers kern (foldl (append_row kern) d es) s' xs"
  using assms
proof (induction es arbitrary: d)
  case (Cons e es)
  obtain t pos seq where e: "e = (t, pos, seq)" by (cases e)
  have "covers kern (append_row kern d e) s' xs"
    using Cons.prems e by (auto intro: append_row_covers_other)
  moreover have "d_max_seq (append_row kern d e) = d_max_seq d" by (simp add: append_row_def case_prod_beta)
  ultimately show ?case using Cons by simp
qed simp

section \<open>The contract\<close>

text \<open>
  What the session store and the server's generation loops use of a decoder: which tokens a slot
  covers, export and import of a covered prefix, and steps that extend it. \<open>geo\<close> is the shape that
  never changes, \<open>room\<close> the longest context a slot takes.
\<close>

text \<open>A host blob that holds the state of \<open>ts\<close>, whichever slot it came from.\<close>

definition parks :: "('d \<Rightarrow> 'g) \<Rightarrow> ('d \<Rightarrow> nat \<Rightarrow> u32 list \<Rightarrow> bool) \<Rightarrow> ('d \<Rightarrow> nat \<Rightarrow> nat \<Rightarrow> ('e, bytes) res)
    \<Rightarrow> 'g \<Rightarrow> bytes \<Rightarrow> u32 list \<Rightarrow> bool" where
  "parks geo cov xport g b ts \<longleftrightarrow> (\<exists>d s. geo d = g \<and> cov d s ts \<and> xport d s (length ts) = Ok b)"

locale kv_lanes =
  fixes geo :: "'d \<Rightarrow> 'g"
    and cov :: "'d \<Rightarrow> nat \<Rightarrow> u32 list \<Rightarrow> bool"
    and xport :: "'d \<Rightarrow> nat \<Rightarrow> nat \<Rightarrow> ('e, bytes) res"
    and mport :: "'d \<Rightarrow> nat \<Rightarrow> nat \<Rightarrow> bytes \<Rightarrow> ('e, 'd) res"
    and stp :: "'d \<Rightarrow> (u32 \<times> nat \<times> nat) list \<Rightarrow> bool \<Rightarrow> ('e, u32 list \<times> 'd) res"
  assumes cov_nil: "cov d s []"
    and cov_take: "cov d s ts \<Longrightarrow> cov d s (take n ts)"
    and imp_geo: "mport d s n b = Ok d' \<Longrightarrow> geo d' = geo d"
    and imp_exp: "cov d s ts \<Longrightarrow> xport d s (length ts) = Ok b \<Longrightarrow> geo d2 = geo d \<Longrightarrow>
      mport d2 s2 (length ts) b = Ok d3 \<Longrightarrow> cov d3 s2 ts"
    and imp_other: "mport d s n b = Ok d' \<Longrightarrow> s' \<noteq> s \<Longrightarrow> cov d s' ts \<Longrightarrow> cov d' s' ts"
    and stp_geo: "stp d es w = Ok (out, d') \<Longrightarrow> geo d' = geo d"
    and stp_cov: "stp d (run_entries s (length ts) us) w = Ok (out, d') \<Longrightarrow> cov d s ts \<Longrightarrow> cov d' s (ts @ us)"
    and stp_other: "stp d es w = Ok (out, d') \<Longrightarrow> \<forall>e \<in> set es. snd (snd e) \<noteq> s' \<Longrightarrow> cov d s' ts \<Longrightarrow> cov d' s' ts"
begin

lemma parks_restore:
  assumes "parks geo cov xport (geo d) b ts" "mport d s (length ts) b = Ok d'"
  shows "cov d' s ts"
  using assms imp_exp unfolding parks_def by metis

lemma parks_export: "cov d s ts \<Longrightarrow> xport d s (length ts) = Ok b \<Longrightarrow> parks geo cov xport (geo d) b ts"
  unfolding parks_def by blast

end

section \<open>The decoder meets it\<close>

lemma import_cover_other:
  assumes "kv_import d s n b = Ok d'" "s' \<noteq> s" "covers kern d s' ts"
  shows "covers kern d' s' ts"
proof -
  have geo: "kv_geo d' = kv_geo d" using assms(1) by (auto simp: import_Ok kv_geo_def)
  have "slot_rows d' s' (length ts) = slot_rows d s' (length ts)"
    unfolding slot_rows_def using assms(3) by (intro map_cong refl import_other [OF assms(1,2)]) (auto simp: covers_def)
  with assms(3) show ?thesis by (simp add: covers_def kv_states_geo [OF geo] geo_max_seq [OF geo])
qed

lemma import_cover:
  assumes "covers kern d s ts" "kv_export d s (length ts) = Ok b" "kv_geo d2 = kv_geo d"
    "kv_import d2 s2 (length ts) b = Ok d3"
  shows "covers kern d3 s2 ts"
proof -
  note r = import_restores [OF assms(2,4,3)]
  have geo: "kv_geo d3 = kv_geo d" using r(2) assms(3) by simp
  show ?thesis using assms(1) r(1) by (simp add: covers_def kv_states_geo [OF geo] geo_max_seq [OF geo])
qed

lemma step_cover:
  assumes "step_multi kern head d (run_entries s (length ts) us) w = Ok (out, d')" "covers kern d s ts"
  shows "covers kern d' s (ts @ us)"
proof -
  note st = step_multi_Ok [OF assms(1)]
  have "us \<noteq> []" using st(3) by (auto simp: run_entries_def)
  then have "(us ! (length us - 1), length ts + (length us - 1), s) \<in> set (run_entries s (length ts) us)"
    unfolding run_entries_def set_map by (intro image_eqI [of _ _ "length us - 1"]) (simp_all add: Suc_le_eq)
  with st(2) have "length ts + (length us - 1) < d_max_seq d" by fastforce
  with \<open>us \<noteq> []\<close> have "length ts + length us \<le> d_max_seq d" by (cases us) auto
  from foldl_covers [OF assms(2) this] st(1) show ?thesis by simp
qed

lemma step_cover_other:
  assumes "step_multi kern head d es w = Ok (out, d')" "\<forall>e \<in> set es. snd (snd e) \<noteq> s'" "covers kern d s' ts"
  shows "covers kern d' s' ts"
proof -
  note st = step_multi_Ok [OF assms(1)]
  show ?thesis unfolding st(1) using st(2) assms(2) by (intro foldl_covers_other [OF assms(3)]) fastforce
qed

interpretation kv: kv_lanes kv_geo "covers kern" kv_export kv_import "step_multi kern head" for kern head
proof
  show "covers kern d s []" for d s by (rule covers_nil)
  show "covers kern d s (take n ts)" if "covers kern d s ts" for d s ts n using that by (rule covers_take)
  show "kv_geo d' = kv_geo d" if "kv_import d s n b = Ok d'" for d s n b d'
    using that by (auto simp: import_Ok kv_geo_def)
  show "kv_geo d' = kv_geo d" if "step_multi kern head d es w = Ok (out, d')" for d es w out d'
    unfolding step_multi_Ok(1) [OF that] by (rule foldl_append_geo)
qed (fact import_cover import_cover_other step_cover step_cover_other)+

lemma kv_restore:
  assumes "kv_export d s n = Ok b" "kv_geo d2 = kv_geo d" "s2 < d_batch_cap d2"
  shows "\<exists>d3. kv_import d2 s2 n b = Ok d3"
proof -
  have ex: "n \<le> d_max_seq d" and b: "b = concat (map (\<lambda>(b, h). rd (d_mem d b) (s * d_kv_heads d * (d_max_seq d * row_bytes d) +
            h * (d_max_seq d * row_bytes d)) (n * row_bytes d)) (runs d))"
    using assms(1) by (auto simp: export_Ok)
  have "length b = length (runs d) * (n * row_bytes d)"
    unfolding b by (subst length_concat_const [of _ "n * row_bytes d"]) auto
  also have "\<dots> = kv_bytes_per_token d2 * n"
    by (simp add: blob_size runs_geo [OF assms(2)] row_bytes_geo [OF assms(2)])
  finally show ?thesis using assms(3) ex geo_max_seq [OF assms(2)] by (auto simp: import_Ok)
qed

text \<open>Inside its bounds the decoder never refuses a covered context.\<close>

lemma never_refuses_export:
  "covers kern d k ts \<Longrightarrow> k < d_batch_cap d \<Longrightarrow> \<exists>b. kv_export d k (length ts) = Ok b"
  by (simp add: covers_def export_Ok)

lemma never_refuses_import:
  assumes "parks kv_geo (covers kern) kv_export (kv_geo d) b ts" "k < d_batch_cap d"
  shows "\<exists>d'. kv_import d k (length ts) b = Ok d'"
  using assms kv_restore unfolding parks_def by metis

section \<open>Properties\<close>

text \<open>C5: Parking is lossless: exporting the first \<open>n\<close> positions of a slot and importing the blob into
  any slot of a decoder of the same shape restores exactly those rows, in every layer, head and both
  buffers, and touches no other slot.\<close>

theorem kv_export_import:
  assumes "kv_export d s n = Ok b" "kv_geo d2 = kv_geo d" "s2 < d_batch_cap d2"
  shows "\<exists>d3. kv_import d2 s2 n b = Ok d3 \<and> slot_rows d3 s2 n = slot_rows d s n \<and>
    (\<forall>s' p. s' \<noteq> s2 \<and> p < d_max_seq d2 \<longrightarrow> slot_row d3 s' p = slot_row d2 s' p)"
proof -
  obtain d3 where d3: "kv_import d2 s2 n b = Ok d3" using kv_restore [OF assms] by blast
  with import_restores [OF assms(1) d3 assms(2)] import_other [OF d3] show ?thesis by blast
qed

definition tiny_dec :: kv_dec where
  "tiny_dec = \<lparr>d_layers = 2, d_kv_heads = 2, d_head_dim = 1, d_kv_f16 = True, d_max_seq = 3, d_batch_cap = 2,
     d_chunk_cap = 4, d_mem = (\<lambda>b x. of_nat (16 * b + x))\<rparr>"

lemma kv_export_import_witness:
  "\<exists>b d3. kv_export tiny_dec 0 2 = Ok b \<and> kv_import tiny_dec 1 2 b = Ok d3 \<and>
     slot_rows d3 1 2 = slot_rows tiny_dec 0 2"
proof -
  obtain b where b: "kv_export tiny_dec 0 2 = Ok b"
    using export_Ok [of tiny_dec 0 2] by (auto simp: tiny_dec_def)
  from kv_export_import [OF b refl, of 1] b show ?thesis by (auto simp: tiny_dec_def)
qed

text \<open>A step extends exactly the context it is given: if a slot covers \<open>ts\<close> and the tokens \<open>us\<close>
  are run at the following positions, the slot covers \<open>ts @ us\<close>, the last entry's answer is computed
  from that whole context, and every slot not among the entries keeps what it covered.\<close>

theorem step_multi_extends_context:
  assumes st: "step_multi kern head d (run_entries s (length ts) us) True = Ok (out, d')"
    and cov: "covers kern d s ts" and other: "covers kern d s' xs" "s' \<noteq> s"
  shows "covers kern d' s (ts @ us) \<and> covers kern d' s' xs \<and> length out = length us \<and>
    last out = head (kv_states kern d (ts @ us))"
proof -
  note ok = step_multi_Ok [OF st]
  have c: "covers kern d' s (ts @ us)" by (rule step_cover [OF st cov])
  have o: "covers kern d' s' xs" using other by (intro step_cover_other [OF st _ other(1)]) (auto simp: run_entries_def)
  have us: "us \<noteq> []" using ok(3) by (auto simp: run_entries_def)
  let ?es = "run_entries s (length ts) us"
  have len: "length ?es = length us" by (simp add: run_entries_def)
  obtain n where n: "length us = Suc n" using us by (cases us) auto
  have out: "out = map (\<lambda>t. if last_for_slot ?es t
      then head (slot_rows d' (snd (snd (?es ! t))) (fst (snd (?es ! t)) + 1)) else 0) [0..<length us]"
    using st by (cases "check_entries d ?es") (auto simp: step_multi_def Let_def len split: if_splits)
  then have lo: "length out = length us" by simp
  have l: "last_for_slot ?es (length us - 1)" using us by (simp add: last_for_slot_def len)
  have e: "?es ! (length us - 1) = (us ! (length us - 1), length ts + (length us - 1), s)"
    using us by (simp add: run_entries_def)
  have "last out = out ! (length us - 1)" using us lo by (metis last_conv_nth length_0_conv)
  also have "\<dots> = head (slot_rows d' s (length (ts @ us)))"
    using l e n by (simp add: out del: upt_Suc)
  also have "\<dots> = head (kv_states kern d' (ts @ us))" using c by (simp add: covers_def)
  finally have "last out = head (kv_states kern d (ts @ us))"
    using kv_states_geo [OF kv.stp_geo [OF st], of kern] by simp
  with c o lo show ?thesis by blast
qed

lemma step_multi_extends_context_witness:
  "\<exists>out d'. step_multi (\<lambda>rows t b h x. of_nat (length rows)) (\<lambda>rows. of_nat (length rows)) tiny_dec [(7, 0, 1), (9, 1, 1)] True =
      Ok (out, d') \<and> last out = 2"
proof -
  let ?k = "\<lambda>rows t b h x. of_nat (length rows)" and ?h = "\<lambda>rows :: bytes list list. of_nat (length rows) :: u32"
  have e: "run_entries 1 (length ([] :: u32 list)) [7, 9] = [(7, 0, 1), (9, 1, 1)]"
    by (simp add: run_entries_Cons) (simp add: run_entries_def)
  obtain out d' where st: "step_multi ?k ?h tiny_dec [(7, 0, 1), (9, 1, 1)] True = Ok (out, d')"
    by (simp add: step_multi_def tiny_dec_def Let_def)
  have "last out = ?h (kv_states ?k tiny_dec ([] @ [7, 9]))"
    using step_multi_extends_context [OF st [folded e] covers_nil covers_nil, of 0] by simp
  with st show ?thesis by auto
qed

end
