(* ===== verification/Sessions.thy ===== *)
theory Sessions
  imports Kv_Lanes
begin

text \<open>
  The session store of \<open>llmpager-serve/src/main.rs\<close>: named contexts, each resident in a sequence slot
  of the decoder or parked in host memory. The decoder's export and import are arguments, used
  through the contract \<open>kv_lanes\<close>. The hash map is a list of pairs (its iteration order is
  unspecified; \<open>sess_ok\<close> makes the result of every scan independent of it). Clock and turn counters
  (\<open>u64\<close>, one step per request) are \<open>nat\<close>.
\<close>

section \<open>State\<close>

record session =
  n_tokens :: "u32 list"
  n_slot :: "nat option"
  n_parked :: "bytes option"
  n_last_used :: nat
  n_turns :: nat

record session_store =
  o_map :: "(string \<times> session) list"
  o_owner :: "string option list"
  o_ram_budget :: nat
  o_clock :: nat

datatype 'e session_error = NeedsTwoSlots | NoSessionSlots | ParkFreedNone | Decoder 'e

definition common_prefix :: "u32 list \<Rightarrow> u32 list \<Rightarrow> nat" where
  "common_prefix a b = length (takeWhile (\<lambda>(x, y). x = y) (zip a b))"

definition store_new :: "nat \<Rightarrow> nat \<Rightarrow> session_store" where
  "store_new batch_cap ram_budget =
     \<lparr>o_map = [], o_owner = replicate (batch_cap - 1) None, o_ram_budget = ram_budget, o_clock = 0\<rparr>"

definition store_tick :: "session_store \<Rightarrow> nat \<times> session_store" where
  "store_tick st = (o_clock st + 1, st\<lparr>o_clock := o_clock st + 1\<rparr>)"

text \<open>Map access: \<open>get\<close>, \<open>get_mut\<close>, \<open>remove\<close>.\<close>

definition sget :: "session_store \<Rightarrow> string \<Rightarrow> session option" where
  "sget st i = map_of (o_map st) i"

definition supd :: "string \<Rightarrow> (session \<Rightarrow> session) \<Rightarrow> session_store \<Rightarrow> session_store" where
  "supd i f st = st\<lparr>o_map := map (\<lambda>(k, s). (k, if k = i then f s else s)) (o_map st)\<rparr>"

definition sinsert :: "string \<Rightarrow> session \<Rightarrow> session_store \<Rightarrow> session_store" where
  "sinsert i s st = (if sget st i = None then st\<lparr>o_map := o_map st @ [(i, s)]\<rparr> else st)"

definition parked_bytes :: "session_store \<Rightarrow> nat" where
  "parked_bytes st = sum_list (map (\<lambda>(k, s). case n_parked s of None \<Rightarrow> 0 | Some b \<Rightarrow> length b) (o_map st))"

section \<open>Operations\<close>

definition lru_parked :: "session_store \<Rightarrow> string option" where
  "lru_parked st = map_option fst
     (first_min (\<lambda>(k, s). n_last_used s) (filter (\<lambda>(k, s). n_parked s \<noteq> None) (o_map st)))"

definition drop_context :: "string \<Rightarrow> session_store \<Rightarrow> session_store" where
  "drop_context i = supd i (\<lambda>s. s\<lparr>n_parked := None, n_tokens := []\<rparr>)"

definition parked_count :: "session_store \<Rightarrow> nat" where
  "parked_count st = length (filter (\<lambda>(k, s). n_parked s \<noteq> None) (o_map st))"

lemma lru_parked_mem:
  assumes "lru_parked st = Some i"
  shows "\<exists>s. (i, s) \<in> set (o_map st) \<and> n_parked s \<noteq> None"
  using assms first_min_mem by (fastforce simp: lru_parked_def)

lemma drop_context_count:
  assumes "lru_parked st = Some i"
  shows "parked_count (drop_context i st) < parked_count st"
proof -
  have le: "length (filter (\<lambda>(k, s). n_parked s \<noteq> None) (map (\<lambda>(k, s). (k, if k = i then s\<lparr>n_parked := None, n_tokens := []\<rparr> else s)) m))
      \<le> length (filter (\<lambda>(k, s). n_parked s \<noteq> None) m)" for m :: "(string \<times> session) list"
    by (induction m) (auto split: if_splits)
  have "length (filter (\<lambda>(k, s). n_parked s \<noteq> None) (map (\<lambda>(k, s). (k, if k = i then s\<lparr>n_parked := None, n_tokens := []\<rparr> else s)) m))
      < length (filter (\<lambda>(k, s). n_parked s \<noteq> None) m)" if "(i, s) \<in> set m" "n_parked s \<noteq> None" for m :: "(string \<times> session) list" and s
    using that
  proof (induction m)
    case (Cons x m)
    show ?case
    proof (cases "x = (i, s)")
      case True
      with le [of m] Cons.prems(2) show ?thesis by auto
    next
      case False
      with Cons le [of m] show ?thesis by (cases x) (auto split: if_splits)
    qed
  qed simp
  with lru_parked_mem [OF assms] show ?thesis
    unfolding parked_count_def drop_context_def supd_def by fastforce
qed

function enforce_budget :: "session_store \<Rightarrow> session_store" where
  "enforce_budget st =
     (if o_ram_budget st < parked_bytes st then
        (case lru_parked st of None \<Rightarrow> st | Some i \<Rightarrow> enforce_budget (drop_context i st))
      else st)"
  by pat_completeness auto
termination
  by (relation "measure parked_count") (auto intro: drop_context_count)

declare enforce_budget.simps [simp del]

text \<open>\<open>park\<close>: the state is returned with an error too.\<close>

definition park ::
  "('d \<Rightarrow> nat \<Rightarrow> nat \<Rightarrow> ('e, bytes) res) \<Rightarrow> 'd \<Rightarrow> string \<Rightarrow> session_store
   \<Rightarrow> ('e session_error, unit) res \<times> session_store" where
  "park xport d i st =
     (case sget st i of None \<Rightarrow> (Ok (), st) | Some s \<Rightarrow>
      case n_slot s of None \<Rightarrow> (Ok (), st) | Some slot \<Rightarrow>
      let n = length (n_tokens s);
          blob = (if 0 < n then (case xport d slot n of Ok b \<Rightarrow> Ok (Some b) | Err e \<Rightarrow> Err e | Panic \<Rightarrow> Panic) else Ok None)
      in (case blob of Err e \<Rightarrow> (Err (Decoder e), st) | Panic \<Rightarrow> (Panic, st)
          | Ok b \<Rightarrow>
              let st1 = supd i (\<lambda>s. s\<lparr>n_parked := b, n_slot := None\<rparr>) st in
              if slot = 0 \<or> length (o_owner st) < slot then (Panic, st1)
              else (Ok (), enforce_budget (st1\<lparr>o_owner := (o_owner st1)[slot - 1 := None]\<rparr>))))"

definition first_free :: "session_store \<Rightarrow> nat option" where
  "first_free st = find (\<lambda>i. o_owner st ! i = None) [0..<length (o_owner st)]"

definition lru_owner :: "session_store \<Rightarrow> string option" where
  "lru_owner st = first_min (\<lambda>i. case sget st i of None \<Rightarrow> 0 | Some s \<Rightarrow> n_last_used s)
     (List.map_filter id (o_owner st))"

definition claim_slot ::
  "('d \<Rightarrow> nat \<Rightarrow> nat \<Rightarrow> ('e, bytes) res) \<Rightarrow> 'd \<Rightarrow> string \<Rightarrow> session_store
   \<Rightarrow> ('e session_error, nat) res \<times> session_store" where
  "claim_slot xport d for_id st =
     (case first_free st of
        Some i \<Rightarrow> (Ok (i + 1), st\<lparr>o_owner := (o_owner st)[i := Some for_id]\<rparr>)
      | None \<Rightarrow>
          (case lru_owner st of None \<Rightarrow> (Err NoSessionSlots, st)
           | Some victim \<Rightarrow>
               (case park xport d victim st of
                  (Err e, st1) \<Rightarrow> (Err e, st1)
                | (Panic, st1) \<Rightarrow> (Panic, st1)
                | (Ok _, st1) \<Rightarrow>
                    (case first_free st1 of None \<Rightarrow> (Err ParkFreedNone, st1)
                     | Some i \<Rightarrow> (Ok (i + 1), st1\<lparr>o_owner := (o_owner st1)[i := Some for_id]\<rparr>)))))"

text \<open>The last lines of \<open>acquire\<close>.\<close>

definition settle :: "string \<Rightarrow> nat \<Rightarrow> nat \<Rightarrow> session_store \<Rightarrow> ('e session_error, nat \<times> nat) res \<times> session_store" where
  "settle i slot reuse st =
     (case sget st i of None \<Rightarrow> (Panic, st)
      | Some _ \<Rightarrow> (Ok (slot, reuse), supd i (\<lambda>s. s\<lparr>n_slot := Some slot, n_tokens := take reuse (n_tokens s)\<rparr>) st))"

definition fresh_session :: "nat \<Rightarrow> session" where
  "fresh_session now = \<lparr>n_tokens = [], n_slot = None, n_parked = None, n_last_used = now, n_turns = 0\<rparr>"

text \<open>The first lines of \<open>acquire\<close>: tick, the entry if it is new, its time stamp.\<close>

definition touched :: "session_store \<Rightarrow> string \<Rightarrow> session_store" where
  "touched st i =
     (let (now, st0) = store_tick st
      in supd i (\<lambda>s. s\<lparr>n_last_used := now\<rparr>) (sinsert i (fresh_session now) st0))"

definition session_acquire ::
  "('d \<Rightarrow> nat \<Rightarrow> nat \<Rightarrow> ('e, bytes) res) \<Rightarrow> ('d \<Rightarrow> nat \<Rightarrow> nat \<Rightarrow> bytes \<Rightarrow> ('e, 'd) res)
   \<Rightarrow> session_store \<Rightarrow> 'd \<Rightarrow> string \<Rightarrow> u32 list
   \<Rightarrow> ('e session_error, nat \<times> nat) res \<times> session_store \<times> 'd" where
  "session_acquire xport mport st d i prompt =
     (if o_owner st = [] then (Err NeedsTwoSlots, st, d)
      else let st1 = touched st i in (case sget st1 i of None \<Rightarrow> (Panic, st1, d) | Some e \<Rightarrow>
          let reuse = min (common_prefix (n_tokens e) prompt) (length prompt - 1) in
          (case n_slot e of
             Some s \<Rightarrow> (let (r, st2) = settle i s reuse st1 in (r, st2, d))
           | None \<Rightarrow>
               let st2 = supd i (\<lambda>s. s\<lparr>n_parked := None\<rparr>) st1 in
               (case claim_slot xport d i st2 of
                  (Err x, st3) \<Rightarrow> (Err x, st3, d)
                | (Panic, st3) \<Rightarrow> (Panic, st3, d)
                | (Ok s, st3) \<Rightarrow>
                    (case n_parked e of
                       Some blob \<Rightarrow>
                         if 0 < reuse then
                           (case mport d s (length (n_tokens e)) blob of
                              Err x \<Rightarrow> (Err (Decoder x), st3, d) | Panic \<Rightarrow> (Panic, st3, d)
                            | Ok d' \<Rightarrow> (let (r, st4) = settle i s reuse st3 in (r, st4, d')))
                         else (let (r, st4) = settle i s 0 st3 in (r, st4, d))
                     | None \<Rightarrow> (let (r, st4) = settle i s 0 st3 in (r, st4, d)))))))"

definition session_commit :: "string \<Rightarrow> u32 list \<Rightarrow> session_store \<Rightarrow> session_store" where
  "session_commit i tokens st =
     (let (now, st1) = store_tick st
      in supd i (\<lambda>s. s\<lparr>n_tokens := tokens, n_turns := n_turns s + 1, n_last_used := now\<rparr>) st1)"

definition session_forget :: "string \<Rightarrow> session_store \<Rightarrow> (unit, bool) res \<times> session_store" where
  "session_forget i st =
     (case sget st i of None \<Rightarrow> (Ok False, st)
      | Some s \<Rightarrow>
          let st1 = st\<lparr>o_map := filter (\<lambda>(k, s). k \<noteq> i) (o_map st)\<rparr> in
          (case n_slot s of None \<Rightarrow> (Ok True, st1)
           | Some slot \<Rightarrow>
               if slot = 0 \<or> length (o_owner st) < slot then (Panic, st1)
               else (Ok True, st1\<lparr>o_owner := (o_owner st1)[slot - 1 := None]\<rparr>)))"

end
