(* ===== verification/Session_Safety.thy ===== *)
theory Session_Safety
  imports Sessions
begin

text \<open>
  The session store is safe: its invariant (owners and slots agree, a resident session's slot covers
  its tokens, a parked blob restores them, last uses are distinct) is kept by every operation, and
  the prefix \<open>acquire\<close> offers for reuse is really in the slot it hands out.
\<close>

section \<open>The invariant\<close>

definition entry_ok ::
  "('d \<Rightarrow> 'g) \<Rightarrow> ('d \<Rightarrow> nat \<Rightarrow> u32 list \<Rightarrow> bool) \<Rightarrow> ('d \<Rightarrow> nat \<Rightarrow> nat \<Rightarrow> ('e, bytes) res)
   \<Rightarrow> string option list \<Rightarrow> 'd \<Rightarrow> string \<Rightarrow> session \<Rightarrow> bool" where
  "entry_ok geo cov xport owner d i s \<longleftrightarrow>
     (case n_slot s of
        Some k \<Rightarrow> 0 < k \<and> k \<le> length owner \<and> owner ! (k - 1) = Some i \<and> cov d k (n_tokens s) \<and> n_parked s = None
      | None \<Rightarrow> \<forall>b. n_parked s = Some b \<longrightarrow> parks geo cov xport (geo d) b (n_tokens s))"

definition sess_ok ::
  "('d \<Rightarrow> 'g) \<Rightarrow> ('d \<Rightarrow> nat \<Rightarrow> u32 list \<Rightarrow> bool) \<Rightarrow> ('d \<Rightarrow> nat \<Rightarrow> nat \<Rightarrow> ('e, bytes) res)
   \<Rightarrow> session_store \<Rightarrow> 'd \<Rightarrow> bool" where
  "sess_ok geo cov xport st d \<longleftrightarrow>
     distinct (map fst (o_map st)) \<and>
     (\<forall>i s. sget st i = Some s \<longrightarrow> entry_ok geo cov xport (o_owner st) d i s \<and> n_last_used s \<le> o_clock st) \<and>
     (\<forall>k i. k < length (o_owner st) \<longrightarrow> o_owner st ! k = Some i \<longrightarrow> (\<exists>s. sget st i = Some s \<and> n_slot s = Some (Suc k))) \<and>
     (\<forall>i j s t. sget st i = Some s \<longrightarrow> sget st j = Some t \<longrightarrow> n_last_used s = n_last_used t \<longrightarrow> i = j)"

lemma sess_okI:
  assumes "distinct (map fst (o_map st))"
    "\<And>i s. sget st i = Some s \<Longrightarrow> entry_ok geo cov xport (o_owner st) d i s"
    "\<And>i s. sget st i = Some s \<Longrightarrow> n_last_used s \<le> o_clock st"
    "\<And>k i. k < length (o_owner st) \<Longrightarrow> o_owner st ! k = Some i \<Longrightarrow> \<exists>s. sget st i = Some s \<and> n_slot s = Some (Suc k)"
    "\<And>i j s t. sget st i = Some s \<Longrightarrow> sget st j = Some t \<Longrightarrow> n_last_used s = n_last_used t \<Longrightarrow> i = j"
  shows "sess_ok geo cov xport st d"
  using assms unfolding sess_ok_def by blast

lemma sess_okD:
  assumes "sess_ok geo cov xport st d"
  shows "distinct (map fst (o_map st))"
    "\<And>i s. sget st i = Some s \<Longrightarrow> entry_ok geo cov xport (o_owner st) d i s"
    "\<And>i s. sget st i = Some s \<Longrightarrow> n_last_used s \<le> o_clock st"
    "\<And>k i. k < length (o_owner st) \<Longrightarrow> o_owner st ! k = Some i \<Longrightarrow> \<exists>s. sget st i = Some s \<and> n_slot s = Some (Suc k)"
    "\<And>i j s t. sget st i = Some s \<Longrightarrow> sget st j = Some t \<Longrightarrow> n_last_used s = n_last_used t \<Longrightarrow> i = j"
  using assms unfolding sess_ok_def by blast+

lemma sess_ok_slot:
  assumes "sess_ok geo cov xport st d" "sget st i = Some s" "n_slot s = Some k"
  shows "0 < k" "k \<le> length (o_owner st)" "o_owner st ! (k - 1) = Some i" "cov d k (n_tokens s)" "n_parked s = None"
  using sess_okD(2) [OF assms(1,2)] assms(3) by (simp_all add: entry_ok_def)

section \<open>Map access\<close>

lemma sget_supd [simp]: "sget (supd i f st) j = (if j = i then map_option f (sget st i) else sget st j)"
proof -
  have "map_of (map (\<lambda>(k, s). (k, if k = i then f s else s)) m) j =
      (if j = i then map_option f (map_of m i) else map_of m j)" for m :: "(string \<times> session) list"
    by (induction m) auto
  then show ?thesis by (simp add: sget_def supd_def)
qed

lemma supd_simps [simp]:
  "o_owner (supd i f st) = o_owner st" "o_ram_budget (supd i f st) = o_ram_budget st" "o_clock (supd i f st) = o_clock st"
  "map fst (o_map (supd i f st)) = map fst (o_map st)"
  by (auto simp: supd_def)

lemma sget_sinsert: "sget (sinsert i s st) j = (if j = i \<and> sget st i = None then Some s else sget st j)"
  by (auto simp: sget_def sinsert_def map_add_def split: option.splits)

lemma sinsert_simps [simp]:
  "o_owner (sinsert i s st) = o_owner st" "o_ram_budget (sinsert i s st) = o_ram_budget st" "o_clock (sinsert i s st) = o_clock st"
  by (auto simp: sinsert_def)

lemma sinsert_distinct: "distinct (map fst (o_map st)) \<Longrightarrow> distinct (map fst (o_map (sinsert i s st)))"
  by (auto simp: sinsert_def sget_def map_of_eq_None_iff)

lemma sget_more [simp]: "sget (st\<lparr>o_owner := ow\<rparr>) = sget st" "sget (st\<lparr>o_clock := c\<rparr>) = sget st"
  by (simp_all add: sget_def fun_eq_iff)

lemma sget_mem:
  assumes "distinct (map fst (o_map st))"
  shows "(i, s) \<in> set (o_map st) \<longleftrightarrow> sget st i = Some s"
  using assms by (simp add: sget_def)

lemma common_prefix_take:
  assumes "n \<le> common_prefix a b"
  shows "take n a = take n b" "n \<le> length a" "n \<le> length b"
proof -
  have "n \<le> common_prefix a b \<Longrightarrow> take n a = take n b \<and> n \<le> length a \<and> n \<le> length b" for n
  proof (induction a arbitrary: b n)
    case (Cons x a)
    then show ?case by (cases b; cases n) (auto simp: common_prefix_def split: if_splits)
  qed (simp add: common_prefix_def)
  with assms show "take n a = take n b" "n \<le> length a" "n \<le> length b" by simp_all
qed

text \<open>An update of one entry that keeps its slot and time stamp only has to keep the entry sound.\<close>

lemma supd_ok:
  assumes ok: "sess_ok geo cov xport st d" and s: "sget st i = Some s"
    and same: "n_slot (f s) = n_slot s" "n_last_used (f s) = n_last_used s"
    and e: "entry_ok geo cov xport (o_owner st) d i (f s)"
  shows "sess_ok geo cov xport (supd i f st) d"
proof -
  note D = sess_okD [OF ok]
  show ?thesis
  proof (rule sess_okI)
    show "\<exists>t. sget (supd i f st) j = Some t \<and> n_slot t = Some (Suc k)"
      if "k < length (o_owner (supd i f st))" "o_owner (supd i f st) ! k = Some j" for k j
      using D(4) [of k j] that s same by auto
    show "j = j'" if "sget (supd i f st) j = Some x" "sget (supd i f st) j' = Some y" "n_last_used x = n_last_used y" for j j' x y
      using D(5) that s same by (auto split: if_splits)
  qed (use D s same e in \<open>auto split: if_splits\<close>)
qed

section \<open>The budget\<close>

lemma drop_context_ok:
  assumes ok: "sess_ok geo cov xport st d" and lru: "lru_parked st = Some i" and kv: "\<And>d s. cov d s []"
  shows "sess_ok geo cov xport (drop_context i st) d"
proof -
  note D = sess_okD [OF ok]
  obtain s where s: "sget st i = Some s" "n_parked s \<noteq> None"
    using lru_parked_mem [OF lru] sget_mem [OF D(1)] by blast
  have ns: "n_slot s = None" using sess_ok_slot(5) [OF ok s(1)] s(2) by (cases "n_slot s") auto
  show ?thesis
    unfolding drop_context_def
    by (rule supd_ok [OF ok s(1)]) (simp_all add: entry_ok_def ns)
qed

lemma enforce_budget_ok:
  assumes kv: "\<And>d s. cov d s []"
  shows "sess_ok geo cov xport st d \<Longrightarrow> sess_ok geo cov xport (enforce_budget st) d"
proof (induction st rule: enforce_budget.induct)
  case (1 st)
  then show ?case
    using drop_context_ok [OF 1(2) _ kv] by (subst enforce_budget.simps) (auto split: option.splits)
qed

lemma enforce_budget_same:
  "o_owner (enforce_budget st) = o_owner st \<and> o_clock (enforce_budget st) = o_clock st \<and>
   o_ram_budget (enforce_budget st) = o_ram_budget st"
proof (induction st rule: enforce_budget.induct)
  case (1 st)
  then show ?case by (subst (1 2 3) enforce_budget.simps) (auto simp: drop_context_def split: option.splits)
qed

lemma enforce_budget_keeps:
  "distinct (map fst (o_map st)) \<Longrightarrow> sget st j = Some s \<Longrightarrow> n_parked s = None \<Longrightarrow> sget (enforce_budget st) j = Some s"
proof (induction st rule: enforce_budget.induct)
  case (1 st)
  show ?case
  proof (cases "o_ram_budget st < parked_bytes st \<and> lru_parked st \<noteq> None")
    case True
    then obtain i where i: "lru_parked st = Some i" by auto
    have "i \<noteq> j" using lru_parked_mem [OF i] sget_mem [OF 1(2)] 1(3,4) by auto
    with 1 True i show ?thesis
      by (subst enforce_budget.simps) (simp add: drop_context_def)
  next
    case False
    with 1(3) show ?thesis by (subst enforce_budget.simps) (auto split: option.splits)
  qed
qed

lemma parked_bytes_pos:
  assumes "0 < parked_bytes st"
  shows "lru_parked st \<noteq> None"
proof
  assume "lru_parked st = None"
  then have "filter (\<lambda>(k, s). n_parked s \<noteq> None) (o_map st) = []" by (simp add: lru_parked_def)
  then have "\<forall>x \<in> set (o_map st). (case x of (k, s) \<Rightarrow> case n_parked s of None \<Rightarrow> 0 | Some b \<Rightarrow> length b) = 0"
    by (auto simp: filter_empty_conv)
  then have "parked_bytes st = 0" unfolding parked_bytes_def by (simp only: sum_list_eq_0_iff set_map) auto
  with assms show False by simp
qed

lemma enforce_budget_met: "parked_bytes (enforce_budget st) \<le> o_ram_budget st"
proof (induction st rule: enforce_budget.induct)
  case (1 st)
  show ?case
  proof (cases "o_ram_budget st < parked_bytes st")
    case True
    then obtain i where "lru_parked st = Some i" using parked_bytes_pos [of st] by auto
    with 1 True show ?thesis by (subst enforce_budget.simps) (simp add: drop_context_def)
  qed (subst enforce_budget.simps, simp)
qed

section \<open>Parking and claiming\<close>

lemma first_free_Some:
  assumes "first_free st = Some k"
  shows "k < length (o_owner st)" "o_owner st ! k = None"
  using assms by (auto simp: first_free_def find_Some_iff)

lemma first_free_None: "first_free st = None \<longleftrightarrow> (\<forall>k < length (o_owner st). o_owner st ! k \<noteq> None)"
  by (auto simp: first_free_def find_None_iff)

text \<open>Freeing the slot of a session whose state is parked, in one step.\<close>

lemma park_free_ok:
  assumes ok: "sess_ok geo cov xport st d" and s: "sget st i = Some s" "n_slot s = Some k"
    and b: "\<And>x. b = Some x \<Longrightarrow> parks geo cov xport (geo d) x (n_tokens s)"
  shows "sess_ok geo cov xport
    ((supd i (\<lambda>s. s\<lparr>n_parked := b, n_slot := None\<rparr>) st)\<lparr>o_owner := (o_owner st)[k - 1 := None]\<rparr>) d"
proof -
  note D = sess_okD [OF ok] and S = sess_ok_slot [OF ok s]
  have other: "entry_ok geo cov xport ((o_owner st)[k - 1 := None]) d j t" if "sget st j = Some t" "j \<noteq> i" for j t
  proof (cases "n_slot t")
    case (Some k')
    note S' = sess_ok_slot [OF ok that(1) Some]
    have "k' \<noteq> k" using S(3) S'(3) that(2) by auto
    with S S' Some show ?thesis by (simp add: entry_ok_def nth_list_update)
  qed (use D(2) [OF that(1)] in \<open>simp add: entry_ok_def\<close>)
  show ?thesis
  proof (rule sess_okI)
    show "\<exists>t. sget ((supd i (\<lambda>s. s\<lparr>n_parked := b, n_slot := None\<rparr>) st)\<lparr>o_owner := (o_owner st)[k - 1 := None]\<rparr>) j = Some t
          \<and> n_slot t = Some (Suc m)"
      if "m < length (o_owner ((supd i (\<lambda>s. s\<lparr>n_parked := b, n_slot := None\<rparr>) st)\<lparr>o_owner := (o_owner st)[k - 1 := None]\<rparr>))"
        "o_owner ((supd i (\<lambda>s. s\<lparr>n_parked := b, n_slot := None\<rparr>) st)\<lparr>o_owner := (o_owner st)[k - 1 := None]\<rparr>) ! m = Some j" for m j
    proof -
      have m: "m < length (o_owner st)" "m \<noteq> k - 1" "o_owner st ! m = Some j"
        using that by (cases "m = k - 1"; simp)+
      obtain t where t: "sget st j = Some t" "n_slot t = Some (Suc m)" using D(4) [OF m(1,3)] by blast
      have "j \<noteq> i" using t s m(2) S(1) by auto
      with t show ?thesis by simp
    qed
    show "j = j'"
      if "sget ((supd i (\<lambda>s. s\<lparr>n_parked := b, n_slot := None\<rparr>) st)\<lparr>o_owner := (o_owner st)[k - 1 := None]\<rparr>) j = Some x"
        "sget ((supd i (\<lambda>s. s\<lparr>n_parked := b, n_slot := None\<rparr>) st)\<lparr>o_owner := (o_owner st)[k - 1 := None]\<rparr>) j' = Some y"
        "n_last_used x = n_last_used y" for j j' x y
      using D(5) that by (auto split: if_splits)
  qed (use D s b other in \<open>auto simp: entry_ok_def split: if_splits\<close>)
qed

context kv_lanes
begin

text \<open>The decoder refusing to export a covered slot or to import a parked blob: the only failures.\<close>

definition refuses :: "nat \<Rightarrow> 'd \<Rightarrow> bool" where
  "refuses n d \<longleftrightarrow>
     (\<exists>k ts. 0 < k \<and> k \<le> n \<and> cov d k ts \<and> (\<forall>b. xport d k (length ts) \<noteq> Ok b)) \<or>
     (\<exists>k ts b. 0 < k \<and> k \<le> n \<and> parks geo cov xport (geo d) b ts \<and> (\<forall>d'. mport d k (length ts) b \<noteq> Ok d'))"

lemma refuses_export:
  "0 < k \<Longrightarrow> k \<le> n \<Longrightarrow> cov d k ts \<Longrightarrow> (\<And>b. xport d k (length ts) \<noteq> Ok b) \<Longrightarrow> refuses n d"
  unfolding refuses_def by blast

lemma refuses_import:
  "0 < k \<Longrightarrow> k \<le> n \<Longrightarrow> parks geo cov xport (geo d) b ts \<Longrightarrow> (\<And>d'. mport d k (length ts) b \<noteq> Ok d') \<Longrightarrow>
   refuses n d"
  unfolding refuses_def by blast

lemma park_cases:
  assumes ok: "sess_ok geo cov xport st d" and s: "sget st i = Some s" "n_slot s = Some k"
  shows "refuses (length (o_owner st)) d \<and>
      ((\<exists>e. park xport d i st = (Err (Decoder e), st)) \<or> park xport d i st = (Panic, st)) \<or>
    (\<exists>st1. park xport d i st = (Ok (), st1) \<and> sess_ok geo cov xport st1 d \<and>
       o_owner st1 = (o_owner st)[k - 1 := None] \<and> o_clock st1 = o_clock st \<and>
       (\<forall>j t. j \<noteq> i \<longrightarrow> sget st j = Some t \<longrightarrow> n_parked t = None \<longrightarrow> sget st1 j = Some t))"
proof -
  note S = sess_ok_slot [OF ok s] and D = sess_okD [OF ok]
  let ?st1 = "\<lambda>b. (supd i (\<lambda>s. s\<lparr>n_parked := b, n_slot := None\<rparr>) st)\<lparr>o_owner := (o_owner st)[k - 1 := None]\<rparr>"
  have fin: "sess_ok geo cov xport (enforce_budget (?st1 b)) d \<and> o_owner (enforce_budget (?st1 b)) = (o_owner st)[k - 1 := None] \<and>
      o_clock (enforce_budget (?st1 b)) = o_clock st \<and>
      (\<forall>j t. j \<noteq> i \<longrightarrow> sget st j = Some t \<longrightarrow> n_parked t = None \<longrightarrow> sget (enforce_budget (?st1 b)) j = Some t)"
    if "\<And>x. b = Some x \<Longrightarrow> parks geo cov xport (geo d) x (n_tokens s)" for b
  proof -
    have ok1: "sess_ok geo cov xport (?st1 b) d" by (rule park_free_ok [OF ok s that])
    have "sget (enforce_budget (?st1 b)) j = Some t" if "j \<noteq> i" "sget st j = Some t" "n_parked t = None" for j t
      using that by (intro enforce_budget_keeps sess_okD(1) [OF ok1]) simp_all
    with enforce_budget_ok [OF cov_nil ok1] enforce_budget_same [of "?st1 b"] show ?thesis by simp
  qed
  show ?thesis
  proof (cases "n_tokens s = []")
    case True
    then have "park xport d i st = (Ok (), enforce_budget (?st1 None))"
      using s S by (simp add: park_def Let_def)
    with fin [of None] show ?thesis by simp
  next
    case False
    show ?thesis
    proof (cases "xport d k (length (n_tokens s))")
      case (Ok b)
      then have "park xport d i st = (Ok (), enforce_budget (?st1 (Some b)))"
        using s S False by (simp add: park_def Let_def)
      moreover have "parks geo cov xport (geo d) b (n_tokens s)" by (rule parks_export [OF S(4) Ok])
      ultimately show ?thesis using fin [of "Some b"] by simp
    next
      case (Err x)
      then have "refuses (length (o_owner st)) d" using refuses_export [OF S(1,2,4)] by simp
      with Err s False show ?thesis by (simp add: park_def Let_def)
    next
      case Panic
      then have "refuses (length (o_owner st)) d" using refuses_export [OF S(1,2,4)] by simp
      with Panic s False show ?thesis by (simp add: park_def Let_def)
    qed
  qed
qed

lemma lru_owner_resident:
  assumes ok: "sess_ok geo cov xport st d" and full: "first_free st = None" "o_owner st \<noteq> []"
  shows "\<exists>v s k. lru_owner st = Some v \<and> sget st v = Some s \<and> n_slot s = Some k"
proof -
  obtain x where x: "x < length (o_owner st)" using full(2) by (cases "o_owner st") auto
  then obtain j where "o_owner st ! x = Some j" using full(1) by (auto simp: first_free_None)
  then have "Some j \<in> set (o_owner st)" using x by (metis nth_mem)
  then have "j \<in> set (List.map_filter id (o_owner st))"
    by (auto simp: List.map_filter_def image_iff intro!: exI [of _ "Some j"])
  then obtain v where v: "lru_owner st = Some v" "v \<in> set (List.map_filter id (o_owner st))"
    using first_min_ex first_min_mem unfolding lru_owner_def by (metis empty_iff list.set(1))
  then obtain m where "m < length (o_owner st)" "o_owner st ! m = Some v"
    by (auto simp: List.map_filter_def in_set_conv_nth)
  with sess_okD(4) [OF ok] v(1) show ?thesis by blast
qed

text \<open>Claiming: the slot was free in a sound state in which the claimant was as before.\<close>

lemma claim_cases:
  assumes ok: "sess_ok geo cov xport st d" and e: "sget st i = Some e" "n_slot e = None" "n_parked e = None"
    and ne: "o_owner st \<noteq> []"
  shows "refuses (length (o_owner st)) d \<and>
      ((\<exists>x st3. claim_slot xport d i st = (Err (Decoder x), st3)) \<or> (\<exists>st3. claim_slot xport d i st = (Panic, st3))) \<or>
    (\<exists>k st2. claim_slot xport d i st = (Ok (Suc k), st2\<lparr>o_owner := (o_owner st2)[k := Some i]\<rparr>) \<and>
       sess_ok geo cov xport st2 d \<and> sget st2 i = Some e \<and> k < length (o_owner st2) \<and> o_owner st2 ! k = None \<and>
       length (o_owner st2) = length (o_owner st) \<and> o_clock st2 = o_clock st)"
proof (cases "first_free st")
  case (Some k)
  with ok e first_free_Some [OF Some] show ?thesis by (auto simp: claim_slot_def)
next
  case None
  obtain v s k where v: "lru_owner st = Some v" "sget st v = Some s" "n_slot s = Some k"
    using lru_owner_resident [OF ok None ne] by blast
  have iv: "i \<noteq> v" using e v by auto
  note S = sess_ok_slot [OF ok v(2,3)]
  from park_cases [OF ok v(2,3)] show ?thesis
  proof (elim disjE exE conjE)
    fix st1 assume st1: "park xport d v st = (Ok (), st1)" "sess_ok geo cov xport st1 d"
      "o_owner st1 = (o_owner st)[k - 1 := None]" "o_clock st1 = o_clock st"
      "\<forall>j t. j \<noteq> v \<longrightarrow> sget st j = Some t \<longrightarrow> n_parked t = None \<longrightarrow> sget st1 j = Some t"
    have "k - 1 < length (o_owner st1)" "o_owner st1 ! (k - 1) = None" using S st1(3) by simp_all
    then obtain m where m: "first_free st1 = Some m" using first_free_None [of st1] by fastforce
    with None v(1) st1 have "claim_slot xport d i st = (Ok (Suc m), st1\<lparr>o_owner := (o_owner st1)[m := Some i]\<rparr>)"
      by (simp add: claim_slot_def)
    moreover have "sget st1 i = Some e" using st1(5) iv e by blast
    moreover have "length (o_owner st1) = length (o_owner st)" using st1(3) by simp
    ultimately show ?thesis using first_free_Some [OF m] st1(2,4) by blast
  qed (use None v(1) in \<open>simp_all add: claim_slot_def\<close>)
qed

end

section \<open>Acquiring\<close>

lemma touched_ok:
  assumes ok: "sess_ok geo cov xport st d"
  shows "sess_ok geo cov xport (touched st i) d" "o_owner (touched st i) = o_owner st"
    "\<exists>e. sget (touched st i) i = Some e \<and>
       (case sget st i of None \<Rightarrow> n_tokens e = [] \<and> n_slot e = None \<and> n_parked e = None
        | Some s \<Rightarrow> n_tokens e = n_tokens s \<and> n_slot e = n_slot s \<and> n_parked e = n_parked s)"
proof -
  note D = sess_okD [OF ok]
  have get: "sget (touched st i) j = (if j = i then
      Some (case sget st i of None \<Rightarrow> fresh_session (o_clock st + 1) | Some s \<Rightarrow> s\<lparr>n_last_used := o_clock st + 1\<rparr>)
      else sget st j)" for j
    by (auto simp: touched_def store_tick_def sget_sinsert fresh_session_def split: option.splits)
  show ow: "o_owner (touched st i) = o_owner st" by (simp add: touched_def store_tick_def)
  show "\<exists>e. sget (touched st i) i = Some e \<and>
       (case sget st i of None \<Rightarrow> n_tokens e = [] \<and> n_slot e = None \<and> n_parked e = None
        | Some s \<Rightarrow> n_tokens e = n_tokens s \<and> n_slot e = n_slot s \<and> n_parked e = n_parked s)"
    by (simp add: get fresh_session_def split: option.splits)
  show "sess_ok geo cov xport (touched st i) d"
  proof (rule sess_okI)
    show "distinct (map fst (o_map (touched st i)))"
      using D(1) by (simp add: touched_def store_tick_def sinsert_distinct)
    show "entry_ok geo cov xport (o_owner (touched st i)) d j s" if "sget (touched st i) j = Some s" for j s
      using that D(2) unfolding ow by (fastforce simp: get entry_ok_def fresh_session_def split: option.splits if_splits)
    have cl: "o_clock (touched st i) = Suc (o_clock st)" by (simp add: touched_def store_tick_def)
    show "n_last_used s \<le> o_clock (touched st i)" if "sget (touched st i) j = Some s" for j s
      using that D(3) [of j s] unfolding cl by (auto simp: get fresh_session_def split: option.splits if_splits)
    show "\<exists>s. sget (touched st i) j = Some s \<and> n_slot s = Some (Suc k)"
      if "k < length (o_owner (touched st i))" "o_owner (touched st i) ! k = Some j" for k j
      using D(4) [of k j] that by (auto simp: get ow)
    show "j = j'" if x: "sget (touched st i) j = Some x" "sget (touched st i) j' = Some y" "n_last_used x = n_last_used y" for j j' x y
    proof -
      have new: "n_last_used x = Suc (o_clock st)" if "sget (touched st i) i = Some x" for x
        using that by (auto simp: get fresh_session_def split: option.splits)
      have old: "n_last_used x \<le> o_clock st" if "sget (touched st i) j = Some x" "j \<noteq> i" for j x
        using that D(3) by (auto simp: get)
      show ?thesis
      proof (cases "j = i \<or> j' = i")
        case True
        with x new old show ?thesis by (metis not_less_eq_eq order_refl)
      next
        case False
        with x D(5) show ?thesis by (auto simp: get)
      qed
    qed
  qed
qed

context kv_lanes
begin

lemma settle_claim_ok:
  assumes ok: "sess_ok geo cov xport st d" and e: "sget st i = Some e" "n_slot e = None" "n_parked e = None"
    and k: "k < length (o_owner st)" "o_owner st ! k = None"
    and d': "geo d' = geo d" "\<And>s ts. s \<noteq> Suc k \<Longrightarrow> cov d s ts \<Longrightarrow> cov d' s ts" "cov d' (Suc k) (take r (n_tokens e))"
  shows "sess_ok geo cov xport (supd i (\<lambda>s. s\<lparr>n_slot := Some (Suc k), n_tokens := take r (n_tokens s)\<rparr>)
      (st\<lparr>o_owner := (o_owner st)[k := Some i]\<rparr>)) d'" (is "sess_ok geo cov xport ?st d'")
proof -
  note D = sess_okD [OF ok]
  have get: "sget ?st j = (if j = i then Some (e\<lparr>n_slot := Some (Suc k), n_tokens := take r (n_tokens e)\<rparr>) else sget st j)" for j
    using e by simp
  have ow: "o_owner ?st = (o_owner st)[k := Some i]" by simp
  show ?thesis
  proof (rule sess_okI)
    show "entry_ok geo cov xport (o_owner ?st) d' j s" if s: "sget ?st j = Some s" for j s
    proof (cases "j = i")
      case True
      with s [unfolded get] have "s = e\<lparr>n_slot := Some (Suc k), n_tokens := take r (n_tokens e)\<rparr>" by simp
      with k d'(3) e(3) True show ?thesis by (simp add: entry_ok_def ow)
    next
      case False
      with s [unfolded get] have s': "sget st j = Some s" by simp
      show ?thesis
      proof (cases "n_slot s")
        case (Some k')
        note S = sess_ok_slot [OF ok s' Some]
        have "k' - 1 \<noteq> k" using S(3) k(2) by auto
        moreover from this have "k' \<noteq> Suc k" by auto
        ultimately show ?thesis using S Some d'(2) by (simp add: entry_ok_def ow)
      qed (use D(2) [OF s'] d'(1) in \<open>simp add: entry_ok_def\<close>)
    qed
    show "\<exists>s. sget ?st j = Some s \<and> n_slot s = Some (Suc m)" if "m < length (o_owner ?st)" "o_owner ?st ! m = Some j" for m j
    proof (cases "m = k")
      case True
      with that k(1) e(1) show ?thesis by (auto simp: ow)
    next
      case False
      with that have m: "m < length (o_owner st)" "o_owner st ! m = Some j" by (simp_all add: ow)
      then obtain t where "sget st j = Some t" "n_slot t = Some (Suc m)" using D(4) by blast
      with e show ?thesis by (auto simp: get)
    qed
    show "j = j'" if "sget ?st j = Some x" "sget ?st j' = Some y" "n_last_used x = n_last_used y" for j j' x y
      using D(5) that e by (auto simp: get split: if_splits)
  qed (use D e in \<open>auto split: if_splits\<close>)
qed

text \<open>What a successful \<open>acquire\<close> gives.\<close>

definition acquired :: "session_store \<Rightarrow> string \<Rightarrow> u32 list \<Rightarrow> nat \<times> nat \<Rightarrow> session_store \<Rightarrow> 'd \<Rightarrow> 'd \<Rightarrow> bool" where
  "acquired st i prompt sr st' d d' \<longleftrightarrow> (case sr of (s, reuse) \<Rightarrow>
     sess_ok geo cov xport st' d' \<and> 0 < s \<and> s \<le> length (o_owner st) \<and> length (o_owner st') = length (o_owner st) \<and>
     reuse \<le> length prompt - 1 \<and> cov d' s (take reuse prompt) \<and> geo d' = geo d \<and>
     (\<exists>e. sget st' i = Some e \<and> n_slot e = Some s \<and> n_tokens e = take reuse prompt))"

lemma acquire_cases:
  assumes ok: "sess_ok geo cov xport st d" and ne: "o_owner st \<noteq> []"
  shows "refuses (length (o_owner st)) d \<and>
      ((\<exists>x st'. session_acquire xport mport st d i prompt = (Err (Decoder x), st', d)) \<or>
       (\<exists>st'. session_acquire xport mport st d i prompt = (Panic, st', d))) \<or>
    (\<exists>sr st' d'. session_acquire xport mport st d i prompt = (Ok sr, st', d') \<and> acquired st i prompt sr st' d d')"
proof -
  let ?st1 = "touched st i"
  note T = touched_ok [OF ok, of i]
  obtain e where e: "sget ?st1 i = Some e" using T(3) by blast
  define reuse where "reuse = min (common_prefix (n_tokens e) prompt) (length prompt - 1)"
  have pre: "take reuse (n_tokens e) = take reuse prompt" "reuse \<le> length prompt - 1"
    using common_prefix_take(1) [of reuse] by (simp_all add: reuse_def)
  have unf: "session_acquire xport mport st d i prompt =
     (case n_slot e of
        Some s \<Rightarrow> (let (r, st2) = settle i s reuse ?st1 in (r, st2, d))
      | None \<Rightarrow>
          (case claim_slot xport d i (supd i (\<lambda>s. s\<lparr>n_parked := None\<rparr>) ?st1) of
             (Err x, st3) \<Rightarrow> (Err x, st3, d)
           | (Panic, st3) \<Rightarrow> (Panic, st3, d)
           | (Ok s, st3) \<Rightarrow>
               (case n_parked e of
                  Some blob \<Rightarrow>
                    if 0 < reuse then
                      (case mport d s (length (n_tokens e)) blob of
                         Err x \<Rightarrow> (Err (Decoder x), st3, d) | Panic \<Rightarrow> (Panic, st3, d)
                       | Ok d' \<Rightarrow> (let (r, st4) = settle i s reuse st3 in (r, st4, d')))
                    else (let (r, st4) = settle i s 0 st3 in (r, st4, d))
                | None \<Rightarrow> (let (r, st4) = settle i s 0 st3 in (r, st4, d)))))"
    using ne e unfolding session_acquire_def Let_def reuse_def by simp
  show ?thesis
  proof (cases "n_slot e")
    case (Some s)
    note S = sess_ok_slot [OF T(1) e Some]
    let ?st2 = "supd i (\<lambda>x. x\<lparr>n_slot := Some s, n_tokens := take reuse (n_tokens x)\<rparr>) ?st1"
    have r: "session_acquire xport mport st d i prompt = (Ok (s, reuse), ?st2, d)"
      using Some e by (simp add: unf settle_def)
    have "sess_ok geo cov xport ?st2 d"
      using S cov_take Some by (intro supd_ok [OF T(1) e]) (simp_all add: entry_ok_def)
    moreover have "cov d s (take reuse prompt)" using cov_take [OF S(4), of reuse] pre(1) by simp
    ultimately have "acquired st i prompt (s, reuse) ?st2 d d"
      using S T(2) pre e by (simp add: acquired_def)
    with r show ?thesis by blast
  next
    case None
    let ?e = "e\<lparr>n_parked := None\<rparr>" and ?st2 = "supd i (\<lambda>s. s\<lparr>n_parked := None\<rparr>) ?st1"
    have ok2: "sess_ok geo cov xport ?st2 d"
      by (rule supd_ok [OF T(1) e]) (simp_all add: entry_ok_def None)
    have e2: "sget ?st2 i = Some ?e" "n_slot ?e = None" "n_parked ?e = None" "o_owner ?st2 \<noteq> []"
      using e None ne T(2) by simp_all
    from claim_cases [OF ok2 e2] show ?thesis
    proof (elim disjE exE conjE)
      fix k st3
      let ?st4 = "\<lambda>r. supd i (\<lambda>s. s\<lparr>n_slot := Some (Suc k), n_tokens := take r (n_tokens s)\<rparr>)
          (st3\<lparr>o_owner := (o_owner st3)[k := Some i]\<rparr>)"
      assume c: "claim_slot xport d i ?st2 = (Ok (Suc k), st3\<lparr>o_owner := (o_owner st3)[k := Some i]\<rparr>)"
        and st3: "sess_ok geo cov xport st3 d" "sget st3 i = Some ?e" "k < length (o_owner st3)" "o_owner st3 ! k = None"
          "length (o_owner st3) = length (o_owner ?st2)" "o_clock st3 = o_clock ?st2"
      have ln: "length (o_owner st3) = length (o_owner st)" using st3(5) T(2) by simp
      have fin: "acquired st i prompt (Suc k, r) (?st4 r) d d'"
        if "geo d' = geo d" "\<And>s ts. s \<noteq> Suc k \<Longrightarrow> cov d s ts \<Longrightarrow> cov d' s ts" "cov d' (Suc k) (take r prompt)"
          "r \<le> reuse" for r d'
      proof -
        have tk: "take r (n_tokens e) = take r prompt"
        proof -
          have "take r (take reuse (n_tokens e)) = take r (take reuse prompt)" by (simp only: pre(1))
          with that(4) show ?thesis by (simp add: min_absorb1)
        qed
        have "sess_ok geo cov xport (?st4 r) d'"
          by (rule settle_claim_ok [OF st3(1,2) _ _ st3(3,4) that(1,2)]) (use None that(3) tk in simp_all)
        moreover have "\<exists>x. sget (?st4 r) i = Some x \<and> n_slot x = Some (Suc k) \<and> n_tokens x = take r prompt"
          using st3(2) tk by simp
        moreover have "length (o_owner (?st4 r)) = length (o_owner st)" using ln by simp
        moreover have "Suc k \<le> length (o_owner st)" using st3(3) ln by simp
        moreover have "r \<le> length prompt - 1" using that(4) pre(2) by (rule order_trans)
        ultimately show ?thesis using that(1,3) unfolding acquired_def prod.case by blast
      qed
      have zero: "acquired st i prompt (Suc k, 0) (?st4 0) d d"
        using cov_nil by (intro fin) simp_all
      have settle0: "settle i (Suc k) r (st3\<lparr>o_owner := (o_owner st3)[k := Some i]\<rparr>) =
          (Ok (Suc k, r) :: ('e session_error, nat \<times> nat) res, ?st4 r)" for r
        using st3(2) by (simp add: settle_def)
      show ?thesis
      proof (cases "n_parked e")
        case None': None
        then have "session_acquire xport mport st d i prompt = (Ok (Suc k, 0), ?st4 0, d)"
          using None c settle0 [of 0] by (simp add: unf)
        with zero show ?thesis by blast
      next
        case (Some blob)
        have pk: "parks geo cov xport (geo d) blob (n_tokens e)"
          using sess_okD(2) [OF T(1) e] None Some by (simp add: entry_ok_def)
        show ?thesis
        proof (cases "0 < reuse")
          case False
          then have "session_acquire xport mport st d i prompt = (Ok (Suc k, 0), ?st4 0, d)"
            using None Some c settle0 [of 0] by (simp add: unf)
          with zero show ?thesis by blast
        next
          case True
          show ?thesis
          proof (cases "mport d (Suc k) (length (n_tokens e)) blob")
            case (Ok d')
            have cv: "cov d' (Suc k) (take reuse prompt)"
              using cov_take [OF parks_restore [OF pk Ok], of reuse] pre(1) by simp
            have "acquired st i prompt (Suc k, reuse) (?st4 reuse) d d'"
              using imp_geo [OF Ok] imp_other [OF Ok] cv by (intro fin) simp_all
            moreover have "session_acquire xport mport st d i prompt = (Ok (Suc k, reuse), ?st4 reuse, d')"
              using True None Some Ok c settle0 [of reuse] by (simp add: unf)
            ultimately show ?thesis by blast
          next
            case (Err x)
            then have "refuses (length (o_owner st)) d" using refuses_import [OF _ _ pk, of "Suc k"] st3(3) ln by simp
            with c True None Some Err show ?thesis by (simp add: unf)
          next
            case Panic
            then have "refuses (length (o_owner st)) d" using refuses_import [OF _ _ pk, of "Suc k"] st3(3) ln by simp
            with c True None Some Panic show ?thesis by (simp add: unf)
          qed
        qed
      qed
    qed (use None T(2) in \<open>simp_all add: unf\<close>)
  qed
qed

end

end
