(* ===== verification/Generation.thy ===== *)
theory Generation
  imports Session_Safety
begin

text \<open>
  The generation loops of \<open>llmpager-serve/src/main.rs\<close>: \<open>generate_session\<close> (prefill of the suffix the
  session does not cover, then one token at a time), the lockstep \<open>generate_batch\<close>, and a whole
  session turn. The decoder's step is the argument \<open>stp\<close>, sampling from its last logits is \<open>smp\<close>
  (with the generator state it threads), \<open>eos\<close> the stop tokens. Tokenizer, text streaming and
  timing are outside the model.
\<close>

section \<open>Sessions\<close>

datatype 'e gen_error = GenDecoder 'e | NoPrefillToken | OverCapacity nat nat | EmptyPrompt | Acquire "'e session_error"

record 'r gen_params =
  q_chunk_cap :: nat
  q_max_seq :: nat
  q_eos :: "u32 list"
  q_plain_greedy :: bool
  q_rng :: 'r

text \<open>The prefill loop over \<open>ids[reuse..].chunks(cap)\<close>.\<close>

fun prefill ::
  "('d \<Rightarrow> (u32 \<times> nat \<times> nat) list \<Rightarrow> bool \<Rightarrow> ('e, u32 list \<times> 'd) res) \<Rightarrow> ('d \<Rightarrow> 'r \<Rightarrow> u32 list \<Rightarrow> u32 \<times> 'r) \<Rightarrow> bool
   \<Rightarrow> nat \<Rightarrow> nat \<Rightarrow> u32 list list \<Rightarrow> nat \<Rightarrow> u32 \<Rightarrow> 'r \<Rightarrow> 'd \<Rightarrow> ('e gen_error, u32 \<times> 'r) res \<times> 'd" where
  "prefill stp smp pg slot tot [] pos nxt r d = (Ok (nxt, r), d)"
| "prefill stp smp pg slot tot (c # cs) pos nxt r d =
     (let lst = (pos + length c = tot) in
      case stp d (run_entries slot pos c) lst of
        Err e \<Rightarrow> (Err (GenDecoder e), d) | Panic \<Rightarrow> (Panic, d)
      | Ok (out, d') \<Rightarrow>
          if lst then
            (if out = [] then (Err NoPrefillToken, d')
             else let (t, r') = (if pg then (last out, r) else smp d' r [])
                  in prefill stp smp pg slot tot cs (pos + length c) t r' d')
          else prefill stp smp pg slot tot cs (pos + length c) nxt r d')"

text \<open>The decode loop; \<open>kv\<close> is \<open>kv_tokens\<close>, the first argument the iterations left.\<close>

fun decode_loop ::
  "nat \<Rightarrow> ('d \<Rightarrow> (u32 \<times> nat \<times> nat) list \<Rightarrow> bool \<Rightarrow> ('e, u32 list \<times> 'd) res) \<Rightarrow> ('d \<Rightarrow> 'r \<Rightarrow> u32 list \<Rightarrow> u32 \<times> 'r)
   \<Rightarrow> 'r gen_params \<Rightarrow> nat \<Rightarrow> nat \<Rightarrow> u32 list \<Rightarrow> nat \<Rightarrow> u32 \<Rightarrow> 'r \<Rightarrow> 'd \<Rightarrow> ('e gen_error, u32 list \<times> nat) res \<times> 'd" where
  "decode_loop 0 stp smp q slot p out kv nxt r d = (Ok (out, kv), d)"
| "decode_loop (Suc n) stp smp q slot p out kv nxt r d =
     (if nxt \<in> set (q_eos q) then (Ok (out, kv), d)
      else let out' = out @ [nxt] in
        if q_max_seq q \<le> p + 1 then (Ok (out', kv), d)
        else (case stp d [(nxt, p, slot)] True of
                Err e \<Rightarrow> (Err (GenDecoder e), d) | Panic \<Rightarrow> (Panic, d)
              | Ok (o1, d') \<Rightarrow>
                  if o1 = [] then (Panic, d')
                  else let (t, r') = (if q_plain_greedy q then (o1 ! 0, r) else smp d' r out')
                       in decode_loop n stp smp q slot (p + 1) out' (length out') t r' d'))"

definition generate_session ::
  "('d \<Rightarrow> (u32 \<times> nat \<times> nat) list \<Rightarrow> bool \<Rightarrow> ('e, u32 list \<times> 'd) res) \<Rightarrow> ('d \<Rightarrow> 'r \<Rightarrow> u32 list \<Rightarrow> u32 \<times> 'r)
   \<Rightarrow> 'r gen_params \<Rightarrow> 'd \<Rightarrow> nat \<Rightarrow> nat \<Rightarrow> u32 list \<Rightarrow> nat
   \<Rightarrow> ('e gen_error, u32 list \<times> u32 list \<times> nat) res \<times> 'd" where
  "generate_session stp smp q d slot reuse ids max_tokens =
     (if length ids < reuse \<or> q_chunk_cap q = 0 then (Panic, d)
      else case prefill stp smp (q_plain_greedy q) slot (length ids) (chunks (q_chunk_cap q) (drop reuse ids)) reuse 0 (q_rng q) d of
        (Err e, d1) \<Rightarrow> (Err e, d1) | (Panic, d1) \<Rightarrow> (Panic, d1)
      | (Ok (nxt, r), d1) \<Rightarrow>
          (case decode_loop max_tokens stp smp q slot (length ids) [] 0 nxt r d1 of
             (Err e, d2) \<Rightarrow> (Err e, d2) | (Panic, d2) \<Rightarrow> (Panic, d2)
           | (Ok (out, kv), d2) \<Rightarrow> (Ok (out, ids @ take kv out, length ids - reuse), d2)))"

text \<open>A request naming a session, as \<open>handle\<close> runs it: acquire, generate, commit.\<close>

definition session_turn ::
  "('d \<Rightarrow> nat \<Rightarrow> nat \<Rightarrow> ('e, bytes) res) \<Rightarrow> ('d \<Rightarrow> nat \<Rightarrow> nat \<Rightarrow> bytes \<Rightarrow> ('e, 'd) res)
   \<Rightarrow> ('d \<Rightarrow> (u32 \<times> nat \<times> nat) list \<Rightarrow> bool \<Rightarrow> ('e, u32 list \<times> 'd) res) \<Rightarrow> ('d \<Rightarrow> 'r \<Rightarrow> u32 list \<Rightarrow> u32 \<times> 'r)
   \<Rightarrow> 'r gen_params \<Rightarrow> session_store \<Rightarrow> 'd \<Rightarrow> string \<Rightarrow> u32 list \<Rightarrow> nat
   \<Rightarrow> ('e gen_error, u32 list) res \<times> session_store \<times> 'd" where
  "session_turn xport mport stp smp q st d i ids max_tokens =
     (case session_acquire xport mport st d i ids of
        (Err e, st1, d1) \<Rightarrow> (Err (Acquire e), st1, d1) | (Panic, st1, d1) \<Rightarrow> (Panic, st1, d1)
      | (Ok (slot, reuse), st1, d1) \<Rightarrow>
          (case generate_session stp smp q d1 slot reuse ids max_tokens of
             (Err e, d2) \<Rightarrow> (Err e, st1, d2) | (Panic, d2) \<Rightarrow> (Panic, st1, d2)
           | (Ok (out, ctx, _), d2) \<Rightarrow> (Ok out, session_commit i ctx st1, d2)))"

section \<open>The context a generation leaves\<close>

context kv_lanes
begin

lemma stp_other_run:
  assumes "stp d (run_entries s p us) w = Ok (out, d')" "s' \<noteq> s" "cov d s' ts"
  shows "cov d' s' ts"
  using assms(2) by (intro stp_other [OF assms(1) _ assms(3)]) (auto simp: run_entries_def)

text \<open>What every outcome of a generation step leaves: the context so far, or at least what preceded it.\<close>

definition keeps :: "'d \<Rightarrow> 'd \<Rightarrow> nat \<Rightarrow> u32 list \<Rightarrow> bool" where
  "keeps d d' slot ts \<longleftrightarrow> geo d' = geo d \<and> cov d' slot ts \<and> (\<forall>s' xs. s' \<noteq> slot \<longrightarrow> cov d s' xs \<longrightarrow> cov d' s' xs)"

lemma keeps_refl: "cov d slot ts \<Longrightarrow> keeps d d slot ts"
  by (simp add: keeps_def)

lemma keeps_step:
  assumes "stp d (run_entries slot (length ts) us) w = Ok (out, d')" "cov d slot ts"
  shows "keeps d d' slot (ts @ us)"
  using stp_cov [OF assms] stp_geo [OF assms(1)] stp_other_run [OF assms(1)] by (simp add: keeps_def)

lemma keeps_trans: "keeps d d1 slot ts \<Longrightarrow> keeps d1 d2 slot us \<Longrightarrow> keeps d d2 slot us"
  by (simp add: keeps_def)

lemma keeps_prefix: "keeps d d' slot (ts @ us) \<Longrightarrow> keeps d d' slot ts"
  unfolding keeps_def using cov_take [of d' slot "ts @ us" "length ts"] by simp

lemma prefill_keeps:
  assumes "prefill stp smp pg slot tot cs (length ts) nxt r d = (res, d')" "cov d slot ts"
  shows "keeps d d' slot ts \<and> (\<forall>x. res = Ok x \<longrightarrow> keeps d d' slot (ts @ concat cs))"
  using assms
proof (induction cs arbitrary: ts nxt r d)
  case Nil
  then show ?case by (auto intro: keeps_refl)
next
  case (Cons c cs)
  let ?l = "length ts + length c = tot"
  show ?case
  proof (cases "stp d (run_entries slot (length ts) c) ?l")
    case (Ok od)
    obtain out d1 where od: "od = (out, d1)" by (cases od)
    note k1 = keeps_step [OF Ok [unfolded od] Cons.prems(2)]
    have c1: "cov d1 slot (ts @ c)" using k1 by (simp add: keeps_def)
    have rec: "keeps d d' slot ts \<and> (\<forall>x. res = Ok x \<longrightarrow> keeps d d' slot (ts @ concat (c # cs)))"
      if "prefill stp smp pg slot tot cs (length (ts @ c)) t r' d1 = (res, d')" for t r'
      using Cons.IH [OF that c1] keeps_trans [OF k1] keeps_prefix by auto
    show ?thesis
    proof (cases "?l \<and> out = []")
      case True
      with Cons.prems(1) Ok od keeps_prefix [OF k1] show ?thesis by auto
    next
      case False
      then have "\<exists>t r'. prefill stp smp pg slot tot cs (length (ts @ c)) t r' d1 = (res, d')"
        using Cons.prems(1) Ok od by (auto simp: Let_def case_prod_beta split: if_splits)
      with rec show ?thesis by blast
    qed
  qed (use Cons.prems in \<open>auto simp: Let_def intro: keeps_refl\<close>)
qed

lemma decode_keeps:
  assumes "decode_loop n stp smp q slot (length ids + length out) out (length out) nxt r d = (res, d')" "cov d slot (ids @ out)"
  shows "keeps d d' slot (ids @ out) \<and>
    (\<forall>out' kv. res = Ok (out', kv) \<longrightarrow> keeps d d' slot (ids @ take kv out') \<and> length out' \<le> length out + n \<and>
       kv \<le> length out' \<and> length out' \<le> kv + 1 \<and> take (length out) out' = out \<and> length out \<le> kv)"
  using assms
proof (induction n arbitrary: out nxt r d)
  case 0
  then show ?case by (auto intro: keeps_refl)
next
  case (Suc n)
  consider (eos) "nxt \<in> set (q_eos q)" | (full) "nxt \<notin> set (q_eos q)" "q_max_seq q \<le> length ids + length out + 1"
    | (step) "nxt \<notin> set (q_eos q)" "\<not> q_max_seq q \<le> length ids + length out + 1" by blast
  then show ?case
  proof cases
    case step
    show ?thesis
    proof (cases "stp d [(nxt, length ids + length out, slot)] True")
      case (Ok od)
      obtain o1 d1 where od: "od = (o1, d1)" by (cases od)
      have e: "[(nxt, length ids + length out, slot)] = run_entries slot (length (ids @ out)) [nxt]"
        by (simp add: run_entries_def)
      note k1 = keeps_step [OF Ok [unfolded od e] Suc.prems(2)]
      have c1: "cov d1 slot (ids @ (out @ [nxt]))" using k1 by (simp add: keeps_def)
      show ?thesis
      proof (cases "o1 = []")
        case True
        with Suc.prems(1) Ok od step keeps_prefix [OF k1] show ?thesis by (simp add: Let_def)
      next
        case False
        then obtain t r' where rec: "decode_loop n stp smp q slot (length ids + length (out @ [nxt])) (out @ [nxt])
            (length (out @ [nxt])) t r' d1 = (res, d')"
          using Suc.prems(1) Ok od step by (auto simp: Let_def case_prod_beta split: if_splits)
        have p: "keeps d d' slot (ids @ out)"
          using Suc.IH [OF rec c1] keeps_trans [OF k1] keeps_prefix [of d d' slot "ids @ out" "[nxt]"] by simp
        have q: "keeps d d' slot (ids @ take kv out') \<and> length out' \<le> length out + Suc n \<and>
            kv \<le> length out' \<and> length out' \<le> kv + 1 \<and> take (length out) out' = out \<and> length out \<le> kv"
          if "res = Ok (out', kv)" for out' kv
        proof -
          have ih: "keeps d1 d' slot (ids @ take kv out')" "length out' \<le> Suc (length out + n)" "kv \<le> length out'"
            "length out' \<le> kv + 1" "take (Suc (length out)) out' = out @ [nxt]" "Suc (length out) \<le> kv"
            using Suc.IH [OF rec c1] that by simp_all
          have "take (length out) (take (Suc (length out)) out') = out" by (simp only: ih(5)) simp
          then have "take (length out) out' = out" by simp
          with ih keeps_trans [OF k1 ih(1)] show ?thesis by simp
        qed
        from p q show ?thesis by blast
      qed
    qed (use Suc.prems step in \<open>auto simp: Let_def intro: keeps_refl\<close>)
  qed (use Suc.prems in \<open>auto simp: Let_def intro: keeps_refl\<close>)
qed

lemma generate_session_keeps:
  assumes g: "generate_session stp smp q d slot reuse ids n = (res, d')" and c: "cov d slot (take reuse ids)"
  shows "keeps d d' slot (take reuse ids) \<and>
    (\<forall>out ctx p. res = Ok (out, ctx, p) \<longrightarrow> keeps d d' slot ctx \<and> length out \<le> n \<and>
       (ctx = ids @ out \<or> ctx = ids @ butlast out \<and> out \<noteq> []) \<and> p = length ids - reuse)"
proof (cases "length ids < reuse \<or> q_chunk_cap q = 0")
  case True
  with g c show ?thesis by (auto simp: generate_session_def intro: keeps_refl)
next
  case False
  let ?cs = "chunks (q_chunk_cap q) (drop reuse ids)"
  obtain pr d1 where pr: "prefill stp smp (q_plain_greedy q) slot (length ids) ?cs (length (take reuse ids)) 0 (q_rng q) d = (pr, d1)"
    by fastforce
  have full: "take reuse ids @ concat ?cs = ids" using False concat_chunks [of "q_chunk_cap q" "drop reuse ids"] by simp
  note k1 = prefill_keeps [OF pr c, unfolded full]
  have len: "length (take reuse ids) = reuse" using False by simp
  show ?thesis
  proof (cases pr)
    case (Ok nr)
    obtain nxt r where nr: "nr = (nxt, r)" by (cases nr)
    have k2: "keeps d d1 slot ids" using k1 Ok by simp
    then have c2: "cov d1 slot (ids @ [])" by (simp add: keeps_def)
    obtain dr d2 where dr: "decode_loop n stp smp q slot (length ids + length ([] :: u32 list)) [] (length ([] :: u32 list)) nxt r d1 = (dr, d2)"
      by fastforce
    note k3 = decode_keeps [OF dr c2]
    have k4: "keeps d d2 slot ids" using keeps_trans [OF k2] k3 by simp
    have k5: "keeps d d2 slot (take reuse ids)"
      using keeps_prefix [of d d2 slot "take reuse ids" "drop reuse ids"] k4 by simp
    show ?thesis
    proof (cases dr)
      case dOk: (Ok ok)
      obtain out kv where ok: "ok = (out, kv)" by (cases ok)
      have res: "res = Ok (out, ids @ take kv out, length ids - reuse)" "d' = d2"
        using g False pr Ok nr dr dOk ok len by (simp_all add: generate_session_def)
      have x: "keeps d1 d2 slot (ids @ take kv out)" "length out \<le> n" "kv \<le> length out" "length out \<le> kv + 1"
        using k3 dOk ok by simp_all
      have "take kv out = out \<or> take kv out = butlast out \<and> out \<noteq> []"
      proof (cases "kv = length out")
        case neq: False
        with x have "kv = length out - 1" "out \<noteq> []" by auto
        then show ?thesis by (simp add: butlast_conv_take)
      qed simp
      with res x k5 keeps_trans [OF k2 x(1)] show ?thesis by auto
    qed (use g False pr Ok nr dr len k5 in \<open>auto simp: generate_session_def\<close>)
  qed (use g False pr len k1 in \<open>auto simp: generate_session_def\<close>)
qed

section \<open>Turns keep the store sound\<close>

lemma decoder_moves:
  assumes ok: "sess_ok geo cov xport st d" and e: "sget st i = Some e" "n_slot e = Some k"
    and k: "keeps d d' k (n_tokens e)"
  shows "sess_ok geo cov xport st d'"
proof -
  note D = sess_okD [OF ok]
  have "entry_ok geo cov xport (o_owner st) d' j s" if s: "sget st j = Some s" for j s
  proof (cases "n_slot s")
    case None
    with D(2) [OF s] k show ?thesis by (simp add: entry_ok_def keeps_def)
  next
    case (Some k')
    note S = sess_ok_slot [OF ok s Some] and S' = sess_ok_slot [OF ok e]
    have "cov d' k' (n_tokens s)"
    proof (cases "k' = k")
      case True
      with S(3) S'(3) s e have "s = e" by simp
      with True k show ?thesis by (simp add: keeps_def)
    qed (use S(4) k in \<open>simp add: keeps_def\<close>)
    with S Some show ?thesis by (simp add: entry_ok_def)
  qed
  with D show ?thesis by (intro sess_okI) auto
qed

lemma commit_ok:
  assumes ok: "sess_ok geo cov xport st d" and e: "sget st i = Some e" "n_slot e = Some k"
    and c: "cov d k ctx"
  shows "sess_ok geo cov xport (session_commit i ctx st) d"
proof -
  note D = sess_okD [OF ok] and S = sess_ok_slot [OF ok e]
  let ?e = "e\<lparr>n_tokens := ctx, n_turns := n_turns e + 1, n_last_used := o_clock st + 1\<rparr>"
  let ?st = "session_commit i ctx st"
  have get: "sget ?st j = (if j = i then Some ?e else sget st j)" for j
    using e by (simp add: session_commit_def store_tick_def)
  have fl: "o_owner ?st = o_owner st" "o_clock ?st = Suc (o_clock st)" "map fst (o_map ?st) = map fst (o_map st)"
    by (simp_all add: session_commit_def store_tick_def)
  show ?thesis
  proof (rule sess_okI)
    show "distinct (map fst (o_map ?st))" using D(1) by (simp only: fl)
    show "entry_ok geo cov xport (o_owner ?st) d j s" if "sget ?st j = Some s" for j s
      using that D(2) [of j s] S c e(2) by (auto simp: get fl entry_ok_def split: if_splits)
    show "n_last_used s \<le> o_clock ?st" if "sget ?st j = Some s" for j s
      using that D(3) [of j s] by (auto simp: get fl split: if_splits)
    show "\<exists>s. sget ?st j = Some s \<and> n_slot s = Some (Suc m)" if "m < length (o_owner ?st)" "o_owner ?st ! m = Some j" for m j
      using that D(4) [of m j] e by (auto simp: get fl)
    show "j = j'" if "sget ?st j = Some x" "sget ?st j' = Some y" "n_last_used x = n_last_used y" for j j' x y
      using that D(5) [of j x j' y] D(3) [of j x] D(3) [of j' y] by (auto simp: get split: if_splits)
  qed
qed

lemma turn_ok:
  assumes ok: "sess_ok geo cov xport st d" and ne: "o_owner st \<noteq> []"
    and t: "session_turn xport mport stp smp q st d i ids n = (res, st', d')" and r: "res \<noteq> Panic"
    and a: "\<And>x. res \<noteq> Err (Acquire x)"
  shows "sess_ok geo cov xport st' d'"
    and "\<And>out. res = Ok out \<Longrightarrow> \<exists>e k. sget st' i = Some e \<and> n_slot e = Some k \<and> cov d' k (n_tokens e) \<and>
        (n_tokens e = ids @ out \<or> n_tokens e = ids @ butlast out \<and> out \<noteq> [])"
proof -
  from acquire_cases [OF ok ne, of i ids]
  obtain slot reuse st1 d1 where acq: "session_acquire xport mport st d i ids = (Ok (slot, reuse), st1, d1)"
    and A: "acquired st i ids (slot, reuse) st1 d d1"
    using t r a by (fastforce simp: session_turn_def)
  obtain e where e: "sget st1 i = Some e" "n_slot e = Some slot" "n_tokens e = take reuse ids"
    and ok1: "sess_ok geo cov xport st1 d1" and c1: "cov d1 slot (take reuse ids)"
    using A by (auto simp: acquired_def)
  obtain gr d2 where g: "generate_session stp smp q d1 slot reuse ids n = (gr, d2)" by fastforce
  note K = generate_session_keeps [OF g c1]
  have k1: "keeps d1 d2 slot (n_tokens e)" using K e(3) by simp
  have ok2: "sess_ok geo cov xport st1 d2" by (rule decoder_moves [OF ok1 e(1,2) k1])
  show "sess_ok geo cov xport st' d'"
  proof (cases gr)
    case (Ok o1)
    obtain out ctx p where o1: "o1 = (out, ctx, p)" by (cases o1)
    have "cov d2 slot ctx" using K Ok o1 by (simp add: keeps_def)
    from commit_ok [OF ok2 e(1,2) this] t acq g Ok o1 show ?thesis by (simp add: session_turn_def)
  qed (use t acq g ok2 in \<open>auto simp: session_turn_def\<close>)
  show "\<exists>e k. sget st' i = Some e \<and> n_slot e = Some k \<and> cov d' k (n_tokens e) \<and>
        (n_tokens e = ids @ out \<or> n_tokens e = ids @ butlast out \<and> out \<noteq> [])" if ro: "res = Ok out" for out
  proof -
    obtain ctx p where gr: "gr = Ok (out, ctx, p)" "st' = session_commit i ctx st1" "d' = d2"
      using ro t acq g by (cases gr) (auto simp: session_turn_def)
    have "cov d2 slot ctx" "ctx = ids @ out \<or> ctx = ids @ butlast out \<and> out \<noteq> []"
      using K gr(1) by (auto simp: keeps_def)
    with e(1,2) show ?thesis by (auto simp: gr session_commit_def store_tick_def)
  qed
qed

end

end
