(* ===== verification/Session_Props.thy ===== *)
theory Session_Props
  imports Generation
begin

text \<open>
  The promises of the session store and the generation loops, on the decoder model of \<open>Kv_Lanes\<close>:
  what \<open>acquire\<close> offers, that every history of turns and deletions keeps the store sound, the memory
  budget, and the two ways the code breaks the discipline: a failed restore, and batch requests.
\<close>

section \<open>Acquire\<close>

lemma kv_never_refuses: "n < d_batch_cap d \<Longrightarrow> \<not> kv.refuses kern n d"
  unfolding kv.refuses_def using never_refuses_export never_refuses_import by (metis le_less_trans)

lemma kv_acquired:
  assumes ok: "sess_ok kv_geo (covers kern) kv_export st d" and two: "o_owner st \<noteq> []"
    and cap: "length (o_owner st) < d_batch_cap d"
  obtains s reuse st' d' where "session_acquire kv_export kv_import st d i prompt = (Ok (s, reuse), st', d')"
    "kv.acquired kern st i prompt (s, reuse) st' d d'"
proof -
  have "\<exists>sr st' d'. session_acquire kv_export kv_import st d i prompt = (Ok sr, st', d') \<and>
      kv.acquired kern st i prompt sr st' d d'"
    using kv.acquire_cases [OF ok two] kv_never_refuses [OF cap] by blast
  with that show thesis by force
qed


lemma store_new_ok: "sess_ok geo cov xport (store_new cap budget) d"
  by (rule sess_okI) (auto simp: store_new_def sget_def)


section \<open>Histories\<close>

lemma forget_ok:
  assumes ok: "sess_ok geo cov xport st d"
  shows "fst (session_forget i st) \<noteq> Panic" "sess_ok geo cov xport (snd (session_forget i st)) d"
proof -
  note D = sess_okD [OF ok]
  have del: "map_of (filter (\<lambda>(k, s). k \<noteq> i) m) j = (if j = i then None else map_of m j)" for m :: "(string \<times> session) list" and j
    by (induction m) auto
  have dist: "distinct (map fst (filter (\<lambda>(k, s). k \<noteq> i) (o_map st)))"
    using D(1) by (simp add: distinct_map inj_on_def)
  have "fst (session_forget i st) \<noteq> Panic \<and> sess_ok geo cov xport (snd (session_forget i st)) d"
  proof (cases "sget st i")
    case None
    with ok show ?thesis by (simp add: session_forget_def)
  next
    case (Some e)
    let ?st = "snd (session_forget i st)"
    have np: "fst (session_forget i st) \<noteq> Panic"
      using Some sess_ok_slot(1,2) [OF ok Some] by (auto simp: session_forget_def Let_def split: option.splits)
    have get: "sget ?st j = (if j = i then None else sget st j)" for j
      using Some by (auto simp: session_forget_def Let_def sget_def del split: option.splits)
    have fl: "o_clock ?st = o_clock st" "o_map ?st = filter (\<lambda>(k, s). k \<noteq> i) (o_map st)"
      "length (o_owner ?st) = length (o_owner st)"
      using Some by (auto simp: session_forget_def Let_def split: option.splits)
    have ow: "o_owner ?st = (case n_slot e of None \<Rightarrow> o_owner st | Some k \<Rightarrow> (o_owner st)[k - 1 := None])"
      using Some sess_ok_slot(1,2) [OF ok Some] by (auto simp: session_forget_def Let_def split: option.splits)
    have owj: "m < length (o_owner st) \<Longrightarrow> o_owner ?st ! m = Some j \<Longrightarrow> o_owner st ! m = Some j" for m j
      by (cases "n_slot e"; cases "m = the (n_slot e) - 1") (auto simp: ow)
    have "sess_ok geo cov xport ?st d"
    proof (rule sess_okI)
      show "distinct (map fst (o_map ?st))" using dist by (simp add: fl)
      show "entry_ok geo cov xport (o_owner ?st) d j s" if s: "sget ?st j = Some s" for j s
      proof -
        have s': "sget st j = Some s" "j \<noteq> i" using s by (auto simp: get split: if_splits)
        show ?thesis
        proof (cases "n_slot s")
          case (Some k)
          note S = sess_ok_slot [OF ok s'(1) Some]
          have "k' - 1 \<noteq> k - 1" if "n_slot e = Some k'" for k'
            using sess_ok_slot(3) [OF ok \<open>sget st i = Some e\<close> that] S(3) s'(2) by auto
          with S Some show ?thesis
            by (auto simp: entry_ok_def fl ow split: option.splits)
        qed (use D(2) [OF s'(1)] in \<open>simp add: entry_ok_def\<close>)
      qed
      show "n_last_used s \<le> o_clock ?st" if "sget ?st j = Some s" for j s
        using that D(3) [of j s] by (auto simp: get fl split: if_splits)
      show "\<exists>s. sget ?st j = Some s \<and> n_slot s = Some (Suc m)" if m: "m < length (o_owner ?st)" "o_owner ?st ! m = Some j" for m j
      proof -
        obtain s where s: "sget st j = Some s" "n_slot s = Some (Suc m)"
          using D(4) owj m by (metis fl(3))
        have "j \<noteq> i"
        proof
          assume "j = i"
          with s Some have "n_slot e = Some (Suc m)" by simp
          with m fl(3) show False by (simp add: ow)
        qed
        with s show ?thesis by (simp add: get)
      qed
      show "j = j'" if "sget ?st j = Some x" "sget ?st j' = Some y" "n_last_used x = n_last_used y" for j j' x y
        using that D(5) by (auto simp: get split: if_splits)
    qed
    with np show ?thesis by blast
  qed
  then show "fst (session_forget i st) \<noteq> Panic" "sess_ok geo cov xport (snd (session_forget i st)) d" by blast+
qed

datatype serve_op = Turn string "u32 list" nat | Forget string

text \<open>A history: turns (failed ones included) and deletions in any order; a panic ends it.\<close>

fun serve_run ::
  "kernel \<Rightarrow> (bytes list list \<Rightarrow> u32) \<Rightarrow> (kv_dec \<Rightarrow> 'r \<Rightarrow> u32 list \<Rightarrow> u32 \<times> 'r) \<Rightarrow> 'r gen_params
   \<Rightarrow> serve_op list \<Rightarrow> session_store \<Rightarrow> kv_dec \<Rightarrow> (session_store \<times> kv_dec) option" where
  "serve_run kern head smp q [] st d = Some (st, d)"
| "serve_run kern head smp q (Turn i ids n # ops) st d =
     (case session_turn kv_export kv_import (step_multi kern head) smp q st d i ids n of
        (Panic, _, _) \<Rightarrow> None | (_, st', d') \<Rightarrow> serve_run kern head smp q ops st' d')"
| "serve_run kern head smp q (Forget i # ops) st d =
     (case session_forget i st of (Panic, _) \<Rightarrow> None | (_, st') \<Rightarrow> serve_run kern head smp q ops st' d)"

lemma turn_keeps_ok:
  assumes ok: "sess_ok kv_geo (covers kern) kv_export st d" and cap: "length (o_owner st) < d_batch_cap d"
    and t: "session_turn kv_export kv_import (step_multi kern head) smp q st d i ids n = (res, st', d')" "res \<noteq> Panic"
  shows "sess_ok kv_geo (covers kern) kv_export st' d' \<and> length (o_owner st') = length (o_owner st) \<and>
    kv_geo d' = kv_geo d"
proof (cases "o_owner st = []")
  case True
  with t ok show ?thesis by (auto simp: session_turn_def session_acquire_def)
next
  case False
  obtain s reuse st1 d1 where acq: "session_acquire kv_export kv_import st d i ids = (Ok (s, reuse), st1, d1)"
    and A: "kv.acquired kern st i ids (s, reuse) st1 d d1"
    using kv_acquired [OF ok False cap] by blast
  obtain gr d2 where g: "generate_session (step_multi kern head) smp q d1 s reuse ids n = (gr, d2)" by fastforce
  have na: "res \<noteq> Err (Acquire x)" for x
  proof
    assume "res = Err (Acquire x)"
    then have gx: "gr = Err (Acquire x)" using t(1) acq g by (cases gr) (auto simp: session_turn_def)
    have pre: "fst (prefill stp smp pg sl tot cs p nx r dd) \<noteq> Err (Acquire x)"
      for stp :: "kv_dec \<Rightarrow> (u32 \<times> nat \<times> nat) list \<Rightarrow> bool \<Rightarrow> (kv_error, u32 list \<times> kv_dec) res" and pg sl tot cs p nx r dd
      by (induction stp smp pg sl tot cs p nx r dd rule: prefill.induct)
        (auto simp: Let_def case_prod_beta split: res.splits)
    have dec: "fst (decode_loop k stp smp q sl p out v nx r dd) \<noteq> Err (Acquire x)"
      for stp :: "kv_dec \<Rightarrow> (u32 \<times> nat \<times> nat) list \<Rightarrow> bool \<Rightarrow> (kv_error, u32 list \<times> kv_dec) res" and k sl p out v nx r dd
      by (induction k stp smp q sl p out v nx r dd rule: decode_loop.induct)
        (auto simp: Let_def case_prod_beta split: res.splits)
    show False
      using g gx pre dec unfolding generate_session_def
      by (auto simp: case_prod_beta split: res.splits if_splits)
  qed
  have ok': "sess_ok kv_geo (covers kern) kv_export st' d'"
    by (rule kv.turn_ok(1) [OF ok False t na])
  have st': "o_owner st' = o_owner st1" "d' = d2"
    using t acq g by (cases gr; force simp: session_turn_def session_commit_def store_tick_def)+
  have c1: "covers kern d1 s (take reuse ids)" "kv_geo d1 = kv_geo d" "length (o_owner st1) = length (o_owner st)"
    using A by (auto simp: kv.acquired_def)
  have "kv_geo d2 = kv_geo d1" using kv.generate_session_keeps [OF g c1(1)] by (simp add: kv.keeps_def)
  with ok' st' c1 show ?thesis by simp
qed

lemma serve_run_ok:
  "sess_ok kv_geo (covers kern) kv_export st d \<Longrightarrow> length (o_owner st) < d_batch_cap d \<Longrightarrow>
   serve_run kern head smp q ops st d = Some (st', d') \<Longrightarrow>
   sess_ok kv_geo (covers kern) kv_export st' d' \<and> length (o_owner st') = length (o_owner st) \<and> kv_geo d' = kv_geo d"
proof (induction kern head smp q ops st d rule: serve_run.induct)
  case (2 kern head smp q i ids n ops st d)
  obtain res st1 d1 where t: "session_turn kv_export kv_import (step_multi kern head) smp q st d i ids n = (res, st1, d1)"
    by (metis prod.exhaust)
  have np: "res \<noteq> Panic" using 2(5) t by auto
  have k: "sess_ok kv_geo (covers kern) kv_export st1 d1 \<and> length (o_owner st1) = length (o_owner st) \<and> kv_geo d1 = kv_geo d"
    by (rule turn_keeps_ok [OF 2(3) 2(4) t np])
  have b: "d_batch_cap d1 = d_batch_cap d" using k by (simp add: kv_geo_def)
  have "serve_run kern head smp q ops st1 d1 = Some (st', d')" using 2(5) t np by (cases res) auto
  moreover have "sess_ok kv_geo (covers kern) kv_export st1 d1" "length (o_owner st1) < d_batch_cap d1"
    using k 2(4) b by simp_all
  ultimately show ?case using 2(1,2) t np k by (cases res) fastforce+
next
  case (3 kern head smp q i ops st d)
  obtain r st1 where f: "session_forget i st = (r, st1)" by fastforce
  have k: "r \<noteq> Panic" "sess_ok kv_geo (covers kern) kv_export st1 d"
    using forget_ok [OF 3(3), of i] f by simp_all
  have ln: "length (o_owner st1) = length (o_owner st)"
    using f by (auto simp: session_forget_def Let_def split: option.splits if_splits)
  have "serve_run kern head smp q ops st1 d = Some (st', d')" using 3(5) f k by (cases r) auto
  with 3(1,2) f k ln 3(4) show ?case by (cases r) fastforce+
qed simp

text \<open>From an empty store, after any history of session turns and deletions (turns that fail
  half-way included), the store is sound: no slot has two owners, every resident session's slot holds
  exactly the state of the tokens the store records for it, every parked blob restores its tokens.\<close>

theorem sessions_stay_sound:
  assumes "serve_run kern head smp q ops (store_new (d_batch_cap d) budget) d = Some (st, d')"
    and "0 < d_batch_cap d"
  shows "sess_ok kv_geo (covers kern) kv_export st d' \<and>
    (\<forall>i s k. sget st i = Some s \<longrightarrow> n_slot s = Some k \<longrightarrow>
       0 < k \<and> k < d_batch_cap d \<and> covers kern d' k (n_tokens s) \<and>
       (\<forall>j t. sget st j = Some t \<longrightarrow> n_slot t = Some k \<longrightarrow> j = i))"
proof -
  have ln: "length (o_owner (store_new (d_batch_cap d) budget)) < d_batch_cap d"
    using assms(2) by (simp add: store_new_def)
  have r: "sess_ok kv_geo (covers kern) kv_export st d'"
    "length (o_owner st) = length (o_owner (store_new (d_batch_cap d) budget))"
    using serve_run_ok [OF store_new_ok ln assms(1)] by simp_all
  have "0 < k \<and> k < d_batch_cap d \<and> covers kern d' k (n_tokens s) \<and>
       (\<forall>j t. sget st j = Some t \<longrightarrow> n_slot t = Some k \<longrightarrow> j = i)"
    if "sget st i = Some s" "n_slot s = Some k" for i s k
  proof -
    note S = sess_ok_slot [OF r(1) that]
    have "j = i" if "sget st j = Some t" "n_slot t = Some k" for j t
      using sess_ok_slot(3) [OF r(1) that] S(3) by simp
    with S r(2) ln show ?thesis by auto
  qed
  with r(1) show ?thesis by blast
qed

definition tiny_params :: "unit gen_params" where
  "tiny_params = \<lparr>q_chunk_cap = 2, q_max_seq = 3, q_eos = [], q_plain_greedy = True, q_rng = ()\<rparr>"

definition tiny_kern :: kernel where
  "tiny_kern rows t b h x = ucast t"

lemma sessions_stay_sound_witness:
  "\<exists>st d'. serve_run tiny_kern (\<lambda>_. 1) (\<lambda>d r ts. (0, r)) tiny_params
      [Turn ''a'' [5, 6] 1, Turn ''b'' [7] 1, Turn ''a'' [5, 6] 1, Forget ''b''] (store_new 2 100) tiny_dec = Some (st, d') \<and>
     sess_ok kv_geo (covers tiny_kern) kv_export st d'"
proof -
  let ?r = "serve_run tiny_kern (\<lambda>_. 1) (\<lambda>d r ts. (0, r)) tiny_params
      [Turn ''a'' [5, 6] 1, Turn ''b'' [7] 1, Turn ''a'' [5, 6] 1, Forget ''b''] (store_new 2 100) tiny_dec"
  have "\<not> Option.is_none ?r" by code_simp
  then obtain st d' where r: "?r = Some (st, d')" by (auto simp: Option.is_none_def)
  have b: "d_batch_cap tiny_dec = 2" by (simp add: tiny_dec_def)
  have r': "serve_run tiny_kern (\<lambda>_. 1) (\<lambda>d r ts. (0, r)) tiny_params
      [Turn ''a'' [5, 6] 1, Turn ''b'' [7] 1, Turn ''a'' [5, 6] 1, Forget ''b'']
      (store_new (d_batch_cap tiny_dec) 100) tiny_dec = Some (st, d')" unfolding b by (rule r)
  have "sess_ok kv_geo (covers tiny_kern) kv_export st d'"
    by (rule conjunct1 [OF sessions_stay_sound [OF r']]) (simp add: b)
  with r show ?thesis by blast
qed

section \<open>The memory budget\<close>

lemma lru_parked_least:
  assumes l: "lru_parked st = Some i" and d: "distinct (map fst (o_map st))" and s: "sget st i = Some s"
    and t: "sget st j = Some t" "n_parked t \<noteq> None"
  shows "n_last_used s \<le> n_last_used t"
proof -
  obtain x where x: "first_min (\<lambda>(k, s). n_last_used s) (filter (\<lambda>(k, s). n_parked s \<noteq> None) (o_map st)) = Some x" "fst x = i"
    using l by (auto simp: lru_parked_def)
  have "(i, snd x) \<in> set (o_map st)" using first_min_mem [OF x(1)] x(2) by auto
  then have "sget st i = Some (snd x)" using d by (simp add: sget_def)
  then have sx: "snd x = s" using s by simp
  have "(j, t) \<in> set (o_map st)" using t(1) map_of_SomeD by (simp add: sget_def map_of_SomeD)
  then have "(j, t) \<in> set (filter (\<lambda>(k, s). n_parked s \<noteq> None) (o_map st))" using t(2) by simp
  from first_min_le [OF x(1) this] sx show ?thesis by (simp add: case_prod_beta)
qed

lemma enforce_keys: "map fst (o_map (enforce_budget st)) = map fst (o_map st)"
proof (induction st rule: enforce_budget.induct)
  case (1 st)
  have dk: "map fst (o_map (drop_context v st)) = map fst (o_map st)" for v
    by (simp add: drop_context_def supd_def case_prod_beta comp_def)
  show ?case
  proof (cases "o_ram_budget st < parked_bytes st")
    case True
    then show ?thesis using 1 [OF True] dk by (subst enforce_budget.simps) (simp split: option.split)
  qed (subst enforce_budget.simps, simp)
qed

abbreviation without_context :: "session \<Rightarrow> session" where
  "without_context s \<equiv> s\<lparr>n_parked := None, n_tokens := []\<rparr>"

lemma enforce_step:
  "enforce_budget st = st \<or> (\<exists>v. o_ram_budget st < parked_bytes st \<and> lru_parked st = Some v \<and>
     enforce_budget st = enforce_budget (drop_context v st))"
proof (cases "o_ram_budget st < parked_bytes st \<and> lru_parked st \<noteq> None")
  case True
  then obtain v where "lru_parked st = Some v" by auto
  with True show ?thesis using enforce_budget.simps [of st] by auto
next
  case False
  then have "enforce_budget st = st" by (subst enforce_budget.simps) (auto split: option.splits)
  then show ?thesis by blast
qed

lemma enforce_same_or_dropped:
  "sget st j = Some s \<Longrightarrow> sget (enforce_budget st) j = Some s \<or> sget (enforce_budget st) j = Some (without_context s)"
proof (induction st arbitrary: s rule: enforce_budget.induct)
  case (1 st)
  show ?case
  proof (cases "o_ram_budget st < parked_bytes st \<and> lru_parked st \<noteq> None")
    case True
    then obtain v where v: "lru_parked st = Some v" by auto
    have eq: "enforce_budget st = enforce_budget (drop_context v st)"
      using True v by (subst enforce_budget.simps) simp
    have "sget (drop_context v st) j = Some (if j = v then without_context s else s)"
      using 1(2) by (auto simp: drop_context_def)
    from 1(1) [OF conjunct1 [OF True] v this] show ?thesis unfolding eq by (auto split: if_splits)
  qed (use 1(2) in \<open>subst (1 2) enforce_budget.simps, auto split: option.splits\<close>)
qed

lemma enforce_lru:
  "distinct (map fst (o_map st)) \<Longrightarrow> sget st i = Some s \<Longrightarrow> sget (enforce_budget st) i \<noteq> Some s \<Longrightarrow>
   n_parked s \<noteq> None \<and>
    (\<forall>j t. sget (enforce_budget st) j = Some t \<longrightarrow> n_parked t \<noteq> None \<longrightarrow> n_last_used s \<le> n_last_used t)"
proof (induction st rule: enforce_budget.induct)
  case (1 st)
  obtain v where v: "o_ram_budget st < parked_bytes st" "lru_parked st = Some v"
      "enforce_budget st = enforce_budget (drop_context v st)"
    using enforce_step [of st] 1(3,4) by auto
  have d: "distinct (map fst (o_map (drop_context v st)))"
    using 1(2) by (simp add: drop_context_def supd_def case_prod_beta comp_def)
  show ?case
  proof (cases "v = i")
    case False
    then have "sget (drop_context v st) i = Some s" using 1(3) by (simp add: drop_context_def)
    from 1(1) [OF v(1,2) d this] 1(4) show ?thesis unfolding v(3) by blast
  next
    case True
    have "\<exists>x. (i, x) \<in> set (o_map st) \<and> n_parked x \<noteq> None" using lru_parked_mem [OF v(2)] True by simp
    then have "\<exists>x. sget st i = Some x \<and> n_parked x \<noteq> None" using 1(2) by (auto simp: sget_def)
    then have pk: "n_parked s \<noteq> None" using 1(3) by simp
    have "n_last_used s \<le> n_last_used t" if t: "sget (enforce_budget st) j = Some t" "n_parked t \<noteq> None" for j t
    proof -
      have "j \<in> set (map fst (o_map (enforce_budget st)))"
        using t(1) by (metis map_of_SomeD fst_conv image_eqI list.set_map sget_def)
      then obtain t0 where t0: "sget st j = Some t0"
        unfolding enforce_keys by (metis sget_def map_of_eq_None_iff list.set_map not_None_eq)
      have "t = t0" using enforce_same_or_dropped [OF t0] t by auto
      with lru_parked_least [OF v(2) 1(2) _ t0] 1(3) True t(2) show ?thesis by auto
    qed
    with pk show ?thesis by blast
  qed
qed

text \<open>The host-memory budget. \<open>enforce_budget\<close> always ends within the budget (an export larger than
  the whole budget included); it never removes a session; one that keeps its context is untouched, and
  one that loses it was parked and used no later than every session that is still parked.\<close>

theorem enforce_budget_lru:
  assumes "distinct (map fst (o_map st))"
  shows "parked_bytes (enforce_budget st) \<le> o_ram_budget st \<and>
    (\<forall>i s. sget st i = Some s \<longrightarrow>
       sget (enforce_budget st) i = Some s \<or>
       (n_parked s \<noteq> None \<and> sget (enforce_budget st) i = Some (s\<lparr>n_parked := None, n_tokens := []\<rparr>) \<and>
        (\<forall>j t. sget (enforce_budget st) j = Some t \<longrightarrow> n_parked t \<noteq> None \<longrightarrow> n_last_used s \<le> n_last_used t)))"
  using enforce_budget_met enforce_lru [OF assms] enforce_same_or_dropped [of st] by (metis (no_types, lifting))

definition tiny_store :: session_store where
  "tiny_store = \<lparr>o_map =
     [(''a'', \<lparr>n_tokens = [1], n_slot = None, n_parked = Some [0, 0], n_last_used = 7, n_turns = 1\<rparr>),
      (''b'', \<lparr>n_tokens = [2], n_slot = None, n_parked = Some [0, 0], n_last_used = 3, n_turns = 1\<rparr>)],
     o_owner = [None], o_ram_budget = 3, o_clock = 7\<rparr>"

lemma enforce_budget_lru_witness:
  "parked_bytes tiny_store = 4 \<and> parked_bytes (enforce_budget tiny_store) \<le> 3 \<and>
   (\<exists>s. sget tiny_store ''b'' = Some s \<and>
     (sget (enforce_budget tiny_store) ''b'' = Some s \<or> sget (enforce_budget tiny_store) ''b'' = Some (s\<lparr>n_parked := None, n_tokens := []\<rparr>)))"
proof -
  have d: "distinct (map fst (o_map tiny_store))" by (simp add: tiny_store_def)
  have s: "sget tiny_store ''b'' = Some \<lparr>n_tokens = [2], n_slot = None, n_parked = Some [0, 0], n_last_used = 3, n_turns = 1\<rparr>"
    by (simp add: tiny_store_def sget_def)
  have b: "parked_bytes tiny_store = 4" "o_ram_budget tiny_store = 3" by (simp_all add: tiny_store_def parked_bytes_def)
  show ?thesis using enforce_budget_lru [OF d] s b by force
qed

end
