(* ===== verification/Batch.thy ===== *)
theory Batch
  imports Session_Props
begin

text \<open>
  Requests without a session (\<open>llmpager-serve/src/main.rs\<close>): \<open>generate\<close> on the anonymous lane 0 and
  \<open>generate_batch\<close>, several prompts in lockstep on the slots \<open>0..n\<close>. Both run on the same decoder
  as the sessions. The contract \<open>kv_batch\<close> adds to \<open>kv_lanes\<close> what lockstep needs: a step over
  distinct slots extends each of them by its token. The theory ends with what the two do to the
  sessions: \<open>generate\<close> spares them, \<open>generate_batch\<close> runs over their slots.
\<close>

section \<open>Single tokens and chunks on lane 0\<close>

text \<open>\<open>Decoder::step\<close> works on the cache base addresses, that is on slot 0.\<close>

definition step_one :: "kernel \<Rightarrow> (bytes list list \<Rightarrow> u32) \<Rightarrow> kv_dec \<Rightarrow> u32 \<Rightarrow> nat \<Rightarrow> bool \<Rightarrow> (kv_error, u32 \<times> kv_dec) res" where
  "step_one kern head d tok pos want =
     (if d_max_seq d \<le> pos then Err (PosTooLarge pos (d_max_seq d))
      else let d' = append_row kern d (tok, pos, 0)
           in Ok (if want then head (slot_rows d' 0 (pos + 1)) else 0, d'))"

definition step_chunk :: "kernel \<Rightarrow> (bytes list list \<Rightarrow> u32) \<Rightarrow> kv_dec \<Rightarrow> u32 list \<Rightarrow> nat \<Rightarrow> bool \<Rightarrow> (kv_error, u32 \<times> kv_dec) res" where
  "step_chunk kern head d tokens start want =
     bind_res (step_multi kern head d (run_entries 0 start tokens) want) (\<lambda>(out, d').
       Ok (if out = [] then 0 else last out, d'))"

section \<open>One prompt\<close>

fun plain_prefill ::
  "('d \<Rightarrow> u32 list \<Rightarrow> nat \<Rightarrow> bool \<Rightarrow> ('e, u32 \<times> 'd) res) \<Rightarrow> nat \<Rightarrow> u32 list list \<Rightarrow> nat \<Rightarrow> u32 \<Rightarrow> 'd
   \<Rightarrow> ('e gen_error, u32) res \<times> 'd" where
  "plain_prefill chk tot [] pos nxt d = (Ok nxt, d)"
| "plain_prefill chk tot (c # cs) pos nxt d =
     (case chk d c pos (pos + length c = tot) of
        Err e \<Rightarrow> (Err (GenDecoder e), d) | Panic \<Rightarrow> (Panic, d)
      | Ok (n, d') \<Rightarrow> plain_prefill chk tot cs (pos + length c) n d')"

fun plain_decode ::
  "nat \<Rightarrow> ('d \<Rightarrow> u32 \<Rightarrow> nat \<Rightarrow> bool \<Rightarrow> ('e, u32 \<times> 'd) res) \<Rightarrow> ('d \<Rightarrow> 'r \<Rightarrow> u32 list \<Rightarrow> u32 \<times> 'r)
   \<Rightarrow> 'r gen_params \<Rightarrow> nat \<Rightarrow> u32 list \<Rightarrow> u32 \<Rightarrow> 'r \<Rightarrow> 'd \<Rightarrow> ('e gen_error, u32 list) res \<times> 'd" where
  "plain_decode 0 one smp q pos out nxt r d = (Ok out, d)"
| "plain_decode (Suc n) one smp q pos out nxt r d =
     (if nxt \<in> set (q_eos q) then (Ok out, d)
      else let out' = out @ [nxt] in
        if q_max_seq q \<le> pos + 1 then (Ok out', d)
        else (case one d nxt pos True of
                Err e \<Rightarrow> (Err (GenDecoder e), d) | Panic \<Rightarrow> (Panic, d)
              | Ok (greedy, d') \<Rightarrow>
                  let (t, r') = (if q_plain_greedy q then (greedy, r) else smp d' r out')
                  in plain_decode n one smp q (pos + 1) out' t r' d'))"

definition generate ::
  "('d \<Rightarrow> u32 list \<Rightarrow> nat \<Rightarrow> bool \<Rightarrow> ('e, u32 \<times> 'd) res) \<Rightarrow> ('d \<Rightarrow> u32 \<Rightarrow> nat \<Rightarrow> bool \<Rightarrow> ('e, u32 \<times> 'd) res)
   \<Rightarrow> ('d \<Rightarrow> 'r \<Rightarrow> u32 list \<Rightarrow> u32 \<times> 'r) \<Rightarrow> 'r gen_params \<Rightarrow> 'd \<Rightarrow> u32 list \<Rightarrow> nat
   \<Rightarrow> ('e gen_error, u32 list \<times> nat \<times> nat) res \<times> 'd" where
  "generate chk one smp q d ids max_tokens =
     (if ids = [] then (Err EmptyPrompt, d) else if q_chunk_cap q = 0 then (Panic, d)
      else case plain_prefill chk (length ids) (chunks (q_chunk_cap q) ids) 0 0 d of
        (Err e, d1) \<Rightarrow> (Err e, d1) | (Panic, d1) \<Rightarrow> (Panic, d1)
      | (Ok n0, d1) \<Rightarrow>
          let (nxt, r) = (if q_plain_greedy q then (n0, q_rng q) else smp d1 (q_rng q) [])
          in (case plain_decode max_tokens one smp q (length ids) [] nxt r d1 of
                (Err e, d2) \<Rightarrow> (Err e, d2) | (Panic, d2) \<Rightarrow> (Panic, d2)
              | (Ok out, d2) \<Rightarrow> (Ok (out, length ids, length out), d2)))"

section \<open>Several prompts in lockstep\<close>

record 'r stream =
  b_ids :: "u32 list"
  b_next :: u32
  b_pos :: nat
  b_out :: "u32 list"
  b_done :: bool
  b_rng :: 'r

text \<open>\<open>smp d i\<close> samples from row \<open>i\<close> of the last step's logits. An answer with no entry panics.\<close>

fun stream_prefill ::
  "('d \<Rightarrow> (u32 \<times> nat \<times> nat) list \<Rightarrow> bool \<Rightarrow> ('e, u32 list \<times> 'd) res) \<Rightarrow> ('d \<Rightarrow> nat \<Rightarrow> 'r \<Rightarrow> u32 list \<Rightarrow> u32 \<times> 'r)
   \<Rightarrow> bool \<Rightarrow> nat \<Rightarrow> nat \<Rightarrow> u32 list list \<Rightarrow> nat \<Rightarrow> u32 \<Rightarrow> 'r \<Rightarrow> 'd \<Rightarrow> ('e gen_error, u32 \<times> 'r) res \<times> 'd" where
  "stream_prefill stp smp pg s tot [] pos nxt r d = (Ok (nxt, r), d)"
| "stream_prefill stp smp pg s tot (c # cs) pos nxt r d =
     (let lst = (pos + length c = tot) in
      case stp d (run_entries s pos c) lst of
        Err e \<Rightarrow> (Err (GenDecoder e), d) | Panic \<Rightarrow> (Panic, d)
      | Ok (out, d') \<Rightarrow>
          if lst then
            (if out = [] then (Panic, d')
             else let (t, r') = (if pg then (last out, r) else smp d' (length c - 1) r [])
                  in stream_prefill stp smp pg s tot cs (pos + length c) t r' d')
          else stream_prefill stp smp pg s tot cs (pos + length c) nxt r d')"

fun prefill_all ::
  "('d \<Rightarrow> (u32 \<times> nat \<times> nat) list \<Rightarrow> bool \<Rightarrow> ('e, u32 list \<times> 'd) res) \<Rightarrow> ('d \<Rightarrow> nat \<Rightarrow> 'r \<Rightarrow> u32 list \<Rightarrow> u32 \<times> 'r)
   \<Rightarrow> bool \<Rightarrow> nat \<Rightarrow> nat \<Rightarrow> 'r stream list \<Rightarrow> 'd \<Rightarrow> ('e gen_error, 'r stream list) res \<times> 'd" where
  "prefill_all stp smp pg cap s [] d = (Ok [], d)"
| "prefill_all stp smp pg cap s (x # xs) d =
     (case stream_prefill stp smp pg s (length (b_ids x)) (chunks cap (b_ids x)) 0 0 (b_rng x) d of
        (Err e, d1) \<Rightarrow> (Err e, d1) | (Panic, d1) \<Rightarrow> (Panic, d1)
      | (Ok (nxt, r), d1) \<Rightarrow>
          (case prefill_all stp smp pg cap (s + 1) xs d1 of
             (Err e, d2) \<Rightarrow> (Err e, d2) | (Panic, d2) \<Rightarrow> (Panic, d2)
           | (Ok ys, d2) \<Rightarrow> (Ok (x\<lparr>b_next := nxt, b_rng := r\<rparr> # ys), d2)))"

text \<open>The first inner loop of a round: retire or emit.\<close>

definition mark :: "'r gen_params \<Rightarrow> 'r stream \<Rightarrow> 'r stream" where
  "mark q x =
     (if b_done x then x
      else if b_next x \<in> set (q_eos q) \<or> q_max_seq q \<le> b_pos x then x\<lparr>b_done := True\<rparr>
      else x\<lparr>b_out := b_out x @ [b_next x]\<rparr>)"

definition active :: "'r stream list \<Rightarrow> nat list" where
  "active xs = filter (\<lambda>s. \<not> b_done (xs ! s)) [0..<length xs]"

definition lock_entries :: "'r stream list \<Rightarrow> (u32 \<times> nat \<times> nat) list" where
  "lock_entries xs = map (\<lambda>s. (b_next (xs ! s), b_pos (xs ! s), s)) (active xs)"

text \<open>The second inner loop: the \<open>i\<close>-th active stream takes the \<open>i\<close>-th answer.\<close>

fun take_answers ::
  "('d \<Rightarrow> nat \<Rightarrow> 'r \<Rightarrow> u32 list \<Rightarrow> u32 \<times> 'r) \<Rightarrow> bool \<Rightarrow> 'd \<Rightarrow> u32 list \<Rightarrow> nat \<Rightarrow> 'r stream list \<Rightarrow> 'r stream list" where
  "take_answers smp pg d out i [] = []"
| "take_answers smp pg d out i (x # xs) =
     (if b_done x then x # take_answers smp pg d out i xs
      else let (t, r) = (if pg then (out ! i, b_rng x) else smp d i (b_rng x) (b_out x))
           in x\<lparr>b_next := t, b_rng := r, b_pos := b_pos x + 1\<rparr> # take_answers smp pg d out (i + 1) xs)"

fun lockstep ::
  "nat \<Rightarrow> ('d \<Rightarrow> (u32 \<times> nat \<times> nat) list \<Rightarrow> bool \<Rightarrow> ('e, u32 list \<times> 'd) res) \<Rightarrow> ('d \<Rightarrow> nat \<Rightarrow> 'r \<Rightarrow> u32 list \<Rightarrow> u32 \<times> 'r)
   \<Rightarrow> 'r gen_params \<Rightarrow> 'r stream list \<Rightarrow> 'd \<Rightarrow> ('e gen_error, 'r stream list) res \<times> 'd" where
  "lockstep 0 stp smp q xs d = (Ok xs, d)"
| "lockstep (Suc n) stp smp q xs d =
     (let ys = map (mark q) xs in
      if active ys = [] then (Ok ys, d)
      else (case stp d (lock_entries ys) True of
              Err e \<Rightarrow> (Err (GenDecoder e), d) | Panic \<Rightarrow> (Panic, d)
            | Ok (out, d') \<Rightarrow>
                if q_plain_greedy q \<and> length out < length (active ys) then (Panic, d')
                else lockstep n stp smp q (take_answers smp (q_plain_greedy q) d' out 0 ys) d'))"

definition new_stream :: "u32 list \<times> 'r \<Rightarrow> 'r stream" where
  "new_stream = (\<lambda>(ids, r). \<lparr>b_ids = ids, b_next = 0, b_pos = length ids, b_out = [], b_done = False, b_rng = r\<rparr>)"

text \<open>Prompts come tokenized, with the generator state of their stream.\<close>

definition generate_batch ::
  "('d \<Rightarrow> (u32 \<times> nat \<times> nat) list \<Rightarrow> bool \<Rightarrow> ('e, u32 list \<times> 'd) res) \<Rightarrow> ('d \<Rightarrow> nat \<Rightarrow> 'r \<Rightarrow> u32 list \<Rightarrow> u32 \<times> 'r)
   \<Rightarrow> 'r gen_params \<Rightarrow> nat \<Rightarrow> 'd \<Rightarrow> (u32 list \<times> 'r) list \<Rightarrow> nat
   \<Rightarrow> ('e gen_error, 'r stream list) res \<times> 'd" where
  "generate_batch stp smp q cap d prompts max_tokens =
     (if cap < length prompts then (Err (OverCapacity (length prompts) cap), d)
      else if [] \<in> set (map fst prompts) then (Err EmptyPrompt, d)
      else if prompts \<noteq> [] \<and> q_chunk_cap q = 0 then (Panic, d)
      else case prefill_all stp smp (q_plain_greedy q) (q_chunk_cap q) 0 (map new_stream prompts) d of
        (Err e, d1) \<Rightarrow> (Err e, d1) | (Panic, d1) \<Rightarrow> (Panic, d1)
      | (Ok xs, d1) \<Rightarrow> lockstep max_tokens stp smp q xs d1)"

section \<open>The contract of lockstep\<close>

locale kv_batch = kv_lanes geo cov xport mport stp
  for geo :: "'d \<Rightarrow> 'g" and cov xport mport
    and stp :: "'d \<Rightarrow> (u32 \<times> nat \<times> nat) list \<Rightarrow> bool \<Rightarrow> ('e, u32 list \<times> 'd) res" +
  assumes stp_lock: "stp d es w = Ok (out, d') \<Longrightarrow> distinct (map (\<lambda>e. snd (snd e)) es) \<Longrightarrow>
      (t, length ts, s) \<in> set es \<Longrightarrow> cov d s ts \<Longrightarrow> cov d' s (ts @ [t])"
begin

lemma stream_prefill_cov:
  "stream_prefill stp smp pg s tot cs (length ts) nxt r d = (Ok x, d') \<Longrightarrow> cov d s ts \<Longrightarrow>
   geo d' = geo d \<and> cov d' s (ts @ concat cs) \<and> (\<forall>s' zs. s' \<noteq> s \<longrightarrow> cov d s' zs \<longrightarrow> cov d' s' zs)"
proof (induction cs arbitrary: ts nxt r d)
  case (Cons c cs)
  obtain out d1 where st: "stp d (run_entries s (length ts) c) (length ts + length c = tot) = Ok (out, d1)"
    using Cons.prems(1) by (cases "stp d (run_entries s (length ts) c) (length ts + length c = tot)") auto
  have c1: "cov d1 s (ts @ c)" by (rule stp_cov [OF st Cons.prems(2)])
  obtain t r' where "stream_prefill stp smp pg s tot cs (length (ts @ c)) t r' d1 = (Ok x, d')"
    using Cons.prems(1) st by (auto simp: Let_def case_prod_beta split: if_splits)
  from Cons.IH [OF this c1] stp_geo [OF st] stp_other_run [OF st] show ?case by simp
qed simp

lemma prefill_all_cov:
  "prefill_all stp smp pg cap s0 xs d = (Ok ys, d') \<Longrightarrow> 0 < cap \<Longrightarrow>
   geo d' = geo d \<and> length ys = length xs \<and>
   (\<forall>i < length xs. b_ids (ys ! i) = b_ids (xs ! i) \<and> b_out (ys ! i) = b_out (xs ! i) \<and>
      b_pos (ys ! i) = b_pos (xs ! i) \<and> cov d' (s0 + i) (b_ids (xs ! i))) \<and>
   (\<forall>s' zs. s' < s0 \<or> s0 + length xs \<le> s' \<longrightarrow> cov d s' zs \<longrightarrow> cov d' s' zs)"
proof (induction xs arbitrary: s0 d ys)
  case (Cons x xs)
  obtain nxt r d1 where sp: "stream_prefill stp smp pg s0 (length (b_ids x)) (chunks cap (b_ids x)) (length ([] :: u32 list)) 0 (b_rng x) d
      = (Ok (nxt, r), d1)"
    using Cons.prems(1) by (auto split: res.splits prod.splits)
  obtain zs where pa: "prefill_all stp smp pg cap (s0 + 1) xs d1 = (Ok zs, d')" "ys = x\<lparr>b_next := nxt, b_rng := r\<rparr> # zs"
    using Cons.prems(1) sp by (auto split: res.splits prod.splits)
  note h = stream_prefill_cov [OF sp cov_nil] and IH = Cons.IH [OF pa(1) Cons.prems(2)]
  have c: "cov d1 s0 (b_ids x)" using h Cons.prems(2) by (simp add: concat_chunks)
  then have c': "cov d' s0 (b_ids x)" using IH by simp
  have "b_ids (ys ! i) = b_ids ((x # xs) ! i) \<and> b_out (ys ! i) = b_out ((x # xs) ! i) \<and>
      b_pos (ys ! i) = b_pos ((x # xs) ! i) \<and> cov d' (s0 + i) (b_ids ((x # xs) ! i))" if "i < length (x # xs)" for i
    using that IH c' pa(2) by (cases i) auto
  moreover have "cov d' s' us" if "s' < s0 \<or> s0 + length (x # xs) \<le> s'" "cov d s' us" for s' us
    using that h IH by auto
  ultimately show ?case using h IH pa(2) by simp
qed simp

text \<open>The slot of a stream holds its prompt and everything it emitted.\<close>

definition follows :: "'d \<Rightarrow> nat \<Rightarrow> 'r stream \<Rightarrow> bool" where
  "follows d s x \<longleftrightarrow> cov d s (b_ids x @ b_out x) \<and> b_pos x = length (b_ids x) + length (b_out x)"

end

lemma take_answers_nth:
  "length (take_answers smp pg d out k xs) = length xs \<and>
   (\<forall>i < length xs. b_ids (take_answers smp pg d out k xs ! i) = b_ids (xs ! i) \<and>
      b_out (take_answers smp pg d out k xs ! i) = b_out (xs ! i) \<and>
      b_done (take_answers smp pg d out k xs ! i) = b_done (xs ! i) \<and>
      b_pos (take_answers smp pg d out k xs ! i) = (if b_done (xs ! i) then b_pos (xs ! i) else b_pos (xs ! i) + 1))"
proof (induction smp pg d out k xs rule: take_answers.induct)
  case (2 smp pg d out i x xs)
  let ?p = "if pg then (out ! i, b_rng x) else smp d i (b_rng x) (b_out x)"
  obtain t r where p: "?p = (t, r)" by fastforce
  show ?case using 2(1) 2(2) [OF _ p [symmetric]] p by (auto simp: Let_def nth_Cons split: nat.splits)
qed simp

lemma lock_entries_slots:
  "map (\<lambda>e. snd (snd e)) (lock_entries xs) = active xs" "distinct (active xs)"
  "i \<in> set (active xs) \<longleftrightarrow> i < length xs \<and> \<not> b_done (xs ! i)"
  by (auto simp: lock_entries_def active_def comp_def)

context kv_batch
begin

lemma lockstep_round:
  fixes smp :: "'d \<Rightarrow> nat \<Rightarrow> 'r \<Rightarrow> u32 list \<Rightarrow> u32 \<times> 'r" and pg :: bool
  assumes f: "\<forall>i < length xs. follows d i (xs ! i)" and st: "stp d (lock_entries (map (mark q) xs)) True = Ok (out, d')"
    and i: "i < length xs" and zs_def: "zs = take_answers smp pg d' out 0 (map (mark q) xs)"
  shows "follows d' i (zs ! i) \<and> b_ids (zs ! i) = b_ids (xs ! i) \<and>
    (\<exists>us. b_out (zs ! i) = b_out (xs ! i) @ us \<and> length us \<le> 1)"
proof -
  let ?ys = "map (mark q) xs"
  have z: "b_ids (zs ! i) = b_ids (mark q (xs ! i))" "b_out (zs ! i) = b_out (mark q (xs ! i))"
    "b_pos (zs ! i) = (if b_done (mark q (xs ! i)) then b_pos (mark q (xs ! i)) else b_pos (mark q (xs ! i)) + 1)"
    using take_answers_nth [of smp pg d' out 0 ?ys] i by (auto simp: zs_def)
  have d: "distinct (map (\<lambda>e. snd (snd e)) (lock_entries ?ys))" by (simp add: lock_entries_slots)
  note fi = f [rule_format, OF i, unfolded follows_def]
  show ?thesis
  proof (cases "b_done (mark q (xs ! i))")
    case True
    have "i \<notin> set (map (\<lambda>e. snd (snd e)) (lock_entries ?ys))"
      using True i unfolding lock_entries_slots by (simp add: lock_entries_slots)
    then have "\<forall>e \<in> set (lock_entries ?ys). snd (snd e) \<noteq> i" by auto
    from stp_other [OF st this] fi True z show ?thesis by (auto simp: follows_def mark_def split: if_splits)
  next
    case False
    then have m: "mark q (xs ! i) = (xs ! i)\<lparr>b_out := b_out (xs ! i) @ [b_next (xs ! i)]\<rparr>"
      by (auto simp: mark_def split: if_splits)
    have "i \<in> set (active ?ys)" using False i by (simp add: lock_entries_slots)
    then have "(b_next (?ys ! i), b_pos (?ys ! i), i) \<in> set (lock_entries ?ys)" by (auto simp: lock_entries_def)
    then have "(b_next (xs ! i), length (b_ids (xs ! i) @ b_out (xs ! i)), i) \<in> set (lock_entries ?ys)"
      using i m fi by simp
    from stp_lock [OF st d this] fi have "cov d' i ((b_ids (xs ! i) @ b_out (xs ! i)) @ [b_next (xs ! i)])" by blast
    with z m fi False show ?thesis by (simp add: follows_def)
  qed
qed

lemma mark_done: "follows d i x \<Longrightarrow> b_done (mark q x) \<Longrightarrow>
   follows d i (mark q x) \<and> b_ids (mark q x) = b_ids x \<and> b_out (mark q x) = b_out x"
  by (auto simp: follows_def mark_def split: if_splits)

lemma lockstep_follows:
  "lockstep n stp smp q xs d = (Ok ys, d') \<Longrightarrow> \<forall>i < length xs. follows d i (xs ! i) \<Longrightarrow>
   geo d' = geo d \<and> length ys = length xs \<and>
   (\<forall>i < length xs. follows d' i (ys ! i) \<and> b_ids (ys ! i) = b_ids (xs ! i) \<and>
      (\<exists>us. b_out (ys ! i) = b_out (xs ! i) @ us \<and> length us \<le> n)) \<and>
   (\<forall>s' zs. length xs \<le> s' \<longrightarrow> cov d s' zs \<longrightarrow> cov d' s' zs)"
proof (induction n arbitrary: xs d)
  case (Suc n)
  let ?ms = "map (mark q) xs"
  show ?case
  proof (cases "active ?ms = []")
    case True
    then have r: "ys = ?ms" "d' = d" using Suc.prems(1) by (simp_all add: Let_def)
    have "b_done (mark q (xs ! i))" if "i < length xs" for i
      using that True lock_entries_slots(3) [of i ?ms] by simp
    then have m: "follows d i (mark q (xs ! i)) \<and> b_ids (mark q (xs ! i)) = b_ids (xs ! i) \<and>
        b_out (mark q (xs ! i)) = b_out (xs ! i)" if "i < length xs" for i
      using that Suc.prems(2) by (intro mark_done) simp_all
    show ?thesis using m by (simp add: r)
  next
    case False
    obtain out d1 where st: "stp d (lock_entries ?ms) True = Ok (out, d1)"
      using Suc.prems(1) False by (cases "stp d (lock_entries ?ms) True") (auto simp: Let_def)
    let ?zs = "take_answers smp (q_plain_greedy q) d1 out 0 ?ms"
    have rec: "lockstep n stp smp q ?zs d1 = (Ok ys, d')"
      using Suc.prems(1) False st by (auto simp: Let_def split: if_splits)
    have len: "length ?zs = length xs" using take_answers_nth [of smp "q_plain_greedy q" d1 out 0 ?ms] by simp
    note round = lockstep_round [OF Suc.prems(2) st _ refl, of _ smp "q_plain_greedy q"]
    have f1: "\<forall>i < length ?zs. follows d1 i (?zs ! i)" using round len by simp
    note IH = Suc.IH [OF rec f1]
    have keep: "cov d' s' us" if "length xs \<le> s'" "cov d s' us" for s' us
    proof -
      have "s' \<notin> set (map (\<lambda>e. snd (snd e)) (lock_entries ?ms))"
        using that(1) unfolding lock_entries_slots(1) by (simp add: lock_entries_slots)
      then have "\<forall>e \<in> set (lock_entries ?ms). snd (snd e) \<noteq> s'" by auto
      from stp_other [OF st this that(2)] IH that(1) len show ?thesis by simp
    qed
    have "follows d' i (ys ! i) \<and> b_ids (ys ! i) = b_ids (xs ! i) \<and>
      (\<exists>us. b_out (ys ! i) = b_out (xs ! i) @ us \<and> length us \<le> Suc n)" if i: "i < length xs" for i
    proof -
      obtain us where us: "b_out (?zs ! i) = b_out (xs ! i) @ us" "length us \<le> 1" using round [OF i] by blast
      have ids: "b_ids (?zs ! i) = b_ids (xs ! i)" using round [OF i] by blast
      obtain vs where vs: "b_out (ys ! i) = b_out (?zs ! i) @ vs" "length vs \<le> n" using IH i len by auto
      have "follows d' i (ys ! i)" "b_ids (ys ! i) = b_ids (?zs ! i)" using IH i len by auto
      with us vs ids show ?thesis by simp
    qed
    with IH len keep stp_geo [OF st] show ?thesis by simp
  qed
qed auto

lemma generate_batch_follows:
  assumes g: "generate_batch stp smp q cap d prompts n = (Ok ys, d')"
  shows "geo d' = geo d \<and> length ys = length prompts \<and> length prompts \<le> cap \<and>
    (\<forall>i < length prompts. b_ids (ys ! i) = fst (prompts ! i) \<and> length (b_out (ys ! i)) \<le> n \<and>
       cov d' i (fst (prompts ! i) @ b_out (ys ! i))) \<and>
    (\<forall>s' zs. length prompts \<le> s' \<longrightarrow> cov d s' zs \<longrightarrow> cov d' s' zs)"
proof -
  have c: "length prompts \<le> cap" "prompts \<noteq> [] \<longrightarrow> 0 < q_chunk_cap q"
    using g by (auto simp: generate_batch_def split: if_splits)
  obtain xs d1 where pa: "prefill_all stp smp (q_plain_greedy q) (q_chunk_cap q) 0 (map new_stream prompts) d = (Ok xs, d1)"
    and ls: "lockstep n stp smp q xs d1 = (Ok ys, d')"
    using g by (auto simp: generate_batch_def split: if_splits res.splits prod.splits)
  have P: "geo d1 = geo d \<and> length xs = length prompts \<and>
     (\<forall>i < length prompts. follows d1 i (xs ! i) \<and> b_ids (xs ! i) = fst (prompts ! i) \<and> b_out (xs ! i) = []) \<and>
     (\<forall>s' zs. length prompts \<le> s' \<longrightarrow> cov d s' zs \<longrightarrow> cov d1 s' zs)"
  proof (cases "prompts = []")
    case True
    with pa show ?thesis by simp
  next
    case False
    note p = prefill_all_cov [OF pa] c(2)
    have "b_ids (new_stream (prompts ! i)) = fst (prompts ! i)" "b_out (new_stream (prompts ! i)) = []"
      "b_pos (new_stream (prompts ! i)) = length (fst (prompts ! i))" for i
      by (simp_all add: new_stream_def case_prod_beta)
    with p False show ?thesis by (auto simp: follows_def)
  qed
  have "\<forall>i < length xs. follows d1 i (xs ! i)" using P by simp
  note L = lockstep_follows [OF ls this]
  have "b_ids (ys ! i) = fst (prompts ! i) \<and> length (b_out (ys ! i)) \<le> n \<and>
       cov d' i (fst (prompts ! i) @ b_out (ys ! i))" if "i < length prompts" for i
    using that L P by (auto simp: follows_def)
  with L P c show ?thesis by auto
qed

end

section \<open>The decoder meets it\<close>

lemma foldl_lock:
  assumes "distinct (map (\<lambda>e. snd (snd e)) es)" "(t, length ts, s) \<in> set es" "covers kern d s ts"
    "\<forall>(t, pos, seq) \<in> set es. pos < d_max_seq d"
  shows "covers kern (foldl (append_row kern) d es) s (ts @ [t])"
proof -
  obtain us vs where es: "es = us @ (t, length ts, s) # vs" using assms(2) by (meson split_list)
  let ?d1 = "foldl (append_row kern) d us" and ?d2 = "append_row kern (foldl (append_row kern) d us) (t, length ts, s)"
  have m: "d_max_seq (foldl (append_row kern) d xs) = d_max_seq d" for xs d
    by (rule geo_max_seq [OF foldl_append_geo])
  have s: "s \<notin> (\<lambda>e. snd (snd e)) ` set us" "s \<notin> (\<lambda>e. snd (snd e)) ` set vs"
    using assms(1) by (simp_all add: es)
  have other: "\<forall>(t', pos, seq) \<in> set xs. pos < d_max_seq d \<and> seq \<noteq> s" if "set xs \<subseteq> set us \<union> set vs" for xs
  proof clarify
    fix t' pos seq assume e: "(t', pos, seq) \<in> set xs"
    have "(t', pos, seq) \<in> set es" using e that es by auto
    then have "pos < d_max_seq d" using assms(4) by blast
    moreover have "seq \<noteq> s"
    proof
      assume "seq = s"
      then have "s \<in> (\<lambda>e. snd (snd e)) ` (set us \<union> set vs)" using e that by force
      with s show False by (simp add: image_Un)
    qed
    ultimately show "pos < d_max_seq d \<and> seq \<noteq> s" by simp
  qed
  have c1: "covers kern ?d1 s ts" by (rule foldl_covers_other [OF assms(3) other]) simp
  have "length ts < d_max_seq d" using assms(2,4) by blast
  then have c2: "covers kern ?d2 s (ts @ [t])" by (intro append_row_covers [OF c1]) (simp add: m)
  have m2: "d_max_seq ?d2 = d_max_seq d" using m [of d "us @ [(t, length ts, s)]"] by simp
  have "covers kern (foldl (append_row kern) ?d2 vs) s (ts @ [t])"
    by (rule foldl_covers_other [OF c2, unfolded m2, OF other]) simp
  then show ?thesis by (simp add: es)
qed

interpretation kvb: kv_batch kv_geo "covers kern" kv_export kv_import "step_multi kern head" for kern head
proof
  fix d es w out d' t s ts
  assume st: "step_multi kern head d es w = Ok (out, d')" "distinct (map (\<lambda>e. snd (snd e)) es)"
    "(t, length ts, s) \<in> set es" "covers kern d s ts"
  note ok = step_multi_Ok [OF st(1)]
  show "covers kern d' s (ts @ [t])"
    unfolding ok(1) using ok(2) by (intro foldl_lock [OF st(2-4)]) auto
qed


lemma run_returns: "(case fst g of Ok _ \<Rightarrow> True | Err _ \<Rightarrow> False | Panic \<Rightarrow> False) \<Longrightarrow> \<exists>a d. g = (Ok a, d)"
  by (cases g; cases "fst g") auto


end
