(* ===== verification/Session_Faults.thy ===== *)
theory Session_Faults
  imports Batch
begin

text \<open>
  What the other requests and a failing device do to the sessions: a request without a session spares
  them, a batch request runs over their slots, and a restore that fails half-way loses a lane for good.
\<close>

section \<open>Requests without a session\<close>

lemma step_one_keeps:
  assumes "step_one kern head d t p w = Ok (x, d')"
  shows "kv_geo d' = kv_geo d" "s \<noteq> 0 \<Longrightarrow> covers kern d s ts \<Longrightarrow> covers kern d' s ts"
proof -
  have d': "d' = append_row kern d (t, p, 0)" "p < d_max_seq d"
    using assms by (auto simp: step_one_def Let_def split: if_splits)
  show "kv_geo d' = kv_geo d" by (simp add: d')
  show "covers kern d' s ts" if "s \<noteq> 0" "covers kern d s ts"
    unfolding d'(1) by (rule append_row_covers_other [OF that(2,1) d'(2)])
qed

lemma step_chunk_keeps:
  assumes "step_chunk kern head d c p w = Ok (x, d')"
  shows "kv_geo d' = kv_geo d" "s \<noteq> 0 \<Longrightarrow> covers kern d s ts \<Longrightarrow> covers kern d' s ts"
    "covers kern d 0 us \<Longrightarrow> length us = p \<Longrightarrow> covers kern d' 0 (us @ c)"
proof -
  obtain out where st: "step_multi kern head d (run_entries 0 p c) w = Ok (out, d')"
    using assms by (auto simp: step_chunk_def bind_res_Ok)
  show "kv_geo d' = kv_geo d" by (rule kv.stp_geo [OF st])
  show "covers kern d' s ts" if "s \<noteq> 0" "covers kern d s ts"
    using kv.stp_other_run [OF st that] .
  show "covers kern d' 0 (us @ c)" if "covers kern d 0 us" "length us = p"
    using step_cover [OF st [folded that(2)] that(1)] .
qed

text \<open>Same shape, and every slot but lane 0 keeps its context.\<close>

definition spares :: "kernel \<Rightarrow> kv_dec \<Rightarrow> kv_dec \<Rightarrow> bool" where
  "spares kern d d' \<longleftrightarrow> kv_geo d' = kv_geo d \<and> (\<forall>s ts. s \<noteq> 0 \<longrightarrow> covers kern d s ts \<longrightarrow> covers kern d' s ts)"

lemma spares_refl: "spares kern d d"
  by (simp add: spares_def)

lemma spares_trans: "spares kern d d1 \<Longrightarrow> spares kern d1 d2 \<Longrightarrow> spares kern d d2"
  by (simp add: spares_def)

lemma spares_one: "step_one kern head d t p w = Ok (x, d') \<Longrightarrow> spares kern d d'"
  by (simp add: spares_def step_one_keeps)

lemma spares_chunk: "step_chunk kern head d c p w = Ok (x, d') \<Longrightarrow> spares kern d d'"
  by (simp add: spares_def step_chunk_keeps)

lemma plain_prefill_spares:
  "plain_prefill (step_chunk kern head) tot cs p nxt d = (res, d') \<Longrightarrow> spares kern d d'"
proof (induction cs arbitrary: p nxt d)
  case (Cons c cs)
  then show ?case
    by (cases "step_chunk kern head d c p (p + length c = tot)")
      (auto intro: spares_refl spares_trans spares_chunk)
qed (simp add: spares_refl)

lemma plain_decode_spares:
  "plain_decode n (step_one kern head) smp q p out nxt r d = (res, d') \<Longrightarrow> spares kern d d'"
proof (induction n arbitrary: p out nxt r d)
  case (Suc n)
  show ?case
  proof (cases "step_one kern head d nxt p True")
    case (Ok xd)
    then obtain x d1 where xd: "step_one kern head d nxt p True = Ok (x, d1)" by (cases xd) auto
    have "spares kern d1 d'" if "plain_decode n (step_one kern head) smp q (p + 1) o' t r' d1 = (res, d')" for o' t r'
      by (rule Suc.IH [OF that])
    with Suc.prems xd spares_one [OF xd] show ?thesis
      by (auto simp: Let_def case_prod_beta intro: spares_refl spares_trans split: if_splits)
  qed (use Suc.prems in \<open>auto simp: Let_def intro: spares_refl split: if_splits\<close>)
qed (simp add: spares_refl)

lemma generate_spares:
  assumes "generate (step_chunk kern head) (step_one kern head) smp q d ids n = (res, d')"
  shows "spares kern d d'"
proof -
  obtain r1 d1 where p: "plain_prefill (step_chunk kern head) (length ids) (chunks (q_chunk_cap q) ids) 0 0 d = (r1, d1)"
    by fastforce
  have "spares kern d (snd (plain_decode n (step_one kern head) smp q l out t r d1))" for l out t r
    by (rule spares_trans [OF plain_prefill_spares [OF p] plain_decode_spares [OF prod.collapse [symmetric]]])
  then show ?thesis
    using assms p plain_prefill_spares [OF p]
    by (auto simp: generate_def Let_def case_prod_beta spares_refl split: if_splits res.splits)
qed

lemma sess_ok_spared:
  assumes ok: "sess_ok kv_geo (covers kern) kv_export st d" and sp: "spares kern d d'"
  shows "sess_ok kv_geo (covers kern) kv_export st d'"
proof -
  note D = sess_okD [OF ok]
  have "entry_ok kv_geo (covers kern) kv_export (o_owner st) d' j s" if s: "sget st j = Some s" for j s
  proof (cases "n_slot s")
    case None
    with D(2) [OF s] sp show ?thesis by (simp add: entry_ok_def spares_def)
  next
    case (Some k)
    with sess_ok_slot [OF ok s Some] sp show ?thesis by (simp add: entry_ok_def spares_def)
  qed
  with D show ?thesis by (intro sess_okI) auto
qed

text \<open>A request without a session, whatever its outcome, leaves every session sound: it decodes on
  slot 0, which no session owns.\<close>

theorem plain_generation_spares_sessions:
  assumes "sess_ok kv_geo (covers kern) kv_export st d"
    and "generate (step_chunk kern head) (step_one kern head) smp q d ids n = (res, d')"
  shows "sess_ok kv_geo (covers kern) kv_export st d' \<and>
    (\<forall>i s k. sget st i = Some s \<longrightarrow> n_slot s = Some k \<longrightarrow> k \<noteq> 0 \<and> covers kern d' k (n_tokens s))"
proof -
  have ok: "sess_ok kv_geo (covers kern) kv_export st d'"
    by (rule sess_ok_spared [OF assms(1) generate_spares [OF assms(2)]])
  with sess_ok_slot [OF ok] show ?thesis by blast
qed

lemma plain_generation_spares_sessions_witness:
  "\<exists>r d'. generate (step_chunk tiny_kern (\<lambda>_. 1)) (step_one tiny_kern (\<lambda>_. 1)) (\<lambda>d r ts. (0, r)) tiny_params tiny_dec [5, 6] 1 = (r, d') \<and>
     sess_ok kv_geo (covers tiny_kern) kv_export (store_new 2 100) d'"
proof -
  obtain r d' where g: "generate (step_chunk tiny_kern (\<lambda>_. 1)) (step_one tiny_kern (\<lambda>_. 1)) (\<lambda>d r ts. (0, r)) tiny_params tiny_dec [5, 6] 1 = (r, d')"
    by fastforce
  from plain_generation_spares_sessions [OF store_new_ok g] g show ?thesis by blast
qed

section \<open>Batch requests\<close>

lemma covers_first:
  assumes "covers kern d k (t # ts)" "covers kern d k (u # us)"
  shows "new_row kern d [] t = new_row kern d [] u"
proof -
  have "kv_states kern d [t] = slot_rows d k 1" "kv_states kern d [u] = slot_rows d k 1"
    using covers_take [OF assms(1), of 1] covers_take [OF assms(2), of 1] by (simp_all add: covers_def)
  then have "kv_states kern d [t] = kv_states kern d [u]" by simp
  then show ?thesis by (simp add: kv_states_def)
qed

lemma common_prefix_append: "common_prefix ts (ts @ us) = length ts"
  by (induction ts) (simp_all add: common_prefix_def)

lemma touched_get: "sget (touched st i) i = Some ((case sget st i of None \<Rightarrow> fresh_session (o_clock st + 1) | Some e \<Rightarrow> e)
    \<lparr>n_last_used := o_clock st + 1\<rparr>)"
proof -
  have "sget (st\<lparr>o_clock := c\<rparr>) i = sget st i" for c by (simp add: sget_def)
  then show ?thesis by (auto simp: touched_def store_tick_def sget_sinsert split: option.splits)
qed

lemma sget_clock: "sget (st\<lparr>o_clock := c\<rparr>) i = sget st i"
  by (simp add: sget_def)

lemma touched_other: "j \<noteq> i \<Longrightarrow> sget (touched st i) j = sget st j"
  by (simp add: touched_def store_tick_def sget_sinsert sget_clock)

lemma forget_unslotted: "sget st i = Some t \<Longrightarrow> n_slot t = None \<Longrightarrow>
   snd (session_forget i st) = st\<lparr>o_map := filter (\<lambda>(k, s). k \<noteq> i) (o_map st)\<rparr>"
  by (simp add: session_forget_def Let_def)

lemma park_nothing: "(\<And>t. sget st i = Some t \<Longrightarrow> n_slot t = None) \<Longrightarrow> park xport d i st = (Ok (), st)"
  by (cases "sget st i") (simp_all add: park_def)

lemma sget_owner: "sget (st\<lparr>o_owner := os\<rparr>) i = sget st i"
  by (simp add: sget_def)

text \<open>C8: Batch requests run over the sessions. The streams of a batch decode on the slots \<open>0..n\<close>, and the
  slots from 1 are the sessions': after a batch, a session resident in one of those slots, whose first
  token leaves another row than the stream's, no longer has its context there. The store still says it
  has: the session's next turn is offered the whole of it for reuse.\<close>

theorem batch_overwrites_sessions:
  assumes g: "generate_batch (step_multi kern head) smp q (d_batch_cap d) d prompts n = (Ok ys, d')"
    and s: "sget st i = Some s" "n_slot s = Some k" "n_tokens s = t # ts" "o_owner st \<noteq> []"
    and k: "k < length prompts" "fst (prompts ! k) = u # us" "new_row kern d [] t \<noteq> new_row kern d [] u"
  shows "\<not> sess_ok kv_geo (covers kern) kv_export st d' \<and>
    (\<exists>st'. session_acquire kv_export kv_import st d' i (n_tokens s @ [x]) = (Ok (k, length (n_tokens s)), st', d') \<and>
       \<not> covers kern d' k (take (length (n_tokens s)) (n_tokens s @ [x])))"
proof -
  note G = kvb.generate_batch_follows [OF g]
  have "covers kern d' k (fst (prompts ! k) @ b_out (ys ! k))" using G k(1) by blast
  then have c: "covers kern d' k (u # us @ b_out (ys ! k))" by (simp add: k(2))
  have geo: "kv_geo d' = kv_geo d" using G by blast
  have "new_row kern d' [] = new_row kern d []"
    unfolding new_row_def runs_geo [OF geo] row_bytes_geo [OF geo] by (rule refl)
  then have nc: "\<not> covers kern d' k (t # ts)" using covers_first [OF _ c] k(3) by metis
  have "\<not> sess_ok kv_geo (covers kern) kv_export st d'" using sess_ok_slot(4) [OF _ s(1,2)] s(3) nc by metis
  moreover have "\<exists>st'. session_acquire kv_export kv_import st d' i (n_tokens s @ [x]) = (Ok (k, length (n_tokens s)), st', d')"
    using s(1,2,4) touched_get [of st i] by (simp add: session_acquire_def settle_def Let_def common_prefix_append)
  ultimately show ?thesis using nc s(3) by simp
qed

definition held_store :: session_store where
  "held_store = \<lparr>o_map = [(''a'', \<lparr>n_tokens = [5], n_slot = Some 1, n_parked = None, n_last_used = 1, n_turns = 1\<rparr>)],
     o_owner = [Some ''a''], o_ram_budget = 100, o_clock = 1\<rparr>"

lemma batch_overwrites_sessions_witness:
  "\<exists>ys d'. generate_batch (step_multi tiny_kern (\<lambda>_. 1)) (\<lambda>d i r ts. (0, r)) tiny_params 2 tiny_dec [([1], ()), ([2], ())] 1 = (Ok ys, d') \<and>
     \<not> sess_ok kv_geo (covers tiny_kern) kv_export held_store d'"
proof -
  let ?g = "generate_batch (step_multi tiny_kern (\<lambda>_. 1)) (\<lambda>d i r ts. (0, r)) tiny_params 2 tiny_dec [([1], ()), ([2], ())] 1"
  have "case fst ?g of Ok _ \<Rightarrow> True | Err _ \<Rightarrow> False | Panic \<Rightarrow> False" by code_simp
  from run_returns [OF this] obtain ys d' where g: "?g = (Ok ys, d')" by blast
  have b: "d_batch_cap tiny_dec = 2" by (simp add: tiny_dec_def)
  have ne: "new_row tiny_kern tiny_dec [] 5 \<noteq> new_row tiny_kern tiny_dec [] 2" by code_simp
  from batch_overwrites_sessions [OF g [folded b], of held_store "''a''" _ 1 5 "[]" 2 "[]"] ne g
  show ?thesis by (fastforce simp: held_store_def sget_def)
qed

section \<open>A restore that fails\<close>

text \<open>A failed restore loses a lane. When the copy into the device fails after \<open>claim_slot\<close>, the
  lane stays marked with the session's name while the session has no slot. On a decoder with one
  session lane no later \<open>acquire\<close> of any session succeeds, whatever the device does from then on, and
  deleting the session does not free the lane either.\<close>

theorem failed_restore_loses_lane:
  fixes xport :: "'d \<Rightarrow> nat \<Rightarrow> nat \<Rightarrow> ('e, bytes) res"
  assumes s: "sget st i = Some s" "n_slot s = None" "n_parked s = Some blob" and o: "o_owner st = [None]"
    and reuse: "0 < min (common_prefix (n_tokens s) prompt) (length prompt - 1)"
    and fail: "mport d 1 (length (n_tokens s)) blob = Err x"
    and none: "\<And>j t. sget st j = Some t \<Longrightarrow> n_slot t = None"
  shows "\<exists>st'. session_acquire xport mport st d i prompt = (Err (Decoder x), st', d) \<and> o_owner st' = [Some i] \<and>
    (\<forall>(xport2 :: 'd \<Rightarrow> nat \<Rightarrow> nat \<Rightarrow> ('e, bytes) res) mport2 d2 j p. fst (session_acquire xport2 mport2 st' d2 j p) = Err ParkFreedNone \<and>
       fst (session_acquire xport2 mport2 (snd (session_forget i st')) d2 j p) = Err ParkFreedNone)"
proof -
  let ?st2 = "supd i (\<lambda>s. s\<lparr>n_parked := None\<rparr>) (touched st i)"
  let ?st' = "?st2\<lparr>o_owner := [Some i]\<rparr>"
  have ow: "o_owner (touched st j) = o_owner st" for st j by (simp add: touched_def store_tick_def)
  have ff: "first_free ?st2 = Some 0" by (simp add: first_free_def ow o)
  have acq: "session_acquire xport mport st d i prompt = (Err (Decoder x), ?st', d)"
    using s o reuse fail ff touched_get [of st i] by (simp add: session_acquire_def claim_slot_def Let_def ow)
  have get: "sget ?st' j = (if j = i then Some (s\<lparr>n_last_used := o_clock st + 1, n_parked := None\<rparr>) else sget st j)" for j
    using s touched_get [of st i] touched_other [of j i st] by (simp add: sget_owner)
  have stuck: "fst (session_acquire xport2 mport2 z d2 j p) = Err ParkFreedNone"
    if z: "o_owner z = [Some i]" "\<And>j t. sget z j = Some t \<Longrightarrow> n_slot t = None"
    for xport2 :: "'d \<Rightarrow> nat \<Rightarrow> nat \<Rightarrow> ('e, bytes) res" and mport2 z d2 j p
  proof -
    obtain e where e: "sget (touched z j) j = Some e" "n_slot e = None"
      using touched_get [of z j] z(2) [of j] by (auto simp: fresh_session_def split: option.splits)
    let ?z = "supd j (\<lambda>s. s\<lparr>n_parked := None\<rparr>) (touched z j)"
    have "park xport2 d2 i ?z = (Ok (), ?z)"
    proof (rule park_nothing)
      show "n_slot t = None" if "sget ?z i = Some t" for t
        using that e z(2) [of i] by (cases "i = j") (auto simp: touched_other)
    qed
    moreover have "first_free ?z = None" "lru_owner ?z = Some i"
      by (simp_all add: first_free_def lru_owner_def ow z List.map_filter_def)
    ultimately have "claim_slot xport2 d2 j ?z = (Err ParkFreedNone, ?z)" by (simp add: claim_slot_def)
    with e z(1) show ?thesis by (simp add: session_acquire_def Let_def)
  qed
  have n1: "n_slot t = None" if "sget ?st' j = Some t" for j t
    using that get s(2) none by (auto split: if_splits)
  have fg: "snd (session_forget i ?st') = ?st'\<lparr>o_map := filter (\<lambda>(k, s). k \<noteq> i) (o_map ?st')\<rparr>"
    by (rule forget_unslotted [OF get [of i, unfolded simp_thms if_True]]) (simp add: s(2))
  have n2: "n_slot t = None" if "sget (snd (session_forget i ?st')) j = Some t" for j t
  proof -
    have del: "map_of (filter (\<lambda>(k, s). k \<noteq> i) m) j = (if j = i then None else map_of m j)" for m :: "(string \<times> session) list"
      by (induction m) auto
    have "sget ?st' j = Some t" using that unfolding fg by (simp add: sget_def del split: if_splits)
    with n1 show ?thesis by blast
  qed
  have "o_owner ?st' = [Some i]" "o_owner (snd (session_forget i ?st')) = [Some i]" by (simp_all add: fg)
  with acq stuck n1 n2 show ?thesis by blast
qed

definition parked_store :: session_store where
  "parked_store = \<lparr>o_map = [(''a'', \<lparr>n_tokens = [5], n_slot = None, n_parked = Some [0], n_last_used = 1, n_turns = 1\<rparr>)],
     o_owner = [None], o_ram_budget = 100, o_clock = 1\<rparr>"

lemma failed_restore_loses_lane_witness:
  "\<exists>st'. session_acquire kv_export (\<lambda>d s n b. Err DriverFailed) parked_store tiny_dec ''a'' [5, 6] = (Err (Decoder DriverFailed), st', tiny_dec) \<and>
     o_owner st' = [Some ''a''] \<and>
     fst (session_acquire kv_export kv_import (snd (session_forget ''a'' st')) tiny_dec ''b'' [7]) = Err ParkFreedNone"
proof -
  let ?s = "\<lparr>n_tokens = [5], n_slot = None, n_parked = Some [0], n_last_used = 1, n_turns = 1\<rparr> :: session"
  have g: "sget parked_store j = (if j = ''a'' then Some ?s else None)" for j by (simp add: parked_store_def sget_def)
  have o: "o_owner parked_store = [None]" by (simp add: parked_store_def)
  have "\<exists>st'. session_acquire kv_export (\<lambda>d s n b. Err DriverFailed) parked_store tiny_dec ''a'' [5, 6] = (Err (Decoder DriverFailed), st', tiny_dec) \<and>
    o_owner st' = [Some ''a''] \<and>
    (\<forall>(xport2 :: kv_dec \<Rightarrow> nat \<Rightarrow> nat \<Rightarrow> (kv_error, bytes) res) mport2 d2 j p.
       fst (session_acquire xport2 mport2 st' d2 j p) = Err ParkFreedNone \<and>
       fst (session_acquire xport2 mport2 (snd (session_forget ''a'' st')) d2 j p) = Err ParkFreedNone)"
    by (rule failed_restore_loses_lane [where s = ?s and blob = "[0]"])
      (auto simp: g common_prefix_def o split: if_splits)
  then show ?thesis by blast
qed

end
