(* ===== verification/Pack.thy ===== *)
theory Pack
  imports Prelude
begin

text \<open>
  The expert pack of \<open>llmpager-core/src/pack.rs\<close>: a 4096-byte header, the index, and the experts'
  blobs, each on a 4096-byte boundary. A file is its bytes; \<open>BufWriter\<close> is a position in it. The
  JSON metadata is written by \<open>ser\<close> and read by \<open>de\<close>, frames are inflated by \<open>unz\<close>: arguments, for
  \<open>serde_json\<close> and \<open>zstd\<close>. Offsets (\<open>u64\<close>) are \<open>nat\<close>, encoded in 8 bytes; that they fit is a
  hypothesis on the size of the pack. Failing system calls are not modelled, short files are.
\<close>

section \<open>Data\<close>

definition pack_align :: nat where
  "pack_align = 4096"

definition magic :: bytes where
  "magic = [0x4C, 0x4C, 0x4D, 0x50, 0x4B, 0x31, 0, 0]"

definition format_version :: nat where
  "format_version = 1"

record 'c pack_meta =
  pm_model :: string
  pm_layers :: u16
  pm_experts :: u16
  pm_dtype :: string
  pm_config :: 'c
  pm_compression :: "string option"
  pm_max_raw :: nat

record index_entry =
  e_offset :: nat
  e_nbytes :: nat

definition align_up :: "nat \<Rightarrow> nat" where
  "align_up v = (v + (pack_align - 1)) div pack_align * pack_align"

definition pm_total :: "'c pack_meta \<Rightarrow> nat" where
  "pm_total m = unat (pm_layers m) * unat (pm_experts m)"

datatype pack_error = PackFull nat | PackIncomplete nat nat | MetaUnwritable | MetaTooLarge
  | ShortFile | NotAPack | BadVersion nat | BadMeta | BufTooSmall nat nat | Unaligned | BadFrame

section \<open>Writing\<close>

record 'c pack_writer =
  w_file :: file_bytes
  w_pos :: nat
  w_meta :: "'c pack_meta"
  w_index :: "index_entry list"
  w_index_end :: nat
  w_cursor :: nat

definition write_all :: "bytes \<Rightarrow> 'c pack_writer \<Rightarrow> 'c pack_writer" where
  "write_all bs w = w\<lparr>w_file := write_at (w_pos w) bs (w_file w), w_pos := w_pos w + length bs\<rparr>"

definition writer_create :: "'c pack_meta \<Rightarrow> 'c pack_writer" where
  "writer_create m =
     (let index_end = align_up (pack_align + pm_total m * 16)
      in \<lparr>w_file = [], w_pos = index_end, w_meta = m, w_index = [], w_index_end = index_end, w_cursor = index_end\<rparr>)"

definition note_raw_len :: "nat \<Rightarrow> 'c pack_writer \<Rightarrow> 'c pack_writer" where
  "note_raw_len n w = w\<lparr>w_meta := (w_meta w)\<lparr>pm_max_raw := max (pm_max_raw (w_meta w)) n\<rparr>\<rparr>"

definition add_blob :: "bytes \<Rightarrow> 'c pack_writer \<Rightarrow> (pack_error, 'c pack_writer) res" where
  "add_blob blob w =
     (if length (w_index w) = pm_total (w_meta w) then Err (PackFull (pm_total (w_meta w)))
      else let w1 = write_all blob (w\<lparr>w_index := w_index w @ [\<lparr>e_offset = w_cursor w, e_nbytes = length blob\<rparr>]\<rparr>);
               padded = align_up (length blob);
               pad = padded - length blob;
               w2 = (if 0 < pad then write_all (zeros pad) w1 else w1)
           in Ok (w2\<lparr>w_cursor := w_cursor w2 + padded\<rparr>))"

definition entry_bytes :: "index_entry \<Rightarrow> bytes" where
  "entry_bytes e = to_le 8 (e_offset e) @ to_le 8 (e_nbytes e)"

definition writer_finish :: "('c pack_meta \<Rightarrow> bytes option) \<Rightarrow> 'c pack_writer \<Rightarrow> (pack_error, file_bytes) res" where
  "writer_finish ser w =
     (if length (w_index w) \<noteq> pm_total (w_meta w) then Err (PackIncomplete (length (w_index w)) (pm_total (w_meta w)))
      else case ser (w_meta w) of
        None \<Rightarrow> Err MetaUnwritable
      | Some json \<Rightarrow>
          if pack_align - 16 < length json then Err MetaTooLarge
          else let w1 = write_all magic (w\<lparr>w_pos := 0\<rparr>);
                   w2 = write_all (to_le 4 format_version) w1;
                   w3 = write_all (to_le 4 (length json)) w2;
                   w4 = write_all json w3;
                   w5 = write_all (zeros (pack_align - 16 - length json)) w4;
                   w6 = foldl (\<lambda>w e. write_all (to_le 8 (e_nbytes e)) (write_all (to_le 8 (e_offset e)) w)) w5 (w_index w);
                   pad = w_index_end w - (pack_align + pm_total (w_meta w) * 16);
                   w7 = (if 0 < pad then write_all (zeros pad) w6 else w6)
               in Ok (w_file w7))"

section \<open>Reading\<close>

record 'c pack_reader =
  r_file :: file_bytes
  r_meta :: "'c pack_meta"
  r_index :: "index_entry list"
  r_direct :: bool

text \<open>\<open>AlignedBuf::new\<close> rounds the length up and zeroes; \<open>pread_full\<close> fills it or fails.\<close>

definition aligned_len :: "nat \<Rightarrow> nat" where
  "aligned_len n = align_up n"

definition pread_full :: "file_bytes \<Rightarrow> nat \<Rightarrow> nat \<Rightarrow> (pack_error, bytes) res" where
  "pread_full f off n = (case read_at f off n of None \<Rightarrow> Err ShortFile | Some bs \<Rightarrow> Ok bs)"

definition parse_entry :: "bytes \<Rightarrow> nat \<Rightarrow> index_entry" where
  "parse_entry raw i = \<lparr>e_offset = from_le (take 8 (drop (i * 16) raw)), e_nbytes = from_le (take 8 (drop (i * 16 + 8) raw))\<rparr>"

definition open_inner :: "(bytes \<Rightarrow> 'c pack_meta option) \<Rightarrow> file_bytes \<Rightarrow> bool \<Rightarrow> (pack_error, 'c pack_reader) res" where
  "open_inner de f direct =
     bind_res (pread_full f 0 (aligned_len pack_align)) (\<lambda>header.
       if take 8 header \<noteq> magic then Err NotAPack
       else let version = from_le (take 4 (drop 8 header)) in
         if version \<noteq> format_version then Err (BadVersion version)
         else let json_len = from_le (take 4 (drop 12 header)) in
           if length header < 16 + json_len then Panic
           else case de (take json_len (drop 16 header)) of
             None \<Rightarrow> Err BadMeta
           | Some m \<Rightarrow>
               bind_res (pread_full f pack_align (aligned_len (align_up (pm_total m * 16)))) (\<lambda>raw.
                 Ok \<lparr>r_file = f, r_meta = m, r_index = map (parse_entry raw) [0..<pm_total m], r_direct = direct\<rparr>))"

definition entry :: "'c pack_reader \<Rightarrow> u16 \<Rightarrow> u16 \<Rightarrow> index_entry option" where
  "entry r layer expert = nth_opt (r_index r) (unat layer * unat (pm_experts (r_meta r)) + unat expert)"

definition max_stored_bytes :: "'c pack_reader \<Rightarrow> nat" where
  "max_stored_bytes r = foldl max 0 (map e_nbytes (r_index r))"

definition max_blob_bytes :: "'c pack_reader \<Rightarrow> nat" where
  "max_blob_bytes r = (if 0 < pm_max_raw (r_meta r) then pm_max_raw (r_meta r) else max_stored_bytes r)"

text \<open>
  \<open>read_blob_into\<close>: \<open>addr\<close> is the buffer's address, \<open>unz frame cap\<close> the frame's content if it fits
  in \<open>cap\<close> bytes. The result is the length and the buffer. The scratch buffer, allocated at the
  first compressed read, has the size of the largest stored span.
\<close>

definition read_blob_into ::
  "(bytes \<Rightarrow> nat \<Rightarrow> bytes option) \<Rightarrow> 'c pack_reader \<Rightarrow> u16 \<Rightarrow> u16 \<Rightarrow> nat \<Rightarrow> bytes \<Rightarrow> (pack_error, nat \<times> bytes) res" where
  "read_blob_into unz r layer expert addr buf =
     (case entry r layer expert of
        None \<Rightarrow> Panic
      | Some e \<Rightarrow>
          let span = align_up (e_nbytes e) in
          if pm_compression (r_meta r) = None then
            (if length buf < span then Err (BufTooSmall (length buf) span)
             else if r_direct r \<and> addr mod pack_align \<noteq> 0 then Err Unaligned
             else bind_res (pread_full (r_file r) (e_offset e) span) (\<lambda>bs. Ok (e_nbytes e, bs @ drop span buf)))
          else if aligned_len (align_up (max_stored_bytes r)) < span then Panic
          else bind_res (pread_full (r_file r) (e_offset e) span) (\<lambda>bs.
            case unz (take (e_nbytes e) bs) (length buf) of
              None \<Rightarrow> Err BadFrame
            | Some out \<Rightarrow> Ok (length out, out @ drop (length out) buf)))"

section \<open>What a writer leaves\<close>

lemma align_up_ge: "n \<le> align_up n"
proof -
  have "n + 4095 = (n + 4095) div 4096 * 4096 + (n + 4095) mod 4096" by simp
  moreover have "(n + 4095) mod 4096 \<le> 4095" using mod_less_divisor [of 4096 "n + 4095"] by simp
  ultimately have "n \<le> (n + 4095) div 4096 * 4096" by linarith
  then show ?thesis by (simp add: align_up_def pack_align_def)
qed

lemma align_up_dvd: "pack_align dvd align_up n"
  by (simp add: align_up_def)

lemma align_up_id: "pack_align dvd n \<Longrightarrow> align_up n = n"
  by (auto simp: align_up_def pack_align_def elim!: dvdE)

lemma align_up_idem [simp]: "align_up (align_up n) = align_up n"
  by (simp add: align_up_id align_up_dvd)

lemma align_up_shift: "align_up (pack_align + n) = pack_align + align_up n"
proof -
  have "(pack_align + n + (pack_align - 1)) div pack_align = (n + 4095 + 4096) div 4096"
    by (simp add: pack_align_def add.commute)
  also have "\<dots> = (n + 4095) div 4096 + 1" by (subst div_add_self2) simp_all
  finally show ?thesis by (simp add: align_up_def pack_align_def)
qed

text \<open>A blob as it lies in the file, and the index of a list of blobs from a start.\<close>

definition padded :: "bytes \<Rightarrow> bytes" where
  "padded b = b @ zeros (align_up (length b) - length b)"

lemma length_padded: "length (padded b) = align_up (length b)"
  using align_up_ge [of "length b"] by (simp add: padded_def)

fun index_of :: "nat \<Rightarrow> bytes list \<Rightarrow> index_entry list" where
  "index_of p [] = []"
| "index_of p (b # bs) = \<lparr>e_offset = p, e_nbytes = length b\<rparr> # index_of (p + align_up (length b)) bs"

lemma length_index_of [simp]: "length (index_of p bs) = length bs"
  by (induction bs arbitrary: p) auto

lemma index_of_snoc: "index_of p (bs @ [b]) = index_of p bs @ [\<lparr>e_offset = p + length (concat (map padded bs)), e_nbytes = length b\<rparr>]"
  by (induction bs arbitrary: p) (auto simp: length_padded)

lemma index_of_nth:
  "i < length bs \<Longrightarrow> index_of p bs ! i = \<lparr>e_offset = p + length (concat (map padded (take i bs))), e_nbytes = length (bs ! i)\<rparr>"
proof (induction bs arbitrary: p i)
  case (Cons b bs)
  then show ?case by (cases i) (auto simp: length_padded)
qed simp

lemma padded_dvd: "pack_align dvd length (concat (map padded bs))"
  by (induction bs) (auto simp: length_padded align_up_dvd dvd_add)

text \<open>Consecutive writes are one write.\<close>

lemma write_at_write_at: "write_at (p + length a) b (write_at p a f) = write_at p (a @ b) f"
proof (cases "a = [] \<or> b = []")
  case True
  then show ?thesis by (auto simp: write_at_def)
next
  case False
  have l: "length (take p f @ zeros (p - length f)) = p" by simp
  have t: "take (p + length a) (take p f @ zeros (p - length f) @ a @ drop (p + length a) f) = take p f @ zeros (p - length f) @ a"
    by simp
  have d: "drop (p + length a + length b) (take p f @ zeros (p - length f) @ a @ drop (p + length a) f) = drop (p + length a + length b) f"
  proof -
    have m: "p - length f + min (length f) p = p" by simp
    show ?thesis by (simp add: add.commute add.left_commute m)
  qed
  have z: "zeros (p + length a - length (take p f @ zeros (p - length f) @ a @ drop (p + length a) f)) = []"
    by (simp add: zeros_def)
  show ?thesis using False t d z by (simp add: write_at_def add.assoc)
qed

lemma write_all_twice: "write_all b (write_all a w) = write_all (a @ b) w"
  by (simp add: write_all_def write_at_write_at add.assoc)

lemma write_all_nil: "write_all [] w = w"
  by (simp add: write_all_def write_at_def)

lemma write_all_if: "(if 0 < n then write_all (zeros n) w else w) = write_all (zeros n) w"
  by (simp add: write_all_nil zeros_def)

lemma write_all_fields [simp]:
  "w_meta (write_all a w) = w_meta w" "w_index (write_all a w) = w_index w" "w_index_end (write_all a w) = w_index_end w"
  "w_cursor (write_all a w) = w_cursor w"
  by (simp_all add: write_all_def)

lemma write_index: "foldl (\<lambda>w e. write_all (to_le 8 (e_offset e) @ to_le 8 (e_nbytes e)) w) w es =
   write_all (concat (map entry_bytes es)) w"
  by (induction es arbitrary: w) (auto simp: write_all_nil write_all_twice entry_bytes_def)

fun add_blobs :: "bytes list \<Rightarrow> 'c pack_writer \<Rightarrow> (pack_error, 'c pack_writer) res" where
  "add_blobs [] w = Ok w"
| "add_blobs (b # bs) w = bind_res (add_blob b w) (add_blobs bs)"

text \<open>The writer after the blobs \<open>bs\<close>.\<close>

definition holds :: "'c pack_meta \<Rightarrow> bytes list \<Rightarrow> 'c pack_writer \<Rightarrow> bool" where
  "holds m bs w \<longleftrightarrow> w_meta w = m \<and> w_index_end w = align_up (pack_align + pm_total m * 16) \<and>
     w_index w = index_of (w_index_end w) bs \<and> w_pos w = w_index_end w + length (concat (map padded bs)) \<and>
     w_cursor w = w_pos w \<and> w_file w = write_at (w_index_end w) (concat (map padded bs)) []"

lemma holds_create: "holds m [] (writer_create m)"
  by (simp add: holds_def writer_create_def Let_def write_at_def)

lemma add_blob_room: "length (w_index w) \<noteq> pm_total (w_meta w) \<Longrightarrow> add_blob b w =
   Ok ((write_all (padded b) (w\<lparr>w_index := w_index w @ [\<lparr>e_offset = w_cursor w, e_nbytes = length b\<rparr>]\<rparr>))
        \<lparr>w_cursor := w_cursor w + align_up (length b)\<rparr>)"
  by (simp add: add_blob_def Let_def write_all_if write_all_twice padded_def)

lemma add_blob_holds:
  assumes h: "holds m bs w" and room: "length bs < pm_total m"
  shows "\<exists>w'. add_blob b w = Ok w' \<and> holds m (bs @ [b]) w'"
proof -
  note H = h [unfolded holds_def]
  have "length (w_index w) \<noteq> pm_total (w_meta w)" using H room by auto
  note A = add_blob_room [OF this, of b]
  have "write_at (w_pos w) (padded b) (w_file w) = write_at (w_index_end w) (concat (map padded (bs @ [b]))) []"
    using H write_at_write_at [of "w_index_end w" "concat (map padded bs)" "padded b" "[]"] by simp
  with H have "holds m (bs @ [b]) ((write_all (padded b) (w\<lparr>w_index := w_index w @ [\<lparr>e_offset = w_cursor w, e_nbytes = length b\<rparr>]\<rparr>))
        \<lparr>w_cursor := w_cursor w + align_up (length b)\<rparr>)"
    by (simp add: holds_def index_of_snoc length_padded) (simp add: write_all_def length_padded)
  with A show ?thesis by blast
qed

lemma add_blobs_holds:
  "holds m as w \<Longrightarrow> length as + length bs \<le> pm_total m \<Longrightarrow> \<exists>w'. add_blobs bs w = Ok w' \<and> holds m (as @ bs) w'"
proof (induction bs arbitrary: as w)
  case (Cons b bs)
  obtain w1 where w1: "add_blob b w = Ok w1" "holds m (as @ [b]) w1"
    using add_blob_holds [OF Cons.prems(1)] Cons.prems(2) by fastforce
  with Cons.IH [OF w1(2)] Cons.prems(2) show ?case by simp
qed simp

text \<open>The whole file.\<close>

definition header_of :: "bytes \<Rightarrow> bytes" where
  "header_of json = magic @ to_le 4 format_version @ to_le 4 (length json) @ json @ zeros (pack_align - 16 - length json)"

definition pack_file :: "'c pack_meta \<Rightarrow> bytes \<Rightarrow> bytes list \<Rightarrow> file_bytes" where
  "pack_file m json bs =
     (let ie = align_up (pack_align + pm_total m * 16)
      in header_of json @ concat (map entry_bytes (index_of ie bs)) @ zeros (ie - (pack_align + pm_total m * 16))
           @ concat (map padded bs))"

lemma length_header: "length json \<le> pack_align - 16 \<Longrightarrow> length (header_of json) = pack_align"
  by (simp add: header_of_def magic_def pack_align_def)

lemma length_entries [simp]: "length (concat (map entry_bytes es)) = length es * 16"
  by (induction es) (auto simp: entry_bytes_def)

lemma drop_write_at: "length a = p \<Longrightarrow> drop p (write_at p b []) = b"
  by (auto simp: write_at_def zeros_def)

lemma finish_file:
  assumes h: "holds m bs w" and full: "length bs = pm_total m" and ser: "ser m = Some json" "length json \<le> pack_align - 16"
  shows "writer_finish ser w = Ok (pack_file m json bs)"
proof -
  note H = h [unfolded holds_def]
  let ?ie = "align_up (pack_align + pm_total m * 16)"
  let ?front = "header_of json @ concat (map entry_bytes (index_of ?ie bs)) @ zeros (?ie - (pack_align + pm_total m * 16))"
  have n: "length (w_index w) = pm_total (w_meta w)" using H full by simp
  have W: "writer_finish ser w = Ok (w_file (write_all ?front (w\<lparr>w_pos := 0\<rparr>)))"
    using H n ser by (simp add: writer_finish_def Let_def write_index write_all_if write_all_twice header_of_def)
  have lf: "length ?front = ?ie" using length_header [OF ser(2)] full align_up_ge [of "pack_align + pm_total m * 16"] by simp
  have "write_at 0 ?front (write_at ?ie (concat (map padded bs)) []) = ?front @ concat (map padded bs)"
  proof -
    have "?front \<noteq> []" using length_header [OF ser(2)] by (auto simp: pack_align_def)
    moreover have "g \<noteq> [] \<Longrightarrow> write_at 0 g f = g @ drop (length g) f" for f g by (simp add: write_at_def zeros_def)
    ultimately have "write_at 0 ?front f = ?front @ drop (length ?front) f" for f by blast
    from this [of "write_at ?ie (concat (map padded bs)) []"] show ?thesis unfolding lf drop_write_at [OF lf] .
  qed
  with H W show ?thesis by (simp add: write_all_def pack_file_def Let_def)
qed

section \<open>What a reader finds\<close>

lemma from_le_8: "n < 2 ^ 64 \<Longrightarrow> from_le (to_le 8 n) = n"
  by (intro from_to_le) simp

lemma entry_eta: "\<lparr>e_offset = e_offset e, e_nbytes = e_nbytes e\<rparr> = e"
  by (cases e) simp

lemma parse_entries:
  assumes "\<forall>e \<in> set es. e_offset e < 2 ^ 64 \<and> e_nbytes e < 2 ^ 64"
  shows "map (parse_entry (concat (map entry_bytes es) @ rest)) [0..<length es] = es"
proof (intro nth_equalityI)
  fix i assume "i < length (map (parse_entry (concat (map entry_bytes es) @ rest)) [0..<length es])"
  then have i: "i < length es" by simp
  then have es: "es = take i es @ es ! i # drop (Suc i) es" by (simp add: id_take_nth_drop)
  have b: "e_offset (es ! i) < 2 ^ 64" "e_nbytes (es ! i) < 2 ^ 64" using assms i by simp_all
  have "concat (map entry_bytes es) @ rest = concat (map entry_bytes (take i es)) @ entry_bytes (es ! i) @
      (concat (map entry_bytes (drop (Suc i) es)) @ rest)"
    by (subst (1) es) simp
  moreover have "length (concat (map entry_bytes (take i es))) = i * 16" using i by simp
  then have "drop (i * 16) (concat (map entry_bytes (take i es)) @ ys) = ys" for ys by simp
  ultimately have "drop (i * 16) (concat (map entry_bytes es) @ rest) = entry_bytes (es ! i) @
      (concat (map entry_bytes (drop (Suc i) es)) @ rest)" by (simp only:)
  note D = this
  have "drop (i * 16 + 8) xs = drop 8 (drop (i * 16) xs)" for xs :: bytes by (simp add: add.commute)
  then have "take 8 (drop (i * 16 + 8) (concat (map entry_bytes es) @ rest)) = to_le 8 (e_nbytes (es ! i))"
    by (simp only: D) (simp add: entry_bytes_def)
  moreover have "take 8 (drop (i * 16) (concat (map entry_bytes es) @ rest)) = to_le 8 (e_offset (es ! i))"
    by (simp only: D) (simp add: entry_bytes_def)
  ultimately have "parse_entry (concat (map entry_bytes es) @ rest) i = es ! i"
    using b by (simp only: parse_entry_def from_le_8 entry_eta)
  then show "map (parse_entry (concat (map entry_bytes es) @ rest)) [0..<length es] ! i = es ! i" using i by simp
qed simp

lemma header_fields:
  assumes "length json \<le> pack_align - 16"
  shows "take 8 (header_of json) = magic" "from_le (take 4 (drop 8 (header_of json))) = format_version"
    "from_le (take 4 (drop 12 (header_of json))) = length json" "take (length json) (drop 16 (header_of json)) = json"
proof -
  have m: "length magic = 8" by (simp add: magic_def)
  show "take 8 (header_of json) = magic" by (simp add: header_of_def m)
  have "drop 8 (header_of json) = to_le 4 format_version @ to_le 4 (length json) @ json @ zeros (pack_align - 16 - length json)"
    by (simp add: header_of_def m)
  moreover have "from_le (to_le 4 format_version) = format_version" by (rule from_to_le) (simp add: format_version_def)
  ultimately show "from_le (take 4 (drop 8 (header_of json))) = format_version" by simp
  have d12: "drop 12 (header_of json) = to_le 4 (length json) @ json @ zeros (pack_align - 16 - length json)"
    by (simp add: header_of_def m)
  moreover have "from_le (to_le 4 (length json)) = length json"
    by (rule from_to_le) (use assms in \<open>simp add: pack_align_def\<close>)
  ultimately show "from_le (take 4 (drop 12 (header_of json))) = length json" by simp
  show "take (length json) (drop 16 (header_of json)) = json" by (simp add: header_of_def m)
qed

lemma open_pack_file:
  assumes full: "length bs = pm_total m" and json: "length json \<le> pack_align - 16" "de json = Some m"
    and fits: "length (pack_file m json bs) < 2 ^ 64"
  shows "open_inner de (pack_file m json bs) direct = Ok
    \<lparr>r_file = pack_file m json bs, r_meta = m, r_index = index_of (align_up (pack_align + pm_total m * 16)) bs, r_direct = direct\<rparr>"
proof -
  let ?ie = "align_up (pack_align + pm_total m * 16)" and ?f = "pack_file m json bs"
  let ?es = "index_of ?ie bs" and ?pad = "zeros (?ie - (pack_align + pm_total m * 16))" and ?data = "concat (map padded bs)"
  have f: "?f = header_of json @ (concat (map entry_bytes ?es) @ ?pad) @ ?data" by (simp add: pack_file_def Let_def)
  have lh: "length (header_of json) = pack_align" by (rule length_header [OF json(1)])
  have ie: "?ie = pack_align + align_up (pm_total m * 16)" by (rule align_up_shift)
  have li: "length (concat (map entry_bytes ?es) @ ?pad) = align_up (pm_total m * 16)"
    using full ie align_up_ge [of "pm_total m * 16"] by simp
  have rd1: "pread_full ?f 0 (aligned_len pack_align) = Ok (header_of json)"
    using read_at_append [of "[]" "header_of json" "(concat (map entry_bytes ?es) @ ?pad) @ ?data"] lh
    by (simp add: f pread_full_def aligned_len_def align_up_id)
  have rd2: "pread_full ?f pack_align (aligned_len (align_up (pm_total m * 16))) = Ok (concat (map entry_bytes ?es) @ ?pad)"
    using read_at_append [of "header_of json" "concat (map entry_bytes ?es) @ ?pad" ?data] lh li
    by (simp add: f pread_full_def aligned_len_def)
  have b: "\<forall>e \<in> set ?es. e_offset e < 2 ^ 64 \<and> e_nbytes e < 2 ^ 64"
  proof
    fix e assume "e \<in> set ?es"
    then obtain i where i: "i < length bs" "e = ?es ! i" by (metis in_set_conv_nth length_index_of)
    have bs: "bs = take i bs @ bs ! i # drop (Suc i) bs" using i(1) by (simp add: id_take_nth_drop)
    have "length ?data = length (concat (map padded (take i bs))) + (length (padded (bs ! i)) + length (concat (map padded (drop (Suc i) bs))))"
      by (subst (1) bs) (simp only: map_append concat_append list.map concat.simps length_append)
    moreover have "length ?f = ?ie + length ?data" using lh li ie by (simp add: f)
    ultimately have "e_offset e \<le> length ?f" "e_nbytes e \<le> length ?f"
      using i align_up_ge [of "length (bs ! i)"] by (simp_all add: index_of_nth length_padded)
    with fits show "e_offset e < 2 ^ 64 \<and> e_nbytes e < 2 ^ 64" by linarith
  qed
  have ix: "map (parse_entry (concat (map entry_bytes ?es) @ ?pad)) [0..<pm_total m] = ?es"
    using parse_entries [OF b, of ?pad] full by simp
  have "16 + length json \<le> pack_align" using json(1) by (simp add: pack_align_def)
  with rd1 rd2 ix header_fields [OF json(1)] json(2) lh show ?thesis
    by (simp add: open_inner_def Let_def)
qed

lemma blob_in_file:
  assumes i: "i < length bs"
  shows "pread_full (a @ concat (map padded bs)) (length a + length (concat (map padded (take i bs)))) (align_up (length (bs ! i)))
    = Ok (padded (bs ! i))"
proof -
  have bs: "bs = take i bs @ bs ! i # drop (Suc i) bs" using i by (simp add: id_take_nth_drop)
  have "a @ concat (map padded bs) = (a @ concat (map padded (take i bs))) @ padded (bs ! i) @ concat (map padded (drop (Suc i) bs))"
    by (subst (1) bs) (simp only: map_append concat_append list.map concat.simps append_assoc)
  then show ?thesis
    using read_at_append [of "a @ concat (map padded (take i bs))" "padded (bs ! i)" "concat (map padded (drop (Suc i) bs))"]
    by (simp only: pread_full_def length_append length_padded option.case)
qed

section \<open>The format\<close>

lemma entry_index:
  assumes "unat l < L" "unat e < E"
  shows "unat l * E + unat e < L * E"
proof -
  have "Suc (unat l) * E \<le> L * E" using assms(1) by (intro mult_le_mono1) simp
  with assms(2) show ?thesis by simp
qed

lemma written_pack:
  assumes len: "length bs = pm_total m" and ser: "ser m = Some json" "length json \<le> pack_align - 16"
  shows "\<exists>w. add_blobs bs (writer_create m) = Ok w \<and> writer_finish ser w = Ok (pack_file m json bs)"
proof -
  have "length ([] :: bytes list) + length bs \<le> pm_total m" using len by simp
  then obtain w where w: "add_blobs bs (writer_create m) = Ok w" "holds m bs w"
    using add_blobs_holds [OF holds_create [of m]] by fastforce
  have "writer_finish ser w = Ok (pack_file m json bs)" by (rule finish_file [where ser = ser, OF w(2) len ser])
  with w(1) show ?thesis by blast
qed

definition reader_of :: "'c pack_meta \<Rightarrow> bytes \<Rightarrow> bytes list \<Rightarrow> bool \<Rightarrow> 'c pack_reader" where
  "reader_of m json bs direct = \<lparr>r_file = pack_file m json bs, r_meta = m, r_index = index_of (align_up (pack_align + pm_total m * 16)) bs, r_direct = direct\<rparr>"

lemma read_pack_file:
  assumes len: "length bs = pm_total m" and json: "length json \<le> pack_align - 16" and raw: "pm_compression m = None"
    and le: "unat l < unat (pm_layers m)" "unat e < unat (pm_experts m)"
  defines "blob \<equiv> bs ! (unat l * unat (pm_experts m) + unat e)"
  shows "\<exists>x. entry (reader_of m json bs direct) l e = Some x \<and> pack_align dvd e_offset x"
    and "align_up (length blob) \<le> length buf \<Longrightarrow> (direct \<Longrightarrow> addr mod pack_align = 0) \<Longrightarrow>
      \<exists>out. read_blob_into unz (reader_of m json bs direct) l e addr buf = Ok (length blob, out) \<and> length out = length buf \<and> take (length blob) out = blob"
proof -
  let ?ie = "align_up (pack_align + pm_total m * 16)" and ?r = "reader_of m json bs direct"
  let ?i = "unat l * unat (pm_experts m) + unat e"
  have i: "?i < length bs" using entry_index [OF le] len by (simp add: pm_total_def)
  have en: "entry ?r l e = Some \<lparr>e_offset = ?ie + length (concat (map padded (take ?i bs))), e_nbytes = length (bs ! ?i)\<rparr>"
    using i by (simp add: entry_def nth_opt_def index_of_nth reader_of_def)
  let ?front = "header_of json @ concat (map entry_bytes (index_of ?ie bs)) @ zeros (?ie - (pack_align + pm_total m * 16))"
  have lf: "length ?front = ?ie" using length_header [OF json] len align_up_ge [of "pack_align + pm_total m * 16"] by simp
  have "pack_file m json bs = ?front @ concat (map padded bs)" by (simp add: pack_file_def Let_def)
  then have pr: "pread_full (pack_file m json bs) (?ie + length (concat (map padded (take ?i bs)))) (align_up (length (bs ! ?i)))
      = Ok (padded (bs ! ?i))"
    using blob_in_file [OF i, of ?front] lf by simp
  show "\<exists>x. entry ?r l e = Some x \<and> pack_align dvd e_offset x"
    using en padded_dvd [of "take ?i bs"] align_up_dvd by (auto intro: dvd_add)
  show "align_up (length blob) \<le> length buf \<Longrightarrow> (direct \<Longrightarrow> addr mod pack_align = 0) \<Longrightarrow>
      \<exists>out. read_blob_into unz ?r l e addr buf = Ok (length blob, out) \<and> length out = length buf \<and> take (length blob) out = blob"
    using en pr raw length_padded [of "bs ! ?i"]
    by (auto simp: Let_def read_blob_into_def padded_def reader_of_def blob_def)
qed

text \<open>C12: A pack read back is the pack written. Writing the metadata and then exactly one blob per expert
  succeeds; the file opens, with the metadata that was written; and reading any expert of any layer
  into a large enough buffer (aligned, for direct reads) gives exactly that expert's blob, from an
  offset on a 4096-byte boundary.\<close>

theorem pack_round_trip:
  assumes len: "length bs = pm_total m" and ser: "ser m = Some json" "length json \<le> pack_align - 16" "de json = Some m"
    and fits: "length (pack_file m json bs) < 2 ^ 64" and raw: "pm_compression m = None"
  shows "\<exists>w f r. add_blobs bs (writer_create m) = Ok w \<and> writer_finish ser w = Ok f \<and>
    open_inner de f direct = Ok r \<and> r_meta r = m \<and>
    (\<forall>l e addr buf. unat l < unat (pm_layers m) \<longrightarrow> unat e < unat (pm_experts m) \<longrightarrow>
       (let blob = bs ! (unat l * unat (pm_experts m) + unat e) in
        align_up (length blob) \<le> length buf \<longrightarrow> (direct \<longrightarrow> addr mod pack_align = 0) \<longrightarrow>
        (\<exists>out. read_blob_into unz r l e addr buf = Ok (length blob, out) \<and> length out = length buf \<and>
           take (length blob) out = blob)) \<and>
       (\<exists>x. entry r l e = Some x \<and> pack_align dvd e_offset x))"
proof -
  obtain w where w: "add_blobs bs (writer_create m) = Ok w" "writer_finish ser w = Ok (pack_file m json bs)"
    using written_pack [where ser = ser, OF len ser(1,2)] by blast
  let ?r = "reader_of m json bs direct"
  have op: "open_inner de (pack_file m json bs) direct = Ok ?r"
    unfolding reader_of_def by (rule open_pack_file [where de = de, OF len ser(2,3) fits])
  have m: "r_meta ?r = m" by (simp add: reader_of_def)
  note rd = read_pack_file [OF len ser(2) raw, where direct = direct]
  show ?thesis
  proof (rule exI, rule exI, rule exI, intro conjI allI impI)
    show "add_blobs bs (writer_create m) = Ok w" "writer_finish ser w = Ok (pack_file m json bs)" by (rule w)+
    show "open_inner de (pack_file m json bs) direct = Ok ?r" "r_meta ?r = m" by (rule op m)+
    fix l e :: u16 and addr and buf :: bytes assume le: "unat l < unat (pm_layers m)" "unat e < unat (pm_experts m)"
    show "\<exists>x. entry ?r l e = Some x \<and> pack_align dvd e_offset x" by (rule rd(1) [OF le])
    show "let blob = bs ! (unat l * unat (pm_experts m) + unat e) in
        align_up (length blob) \<le> length buf \<longrightarrow> (direct \<longrightarrow> addr mod pack_align = 0) \<longrightarrow>
        (\<exists>out. read_blob_into unz ?r l e addr buf = Ok (length blob, out) \<and> length out = length buf \<and> take (length blob) out = blob)"
      unfolding Let_def by (intro impI, rule rd(2) [OF le]) (assumption, erule mp)
  qed
qed

definition tiny_meta :: "unit pack_meta" where
  "tiny_meta = \<lparr>pm_model = ''m'', pm_layers = 1, pm_experts = 2, pm_dtype = ''q4g64-gud'', pm_config = (),
     pm_compression = None, pm_max_raw = 0\<rparr>"

lemma pack_round_trip_witness:
  "\<exists>w f r out. add_blobs [[1, 2, 3], [9]] (writer_create tiny_meta) = Ok w \<and> writer_finish (\<lambda>_. Some [7]) w = Ok f \<and>
     open_inner (\<lambda>_. Some tiny_meta) f False = Ok r \<and>
     read_blob_into (\<lambda>_ _. None) r 0 1 0 (zeros 4096) = Ok (1, out) \<and> take 1 out = [9]"
proof -
  have t: "pm_total tiny_meta = 2" by (simp add: pm_total_def tiny_meta_def)
  have "length (pack_file tiny_meta [7] [[1, 2, 3], [9]]) < 2 ^ 64"
    by (simp add: pack_file_def t Let_def length_padded align_up_def pack_align_def header_of_def magic_def entry_bytes_def)
  from pack_round_trip [of "[[1, 2, 3], [9]]" tiny_meta "\<lambda>_. Some [7]" "[7]" "\<lambda>_. Some tiny_meta" False "\<lambda>_ _. None", OF _ _ _ _ this] t
  obtain w f r where r: "add_blobs [[1, 2, 3], [9]] (writer_create tiny_meta) = Ok w" "writer_finish (\<lambda>_. Some [7]) w = Ok f"
    "open_inner (\<lambda>_. Some tiny_meta) f False = Ok r"
    and rd: "\<And>l e addr buf. unat l < unat (pm_layers tiny_meta) \<Longrightarrow> unat e < unat (pm_experts tiny_meta) \<Longrightarrow>
       (let blob = [[1, 2, 3], [9]] ! (unat l * unat (pm_experts tiny_meta) + unat e) in
        align_up (length blob) \<le> length buf \<longrightarrow> (False \<longrightarrow> addr mod pack_align = 0) \<longrightarrow>
        (\<exists>out. read_blob_into (\<lambda>_ _. None) r l e addr buf = Ok (length blob, out) \<and> length out = length buf \<and>
           take (length blob) out = blob))"
    by (auto simp: pack_align_def tiny_meta_def)
  have "align_up 1 = 4096" by (simp add: align_up_def pack_align_def)
  with rd [of 0 1 "zeros 4096" 0] have "\<exists>out. read_blob_into (\<lambda>_ _. None) r 0 1 0 (zeros 4096) = Ok (1, out) \<and> take 1 out = [9]"
    by (simp add: tiny_meta_def Let_def) blast
  with r show ?thesis by blast
qed

fun add_compressed :: "(bytes \<Rightarrow> bytes) \<Rightarrow> bytes list \<Rightarrow> 'c pack_writer \<Rightarrow> (pack_error, 'c pack_writer) res" where
  "add_compressed zc [] w = Ok w"
| "add_compressed zc (b # bs) w = bind_res (add_blob (zc b) (note_raw_len (length b) w)) (add_compressed zc bs)"

text \<open>The metadata after the raw lengths of \<open>bs\<close> were noted.\<close>

definition noted :: "bytes list \<Rightarrow> 'c pack_meta \<Rightarrow> 'c pack_meta" where
  "noted bs m = m\<lparr>pm_max_raw := foldl max (pm_max_raw m) (map length bs)\<rparr>"

lemma noted_simps [simp]: "pm_total (noted bs m) = pm_total m" "pm_layers (noted bs m) = pm_layers m"
  "pm_experts (noted bs m) = pm_experts m" "pm_compression (noted bs m) = pm_compression m"
  by (simp_all add: noted_def pm_total_def)

lemma foldl_max_ge: "(x :: nat) \<in> set xs \<or> x \<le> a \<Longrightarrow> x \<le> foldl max a xs"
  by (induction xs arbitrary: a) (auto simp: le_max_iff_disj)

lemma note_holds: "holds m bs w \<Longrightarrow> holds (m\<lparr>pm_max_raw := max (pm_max_raw m) n\<rparr>) bs (note_raw_len n w)"
  by (simp add: holds_def note_raw_len_def pm_total_def)

lemma add_compressed_holds:
  "holds m as w \<Longrightarrow> length as + length bs \<le> pm_total m \<Longrightarrow>
   \<exists>w'. add_compressed zc bs w = Ok w' \<and> holds (noted bs m) (as @ map zc bs) w'"
proof (induction bs arbitrary: as m w)
  case Nil
  then show ?case by (simp add: noted_def)
next
  case (Cons b bs)
  let ?m = "m\<lparr>pm_max_raw := max (pm_max_raw m) (length b)\<rparr>"
  have tot: "pm_total ?m = pm_total m" by (simp add: pm_total_def)
  obtain w1 where w1: "add_blob (zc b) (note_raw_len (length b) w) = Ok w1" "holds ?m (as @ [zc b]) w1"
    using add_blob_holds [OF note_holds [OF Cons.prems(1)], of "length b" "zc b"] Cons.prems(2) tot by fastforce
  have "noted bs ?m = noted (b # bs) m" by (simp add: noted_def)
  with Cons.IH [OF w1(2)] Cons.prems(2) tot w1(1) show ?case by simp
qed

lemma read_compressed:
  assumes "entry r l e = Some x" "pm_compression (r_meta r) \<noteq> None"
    "\<not> aligned_len (align_up (max_stored_bytes r)) < align_up (e_nbytes x)"
    "pread_full (r_file r) (e_offset x) (align_up (e_nbytes x)) = Ok bs" "unz (take (e_nbytes x) bs) (length buf) = Some out"
  shows "read_blob_into unz r l e addr buf = Ok (length out, out @ drop (length out) buf)"
  using assms by (cases "pm_compression (r_meta r)") (simp_all add: read_blob_into_def Let_def)

text \<open>Compressed packs. With frames that inflate to the blobs they were made from, reading any expert
  of a compressed pack into any buffer with room for it delivers the whole raw blob, and a buffer of
  \<open>max_blob_bytes\<close> has room for every expert, because the writer noted the raw lengths.\<close>

theorem compressed_pack_round_trip:
  assumes len: "length bs = pm_total m" and ser: "ser (noted bs m) = Some json" "length json \<le> pack_align - 16" "de json = Some (noted bs m)"
    and fits: "length (pack_file (noted bs m) json (map zc bs)) < 2 ^ 64" and comp: "pm_compression m \<noteq> None"
    and zstd: "\<And>b n. length b \<le> n \<Longrightarrow> unz (zc b) n = Some b"
  shows "\<exists>w f r. add_compressed zc bs (writer_create m) = Ok w \<and> writer_finish ser w = Ok f \<and> open_inner de f direct = Ok r \<and>
    (\<forall>l e addr buf. unat l < unat (pm_layers m) \<longrightarrow> unat e < unat (pm_experts m) \<longrightarrow>
       (let blob = bs ! (unat l * unat (pm_experts m) + unat e) in
        (length blob \<le> length buf \<longrightarrow> (\<exists>out. read_blob_into unz r l e addr buf = Ok (length blob, out) \<and> take (length blob) out = blob)) \<and>
        length blob \<le> max_blob_bytes r))"
proof -
  let ?m = "noted bs m" and ?cs = "map zc bs"
  have lc: "length ?cs = pm_total ?m" using len by simp
  have "length ([] :: bytes list) + length bs \<le> pm_total m" using len by simp
  then obtain w where w: "add_compressed zc bs (writer_create m) = Ok w" "holds ?m ?cs w"
    using add_compressed_holds [OF holds_create [of m], of bs zc] by auto
  have fin: "writer_finish ser w = Ok (pack_file ?m json ?cs)" by (rule finish_file [where ser = ser, OF w(2) lc ser(1,2)])
  let ?ie = "align_up (pack_align + pm_total ?m * 16)"
  let ?r = "\<lparr>r_file = pack_file ?m json ?cs, r_meta = ?m, r_index = index_of ?ie ?cs, r_direct = direct\<rparr>"
  have op: "open_inner de (pack_file ?m json ?cs) direct = Ok ?r" by (rule open_pack_file [where de = de, OF lc ser(2,3) fits])
  have rd: "let blob = bs ! (unat l * unat (pm_experts m) + unat e) in
        (length blob \<le> length buf \<longrightarrow> (\<exists>out. read_blob_into unz ?r l e addr buf = Ok (length blob, out) \<and> take (length blob) out = blob)) \<and>
        length blob \<le> max_blob_bytes ?r"
    if le: "unat l < unat (pm_layers m)" "unat e < unat (pm_experts m)" for l e addr buf
  proof -
    let ?i = "unat l * unat (pm_experts m) + unat e"
    have i: "?i < length bs" using entry_index [OF le] len by (simp add: pm_total_def)
    then have ic: "?i < length ?cs" by simp
    have en: "entry ?r l e = Some \<lparr>e_offset = ?ie + length (concat (map padded (take ?i ?cs))), e_nbytes = length (zc (bs ! ?i))\<rparr>"
      using ic by (simp add: entry_def nth_opt_def index_of_nth)
    let ?front = "header_of json @ concat (map entry_bytes (index_of ?ie ?cs)) @ zeros (?ie - (pack_align + pm_total ?m * 16))"
    have lf: "length ?front = ?ie" using length_header [OF ser(2)] lc align_up_ge [of "pack_align + pm_total ?m * 16"] by simp
    have "pack_file ?m json ?cs = ?front @ concat (map padded ?cs)" by (simp add: pack_file_def Let_def)
    then have pr: "pread_full (pack_file ?m json ?cs) (?ie + length (concat (map padded (take ?i ?cs)))) (align_up (length (zc (bs ! ?i))))
        = Ok (padded (zc (bs ! ?i)))"
      using blob_in_file [OF ic, of ?front] lf i by simp
    have "index_of ?ie ?cs ! ?i \<in> set (index_of ?ie ?cs)" using ic by simp
    then have "e_nbytes (index_of ?ie ?cs ! ?i) \<in> set (map e_nbytes (index_of ?ie ?cs))" by simp
    then have "length (zc (bs ! ?i)) \<in> set (map e_nbytes (index_of ?ie ?cs))" using i by (simp add: index_of_nth)
    then have "length (zc (bs ! ?i)) \<le> max_stored_bytes ?r" by (auto simp: max_stored_bytes_def intro!: foldl_max_ge)
    then have sc: "\<not> aligned_len (align_up (max_stored_bytes ?r)) < align_up (length (zc (bs ! ?i)))"
      by (simp add: aligned_len_def not_less) (simp add: align_up_def pack_align_def div_le_mono)
    have "length (bs ! ?i) \<in> set (map length bs)" using i by simp
    then have mx: "length (bs ! ?i) \<le> pm_max_raw ?m" using foldl_max_ge by (simp add: noted_def)
    then have "length (bs ! ?i) \<le> max_blob_bytes ?r" by (simp add: max_blob_bytes_def)
    moreover have "\<exists>out. read_blob_into unz ?r l e addr buf = Ok (length (bs ! ?i), out) \<and> take (length (bs ! ?i)) out = bs ! ?i"
      if "length (bs ! ?i) \<le> length buf"
    proof -
      obtain x where x: "entry ?r l e = Some x" "e_offset x = ?ie + length (concat (map padded (take ?i ?cs)))"
        "e_nbytes x = length (zc (bs ! ?i))"
        by (rule that [OF en]) (simp_all only: index_entry.simps)
      have "pread_full (r_file ?r) (e_offset x) (align_up (e_nbytes x)) = Ok (padded (zc (bs ! ?i)))"
        unfolding x(2,3) pack_reader.simps by (rule pr)
      moreover have "unz (take (e_nbytes x) (padded (zc (bs ! ?i)))) (length buf) = Some (bs ! ?i)"
        using zstd [OF that] by (simp add: x(3) padded_def)
      ultimately have "read_blob_into unz ?r l e addr buf = Ok (length (bs ! ?i), bs ! ?i @ drop (length (bs ! ?i)) buf)"
        using x(3) comp sc by (intro read_compressed [OF x(1)]) simp_all
      then show ?thesis by simp
    qed
    ultimately show ?thesis by (simp add: Let_def)
  qed
  from w(1) fin op rd show ?thesis
    by (intro exI [of _ w] exI [of _ "pack_file ?m json ?cs"] exI [of _ ?r]) simp
qed

definition zip_meta :: "unit pack_meta" where
  "zip_meta = tiny_meta\<lparr>pm_compression := Some ''zstd''\<rparr>"

lemma compressed_pack_round_trip_witness:
  "\<exists>w f r. add_compressed (\<lambda>b. 0xFD # b) [[1, 2, 3], [9]] (writer_create zip_meta) = Ok w \<and>
     writer_finish (\<lambda>_. Some [7]) w = Ok f \<and>
     open_inner (\<lambda>_. Some (noted [[1, 2, 3], [9]] zip_meta)) f True = Ok r \<and> 3 \<le> max_blob_bytes r"
proof -
  let ?unz = "\<lambda>f n. case f of [] \<Rightarrow> None | _ # b \<Rightarrow> if length b \<le> n then Some b else None"
  let ?bs = "[[1, 2, 3], [9]] :: bytes list"
  have z: "pm_total zip_meta = 2" "pm_compression zip_meta \<noteq> None" "unat (pm_layers zip_meta) = 1" "unat (pm_experts zip_meta) = 2"
    by (simp_all add: pm_total_def tiny_meta_def zip_meta_def)
  have fit: "length (pack_file (noted ?bs zip_meta) [7] (map (\<lambda>b. 0xFD # b) ?bs)) < 2 ^ 64"
    by (simp add: pack_file_def z Let_def length_padded align_up_def pack_align_def header_of_def magic_def entry_bytes_def)
  have "\<exists>w f r. add_compressed (\<lambda>b. 0xFD # b) ?bs (writer_create zip_meta) = Ok w \<and> writer_finish (\<lambda>_. Some [7]) w = Ok f \<and>
    open_inner (\<lambda>_. Some (noted ?bs zip_meta)) f True = Ok r \<and>
    (\<forall>l e addr buf. unat l < unat (pm_layers zip_meta) \<longrightarrow> unat e < unat (pm_experts zip_meta) \<longrightarrow>
       (let blob = ?bs ! (unat l * unat (pm_experts zip_meta) + unat e) in
        (length blob \<le> length buf \<longrightarrow> (\<exists>out. read_blob_into ?unz r l e addr buf = Ok (length blob, out) \<and> take (length blob) out = blob)) \<and>
        length blob \<le> max_blob_bytes r))"
    by (rule compressed_pack_round_trip [OF _ refl _ refl fit z(2)]) (simp_all add: z pack_align_def)
  then obtain w f r where r: "add_compressed (\<lambda>b. 0xFD # b) ?bs (writer_create zip_meta) = Ok w" "writer_finish (\<lambda>_. Some [7]) w = Ok f"
    "open_inner (\<lambda>_. Some (noted ?bs zip_meta)) f True = Ok r"
    and rd: "\<forall>l e addr buf. unat l < unat (pm_layers zip_meta) \<longrightarrow> unat e < unat (pm_experts zip_meta) \<longrightarrow>
       (let blob = ?bs ! (unat l * unat (pm_experts zip_meta) + unat e) in
        (length blob \<le> length buf \<longrightarrow> (\<exists>out. read_blob_into ?unz r l e addr buf = Ok (length blob, out) \<and> take (length blob) out = blob)) \<and>
        length blob \<le> max_blob_bytes r)" by (elim exE conjE)
  have "3 \<le> max_blob_bytes r" using rd [rule_format, of 0 0 "[]" 0] by (simp add: z Let_def)
  with r show ?thesis by blast
qed

section \<open>Malformed files\<close>

lemma open_header:
  assumes "pack_align \<le> length f"
  shows "open_inner de f direct =
    (if take 8 f \<noteq> magic then Err NotAPack
     else if from_le (take 4 (drop 8 f)) \<noteq> format_version then Err (BadVersion (from_le (take 4 (drop 8 f))))
     else if pack_align - 16 < from_le (take 4 (drop 12 f)) then Panic else open_inner de f direct)"
proof -
  have rd: "pread_full f 0 (aligned_len pack_align) = Ok (take pack_align f)"
    using assms by (simp add: pread_full_def read_at_def aligned_len_def align_up_id)
  have t8: "take 8 (take pack_align f) = take 8 f" by (simp add: pack_align_def min_def)
  have t4: "take 4 (drop k (take pack_align f)) = take 4 (drop k f)" if "k \<le> 12" for k
    using that by (simp add: drop_take pack_align_def min_def)
  have len: "length (take pack_align f) = pack_align" using assms by simp
  show ?thesis
    by (simp add: open_inner_def Let_def rd t8 t4 len) (use assms in \<open>simp add: pack_align_def min_def\<close>)
qed



end
