(* ===== verification/Quant.thy ===== *)
theory Quant
  imports Prelude
begin

unbundle bit_operations_syntax

text \<open>
  The 4-bit groupwise format of \<open>llmpager-core/src/quant.rs\<close>: the conversions between \<open>f32\<close> and
  \<open>f16\<close> bit patterns, on words, exactly as written; quantize, the raw group store and dequantize over
  byte buffers. The \<open>f32\<close> arithmetic of the quantizer is the argument \<open>F\<close>, a record of the
  operations the code calls; only the range of the clamped quotient is ever assumed of it.
\<close>

section \<open>Half floats\<close>

definition f32_to_f16_bits :: "u32 \<Rightarrow> u16" where
  "f32_to_f16_bits b =
     (let sign = (ucast (drop_bit 16 b AND 0x8000) :: u16);
          ex = uint (drop_bit 23 b AND 0xFF);
          frac = b AND 0x7FFFFF
      in if ex = 0xFF then sign OR 0x7C00 OR (if frac \<noteq> 0 then 0x200 else 0)
         else let e = ex - 127 + 15 in
           if 0x1F \<le> e then sign OR 0x7C00
           else if e \<le> 0 then
             (if e < - 10 then sign
              else let m = drop_bit (nat (1 - e)) (frac OR 0x800000)
                   in sign OR ucast (drop_bit 13 (m + 0x1000)))
           else sign OR ucast (push_bit 10 (word_of_int e :: u32)) OR ucast (drop_bit 13 (frac + 0x1000)))"

definition leading_zeros :: "u32 \<Rightarrow> nat" where
  "leading_zeros w = length (takeWhile (\<lambda>i. \<not> bit w i) (rev [0..<32]))"

definition f16_bits_to_f32 :: "u16 \<Rightarrow> u32" where
  "f16_bits_to_f32 h =
     (let sign = push_bit 16 (ucast (h AND 0x8000) :: u32);
          ex = (ucast (drop_bit 10 h AND 0x1F) :: u32);
          frac = (ucast (h AND 0x3FF) :: u32)
      in if ex = 0 then
           (if frac = 0 then sign
            else let shift = leading_zeros frac - 21
                 in sign OR push_bit 23 (of_nat (127 - 15 - shift + 1)) OR (push_bit (shift + 13) frac AND 0x7FFFFF))
         else if ex = 0x1F then
           (if frac = 0 then sign OR 0x7F800000 else sign OR 0x7F800000 OR push_bit 13 frac)
         else sign OR push_bit 23 (ex + 127 - 15) OR push_bit 13 frac)"

section \<open>Buffers\<close>

record 'f f32_ops =
  f_zero :: 'f
  f_abs :: "'f \<Rightarrow> 'f"
  f_max :: "'f \<Rightarrow> 'f \<Rightarrow> 'f"
  f_gt :: "'f \<Rightarrow> 'f \<Rightarrow> bool"
  f_div :: "'f \<Rightarrow> 'f \<Rightarrow> 'f"
  f_mul :: "'f \<Rightarrow> 'f \<Rightarrow> 'f"
  f_sub :: "'f \<Rightarrow> 'f \<Rightarrow> 'f"
  f_of_int :: "int \<Rightarrow> 'f"
  f_round_clamp :: "'f \<Rightarrow> int"
  f_to_bits :: "'f \<Rightarrow> u32"
  f_of_bits :: "u32 \<Rightarrow> 'f"
  f_seven :: 'f
  f_1em8 :: 'f
  f_1em7 :: 'f

datatype quant_error = BadGroup nat nat | BadSrc nat nat nat | BadDst nat nat | BadDims

definition q4_bytes :: "nat \<Rightarrow> nat \<Rightarrow> nat \<Rightarrow> nat" where
  "q4_bytes rows cols grp = rows * (cols div grp) * 2 + rows * cols div 2"

definition f16_round :: "'f f32_ops \<Rightarrow> 'f \<Rightarrow> 'f" where
  "f16_round F x = f_of_bits F (f16_bits_to_f32 (f32_to_f16_bits (f_to_bits F x)))"

definition group_scale :: "'f f32_ops \<Rightarrow> 'f list \<Rightarrow> 'f" where
  "group_scale F vals =
     (let amax = foldl (\<lambda>m v. f_max F m (f_abs F v)) (f_zero F) vals
      in f_max F (f16_round F (if f_gt F amax (f_zero F) then f_div F amax (f_seven F) else f_1em8 F)) (f_1em7 F))"

definition quantize_one :: "'f f32_ops \<Rightarrow> 'f \<Rightarrow> 'f \<Rightarrow> 'f \<Rightarrow> int \<times> 'f" where
  "quantize_one F x scale max_err =
     (let q = f_round_clamp F (f_div F x scale);
          err = f_abs F (f_sub F x (f_mul F (f_of_int F q) scale))
      in (q + 8, if f_gt F err max_err then err else max_err))"

text \<open>The byte of two nibbles.\<close>

definition pack2 :: "u8 \<Rightarrow> u8 \<Rightarrow> u8" where
  "pack2 a b = (a AND 0x0F) OR push_bit 4 (b AND 0x0F)"

definition le16 :: "u16 \<Rightarrow> bytes" where
  "le16 w = [ucast w, ucast (drop_bit 8 w)]"

definition un_le16 :: "u8 \<Rightarrow> u8 \<Rightarrow> u16" where
  "un_le16 a b = ucast a OR push_bit 8 (ucast b)"

text \<open>The inner loop over the byte pairs of a group.\<close>

fun quantize_pairs :: "'f f32_ops \<Rightarrow> 'f \<Rightarrow> nat \<Rightarrow> 'f list \<Rightarrow> nat list \<Rightarrow> 'f \<times> bytes \<Rightarrow> 'f \<times> bytes" where
  "quantize_pairs F scale base vals [] (err, data) = (err, data)"
| "quantize_pairs F scale base vals (i # is) (err, data) =
     (let (q0, e0) = quantize_one F (vals ! (2 * i)) scale err;
          (q1, e1) = quantize_one F (vals ! (2 * i + 1)) scale e0
      in quantize_pairs F scale base vals is (e1, data[base + i := pack2 (word_of_int q0) (word_of_int q1)]))"

definition quantize_group ::
  "'f f32_ops \<Rightarrow> 'f list \<Rightarrow> nat \<Rightarrow> nat \<Rightarrow> 'f \<times> bytes \<times> bytes \<Rightarrow> nat \<times> nat \<Rightarrow> 'f \<times> bytes \<times> bytes" where
  "quantize_group F src cols grp = (\<lambda>(err, scales, data) (r, g).
     let vals = take grp (drop (r * cols + g * grp) src);
         scale = group_scale F vals;
         sidx = (r * (cols div grp) + g) * 2;
         base = r * cols div 2 + g * grp div 2;
         (err', data') = quantize_pairs F scale base vals [0..<grp div 2] (err, data)
     in (err', write_at sidx (le16 (f32_to_f16_bits (f_to_bits F scale))) scales, data'))"

definition q4_quantize ::
  "'f f32_ops \<Rightarrow> 'f list \<Rightarrow> nat \<Rightarrow> nat \<Rightarrow> nat \<Rightarrow> bytes \<Rightarrow> (quant_error, 'f \<times> bytes) res" where
  "q4_quantize F src rows cols grp dst =
     (if grp = 0 \<or> grp mod 8 \<noteq> 0 \<or> cols mod grp \<noteq> 0 then Err (BadGroup cols grp)
      else if length src \<noteq> rows * cols then Err (BadSrc (length src) rows cols)
      else if length dst \<noteq> q4_bytes rows cols grp then Err (BadDst (length dst) (q4_bytes rows cols grp))
      else let n = rows * (cols div grp) * 2;
               (err, scales, data) = foldl (quantize_group F src cols grp) (f_zero F, take n dst, drop n dst)
                  (List.product [0..<rows] [0..<cols div grp])
           in Ok (err, scales @ data))"

text \<open>\<open>q4_store_group\<close> writes one group of ready nibbles; indices out of range panic.\<close>

definition q4_store_group :: "bytes \<Rightarrow> nat \<Rightarrow> nat \<Rightarrow> nat \<Rightarrow> nat \<Rightarrow> nat \<Rightarrow> u32 \<Rightarrow> u8 list \<Rightarrow> bytes option" where
  "q4_store_group dst rows cols grp row g scale qs =
     (if grp = 0 then None else
      let n = rows * (cols div grp) * 2;
          sidx = (row * (cols div grp) + g) * 2;
          base = row * cols div 2 + g * grp div 2
      in if length dst < n \<or> n < sidx + 2 \<or>
            (0 < grp div 2 \<and> (length dst - n < base + grp div 2 \<or> length qs < 2 * (grp div 2))) then None
         else Some (write_at sidx (le16 (f32_to_f16_bits scale)) (take n dst) @
                    write_at base (map (\<lambda>i. pack2 (qs ! (2 * i)) (qs ! (2 * i + 1))) [0..<grp div 2]) (drop n dst)))"

definition dequantize_group ::
  "'f f32_ops \<Rightarrow> bytes \<Rightarrow> bytes \<Rightarrow> nat \<Rightarrow> nat \<Rightarrow> 'f list \<Rightarrow> nat \<times> nat \<Rightarrow> 'f list" where
  "dequantize_group F scales data cols grp = (\<lambda>out (r, g).
     let sidx = (r * (cols div grp) + g) * 2;
         scale = f_of_bits F (f16_bits_to_f32 (un_le16 (scales ! sidx) (scales ! (sidx + 1))));
         base = r * cols div 2 + g * grp div 2
     in foldl (\<lambda>out i. let b = data ! (base + i); p = r * cols + g * grp + 2 * i in
          out[p := f_mul F (f_of_int F (uint (b AND 0x0F) - 8)) scale,
              p + 1 := f_mul F (f_of_int F (uint (drop_bit 4 b) - 8)) scale]) out [0..<grp div 2])"

definition q4_dequantize :: "'f f32_ops \<Rightarrow> bytes \<Rightarrow> nat \<Rightarrow> nat \<Rightarrow> nat \<Rightarrow> 'f list \<Rightarrow> (quant_error, 'f list) res" where
  "q4_dequantize F buf rows cols grp out =
     (if grp = 0 \<or> cols mod grp \<noteq> 0 \<or> length buf \<noteq> q4_bytes rows cols grp \<or> length out \<noteq> rows * cols then Err BadDims
      else let n = rows * (cols div grp) * 2
           in Ok (foldl (dequantize_group F (take n buf) (drop n buf) cols grp) out
                    (List.product [0..<rows] [0..<cols div grp])))"

section \<open>Half floats: what survives\<close>

lemma masks:
  "(0x1F :: 'a::len word) = mask 5" "(0x3FF :: 'a::len word) = mask 10" "(0xFF :: 'a::len word) = mask 8"
  "(0x7FFFFF :: 'a::len word) = mask 23" "(0x0F :: 'a::len word) = mask 4"
  by (simp_all add: mask_eq_exp_minus_1)

lemma sign_bit: "bit (0x8000 :: u16) n \<longleftrightarrow> n = 15" "bit (0x8000 :: u32) n \<longleftrightarrow> n = 15" "bit (0x8000 :: int) n \<longleftrightarrow> n = 15"
proof -
  have "(0x8000 :: u16) = 2 ^ 15" "(0x8000 :: u32) = 2 ^ 15" "(0x8000 :: int) = 2 ^ 15" by simp_all
  then show "bit (0x8000 :: u16) n \<longleftrightarrow> n = 15" "bit (0x8000 :: u32) n \<longleftrightarrow> n = 15" "bit (0x8000 :: int) n \<longleftrightarrow> n = 15"
    by (auto simp only: bit_exp_iff) (auto simp: possible_bit_def)
qed

lemma take_bit_small: "unat w < 2 ^ n \<Longrightarrow> take_bit n w = w" for w :: "'a::len word"
  by (simp add: word_unat_eq_iff unsigned_take_bit_eq take_bit_nat_eq_self_iff)

lemma unat_and_mask: "unat (w AND mask n) < 2 ^ n" for w :: "'a::len word"
  by (simp add: unsigned_take_bit_eq flip: take_bit_eq_mask)

lemma f16_fields:
  fixes h :: u16
  defines "E \<equiv> (ucast (drop_bit 10 h AND 0x1F) :: u32)" and "F \<equiv> (ucast (h AND 0x3FF) :: u32)"
    and "S \<equiv> push_bit 16 (ucast (h AND 0x8000) :: u32)"
  defines "w \<equiv> S OR push_bit 23 (E + 112) OR push_bit 13 F"
  shows "(ucast (drop_bit 16 w AND 0x8000) :: u16) = h AND 0x8000" "drop_bit 23 w AND 0xFF = E + 112"
    "w AND 0x7FFFFF = push_bit 13 F" "unat F < 1024" "unat E < 32"
    "(h AND 0x8000) OR ucast (push_bit 10 E) OR ucast F = h"
proof -
  show E: "unat E < 32" using unat_and_mask [of "drop_bit 10 h" 5] by (simp add: E_def masks unsigned_ucast_eq)
  show "unat F < 1024" using unat_and_mask [of h 10] by (simp add: F_def masks unsigned_ucast_eq)
  have t: "E + 112 = take_bit 8 (E + 112)" using E by (intro take_bit_small [symmetric]) (simp add: unat_word_ariths)
  show "w AND 0x7FFFFF = push_bit 13 F"
    unfolding w_def E_def F_def S_def masks
    by (rule bit_eqI) (auto simp: bit_simps sign_bit)
  show "(ucast (drop_bit 16 w AND 0x8000) :: u16) = h AND 0x8000"
    unfolding w_def F_def S_def masks by (subst t, rule bit_eqI) (auto simp: bit_simps sign_bit)
  show "drop_bit 23 w AND 0xFF = E + 112"
    unfolding w_def F_def S_def masks by (subst (1 2) t, rule bit_eqI) (auto simp: bit_simps sign_bit)
  show "(h AND 0x8000) OR ucast (push_bit 10 E) OR ucast F = h"
    unfolding E_def F_def masks
  proof (rule bit_eqI)
    fix n assume "possible_bit TYPE(u16) n"
    then show "bit ((h AND 0x8000) OR ucast (push_bit 10 (ucast (drop_bit 10 h AND mask 5) :: u32)) OR ucast (ucast (h AND mask 10) :: u32)) n = bit h n"
      by (cases "n < 16"; cases "n = 15"; cases "n < 10") (auto simp: bit_simps sign_bit)
  qed
qed

lemma of_nat_unat_self: "of_nat (unat w) = w" for w :: "'a::len word"
  by (simp add: word_unat_eq_iff unsigned_of_nat)

lemma round_exact: "unat F < 1024 \<Longrightarrow> drop_bit 13 (push_bit 13 F + 0x1000) = F" for F :: u32
proof -
  assume F: "unat F < 1024"
  then have "unat (push_bit 13 F) = unat F * 8192"
    by (simp add: push_bit_eq_mult unat_word_ariths)
  then have "unat (push_bit 13 F + 0x1000) = unat F * 8192 + 4096" using F by (simp add: unat_word_ariths)
  then have "unat (drop_bit 13 (push_bit 13 F + 0x1000)) = (unat F * 8192 + 4096) div 8192"
    using F by (simp only: unsigned_drop_bit_eq) (simp add: drop_bit_eq_div take_bit_nat_eq_self)
  also have "\<dots> = unat F" by simp
  finally show ?thesis by (simp only: word_unat_eq_iff)
qed

lemma f32_to_f16_normal:
  assumes "(ucast (drop_bit 16 w AND 0x8000) :: u16) = s" "drop_bit 23 w AND 0xFF = x" "w AND 0x7FFFFF = m"
    and "112 < unat x" "unat x < 143"
  shows "f32_to_f16_bits w = s OR ucast (push_bit 10 (of_nat (unat x - 112) :: u32)) OR ucast (drop_bit 13 (m + 0x1000))"
proof -
  have x: "uint x = int (unat x)" by (rule uint_nat)
  have c: "int (unat x) \<noteq> 0xFF" "\<not> 0x1F \<le> int (unat x) - 127 + 15" "\<not> int (unat x) - 127 + 15 \<le> 0"
    using assms(4,5) by linarith+
  have "int (unat x - 112) = int (unat x) - 112" using assms(4) by linarith
  then have e: "int (unat x) - 127 + 15 = int (unat x - 112)" by linarith
  show ?thesis
    by (simp only: f32_to_f16_bits_def Let_def assms(1-3) x c if_False) (simp only: e of_int_of_nat_eq)
qed

lemma f16_round_trip_normal:
  assumes "drop_bit 10 h AND 0x1F \<noteq> 0" "drop_bit 10 h AND 0x1F \<noteq> 0x1F"
  shows "f32_to_f16_bits (f16_bits_to_f32 h) = h"
proof -
  let ?E = "ucast (drop_bit 10 h AND 0x1F) :: u32" and ?F = "ucast (h AND 0x3FF) :: u32" and ?S = "push_bit 16 (ucast (h AND 0x8000) :: u32)"
  note f = f16_fields [of h]
  have E0: "unat ?E = unat (drop_bit 10 h AND 0x1F)" by (simp add: unsigned_ucast_eq)
  then have "unat ?E \<noteq> 0" using assms(1) by (simp add: unsigned_eq_0_iff)
  moreover have "unat ?E \<noteq> 31" using assms(2) E0 by (simp add: word_unat_eq_iff)
  ultimately have E: "0 < unat ?E" "unat ?E < 31" using f(5) by auto
  then have ne: "?E \<noteq> 0" "?E \<noteq> 0x1F" by (auto simp: word_unat_eq_iff)
  have "f16_bits_to_f32 h = ?S OR push_bit 23 (?E + 127 - 15) OR push_bit 13 ?F"
    unfolding f16_bits_to_f32_def Let_def using ne by simp
  then have w: "f16_bits_to_f32 h = ?S OR push_bit 23 (?E + 112) OR push_bit 13 ?F" by (simp add: add.commute)
  have u: "unat (?E + 112) = unat ?E + 112" using f(5) by (simp add: unat_word_ariths)
  have "f32_to_f16_bits (f16_bits_to_f32 h) =
      (h AND 0x8000) OR ucast (push_bit 10 (of_nat (unat (?E + 112) - 112) :: u32)) OR ucast (drop_bit 13 (push_bit 13 ?F + 0x1000))"
    unfolding w using E u by (intro f32_to_f16_normal [OF f(1-3)]) simp_all
  also have "of_nat (unat (?E + 112) - 112) = ?E" unfolding u by (simp only: add_diff_cancel_right' of_nat_unat_self)
  also have "drop_bit 13 (push_bit 13 ?F + 0x1000) = ?F" by (rule round_exact [OF f(4)])
  finally show ?thesis using f(6) by simp
qed

text \<open>Every normal half float, and both zeros, survive the trip through \<open>f32\<close> bit for bit.\<close>

theorem f16_round_trip:
  assumes "drop_bit 10 h AND 0x1F \<noteq> 0 \<and> drop_bit 10 h AND 0x1F \<noteq> 0x1F \<or> h = 0 \<or> h = 0x8000"
  shows "f32_to_f16_bits (f16_bits_to_f32 h) = h"
proof -
  have "f32_to_f16_bits (f16_bits_to_f32 0) = 0" "f32_to_f16_bits (f16_bits_to_f32 0x8000) = 0x8000" by code_simp+
  with assms f16_round_trip_normal show ?thesis by blast
qed

lemma f16_round_trip_witness: "f32_to_f16_bits (f16_bits_to_f32 0x3555) = 0x3555"
  by (rule f16_round_trip) code_simp

lemma carry_table:
  "list_all (\<lambda>e. (ucast (push_bit 10 (of_nat e :: u32)) :: u16) OR ucast (0x400 :: u32) =
     push_bit 10 (of_nat (if odd e then e else e + 1))) [1..<31]"
  by code_simp

lemma carry_out: "0x7FF000 \<le> m \<Longrightarrow> m \<le> 0x7FFFFF \<Longrightarrow> drop_bit 13 (m + 0x1000) = 0x400" for m :: u32
proof -
  assume "0x7FF000 \<le> m" "m \<le> 0x7FFFFF"
  then have b: "0x7FF000 \<le> unat m" "unat m \<le> 0x7FFFFF" by (simp_all add: word_le_nat_alt)
  then have "unat (m + 0x1000) = unat m + 4096" by (simp add: unat_word_ariths)
  then have "unat (drop_bit 13 (m + 0x1000)) = (unat m + 4096) div 8192"
    using b by (simp only: unsigned_drop_bit_eq) (simp add: drop_bit_eq_div take_bit_nat_eq_self)
  also have "\<dots> = 1024" using b by (intro div_nat_eqI) simp_all
  finally show ?thesis by (simp add: word_unat_eq_iff)
qed

text \<open>Rounding to \<open>f16\<close> loses a carry. A normal \<open>f32\<close> whose fraction rounds up to the next power of two
  must carry into the exponent; the code combines exponent and fraction with OR. When the half's
  exponent \<open>e\<close> is even the carry lands in a clear bit and the result is the next power of two; when
  it is odd the carry vanishes and the result is the power of two below, about half the value.\<close>

theorem f16_rounding_carry_lost:
  assumes e: "unat (drop_bit 23 x AND 0xFF) = e + 112" "0 < e" "e < 31" and m: "0x7FF000 \<le> x AND 0x7FFFFF"
  shows "f32_to_f16_bits x =
    ucast (drop_bit 16 x AND 0x8000) OR push_bit 10 (of_nat (if odd e then e else e + 1))"
proof -
  have "x AND 0x7FFFFF \<le> 0x7FFFFF" by (simp add: word_and_le1)
  then have c: "drop_bit 13 ((x AND 0x7FFFFF) + 0x1000) = 0x400" using m by (intro carry_out)
  have "f32_to_f16_bits x = ucast (drop_bit 16 x AND 0x8000) OR ucast (push_bit 10 (of_nat (e + 112 - 112) :: u32)) OR
      ucast (drop_bit 13 ((x AND 0x7FFFFF) + 0x1000))"
    unfolding e(1) [symmetric] by (rule f32_to_f16_normal [OF refl refl refl]) (use e in simp_all)
  moreover have "(ucast (push_bit 10 (of_nat e :: u32)) :: u16) OR ucast (0x400 :: u32) = push_bit 10 (of_nat (if odd e then e else e + 1))"
  proof -
    have "e \<in> set [1..<31]" using e(2,3) by simp
    with carry_table show ?thesis by (simp only: list_all_iff)
  qed
  ultimately show ?thesis unfolding c by (simp only: add_diff_cancel_right' or.assoc)
qed

lemma f16_rounding_carry_lost_witness:
  "f32_to_f16_bits 0x3FFFFFFF = 0x3C00 \<and> f16_bits_to_f32 0x3C00 = 0x3F800000 \<and> f32_to_f16_bits 0x40000000 = 0x4000"
proof -
  have "f32_to_f16_bits 0x3FFFFFFF = ucast (drop_bit 16 (0x3FFFFFFF :: u32) AND 0x8000) OR push_bit 10 (of_nat (if odd (15 :: nat) then 15 else 15 + 1))"
    by (rule f16_rounding_carry_lost) (code_simp+)
  also have "\<dots> = 0x3C00" by code_simp
  finally show ?thesis by (simp, code_simp)
qed

section \<open>Buffers: what a quantized tensor decodes to\<close>

lemma pack2_lo: "pack2 a b AND 0x0F = a AND 0x0F"
  unfolding pack2_def masks by (rule bit_eqI) (auto simp: bit_simps)

lemma pack2_hi: "drop_bit 4 (pack2 a b) = b AND 0x0F"
  unfolding pack2_def masks by (rule bit_eqI) (auto simp: bit_simps)

lemma un_le16: "un_le16 (ucast w) (ucast (drop_bit 8 w)) = w"
  unfolding un_le16_def by (rule bit_eqI) (auto simp: bit_simps)

lemma nibble: "0 \<le> q \<Longrightarrow> q < 16 \<Longrightarrow> uint ((word_of_int q :: u8) AND 0x0F) = q"
proof -
  assume q: "0 \<le> q" "q < 16"
  have "list_all (\<lambda>q. uint ((word_of_int q :: u8) AND 0x0F) = q) [0..15]" by code_simp
  moreover have "q \<in> set [0..15]" using q by simp
  ultimately show ?thesis by (simp only: list_all_iff)
qed

text \<open>Writing equal blocks one after the other.\<close>

definition overlay :: "nat \<Rightarrow> 'a list \<Rightarrow> 'a list \<Rightarrow> 'a list" where
  "overlay p bs xs = take p xs @ bs @ drop (p + length bs) xs"

lemma write_at_in: "p + length bs \<le> length xs \<Longrightarrow> write_at p bs xs = overlay p bs xs"
  by (auto simp: write_at_def zeros_def overlay_def)

lemma length_overlay: "p + length bs \<le> length xs \<Longrightarrow> length (overlay p bs xs) = length xs"
  by (simp add: overlay_def)

lemma length_blocks: "(\<And>k. k < n \<Longrightarrow> length (blk k) = h) \<Longrightarrow> length (concat (map blk [0..<n])) = n * h"
  by (induction n) auto

lemma overlay_blocks:
  assumes "\<And>k. k < n \<Longrightarrow> length (blk k) = h"
  shows "n * h \<le> length xs \<Longrightarrow> foldl (\<lambda>xs k. overlay (k * h) (blk k) xs) xs [0..<n] = concat (map blk [0..<n]) @ drop (n * h) xs"
  using assms
proof (induction n)
  case (Suc n)
  have l: "length (concat (map blk [0..<n])) = n * h" by (rule length_blocks) (simp add: Suc.prems)
  have IH: "foldl (\<lambda>xs k. overlay (k * h) (blk k) xs) xs [0..<n] = concat (map blk [0..<n]) @ drop (n * h) xs"
    using Suc by simp
  have "overlay (n * h) (blk n) (concat (map blk [0..<n]) @ drop (n * h) xs) = concat (map blk [0..<n]) @ blk n @ drop (n * h + h) xs"
    using l Suc.prems(2) [of n] by (simp add: overlay_def add.commute)
  with IH show ?case by (simp add: add.commute)
qed simp

lemma update_run:
  "p + m \<le> length xs \<Longrightarrow> foldl (\<lambda>xs i. xs[p + i := f i]) xs [0..<m] = overlay p (map f [0..<m]) xs"
proof (induction m)
  case (Suc m)
  have "drop (p + m) xs = xs ! (p + m) # drop (Suc (p + m)) xs" using Suc.prems by (intro Cons_nth_drop_Suc [symmetric]) simp
  with Suc show ?case by (simp add: overlay_def list_update_append min_def)
qed (simp add: overlay_def)

lemma update_pairs:
  "p + 2 * m \<le> length xs \<Longrightarrow>
   foldl (\<lambda>xs i. xs[p + 2 * i := f (2 * i), p + 2 * i + 1 := f (2 * i + 1)]) xs [0..<m] = overlay p (map f [0..<2 * m]) xs"
proof (induction m)
  case (Suc m)
  have d: "drop (p + 2 * m) xs = xs ! (p + 2 * m) # xs ! (p + 2 * m + 1) # drop (p + 2 * m + 2) xs"
    using Suc.prems Cons_nth_drop_Suc [of "p + 2 * m" xs] Cons_nth_drop_Suc [of "p + 2 * m + 1" xs] by simp
  have "foldl (\<lambda>xs i. xs[p + 2 * i := f (2 * i), p + 2 * i + 1 := f (2 * i + 1)]) xs [0..<m] = overlay p (map f [0..<2 * m]) xs"
    using Suc by simp
  moreover have "(overlay p (map f [0..<2 * m]) xs)[p + 2 * m := f (2 * m), p + 2 * m + 1 := f (2 * m + 1)] =
      overlay p (map f [0..<2 * m] @ [f (2 * m), f (2 * m + 1)]) xs"
    using Suc.prems by (simp add: overlay_def d list_update_append min_def)
  ultimately show ?case by simp
qed (simp add: overlay_def)

lemma blocks_map: "concat (map (\<lambda>k. map (\<lambda>i. f (k * h + i)) [0..<h]) [0..<n]) = map f [0..<n * h]"
proof (induction n)
  case (Suc n)
  have "[0..<Suc n * h] = [0..<n * h] @ map (\<lambda>i. n * h + i) [0..<h]"
    using upt_add_eq_append [of 0 "n * h" h] by (simp add: map_add_upt add.commute)
  with Suc show ?case by simp
qed simp

lemma product_index: "map (\<lambda>(r, g). r * G + g) (List.product [0..<R] [0..<G]) = [0..<R * G]"
proof -
  have "map (\<lambda>(r, g). r * G + g) (List.product rs [0..<G]) = concat (map (\<lambda>r. map (\<lambda>g. r * G + g) [0..<G]) rs)" for rs
    by (induction rs) (simp_all add: comp_def)
  then show ?thesis using blocks_map [of "\<lambda>x. x" G R] by simp
qed

text \<open>Group \<open>k\<close> of a tensor: its values, its scale and its bytes.\<close>

definition vals_of :: "'f list \<Rightarrow> nat \<Rightarrow> nat \<Rightarrow> 'f list" where
  "vals_of src grp k = take grp (drop (k * grp) src)"

definition nib_of :: "'f f32_ops \<Rightarrow> 'f \<Rightarrow> 'f \<Rightarrow> int" where
  "nib_of F scale x = f_round_clamp F (f_div F x scale) + 8"

definition scale_bits :: "'f f32_ops \<Rightarrow> 'f list \<Rightarrow> nat \<Rightarrow> nat \<Rightarrow> u16" where
  "scale_bits F src grp k = f32_to_f16_bits (f_to_bits F (group_scale F (vals_of src grp k)))"

definition byte_of :: "'f f32_ops \<Rightarrow> 'f list \<Rightarrow> nat \<Rightarrow> nat \<Rightarrow> nat \<Rightarrow> u8" where
  "byte_of F src grp k i = (let vals = vals_of src grp k; s = group_scale F vals
     in pack2 (word_of_int (nib_of F s (vals ! (2 * i)))) (word_of_int (nib_of F s (vals ! (2 * i + 1)))))"

lemma quantize_pairs_data:
  "snd (quantize_pairs F s base vals is (err, data)) =
   foldl (\<lambda>d i. d[base + i := pack2 (word_of_int (nib_of F s (vals ! (2 * i)))) (word_of_int (nib_of F s (vals ! (2 * i + 1))))]) data is"
proof (induction "is" arbitrary: err data)
  case (Cons i "is")
  then show ?case by (simp add: quantize_one_def nib_of_def Let_def)
qed simp

lemma le16_length [simp]: "length (le16 w) = 2"
  by (simp add: le16_def)

lemma cols_half: "even grp \<Longrightarrow> (r * (G * grp) div 2 + g * grp div 2 :: nat) = (r * G + g) * (grp div 2)"
  by (auto elim!: evenE simp: algebra_simps)

text \<open>One group step, by the group's number.\<close>

lemma quantize_group_step:
  assumes cols: "cols = G * grp" "0 < grp" "even grp" and k: "r * G + g < n" and len: "length sc = n * 2" "length da = n * (grp div 2)"
  shows "\<exists>err'. quantize_group F src cols grp (err, sc, da) (r, g) =
    (err', overlay ((r * G + g) * 2) (le16 (scale_bits F src grp (r * G + g))) sc,
      overlay ((r * G + g) * (grp div 2)) (map (byte_of F src grp (r * G + g)) [0..<grp div 2]) da)"
proof -
  let ?k = "r * G + g"
  have kn: "Suc ?k * 2 \<le> n * 2" "Suc ?k * (grp div 2) \<le> n * (grp div 2)" using k by (simp_all only: mult_le_mono1 Suc_leI)
  have G: "cols div grp = G" using cols by simp
  have v: "take grp (drop (r * cols + g * grp) src) = vals_of src grp ?k" by (simp add: vals_of_def cols algebra_simps)
  let ?s = "group_scale F (vals_of src grp ?k)"
  obtain e' d' where qp: "quantize_pairs F ?s (?k * (grp div 2)) (vals_of src grp ?k) [0..<grp div 2] (err, da) = (e', d')" by fastforce
  then have "d' = snd (quantize_pairs F ?s (?k * (grp div 2)) (vals_of src grp ?k) [0..<grp div 2] (err, da))" by simp
  also have "\<dots> = overlay (?k * (grp div 2)) (map (byte_of F src grp ?k) [0..<grp div 2]) da"
    unfolding quantize_pairs_data using kn(2) len(2)
    by (subst update_run) (simp_all add: byte_of_def [abs_def] Let_def add.commute)
  finally have d': "d' = overlay (?k * (grp div 2)) (map (byte_of F src grp ?k) [0..<grp div 2]) da" .
  have "write_at (?k * 2) (le16 (f32_to_f16_bits (f_to_bits F ?s))) sc = overlay (?k * 2) (le16 (scale_bits F src grp ?k)) sc"
    using kn(1) len(1) by (simp add: write_at_in scale_bits_def)
  moreover have b: "r * cols div 2 + g * grp div 2 = ?k * (grp div 2)" using cols_half [OF cols(3)] cols(1) by simp
  have "quantize_group F src cols grp (err, sc, da) (r, g) =
      (e', write_at (?k * 2) (le16 (f32_to_f16_bits (f_to_bits F ?s))) sc, d')"
    by (simp only: quantize_group_def prod.case Let_def v G b qp)
  ultimately show ?thesis using d' by metis
qed

lemma quantize_loop:
  assumes cols: "cols = G * grp" "0 < grp" "even grp" and len: "length sc = n * 2" "length da = n * (grp div 2)"
    and ks: "\<forall>(r, g) \<in> set ks. r * G + g < n"
  shows "\<exists>err'. foldl (quantize_group F src cols grp) (err, sc, da) ks =
    (err', foldl (\<lambda>xs k. overlay (k * 2) (le16 (scale_bits F src grp k)) xs) sc (map (\<lambda>(r, g). r * G + g) ks),
      foldl (\<lambda>xs k. overlay (k * (grp div 2)) (map (byte_of F src grp k) [0..<grp div 2]) xs) da (map (\<lambda>(r, g). r * G + g) ks))"
  using len ks
proof (induction ks arbitrary: err sc da)
  case (Cons rg ks)
  obtain r g where rg: "rg = (r, g)" by (cases rg)
  have k: "r * G + g < n" using Cons.prems(3) rg by simp
  then have kn: "Suc (r * G + g) * 2 \<le> n * 2" "Suc (r * G + g) * (grp div 2) \<le> n * (grp div 2)"
    by (simp_all only: mult_le_mono1 Suc_leI)
  obtain err' where st: "quantize_group F src cols grp (err, sc, da) (r, g) =
    (err', overlay ((r * G + g) * 2) (le16 (scale_bits F src grp (r * G + g))) sc,
      overlay ((r * G + g) * (grp div 2)) (map (byte_of F src grp (r * G + g)) [0..<grp div 2]) da)"
    using quantize_group_step [OF cols k Cons.prems(1,2), of F src err] by (elim exE)
  have l: "length (overlay ((r * G + g) * 2) (le16 (scale_bits F src grp (r * G + g))) sc) = n * 2"
    "length (overlay ((r * G + g) * (grp div 2)) (map (byte_of F src grp (r * G + g)) [0..<grp div 2]) da) = n * (grp div 2)"
    using kn Cons.prems(1,2) by (simp_all add: length_overlay)
  show ?case using Cons.IH [OF l] Cons.prems(3) by (simp add: rg st)
qed simp

definition q4_layout :: "'f f32_ops \<Rightarrow> 'f list \<Rightarrow> nat \<Rightarrow> nat \<Rightarrow> bytes" where
  "q4_layout F src grp n =
     concat (map (\<lambda>k. le16 (scale_bits F src grp k)) [0..<n]) @
     concat (map (\<lambda>k. map (byte_of F src grp k) [0..<grp div 2]) [0..<n])"

lemma q4_bytes_groups: "even grp \<Longrightarrow> q4_bytes rows (G * grp) grp = (if grp = 0 then rows * (G * grp) div 2 else rows * G * 2 + rows * G * (grp div 2))"
  by (auto simp: q4_bytes_def elim!: evenE)

lemma quantize_layout:
  assumes q: "q4_quantize F src rows cols grp dst = Ok (err, buf)"
  shows "0 < grp" "even grp" "cols = cols div grp * grp" "length src = rows * cols" "buf = q4_layout F src grp (rows * (cols div grp))"
    "length buf = q4_bytes rows cols grp"
proof -
  let ?G = "cols div grp" and ?h = "grp div 2"
  let ?n = "rows * ?G"
  have c: "grp \<noteq> 0" "grp mod 8 = 0" "cols mod grp = 0" "length src = rows * cols" "length dst = q4_bytes rows cols grp"
    using q by (auto simp: q4_quantize_def split: if_splits)
  show g: "0 < grp" "even grp" "cols = ?G * grp" "length src = rows * cols"
    using c by (auto simp: minus_mod_eq_div_mult [symmetric])
  have qb: "q4_bytes rows cols grp = ?n * 2 + ?n * ?h"
    using q4_bytes_groups [OF g(2), of rows ?G] c(1) unfolding g(3) [symmetric] by simp
  have len: "length (take (?n * 2) dst) = ?n * 2" "length (drop (?n * 2) dst) = ?n * ?h" using c(5) qb by simp_all
  have ks: "\<forall>(r, g) \<in> set (List.product [0..<rows] [0..<?G]). r * ?G + g < ?n"
  proof clarify
    fix r g assume "(r, g) \<in> set (List.product [0..<rows] [0..<?G])"
    then have "Suc r * ?G \<le> ?n" "g < ?G" by (auto intro: mult_le_mono1 simp del: mult_Suc)
    then show "r * ?G + g < ?n" by simp
  qed
  obtain e' where f: "foldl (quantize_group F src cols grp) (f_zero F, take (?n * 2) dst, drop (?n * 2) dst) (List.product [0..<rows] [0..<?G]) =
    (e', foldl (\<lambda>xs k. overlay (k * 2) (le16 (scale_bits F src grp k)) xs) (take (?n * 2) dst) [0..<?n],
      foldl (\<lambda>xs k. overlay (k * ?h) (map (byte_of F src grp k) [0..<?h]) xs) (drop (?n * 2) dst) [0..<?n])"
    using quantize_loop [OF g(3,1,2) len ks, of F src "f_zero F"] unfolding product_index by (elim exE)
  have s: "foldl (\<lambda>xs k. overlay (k * 2) (le16 (scale_bits F src grp k)) xs) (take (?n * 2) dst) [0..<?n] =
      concat (map (\<lambda>k. le16 (scale_bits F src grp k)) [0..<?n])"
    using len(1) by (subst overlay_blocks) simp_all
  have d: "foldl (\<lambda>xs k. overlay (k * ?h) (map (byte_of F src grp k) [0..<?h]) xs) (drop (?n * 2) dst) [0..<?n] =
      concat (map (\<lambda>k. map (byte_of F src grp k) [0..<?h]) [0..<?n])"
    using len(2) by (subst overlay_blocks) simp_all
  show b: "buf = q4_layout F src grp ?n"
    using q c f s d by (simp add: q4_quantize_def Let_def q4_layout_def)
  have "length (concat (map (\<lambda>k. le16 (scale_bits F src grp k)) [0..<?n])) = ?n * 2" by (rule length_blocks) simp
  moreover have "length (concat (map (\<lambda>k. map (byte_of F src grp k) [0..<?h]) [0..<?n])) = ?n * ?h" by (rule length_blocks) simp
  ultimately show "length buf = q4_bytes rows cols grp" unfolding b q4_layout_def qb by simp
qed

text \<open>What the dequantizer computes for element \<open>x\<close> of group \<open>k\<close>.\<close>

definition decoded :: "'f f32_ops \<Rightarrow> bytes \<Rightarrow> bytes \<Rightarrow> nat \<Rightarrow> nat \<Rightarrow> nat \<Rightarrow> 'f" where
  "decoded F scales data grp k x =
     (let b = data ! (k * (grp div 2) + x div 2)
      in f_mul F (f_of_int F (uint (if even x then b AND 0x0F else drop_bit 4 b) - 8))
           (f_of_bits F (f16_bits_to_f32 (un_le16 (scales ! (k * 2)) (scales ! (k * 2 + 1))))))"

lemma blocks_nth:
  "(\<And>k. k < n \<Longrightarrow> length (blk k) = h) \<Longrightarrow> k < n \<Longrightarrow> i < h \<Longrightarrow> concat (map blk [0..<n]) ! (k * h + i) = blk k ! i"
proof (induction n)
  case (Suc n)
  have l: "length (concat (map blk [0..<n])) = n * h" by (rule length_blocks) (simp add: Suc.prems)
  show ?case
  proof (cases "k < n")
    case True
    then have "Suc k * h \<le> n * h" by (intro mult_le_mono1) simp
    then have "k * h + i < n * h" using Suc.prems(3) by simp
    then show ?thesis using Suc True l by (simp add: nth_append)
  next
    case False
    then have "k = n" using Suc.prems(2) by simp
    then show ?thesis using l by (simp add: nth_append)
  qed
qed simp

lemma dequantize_group_step:
  assumes cols: "cols = G * grp" "0 < grp" "even grp" and k: "Suc (r * G + g) * grp \<le> length out"
  shows "dequantize_group F scales data cols grp out (r, g) =
    overlay ((r * G + g) * grp) (map (decoded F scales data grp (r * G + g)) [0..<grp]) out"
proof -
  let ?k = "r * G + g"
  have G: "cols div grp = G" using cols by simp
  have p: "r * cols + g * grp = ?k * grp" by (simp add: cols algebra_simps)
  have b: "r * cols div 2 + g * grp div 2 = ?k * (grp div 2)" using cols_half [OF cols(3)] cols(1) by simp
  have two: "2 * (grp div 2) = grp" using cols(3) by simp
  have "dequantize_group F scales data cols grp out (r, g) =
      foldl (\<lambda>out i. out[?k * grp + 2 * i := decoded F scales data grp ?k (2 * i), ?k * grp + 2 * i + 1 := decoded F scales data grp ?k (2 * i + 1)])
        out [0..<grp div 2]"
    by (simp only: dequantize_group_def prod.case Let_def G b p decoded_def) simp
  also have "\<dots> = overlay (?k * grp) (map (decoded F scales data grp ?k) [0..<2 * (grp div 2)]) out"
    using k two by (intro update_pairs) simp
  finally show ?thesis by (simp only: two)
qed

lemma dequantize_loop:
  assumes cols: "cols = G * grp" "0 < grp" "even grp" and "\<forall>(r, g) \<in> set ks. Suc (r * G + g) * grp \<le> length out"
  shows "foldl (dequantize_group F scales data cols grp) out ks =
    foldl (\<lambda>xs k. overlay (k * grp) (map (decoded F scales data grp k) [0..<grp]) xs) out (map (\<lambda>(r, g). r * G + g) ks)"
  using assms(4)
proof (induction ks arbitrary: out)
  case (Cons rg ks)
  obtain r g where rg: "rg = (r, g)" by (cases rg)
  have k: "Suc (r * G + g) * grp \<le> length out" using Cons.prems rg by simp
  then have "length (overlay ((r * G + g) * grp) (map (decoded F scales data grp (r * G + g)) [0..<grp]) out) = length out"
    by (intro length_overlay) simp
  with Cons.IH Cons.prems dequantize_group_step [OF cols k] show ?case by (simp add: rg)
qed simp

lemma decoded_layout:
  assumes F: "\<And>x. - 8 \<le> f_round_clamp F x \<and> f_round_clamp F x \<le> 7" and g: "even grp" and k: "k < n" "x < grp" and len: "n * grp \<le> length src"
  shows "decoded F (concat (map (\<lambda>k. le16 (scale_bits F src grp k)) [0..<n])) (concat (map (\<lambda>k. map (byte_of F src grp k) [0..<grp div 2]) [0..<n])) grp k x =
    f_mul F (f_of_int F (f_round_clamp F (f_div F (src ! (k * grp + x)) (group_scale F (vals_of src grp k)))))
      (f_of_bits F (f16_bits_to_f32 (scale_bits F src grp k)))"
proof -
  let ?S = "concat (map (\<lambda>k. le16 (scale_bits F src grp k)) [0..<n])" and ?D = "concat (map (\<lambda>k. map (byte_of F src grp k) [0..<grp div 2]) [0..<n])"
  let ?vals = "vals_of src grp k"
  let ?q = "nib_of F (group_scale F ?vals) (?vals ! x)"
  have s: "?S ! (k * 2) = ucast (scale_bits F src grp k)" "?S ! (k * 2 + 1) = ucast (drop_bit 8 (scale_bits F src grp k))"
    using blocks_nth [of n "\<lambda>k. le16 (scale_bits F src grp k)" 2 k 0] blocks_nth [of n "\<lambda>k. le16 (scale_bits F src grp k)" 2 k 1] k(1)
    by (simp_all add: le16_def)
  have x2: "x div 2 < grp div 2" using k(2) g by (auto elim!: evenE)
  then have d: "?D ! (k * (grp div 2) + x div 2) = byte_of F src grp k (x div 2)"
    using blocks_nth [of n "\<lambda>k. map (byte_of F src grp k) [0..<grp div 2]" "grp div 2" k "x div 2"] k(1) by simp
  have q: "0 \<le> ?q" "?q < 16" using F [of "f_div F (?vals ! x) (group_scale F ?vals)"] by (simp_all add: nib_of_def)
  have n: "uint (if even x then byte_of F src grp k (x div 2) AND 0x0F else drop_bit 4 (byte_of F src grp k (x div 2))) = ?q"
    using nibble [OF q] by (auto simp: byte_of_def Let_def pack2_lo pack2_hi elim!: evenE oddE)
  have "Suc k * grp \<le> n * grp" using k(1) by (intro mult_le_mono1) simp
  then have "?vals ! x = src ! (k * grp + x)" using k(2) len by (simp add: vals_of_def)
  then show ?thesis unfolding decoded_def d s n Let_def by (simp add: nib_of_def un_le16)
qed

lemma dequantize_all:
  assumes g: "0 < grp" "even grp" "cols = cols div grp * grp" and out: "length out = rows * cols"
    and len: "length buf = q4_bytes rows cols grp" "length S = rows * (cols div grp) * 2" and buf: "buf = S @ D"
  shows "q4_dequantize F buf rows cols grp out = Ok (map (\<lambda>j. decoded F S D grp (j div grp) (j mod grp)) [0..<rows * cols])"
proof -
  let ?G = "cols div grp"
  let ?n = "rows * ?G"
  have td: "take (?n * 2) buf = S" "drop (?n * 2) buf = D" using len(2) by (simp_all add: buf)
  have m: "cols mod grp = 0" using g(3) by (metis mod_mult_self2_is_0)
  have ng: "?n * grp = rows * cols" using g(3) by (simp add: mult.assoc)
  have ks: "\<forall>(r, g) \<in> set (List.product [0..<rows] [0..<?G]). Suc (r * ?G + g) * grp \<le> length out"
  proof clarify
    fix r g assume "(r, g) \<in> set (List.product [0..<rows] [0..<?G])"
    then have "Suc r * ?G \<le> ?n" "g < ?G" by (auto intro: mult_le_mono1 simp del: mult_Suc)
    then have "Suc (r * ?G + g) \<le> ?n" by simp
    then have "Suc (r * ?G + g) * grp \<le> ?n * grp" by (rule mult_le_mono1)
    then show "Suc (r * ?G + g) * grp \<le> length out" by (simp only: ng out)
  qed
  have "q4_dequantize F buf rows cols grp out =
      Ok (foldl (\<lambda>xs k. overlay (k * grp) (map (decoded F S D grp k) [0..<grp]) xs) out [0..<?n])"
    using g(1) len(1) m out by (simp add: q4_dequantize_def Let_def td dequantize_loop [OF g(3,1,2) ks] product_index)
  also have "foldl (\<lambda>xs k. overlay (k * grp) (map (decoded F S D grp k) [0..<grp]) xs) out [0..<?n] =
      concat (map (\<lambda>k. map (decoded F S D grp k) [0..<grp]) [0..<?n])"
  proof -
    have le: "length out = ?n * grp" using ng out by (simp only:)
    show ?thesis by (subst overlay_blocks) (simp_all only: le length_map length_upt diff_zero order_refl drop_all append_Nil2)
  qed
  also have "\<dots> = concat (map (\<lambda>k. map (\<lambda>i. decoded F S D grp ((k * grp + i) div grp) ((k * grp + i) mod grp)) [0..<grp]) [0..<?n])"
    using g(1) by (intro arg_cong [where f = concat] map_cong refl) simp
  also have "\<dots> = map (\<lambda>j. decoded F S D grp (j div grp) (j mod grp)) [0..<?n * grp]" by (rule blocks_map)
  finally show ?thesis unfolding ng .
qed

text \<open>C14: Quantizing and dequantizing keep every element in its place. When \<open>q4_quantize\<close> accepts a tensor
  (any group size that is a multiple of 8 and divides the columns), \<open>q4_dequantize\<close> accepts the buffer
  it wrote, and element \<open>j\<close> of the result is the clamped, rounded quotient of source element \<open>j\<close> by the
  scale of its own group, times that scale as stored in half precision.\<close>

theorem q4_quantize_dequantize:
  assumes q: "q4_quantize F src rows cols grp dst = Ok (err, buf)" and out: "length out = rows * cols"
    and F: "\<And>x. - 8 \<le> f_round_clamp F x \<and> f_round_clamp F x \<le> 7"
  shows "q4_dequantize F buf rows cols grp out = Ok (map (\<lambda>j. let scale = group_scale F (take grp (drop (j div grp * grp) src)) in
    f_mul F (f_of_int F (f_round_clamp F (f_div F (src ! j) scale))) (f16_round F scale)) [0..<rows * cols])"
proof -
  let ?n = "rows * (cols div grp)"
  let ?S = "concat (map (\<lambda>k. le16 (scale_bits F src grp k)) [0..<?n])" and ?D = "concat (map (\<lambda>k. map (byte_of F src grp k) [0..<grp div 2]) [0..<?n])"
  note L = quantize_layout [OF q]
  have lS: "length ?S = ?n * 2" by (rule length_blocks) simp
  have ng: "?n * grp = rows * cols" using L(3) by (simp add: mult.assoc)
  have "q4_dequantize F buf rows cols grp out = Ok (map (\<lambda>j. decoded F ?S ?D grp (j div grp) (j mod grp)) [0..<rows * cols])"
    by (rule dequantize_all [OF L(1,2,3) out L(6) lS L(5) [unfolded q4_layout_def]])
  also have "\<dots> = Ok (map (\<lambda>j. let scale = group_scale F (take grp (drop (j div grp * grp) src)) in
    f_mul F (f_of_int F (f_round_clamp F (f_div F (src ! j) scale))) (f16_round F scale)) [0..<rows * cols])"
    unfolding res.inject
  proof (rule map_cong [OF refl])
    fix j assume "j \<in> set [0..<rows * cols]"
    then have "j < ?n * grp" by (simp only: ng set_upt atLeastLessThan_iff)
    then have "j div grp < ?n" "j mod grp < grp" using L(1) by (simp_all add: less_mult_imp_div_less)
    from decoded_layout [OF F L(2) this, of src]
    show "decoded F ?S ?D grp (j div grp) (j mod grp) = (let scale = group_scale F (take grp (drop (j div grp * grp) src)) in
      f_mul F (f_of_int F (f_round_clamp F (f_div F (src ! j) scale))) (f16_round F scale))"
      using ng L(4) by (simp add: scale_bits_def vals_of_def f16_round_def Let_def)
  qed
  finally show ?thesis .
qed

text \<open>Integers in place of floats, for examples.\<close>

definition int_ops :: "int f32_ops" where
  "int_ops = \<lparr>f_zero = 0, f_abs = abs, f_max = max, f_gt = (\<lambda>a b. b < a), f_div = (div), f_mul = (*), f_sub = (-), f_of_int = (\<lambda>i. i),
     f_round_clamp = (\<lambda>x. max (- 8) (min 7 x)), f_to_bits = (\<lambda>x. word_of_int x), f_of_bits = uint, f_seven = 7, f_1em8 = 0, f_1em7 = 1\<rparr>"

lemma q4_quantize_dequantize_witness:
  "\<exists>err buf. q4_quantize int_ops [1, 2, 3, 4, 5, 6, 7, -8] 1 8 8 (replicate 6 0) = Ok (err, buf) \<and>
     (\<exists>vals. q4_dequantize int_ops buf 1 8 8 (replicate 8 0) = Ok vals \<and> length vals = 8)"
proof -
  let ?q = "q4_quantize int_ops [1, 2, 3, 4, 5, 6, 7, -8] 1 8 8 (replicate 6 0)"
  obtain err buf where q: "?q = Ok (err, buf)"
    by (simp add: q4_quantize_def q4_bytes_def Let_def case_prod_beta)
  have "- 8 \<le> f_round_clamp int_ops x \<and> f_round_clamp int_ops x \<le> 7" for x by (simp add: int_ops_def)
  from q4_quantize_dequantize [OF q _ this, of "replicate 8 0"] q show ?thesis by simp
qed

end
