(* ===== verification/Sampling.thy ===== *)
theory Sampling
  imports Quant "HOL-Library.Multiset"
begin

unbundle bit_operations_syntax

text \<open>
  Choices over float vectors: the token sampler (\<open>llmpager-run/src/sample.rs\<close>) and the two routers
  (\<open>top_k_softmax\<close> of \<open>decode.rs\<close>, \<open>sigmoid_topk\<close> of \<open>kimi.rs\<close>). The float operations are fields
  of an argument; \<open>f32_order\<close> says the little that is assumed of the comparison: asymmetric, and
  negatively transitive away from NaN. \<open>partial_cmp().unwrap()\<close> panics on NaN. The routers' stable
  sort is insertion sort; the sampler's unstable sort is an argument, known only to sort.
\<close>

section \<open>Floats\<close>

record 'f f32_math = "'f f32_ops" +
  m_add :: "'f \<Rightarrow> 'f \<Rightarrow> 'f"
  m_exp :: "'f \<Rightarrow> 'f"
  m_neg :: "'f \<Rightarrow> 'f"
  m_ge :: "'f \<Rightarrow> 'f \<Rightarrow> bool"
  m_eq :: "'f \<Rightarrow> 'f \<Rightarrow> bool"
  m_nan :: "'f \<Rightarrow> bool"
  m_min :: 'f
  m_one :: 'f
  m_unit :: "u64 \<Rightarrow> 'f"

definition f32_order :: "('f, 'm) f32_math_scheme \<Rightarrow> bool" where
  "f32_order F \<longleftrightarrow> (\<forall>x y. f_gt F x y \<longrightarrow> \<not> f_gt F y x) \<and>
     (\<forall>x y z. \<not> m_nan F x \<longrightarrow> \<not> m_nan F y \<longrightarrow> \<not> m_nan F z \<longrightarrow> \<not> f_gt F x y \<longrightarrow> \<not> f_gt F y z \<longrightarrow> \<not> f_gt F x z)"

definition m_sum :: "('f, 'm) f32_math_scheme \<Rightarrow> 'f list \<Rightarrow> 'f" where
  "m_sum F xs = foldl (m_add F) (f_zero F) xs"

text \<open>The loop of \<open>argmax\<close>, also at the end of \<open>step\<close> and \<open>step_multi\<close>.\<close>

fun argmax_from :: "('f, 'm) f32_math_scheme \<Rightarrow> nat \<Rightarrow> u32 \<times> 'f \<Rightarrow> 'f list \<Rightarrow> u32 \<times> 'f" where
  "argmax_from F i b [] = b"
| "argmax_from F i (best, bestv) (v # vs) =
     argmax_from F (i + 1) (if f_gt F v bestv then (of_nat i, v) else (best, bestv)) vs"

definition argmax :: "('f, 'm) f32_math_scheme \<Rightarrow> 'f list \<Rightarrow> u32" where
  "argmax F logits = fst (argmax_from F 0 (0, m_min F) logits)"

section \<open>The sampler\<close>

record 'f sampling =
  s_temperature :: 'f
  s_top_p :: 'f
  s_top_k :: nat
  s_repeat_penalty :: 'f
  s_repeat_window :: nat
  s_seed :: u64

definition is_greedy :: "('f, 'm) f32_math_scheme \<Rightarrow> 'f sampling \<Rightarrow> bool" where
  "is_greedy F s = m_ge F (f_zero F) (s_temperature s)"

definition rng_new :: "u64 \<Rightarrow> u64" where
  "rng_new seed = max seed 1"

definition xorshift :: "u64 \<Rightarrow> u64" where
  "xorshift x0 = (let x1 = x0 XOR push_bit 13 x0; x2 = x1 XOR drop_bit 7 x1 in x2 XOR push_bit 17 x2)"

definition unit_draw :: "('f, 'm) f32_math_scheme \<Rightarrow> u64 \<Rightarrow> 'f \<times> u64" where
  "unit_draw F x = (let x' = xorshift x in (m_unit F (drop_bit 11 x'), x'))"

fun penalise :: "('f, 'm) f32_math_scheme \<Rightarrow> 'f \<Rightarrow> u32 list \<Rightarrow> 'f list \<Rightarrow> 'f list option" where
  "penalise F p [] adj = Some adj"
| "penalise F p (t # ts) adj =
     (if length adj \<le> unat t then None
      else let v = adj ! unat t in
        penalise F p ts (adj[unat t := if f_gt F v (f_zero F) then f_div F v p else f_mul F v p]))"

text \<open>How many candidates the nucleus keeps.\<close>

fun nucleus :: "('f, 'm) f32_math_scheme \<Rightarrow> 'f \<Rightarrow> nat \<Rightarrow> nat \<Rightarrow> 'f \<Rightarrow> 'f list \<Rightarrow> nat" where
  "nucleus F p n i acc [] = n"
| "nucleus F p n i acc (q # qs) = (let a = m_add F acc q in if m_ge F a p then i + 1 else nucleus F p n (i + 1) a qs)"

text \<open>The draw: the first candidate whose cumulated probability exceeds \<open>r\<close>, else the last.\<close>

fun draw :: "('f, 'm) f32_math_scheme \<Rightarrow> 'f \<Rightarrow> nat \<Rightarrow> 'f \<Rightarrow> 'f list \<Rightarrow> nat option" where
  "draw F r i acc [] = None"
| "draw F r i acc (q # qs) = (let a = m_add F acc q in if f_gt F a r then Some i else draw F r (i + 1) a qs)"

definition rank_le :: "('f, 'm) f32_math_scheme \<Rightarrow> 'f list \<Rightarrow> nat \<Rightarrow> nat \<Rightarrow> bool" where
  "rank_le F adj a b \<longleftrightarrow> \<not> f_gt F (adj ! b) (adj ! a)"

definition softmax_at :: "('f, 'm) f32_math_scheme \<Rightarrow> 'f \<Rightarrow> 'f list \<Rightarrow> nat list \<Rightarrow> 'f list" where
  "softmax_at F temp adj idx =
     (let m = adj ! (idx ! 0);
          e = map (\<lambda>i. m_exp F (f_div F (f_sub F (adj ! i) m) temp)) idx
      in map (\<lambda>x. f_div F x (m_sum F e)) e)"

definition nucleus_cut :: "('f, 'm) f32_math_scheme \<Rightarrow> 'f \<Rightarrow> nat list \<Rightarrow> 'f list \<Rightarrow> nat list \<times> 'f list" where
  "nucleus_cut F top_p idx probs =
     (if f_gt F (m_one F) top_p then
        let keep = nucleus F top_p (length probs) 0 (f_zero F) probs; kept = take keep probs
        in (take keep idx, map (\<lambda>x. f_div F x (m_sum F kept)) kept)
      else (idx, probs))"

definition pick_token :: "('f, 'm) f32_math_scheme \<Rightarrow> nat list \<times> 'f list \<Rightarrow> u64 \<Rightarrow> u32 \<times> u64" where
  "pick_token F = (\<lambda>(idx, probs) rng.
     let (r, rng') = unit_draw F rng;
         k = (case draw F r 0 (f_zero F) probs of Some i \<Rightarrow> i | None \<Rightarrow> length probs - 1)
     in (of_nat (idx ! k), rng'))"

definition adjust :: "('f, 'm) f32_math_scheme \<Rightarrow> 'f sampling \<Rightarrow> u32 list \<Rightarrow> 'f list \<Rightarrow> 'f list option" where
  "adjust F s recent logits =
     (if m_eq F (s_repeat_penalty s) (m_one F) then Some logits
      else penalise F (s_repeat_penalty s) (drop (length recent - s_repeat_window s) recent) logits)"

text \<open>\<open>srt\<close> is \<open>sort_unstable_by\<close>. \<open>None\<close> is a panic.\<close>

definition top_candidates :: "('f, 'm) f32_math_scheme \<Rightarrow> ((nat \<Rightarrow> nat \<Rightarrow> bool) \<Rightarrow> nat list \<Rightarrow> nat list) \<Rightarrow> 'f sampling \<Rightarrow> 'f list \<Rightarrow> nat list" where
  "top_candidates F srt s adj =
     (let idx = srt (rank_le F adj) [0..<unat (of_nat (length adj) :: u32)]
      in if 0 < s_top_k s \<and> s_top_k s < length idx then take (s_top_k s) idx else idx)"

definition sample ::
  "('f, 'm) f32_math_scheme \<Rightarrow> ((nat \<Rightarrow> nat \<Rightarrow> bool) \<Rightarrow> nat list \<Rightarrow> nat list) \<Rightarrow> 'f list \<Rightarrow> u32 list \<Rightarrow> 'f sampling \<Rightarrow> u64
   \<Rightarrow> (u32 \<times> u64) option" where
  "sample F srt logits recent s rng =
     (if is_greedy F s \<and> m_eq F (s_repeat_penalty s) (m_one F) then Some (argmax F logits, rng)
      else case adjust F s recent logits of
        None \<Rightarrow> None
      | Some adj \<Rightarrow>
          if is_greedy F s then Some (argmax F adj, rng)
          else if 2 \<le> length adj \<and> list_ex (m_nan F) adj then None
          else let idx = top_candidates F srt s adj
               in if idx = [] then None
                  else Some (pick_token F (nucleus_cut F (s_top_p s) idx (softmax_at F (s_temperature s) adj idx)) rng))"

section \<open>The routers\<close>

fun insert_desc :: "('a \<Rightarrow> 'a \<Rightarrow> bool) \<Rightarrow> 'a \<Rightarrow> 'a list \<Rightarrow> 'a list" where
  "insert_desc gt x [] = [x]"
| "insert_desc gt x (y # ys) = (if gt y x then y # insert_desc gt x ys else x # y # ys)"

fun sort_desc :: "('a \<Rightarrow> 'a \<Rightarrow> bool) \<Rightarrow> 'a list \<Rightarrow> 'a list" where
  "sort_desc gt [] = []"
| "sort_desc gt (x # xs) = insert_desc gt x (sort_desc gt xs)"

definition softmax_probs :: "('f, 'm) f32_math_scheme \<Rightarrow> 'f list \<Rightarrow> 'f list" where
  "softmax_probs F logits =
     (let m = foldl (f_max F) (m_min F) logits;
          exps = map (\<lambda>v. m_exp F (f_sub F v m)) logits;
          z = m_sum F exps
      in map (\<lambda>e. f_div F e z) exps)"

definition top_k_softmax :: "('f, 'm) f32_math_scheme \<Rightarrow> 'f list \<Rightarrow> nat \<Rightarrow> bool \<Rightarrow> (u16 \<times> 'f) list option" where
  "top_k_softmax F logits k renorm =
     (let probs = map (\<lambda>(i, p). (of_nat i, p)) (enumerate 0 (softmax_probs F logits))
      in if 2 \<le> length probs \<and> list_ex (\<lambda>p. m_nan F (snd p)) probs then None
         else let top = take k (sort_desc (\<lambda>a b. f_gt F (snd a) (snd b)) probs)
              in Some (if renorm then map (\<lambda>p. (fst p, f_div F (snd p) (m_sum F (map snd top)))) top else top))"

definition sigmoid :: "('f, 'm) f32_math_scheme \<Rightarrow> 'f \<Rightarrow> 'f" where
  "sigmoid F v = f_div F (m_one F) (m_add F (m_one F) (m_exp F (m_neg F v)))"

definition sigmoid_topk :: "('f, 'm) f32_math_scheme \<Rightarrow> 'f list \<Rightarrow> 'f list \<Rightarrow> nat \<Rightarrow> bool \<Rightarrow> 'f \<Rightarrow> 'f \<Rightarrow> (u16 \<times> 'f) list option" where
  "sigmoid_topk F logits bias k renorm scaling min_weight =
     (let scores = map (sigmoid F) logits;
          n = length scores;
          key = (\<lambda>i. m_add F (scores ! i) (bias ! i))
      in if 2 \<le> n \<and> (length bias < n \<or> list_ex (\<lambda>i. m_nan F (key i)) [0..<n]) then None
         else let ranked = take k (sort_desc (\<lambda>a b. f_gt F (key a) (key b)) [0..<n]);
                  picks0 = map (\<lambda>i. (of_nat i, scores ! i)) ranked;
                  total = m_sum F (map snd picks0);
                  picks1 = (if renorm \<and> f_gt F total (f_zero F) then map (\<lambda>p. (fst p, f_div F (snd p) total)) picks0 else picks0);
                  picks2 = map (\<lambda>p. (fst p, f_mul F (snd p) scaling)) picks1
              in Some (if f_gt F min_weight (f_zero F) then filter (\<lambda>p. m_ge F (snd p) min_weight) picks2 else picks2))"

section \<open>Sorting\<close>

lemma mset_insert_desc: "mset (insert_desc gt x xs) = add_mset x (mset xs)"
  by (induction xs) auto

lemma mset_sort_desc: "mset (sort_desc gt xs) = mset xs"
  by (induction xs) (auto simp: mset_insert_desc)

lemma set_sort_desc: "set (sort_desc gt xs) = set xs"
  using mset_sort_desc by (metis set_mset_mset)

lemma length_sort_desc [simp]: "length (sort_desc gt xs) = length xs"
  using mset_sort_desc by (metis size_mset)

definition weak_order_on :: "'a set \<Rightarrow> ('a \<Rightarrow> 'a \<Rightarrow> bool) \<Rightarrow> bool" where
  "weak_order_on A gt \<longleftrightarrow> (\<forall>a b. gt a b \<longrightarrow> \<not> gt b a) \<and>
     (\<forall>a \<in> A. \<forall>b \<in> A. \<forall>c \<in> A. \<not> gt a b \<longrightarrow> \<not> gt b c \<longrightarrow> \<not> gt a c)"

lemma weak_orderD:
  assumes "weak_order_on A gt"
  shows "gt a b \<Longrightarrow> \<not> gt b a" "a \<in> A \<Longrightarrow> b \<in> A \<Longrightarrow> c \<in> A \<Longrightarrow> \<not> gt a b \<Longrightarrow> \<not> gt b c \<Longrightarrow> \<not> gt a c"
  using assms unfolding weak_order_on_def by blast+

lemma sorted_insert_desc:
  assumes w: "weak_order_on A gt"
  shows "sorted_wrt (\<lambda>a b. \<not> gt b a) xs \<Longrightarrow> set (x # xs) \<subseteq> A \<Longrightarrow> sorted_wrt (\<lambda>a b. \<not> gt b a) (insert_desc gt x xs)"
proof (induction xs)
  case (Cons y ys)
  have se: "set (insert_desc gt x ys) = insert x (set ys)" using mset_insert_desc by (metis set_mset_add_mset_insert set_mset_mset)
  show ?case
  proof (cases "gt y x")
    case True
    with Cons se weak_orderD(1) [OF w True] show ?thesis by auto
  next
    case False
    have "\<not> gt z x" if "z \<in> set ys" for z
      by (rule weak_orderD(2) [OF w, of z y x]) (use that False Cons.prems in auto)
    with False Cons.prems(1) show ?thesis by auto
  qed
qed simp

lemma sorted_sort_desc:
  assumes w: "weak_order_on A gt"
  shows "set xs \<subseteq> A \<Longrightarrow> sorted_wrt (\<lambda>a b. \<not> gt b a) (sort_desc gt xs)"
proof (induction xs)
  case (Cons x xs)
  then have "sorted_wrt (\<lambda>a b. \<not> gt b a) (sort_desc gt xs)" by simp
  from sorted_insert_desc [OF w this, of x] Cons.prems show ?case by (simp add: set_sort_desc)
qed simp

text \<open>Whatever stands at a position of a sorted list has fewer strictly greater elements than its position.\<close>

lemma fewer_above:
  assumes s: "sorted_wrt (\<lambda>a b. \<not> gt b a) xs" "distinct xs" and p: "p < length xs" and irr: "\<not> gt (xs ! p) (xs ! p)"
  shows "card {x \<in> set xs. gt x (xs ! p)} \<le> p"
proof -
  have "{x \<in> set xs. gt x (xs ! p)} \<subseteq> (!) xs ` {..<p}"
  proof
    fix x assume "x \<in> {x \<in> set xs. gt x (xs ! p)}"
    then obtain q where q: "q < length xs" "x = xs ! q" "gt (xs ! q) (xs ! p)" by (auto simp: in_set_conv_nth)
    have "\<not> p < q" using sorted_wrt_nth_less [OF s(1), of p q] q by blast
    moreover have "p \<noteq> q" using irr q(3) by auto
    ultimately show "x \<in> (!) xs ` {..<p}" using q(2) by auto
  qed
  then have "card {x \<in> set xs. gt x (xs ! p)} \<le> card ((!) xs ` {..<p})" by (intro card_mono) simp_all
  also have "\<dots> \<le> p" using card_image_le [of "{..<p}" "(!) xs"] by simp
  finally show ?thesis .
qed

section \<open>What the sampler returns\<close>

lemma xorshift_nonzero: "x \<noteq> 0 \<Longrightarrow> xorshift x \<noteq> 0"
proof -
  have up: "y XOR push_bit n y \<noteq> 0" if "y \<noteq> 0" "0 < n" for y :: u64 and n
  proof
    assume "y XOR push_bit n y = 0"
    then have e: "bit y i = bit (push_bit n y) i" for i using bit_xor_iff [of y "push_bit n y" i] by simp
    have "\<not> bit y i" for i
    proof (induction i rule: less_induct)
      case (less i)
      have "bit y i \<longleftrightarrow> n \<le> i \<and> i < 64 \<and> bit y (i - n)" using e [of i] by (auto simp: bit_push_bit_iff)
      with less [of "i - n"] that(2) show ?case by auto
    qed
    then have "y = 0" by (intro bit_eqI) simp
    with that show False by simp
  qed
  have down: "y XOR drop_bit n y \<noteq> 0" if "y \<noteq> 0" "0 < n" for y :: u64 and n
  proof
    assume "y XOR drop_bit n y = 0"
    then have e: "bit y i = bit (drop_bit n y) i" for i using bit_xor_iff [of y "drop_bit n y" i] by simp
    have "64 - i \<le> k \<Longrightarrow> \<not> bit y i" for i k
    proof (induction k arbitrary: i)
      case 0
      then show ?case using bit_imp_le_length [of y i] by auto
    next
      case (Suc k)
      have "64 - (i + n) \<le> k" using Suc.prems that(2) by simp
      from Suc.IH [OF this] show ?case using e [of i] by (simp only: bit_drop_bit_eq comp_def) (simp add: add.commute)
    qed
    then have "\<not> bit y i" for i by blast
    then have "y = 0" by (intro bit_eqI) simp
    with that show False by simp
  qed
  assume "x \<noteq> 0"
  then show ?thesis unfolding xorshift_def Let_def by (intro up down) simp_all
qed

definition sorts :: "('a \<Rightarrow> 'a \<Rightarrow> bool) \<Rightarrow> (('a \<Rightarrow> 'a \<Rightarrow> bool) \<Rightarrow> 'a list \<Rightarrow> 'a list) \<Rightarrow> bool" where
  "sorts le srt \<longleftrightarrow> (\<forall>xs. mset (srt le xs) = mset xs \<and> sorted_wrt le (srt le xs))"

lemma penalise_length: "penalise F p ts adj = Some adj' \<Longrightarrow> length adj' = length adj"
  by (induction F p ts adj rule: penalise.induct) (auto simp: Let_def split: if_splits)

lemma nucleus_bounds: "qs \<noteq> [] \<or> 0 < n \<Longrightarrow> i + length qs = n \<Longrightarrow> 0 < nucleus F p n i acc qs \<and> nucleus F p n i acc qs \<le> n"
  by (induction F p n i acc qs rule: nucleus.induct) (auto simp: Let_def)

lemma draw_bounds: "draw F r i acc qs = Some k \<Longrightarrow> i \<le> k \<and> k < i + length qs"
  by (induction F r i acc qs arbitrary: k rule: draw.induct) (fastforce simp: Let_def split: if_splits)+

lemma length_softmax [simp]: "length (softmax_at F temp adj idx) = length idx"
  by (simp add: softmax_at_def Let_def)

text \<open>The token drawn is the candidate at some position.\<close>

lemma pick_position:
  assumes "idx \<noteq> []" "length probs = length idx"
  shows "\<exists>p < length idx. pick_token F (nucleus_cut F top_p idx probs) rng = (of_nat (idx ! p), xorshift rng)"
proof -
  obtain keep ps where c: "nucleus_cut F top_p idx probs = (take keep idx, ps)" "length ps = keep" "0 < keep" "keep \<le> length idx"
  proof (cases "f_gt F (m_one F) top_p")
    case True
    let ?k = "nucleus F top_p (length probs) 0 (f_zero F) probs"
    have k: "0 < ?k" "?k \<le> length probs" using nucleus_bounds [of probs "length probs" 0 F top_p "f_zero F"] assms by auto
    show ?thesis
      by (rule that [of ?k "map (\<lambda>x. f_div F x (m_sum F (take ?k probs))) (take ?k probs)"])
        (use True k assms in \<open>simp_all add: nucleus_cut_def Let_def\<close>)
  next
    case False
    then show ?thesis using assms by (intro that [of "length idx" probs]) (simp_all add: nucleus_cut_def)
  qed
  let ?p = "case draw F (fst (unit_draw F rng)) 0 (f_zero F) ps of Some i \<Rightarrow> i | None \<Rightarrow> length ps - 1"
  have p: "?p < keep"
  proof (cases "draw F (fst (unit_draw F rng)) 0 (f_zero F) ps")
    case (Some k)
    with draw_bounds [OF Some] c(2) show ?thesis by simp
  qed (use c in simp)
  have "pick_token F (nucleus_cut F top_p idx probs) rng = (of_nat (take keep idx ! ?p), xorshift rng)"
    by (simp add: pick_token_def c(1) unit_draw_def Let_def)
  with p c(4) show ?thesis by (intro exI [of _ ?p]) simp
qed

lemma sample_position:
  assumes r: "sample F srt logits recent s rng = Some (t, rng')" and g: "\<not> is_greedy F s" and adj: "adjust F s recent logits = Some adj"
  shows "\<exists>p < length (srt (rank_le F adj) [0..<unat (of_nat (length adj) :: u32)]). t = of_nat (srt (rank_le F adj) [0..<unat (of_nat (length adj) :: u32)] ! p) \<and>
    (0 < s_top_k s \<longrightarrow> p < s_top_k s) \<and> rng' = xorshift rng \<and> \<not> (2 \<le> length adj \<and> list_ex (m_nan F) adj)"
proof -
  let ?idx0 = "srt (rank_le F adj) [0..<unat (of_nat (length adj) :: u32)]"
  define idx where "idx = top_candidates F srt s adj"
  have R: "\<not> (2 \<le> length adj \<and> list_ex (m_nan F) adj)" "idx \<noteq> []"
    "pick_token F (nucleus_cut F (s_top_p s) idx (softmax_at F (s_temperature s) adj idx)) rng = (t, rng')"
    using r g adj unfolding idx_def by (simp_all add: sample_def Let_def split: if_splits)
  obtain p where p: "p < length idx" "pick_token F (nucleus_cut F (s_top_p s) idx (softmax_at F (s_temperature s) adj idx)) rng = (of_nat (idx ! p), xorshift rng)"
    using pick_position [where F = F and rng = rng and top_p = "s_top_p s", OF R(2) length_softmax [of F "s_temperature s" adj idx]]
    by (elim exE conjE)
  have "p < length ?idx0" "idx ! p = ?idx0 ! p" "0 < s_top_k s \<longrightarrow> p < s_top_k s"
    using p(1) by (auto simp: idx_def top_candidates_def Let_def split: if_splits)
  with p(2) R show ?thesis by auto
qed

text \<open>Top-k sampling. A token sampled (temperature above 0) is a token of the vocabulary, and fewer than
  \<open>top_k\<close> tokens have a strictly greater logit after the repetition penalty; the generator state moves
  to the next xorshift state, which is never 0.\<close>

theorem sample_in_top_k:
  assumes r: "sample F srt logits recent s rng = Some (t, rng')" and g: "\<not> is_greedy F s" and adj: "adjust F s recent logits = Some adj"
    and F: "f32_order F" and srt: "sorts (rank_le F adj) srt" and vocab: "length logits < 2 ^ 32" and seed: "rng \<noteq> 0"
  shows "unat t < length logits \<and> (0 < s_top_k s \<longrightarrow> card {j. j < length adj \<and> f_gt F (adj ! j) (adj ! unat t)} < s_top_k s) \<and>
    rng' = xorshift rng \<and> rng' \<noteq> 0"
proof -
  obtain p where p: "p < length (srt (rank_le F adj) [0..<unat (of_nat (length adj) :: u32)])" "t = of_nat (srt (rank_le F adj) [0..<unat (of_nat (length adj) :: u32)] ! p)"
    "0 < s_top_k s \<longrightarrow> p < s_top_k s" "rng' = xorshift rng"
    using sample_position [OF r g adj] by (elim exE conjE)
  have len: "length adj = length logits" using adj by (auto simp: adjust_def dest: penalise_length split: if_splits)
  let ?xs = "srt (rank_le F adj) [0..<length adj]"
  have m: "unat (of_nat (length adj) :: u32) = length adj" using vocab len by (simp add: unat_of_nat)
  have ms: "mset ?xs = mset [0..<length adj]" and so: "sorted_wrt (rank_le F adj) ?xs" using srt by (auto simp: sorts_def)
  have set: "set ?xs = {..<length adj}" using ms by (metis atLeast_upt set_mset_mset)
  have dist: "distinct ?xs" using ms by (metis distinct_upt mset_eq_imp_distinct_iff)
  have pl: "p < length ?xs" using p(1) unfolding m .
  then have mem: "?xs ! p < length adj" using set nth_mem by blast
  then have ut: "unat t = ?xs ! p" using p(2) vocab len unfolding m by (simp add: unat_of_nat)
  have so': "sorted_wrt (\<lambda>a b. \<not> f_gt F (adj ! b) (adj ! a)) ?xs" using so by (simp add: rank_le_def [abs_def])
  have "\<not> f_gt F (adj ! (?xs ! p)) (adj ! (?xs ! p))" using F unfolding f32_order_def by blast
  from fewer_above [OF so' dist pl this]
  have "card {j. j < length adj \<and> f_gt F (adj ! j) (adj ! unat t)} \<le> p" using set ut by (simp add: lessThan_def)
  then show ?thesis using p(3,4) mem ut len xorshift_nonzero [OF seed] by auto
qed

end
