(* ===== verification/Routing.thy ===== *)
theory Routing
  imports Sampling
begin

text \<open>
  What the two routers pick: the \<open>k\<close> experts that no unpicked expert outranks, each once, with the
  weights of the formula; and the concrete arithmetic on which the properties of this theory and of
  \<open>Sampling\<close> are exercised.
\<close>

section \<open>Truncated sorts\<close>

lemma top_of_sort:
  fixes k :: nat
  assumes w: "weak_order_on (set xs) gt" and d: "distinct xs"
  defines "tp \<equiv> take k (sort_desc gt xs)"
  shows "distinct tp" "length tp = min k (length xs)" "set tp \<subseteq> set xs"
    "\<And>x y. x \<in> set tp \<Longrightarrow> y \<in> set xs \<Longrightarrow> y \<notin> set tp \<Longrightarrow> \<not> gt y x"
proof -
  have ms: "mset (sort_desc gt xs) = mset xs" by (rule mset_sort_desc)
  then have ds: "distinct (sort_desc gt xs)" using d by (metis mset_eq_imp_distinct_iff)
  show "distinct tp" "length tp = min k (length xs)" using ds unfolding tp_def by auto
  show "set tp \<subseteq> set xs" unfolding tp_def using set_take_subset set_sort_desc by fast
  fix x y assume x: "x \<in> set tp" and y: "y \<in> set xs" "y \<notin> set tp"
  have so: "sorted_wrt (\<lambda>a b. \<not> gt b a) (take k (sort_desc gt xs) @ drop k (sort_desc gt xs))"
    using sorted_sort_desc [OF w, of xs] by simp
  have "y \<in> set (take k (sort_desc gt xs)) \<union> set (drop k (sort_desc gt xs))"
    using y(1) set_sort_desc [of gt xs] by (metis append_take_drop_id set_append)
  with y(2) have "y \<in> set (drop k (sort_desc gt xs))" unfolding tp_def by simp
  with so x show "\<not> gt y x" unfolding tp_def sorted_wrt_append by blast
qed

lemma weak_order_key:
  assumes F: "f32_order F" and nan: "2 \<le> length xs \<longrightarrow> (\<forall>x \<in> set xs. \<not> m_nan F (key x))"
  shows "weak_order_on (set xs) (\<lambda>a b. f_gt F (key a) (key b))"
proof (cases "2 \<le> length xs")
  case True
  with nan F show ?thesis unfolding weak_order_on_def f32_order_def by blast
next
  case False
  then have one: "a = b" if "a \<in> set xs" "b \<in> set xs" for a b
    using that by (cases xs rule: list.exhaust [case_product list.exhaust]) (auto simp: Suc_le_eq)
  then show ?thesis using F unfolding weak_order_on_def f32_order_def by metis
qed

lemma unat_of_nat16: "i < 65536 \<Longrightarrow> unat (of_nat i :: u16) = i"
  by (simp add: unat_of_nat)

lemma distinct_of_nat16: "distinct js \<Longrightarrow> set js \<subseteq> {..<65536} \<Longrightarrow> distinct (map (of_nat :: nat \<Rightarrow> u16) js)"
  unfolding distinct_map by (intro conjI inj_on_inverseI [where g = unat]) (auto simp: unat_of_nat16)

section \<open>The picks\<close>

lemma top_k_probs:
  assumes r: "top_k_softmax F logits k renorm = Some picks" and F: "f32_order F" and n: "length logits \<le> 65536"
  defines "P \<equiv> softmax_probs F logits"
  defines "tp \<equiv> take k (sort_desc (\<lambda>a b. f_gt F (snd a) (snd b)) (map (\<lambda>(i, p). (of_nat i :: u16, p)) (enumerate 0 P)))"
  shows "distinct (map fst tp)" "length tp = min k (length logits)"
    "\<And>i p. (i, p) \<in> set tp \<Longrightarrow> unat i < length logits \<and> p = P ! unat i"
    "\<And>i p j. (i, p) \<in> set tp \<Longrightarrow> j < length logits \<Longrightarrow> of_nat j \<notin> fst ` set tp \<Longrightarrow> \<not> f_gt F (P ! j) p"
    "picks = (if renorm then map (\<lambda>p. (fst p, f_div F (snd p) (m_sum F (map snd tp)))) tp else tp)"
proof -
  let ?xs = "map (\<lambda>(i, p). (of_nat i :: u16, p)) (enumerate 0 P)" and ?gt = "\<lambda>a b. f_gt F (snd a) (snd b)"
  have len: "length P = length logits" by (simp add: P_def softmax_probs_def Let_def)
  have fst_xs: "map fst ?xs = map of_nat [0..<length P]"
    by (rule nth_equalityI) (simp_all add: nth_enumerate_eq case_prod_unfold)
  have mem: "(i, p) \<in> set ?xs \<longleftrightarrow> (\<exists>j < length logits. i = of_nat j \<and> p = P ! j)" for i p
    by (auto simp: in_set_enumerate_eq len image_iff Bex_def)
  have d: "distinct (map fst ?xs)" unfolding fst_xs by (rule distinct_of_nat16) (use n len in auto)
  from iffD1 [OF distinct_map d] have dx: "distinct ?xs" by (rule conjunct1)
  have nan: "2 \<le> length ?xs \<longrightarrow> (\<forall>x \<in> set ?xs. \<not> m_nan F (snd x))"
    using r by (auto simp: top_k_softmax_def Let_def P_def list_ex_iff split: if_splits)
  note t = top_of_sort [OF weak_order_key [OF F nan] dx, where k = k, folded tp_def]
  show "length tp = min k (length logits)" using t(2) len by simp
  show "picks = (if renorm then map (\<lambda>p. (fst p, f_div F (snd p) (m_sum F (map snd tp)))) tp else tp)"
    using r unfolding tp_def P_def by (simp add: top_k_softmax_def Let_def split: if_splits)
  have "inj_on fst (set ?xs)" using iffD1 [OF distinct_map d] by (rule conjunct2)
  then show "distinct (map fst tp)" using t(1,3) by (auto simp: distinct_map intro: inj_on_subset)
  fix i p assume ip: "(i, p) \<in> set tp"
  then obtain l where l: "l < length logits" "i = of_nat l" "p = P ! l" using t(3) mem by blast
  then show "unat i < length logits \<and> p = P ! unat i" using n by (simp add: unat_of_nat16)
  fix j assume j: "j < length logits" "of_nat j \<notin> fst ` set tp"
  have "(of_nat j, P ! j) \<in> set ?xs" using mem j(1) by blast
  moreover have "(of_nat j, P ! j) \<notin> set tp" using j(2) by force
  ultimately show "\<not> f_gt F (P ! j) p" using t(4) [OF ip] by force
qed

text \<open>C15: The Qwen router. With at most 65536 experts the picks are distinct experts, as many as asked for and
  there are; no expert left out has a strictly larger probability than a picked one; the weights are the
  softmax probabilities, divided by their sum when renormalised.\<close>

theorem top_k_softmax_picks:
  assumes r: "top_k_softmax F logits k renorm = Some picks" and F: "f32_order F" and n: "length logits \<le> 65536"
  shows "distinct (map fst picks) \<and> length picks = min k (length logits) \<and>
    (\<forall>i \<in> fst ` set picks. unat i < length logits) \<and>
    (\<forall>i \<in> fst ` set picks. \<forall>j < length logits. of_nat j \<notin> fst ` set picks \<longrightarrow>
       \<not> f_gt F (softmax_probs F logits ! j) (softmax_probs F logits ! unat i)) \<and>
    map snd picks = (let ps = map (\<lambda>p. softmax_probs F logits ! unat (fst p)) picks
      in if renorm then map (\<lambda>p. f_div F p (m_sum F ps)) ps else ps)"
proof -
  let ?P = "softmax_probs F logits"
  define tp where "tp = take k (sort_desc (\<lambda>a b. f_gt F (snd a) (snd b)) (map (\<lambda>(i, p). (of_nat i :: u16, p)) (enumerate 0 ?P)))"
  note t = top_k_probs [OF r F n, folded tp_def]
  have fp: "map fst picks = map fst tp" using t(5) by (simp add: comp_def)
  then have sp: "fst ` set picks = fst ` set tp" by (metis list.set_map)
  have ps: "map (\<lambda>p. ?P ! unat (fst p)) picks = map snd tp"
  proof -
    have "map (\<lambda>p. ?P ! unat (fst p)) picks = map (\<lambda>i. ?P ! unat i) (map fst tp)" unfolding fp [symmetric] by (simp add: comp_def)
    also have "\<dots> = map snd tp" using t(3) by (auto simp: comp_def)
    finally show ?thesis .
  qed
  have w: "map snd picks = (let ps = map snd tp in if renorm then map (\<lambda>p. f_div F p (m_sum F ps)) ps else ps)"
    unfolding t(5) by (simp add: comp_def Let_def)
  have len: "length picks = min k (length logits)" using t(2,5) by simp
  have up: "\<not> f_gt F (?P ! j) (?P ! unat i)" if i: "i \<in> fst ` set tp" and j: "j < length logits" "of_nat j \<notin> fst ` set tp" for i j
  proof -
    from i obtain p where p: "(i, p) \<in> set tp" by auto
    with t(3) [OF p] t(4) [OF p j] show ?thesis by simp
  qed
  have bnd: "\<forall>i \<in> fst ` set tp. unat i < length logits" using t(3) by force
  show ?thesis unfolding sp ps fp using t(1) len up bnd w by blast
qed

text \<open>The Kimi router. With at most 65536 experts the experts considered are as many as asked for and there
  are, distinct, and none left out has a strictly larger biased score; each pick is one of them and weighs
  its unbiased score, divided by the sum when renormalised and positive, times the scaling; a pick is
  dropped only when the threshold is positive and its weight is below it.\<close>

theorem sigmoid_topk_picks:
  assumes r: "sigmoid_topk F logits bias k renorm scaling minw = Some picks" and F: "f32_order F" and n: "length logits \<le> 65536"
  shows "\<exists>best. length best = min k (length logits) \<and> distinct best \<and> (\<forall>i \<in> set best. i < length logits) \<and>
    (\<forall>i \<in> set best. \<forall>j < length logits. j \<notin> set best \<longrightarrow>
       \<not> f_gt F (m_add F (sigmoid F (logits ! j)) (bias ! j)) (m_add F (sigmoid F (logits ! i)) (bias ! i))) \<and>
    (let total = m_sum F (map (\<lambda>i. sigmoid F (logits ! i)) best);
         weight = (\<lambda>i. f_mul F (if renorm \<and> f_gt F total (f_zero F) then f_div F (sigmoid F (logits ! i)) total else sigmoid F (logits ! i)) scaling);
         kept = filter (\<lambda>i. f_gt F minw (f_zero F) \<longrightarrow> m_ge F (weight i) minw) best
     in map (\<lambda>p. (unat (fst p), snd p)) picks = map (\<lambda>i. (i, weight i)) kept)"
proof -
  let ?s = "map (sigmoid F) logits" and ?n = "length logits"
  let ?key = "\<lambda>i. m_add F (?s ! i) (bias ! i)"
  define best where "best = take k (sort_desc (\<lambda>a b. f_gt F (?key a) (?key b)) [0..<?n])"
  have nan: "2 \<le> length [0..<?n] \<longrightarrow> (\<forall>x \<in> set [0..<?n]. \<not> m_nan F (?key x))"
    using r by (auto simp: sigmoid_topk_def Let_def list_ex_iff split: if_splits)
  note t = top_of_sort [OF weak_order_key [OF F nan] distinct_upt, where k = k, folded best_def]
  have lt: "i < ?n" if "i \<in> set best" for i using t(3) that by auto
  have key: "?key i = m_add F (sigmoid F (logits ! i)) (bias ! i)" if "i < ?n" for i using that by simp
  have up: "\<not> f_gt F (m_add F (sigmoid F (logits ! j)) (bias ! j)) (m_add F (sigmoid F (logits ! i)) (bias ! i))"
    if "i \<in> set best" "j < ?n" "j \<notin> set best" for i j
    using t(4) [of i j] that lt [OF that(1)] by simp
  define total where "total = m_sum F (map (\<lambda>i. sigmoid F (logits ! i)) best)"
  define weight where "weight = (\<lambda>i. f_mul F (if renorm \<and> f_gt F total (f_zero F) then f_div F (sigmoid F (logits ! i)) total else sigmoid F (logits ! i)) scaling)"
  have s: "?s ! i = sigmoid F (logits ! i)" if "i \<in> set best" for i using lt [OF that] by simp
  have pk: "picks = filter (\<lambda>p. f_gt F minw (f_zero F) \<longrightarrow> m_ge F (snd p) minw) (map (\<lambda>i. (of_nat i, weight i)) best)"
  proof (cases "renorm \<and> f_gt F total (f_zero F)")
    case True
    then show ?thesis using r unfolding weight_def total_def
      by (simp add: sigmoid_topk_def Let_def comp_def s best_def [symmetric] split: if_splits cong: map_cong)
  next
    case False
    then show ?thesis using r unfolding weight_def total_def
      by (simp add: sigmoid_topk_def Let_def comp_def s best_def [symmetric] split: if_splits cong: map_cong conj_cong)
  qed
  have ub: "unat (of_nat i :: u16) = i" if "i \<in> set best" for i
    by (rule unat_of_nat16) (use lt [OF that] n in linarith)
  have "map (\<lambda>p. (unat (fst p), snd p)) picks = map (\<lambda>i. (i, weight i)) (filter (\<lambda>i. f_gt F minw (f_zero F) \<longrightarrow> m_ge F (weight i) minw) best)"
    unfolding pk filter_map using ub by (auto simp: comp_def)
  note m = this [unfolded weight_def total_def]
  have len: "length best = min k ?n" using t(2) by simp
  show ?thesis unfolding Let_def
    by (intro exI [of _ best] conjI ballI allI impI) (assumption | rule len t(1) lt m up)+
qed

section \<open>Examples\<close>

definition int_math :: "int f32_math" where
  "int_math = \<lparr>f_zero = 0, f_abs = abs, f_max = max, f_gt = (>), f_div = (\<lambda>x y. 1000 * x div y), f_mul = (*), f_sub = (-), f_of_int = id,
     f_round_clamp = (\<lambda>x. max (- 8) (min 7 x)), f_to_bits = of_int, f_of_bits = sint, f_seven = 7, f_1em8 = 1, f_1em7 = 1,
     m_add = (+), m_exp = (\<lambda>x. max 0 (100 + x)), m_neg = uminus, m_ge = (\<ge>), m_eq = (=), m_nan = (\<lambda>_. False),
     m_min = - 1000, m_one = 1, m_unit = (\<lambda>_. 0)\<rparr>"

lemma int_math_order: "f32_order int_math"
  by (simp add: f32_order_def int_math_def)

text \<open>The first two of three experts.\<close>

lemma top_k_softmax_picks_witness:
  "\<not> f_gt int_math (softmax_probs int_math [3, 7, - 500] ! 2) (softmax_probs int_math [3, 7, - 500] ! unat (1 :: u16))"
proof -
  have run: "top_k_softmax int_math [3, 7, - 500] 2 False = Some [(1, 510), (0, 489)]" by code_simp
  have n: "length [3, 7, - 500 :: int] \<le> 65536" by simp
  have "\<forall>i \<in> fst ` set [(1 :: u16, 510 :: int), (0, 489)]. \<forall>j < length [3, 7, - 500 :: int]. of_nat j \<notin> fst ` set [(1 :: u16, 510 :: int), (0, 489)] \<longrightarrow>
       \<not> f_gt int_math (softmax_probs int_math [3, 7, - 500] ! j) (softmax_probs int_math [3, 7, - 500] ! unat i)"
    using top_k_softmax_picks [OF run int_math_order n] by (elim conjE)
  from bspec [OF this, of 1, THEN spec, of 2] show ?thesis by simp
qed

text \<open>Three experts, the third lifted by its bias.\<close>

lemma sigmoid_topk_picks_witness:
  "\<exists>best. length best = min 2 (length [3, 7, - 5 :: int]) \<and> distinct best \<and> (\<forall>i \<in> set best. i < length [3, 7, - 5 :: int])"
proof -
  have run: "sigmoid_topk int_math [3, 7, - 5] [0, 0, 1] 2 True 3 1 = Some [(0, 1500), (1, 1500)]" by code_simp
  have n: "length [3, 7, - 5 :: int] \<le> 65536" by simp
  from sigmoid_topk_picks [OF run int_math_order n] show ?thesis by (elim exE conjE) (intro exI conjI)
qed

definition example_sampling :: "int sampling" where
  "example_sampling = \<lparr>s_temperature = 1, s_top_p = 1, s_top_k = 2, s_repeat_penalty = 2, s_repeat_window = 4, s_seed = 9\<rparr>"

definition sort_by_le :: "('a \<Rightarrow> 'a \<Rightarrow> bool) \<Rightarrow> 'a list \<Rightarrow> 'a list" where
  "sort_by_le le = sort_desc (\<lambda>a b. \<not> le b a)"

lemma sorts_sort_by_le: "sorts (rank_le int_math adj) sort_by_le"
proof -
  have "weak_order_on UNIV (\<lambda>a b. \<not> rank_le int_math adj b a)"
    by (auto simp: weak_order_on_def rank_le_def int_math_def)
  from sorted_sort_desc [OF this] show ?thesis
    by (simp add: sorts_def sort_by_le_def mset_sort_desc)
qed

lemma sample_in_top_k_witness:
  "unat (1 :: u32) < length [5, 40, 12, 30 :: int] \<and> (9740427849 :: u64) = xorshift 9"
proof -
  have run: "sample int_math sort_by_le [5, 40, 12, 30] [1] example_sampling 9 = Some (1, 9740427849)" by code_simp
  have adj: "adjust int_math example_sampling [1] [5, 40, 12, 30] = Some [5, 20000, 12, 30]" by code_simp
  have g: "\<not> is_greedy int_math example_sampling" by code_simp
  have v: "length [5, 40, 12, 30 :: int] < 2 ^ 32" and s: "(9 :: u64) \<noteq> 0" by simp_all
  from sample_in_top_k [OF run g adj int_math_order sorts_sort_by_le v s] show ?thesis by (elim conjE) (intro conjI)
qed

end
