(* ===== verification/Safetensors.thy ===== *)
theory Safetensors
  imports Quant "HOL-Library.List_Lexorder" "HOL-Library.Char_ord"
begin

text \<open>
  The safetensors reader of the runtime (\<open>llmpager-core/src/st.rs\<close>) and what it shares with the
  converter: JSON values with the accessors the code uses on them, ordered maps, exact reads. The
  JSON parser is an argument; a JSON object is its list of members in key order. Lengths and
  offsets are natural numbers; where a \<open>u64\<close> sum or difference would overflow, and where a buffer
  of \<open>2 ^ 63\<close> bytes or more would be allocated, the code panics and so does the model.
\<close>

section \<open>JSON values\<close>

datatype 'f json = JNull | JBool bool | JInt int | JReal 'f | JStr string | JArr "'f json list" | JObj "(string \<times> 'f json) list"

text \<open>\<open>v["key"]\<close> is \<open>Null\<close> where there is no such member.\<close>

definition jget :: "'f json \<Rightarrow> string \<Rightarrow> 'f json" where
  "jget v k = (case v of JObj kvs \<Rightarrow> (case map_of kvs k of None \<Rightarrow> JNull | Some x \<Rightarrow> x) | _ \<Rightarrow> JNull)"

definition j_u64 :: "'f json \<Rightarrow> nat option" where
  "j_u64 v = (case v of JInt i \<Rightarrow> if 0 \<le> i \<and> i < 2 ^ 64 then Some (nat i) else None | _ \<Rightarrow> None)"

definition j_str :: "'f json \<Rightarrow> string option" where
  "j_str v = (case v of JStr s \<Rightarrow> Some s | _ \<Rightarrow> None)"

definition j_arr :: "'f json \<Rightarrow> 'f json list option" where
  "j_arr v = (case v of JArr xs \<Rightarrow> Some xs | _ \<Rightarrow> None)"

definition j_obj :: "'f json \<Rightarrow> (string \<times> 'f json) list option" where
  "j_obj v = (case v of JObj kvs \<Rightarrow> Some kvs | _ \<Rightarrow> None)"

definition opt_or :: "'a \<Rightarrow> 'a option \<Rightarrow> 'a" where
  "opt_or d x = (case x of None \<Rightarrow> d | Some a \<Rightarrow> a)"

lemma j_simps [simp]:
  "jget (JObj kvs) k = (case map_of kvs k of None \<Rightarrow> JNull | Some x \<Rightarrow> x)"
  "j_str (JStr s) = Some s" "j_arr (JArr xs) = Some xs" "j_obj (JObj kvs) = Some kvs"
  "opt_or d None = d" "opt_or d (Some a) = a"
  by (simp_all add: jget_def j_str_def j_arr_def j_obj_def opt_or_def)

lemma j_u64_of_nat [simp]: "n < 2 ^ 64 \<Longrightarrow> j_u64 (JInt (int n)) = Some n"
  by (simp add: j_u64_def)

section \<open>Ordered maps\<close>

fun bt_insert :: "'k::linorder \<Rightarrow> 'v \<Rightarrow> ('k \<times> 'v) list \<Rightarrow> ('k \<times> 'v) list" where
  "bt_insert k v [] = [(k, v)]"
| "bt_insert k v ((k', v') # m) =
     (if k < k' then (k, v) # (k', v') # m else if k = k' then (k, v) # m else (k', v') # bt_insert k v m)"

lemma map_of_bt_insert [simp]: "map_of (bt_insert k v m) = (map_of m)(k \<mapsto> v)"
  by (induction k v m rule: bt_insert.induct) (auto simp: fun_eq_iff)

lemma set_bt_insert: "set (map fst (bt_insert k v m)) = insert k (set (map fst m))"
  by (induction k v m rule: bt_insert.induct) auto

lemma sorted_bt_insert: "sorted_wrt (<) (map fst m) \<Longrightarrow> sorted_wrt (<) (map fst (bt_insert k v m))"
proof (induction k v m rule: bt_insert.induct)
  case (2 k v k' v' m)
  then show ?case using set_bt_insert [of k v m] by (auto simp: image_iff)
qed simp

lemma sorted_distinct: "sorted_wrt (<) (xs :: 'k::linorder list) \<Longrightarrow> distinct xs"
  by (induction xs) auto

section \<open>Reads\<close>

text \<open>\<open>read_exact_at\<close>, which succeeds at any offset when nothing is asked for, and \<open>chunks_exact\<close>.\<close>

definition read_exact :: "file_bytes \<Rightarrow> nat \<Rightarrow> nat \<Rightarrow> bytes option" where
  "read_exact f p n = (if n = 0 then Some [] else read_at f p n)"

definition chunks_exact :: "nat \<Rightarrow> 'a list \<Rightarrow> 'a list list" where
  "chunks_exact n xs = filter (\<lambda>c. length c = n) (chunks n xs)"

lemma read_exact_len: "read_exact f p n = Some bs \<Longrightarrow> length bs = n"
  by (auto simp: read_exact_def dest: read_at_len split: if_splits)

lemma read_exact_append: "length a = p \<Longrightarrow> length b = n \<Longrightarrow> read_exact (a @ b @ c) p n = Some b"
  using read_at_append [of a b c] by (auto simp: read_exact_def)

definition alloc_limit :: nat where
  "alloc_limit = 2 ^ 63"

section \<open>The reader\<close>

record tensor_info =
  t_dtype :: string
  t_shape :: "nat list"
  t_start :: nat
  t_end :: nat

record safetensors =
  st_file :: file_bytes
  st_tensors :: "(string \<times> tensor_info) list"

datatype st_error = StShort | StBadJson | StBadHeader | StNoOffsets string | StNoTensor string | StBadDtype string string

definition metadata_key :: string where
  "metadata_key = ''__metadata__''"

text \<open>The length, the header, its members: the position of the data and the members.\<close>

definition read_header :: "(bytes \<Rightarrow> 'j json option) \<Rightarrow> file_bytes \<Rightarrow> (st_error, nat \<times> (string \<times> 'j json) list) res" where
  "read_header parse f =
     (case read_exact f 0 8 of
        None \<Rightarrow> Err StShort
      | Some len8 \<Rightarrow>
          let n = from_le len8 in
          if alloc_limit \<le> n then Panic
          else case read_exact f 8 n of
            None \<Rightarrow> Err StShort
          | Some hdr \<Rightarrow>
              (case parse hdr of
                 None \<Rightarrow> Err StBadJson
               | Some v \<Rightarrow> (case j_obj v of None \<Rightarrow> Err StBadHeader | Some kvs \<Rightarrow> Ok (8 + n, kvs))))"

text \<open>One member: offsets must be an array, of at least two elements or its indexing panics.\<close>

definition tensor_fields :: "nat \<Rightarrow> string \<Rightarrow> 'j json \<Rightarrow> (st_error, tensor_info) res" where
  "tensor_fields base name info =
     (case j_arr (jget info ''data_offsets'') of
        None \<Rightarrow> Err (StNoOffsets name)
      | Some (a # b # _) \<Rightarrow>
          let s = base + opt_or 0 (j_u64 a); e = base + opt_or 0 (j_u64 b) in
          if 2 ^ 64 \<le> s \<or> 2 ^ 64 \<le> e then Panic
          else Ok \<lparr>t_dtype = opt_or '''' (j_str (jget info ''dtype'')),
                   t_shape = (case j_arr (jget info ''shape'') of None \<Rightarrow> [] | Some xs \<Rightarrow> List.map_filter j_u64 xs),
                   t_start = s, t_end = e\<rparr>
      | Some _ \<Rightarrow> Panic)"

fun load_tensors :: "nat \<Rightarrow> (string \<times> 'j json) list \<Rightarrow> (string \<times> tensor_info) list \<Rightarrow> (st_error, (string \<times> tensor_info) list) res" where
  "load_tensors base [] m = Ok m"
| "load_tensors base ((name, info) # kvs) m =
     (if name = metadata_key then load_tensors base kvs m
      else bind_res (tensor_fields base name info) (\<lambda>t. load_tensors base kvs (bt_insert name t m)))"

definition st_open :: "(bytes \<Rightarrow> 'j json option) \<Rightarrow> file_bytes \<Rightarrow> (st_error, safetensors) res" where
  "st_open parse f =
     bind_res (read_header parse f) (\<lambda>(base, kvs).
       bind_res (load_tensors base kvs []) (\<lambda>m. Ok \<lparr>st_file = f, st_tensors = m\<rparr>))"

definition st_names :: "safetensors \<Rightarrow> string list" where
  "st_names st = map fst (st_tensors st)"

definition st_info :: "safetensors \<Rightarrow> string \<Rightarrow> (st_error, tensor_info) res" where
  "st_info st name = (case map_of (st_tensors st) name of None \<Rightarrow> Err (StNoTensor name) | Some i \<Rightarrow> Ok i)"

definition st_raw :: "safetensors \<Rightarrow> string \<Rightarrow> (st_error, bytes \<times> tensor_info) res" where
  "st_raw st name =
     bind_res (st_info st name) (\<lambda>i.
       if t_end i < t_start i \<or> alloc_limit \<le> t_end i - t_start i then Panic
       else case read_exact (st_file st) (t_start i) (t_end i - t_start i) of None \<Rightarrow> Err StShort | Some bs \<Rightarrow> Ok (bs, i))"

text \<open>Floats from bytes: bf16 is the upper half of an \<open>f32\<close>.\<close>

definition bf16_f32 :: "bytes \<Rightarrow> u32" where
  "bf16_f32 c = push_bit 16 (ucast (un_le16 (c ! 0) (c ! 1)))"

definition raw_f32 :: "('f, 'm) f32_ops_scheme \<Rightarrow> string \<Rightarrow> bytes \<Rightarrow> 'f list option" where
  "raw_f32 F dtype raw =
     (if dtype = ''BF16'' then Some (map (\<lambda>c. f_of_bits F (bf16_f32 c)) (chunks_exact 2 raw))
      else if dtype = ''F32'' then Some (map (\<lambda>c. f_of_bits F (of_nat (from_le c))) (chunks_exact 4 raw))
      else None)"

definition st_f32 :: "('f, 'm) f32_ops_scheme \<Rightarrow> safetensors \<Rightarrow> string \<Rightarrow> (st_error, 'f list \<times> nat list) res" where
  "st_f32 F st name =
     bind_res (st_raw st name) (\<lambda>(raw, i).
       case raw_f32 F (t_dtype i) raw of None \<Rightarrow> Err (StBadDtype name (t_dtype i)) | Some vals \<Rightarrow> Ok (vals, t_shape i))"

section \<open>Loading a header\<close>

lemma load_tensors_Ok:
  assumes "distinct (map fst kvs)" "metadata_key \<notin> fst ` set kvs" "\<And>n i. (n, i) \<in> set kvs \<Longrightarrow> tensor_fields base n i = Ok (T n)"
  shows "\<exists>m'. load_tensors base kvs m = Ok m' \<and> (\<forall>n. map_of m' n = (if n \<in> fst ` set kvs then Some (T n) else map_of m n))"
  using assms
proof (induction kvs arbitrary: m)
  case (Cons kv kvs)
  obtain n i where kv: "kv = (n, i)" by (cases kv)
  have t: "tensor_fields base n i = Ok (T n)" using Cons.prems(3) kv by simp
  obtain m' where m': "load_tensors base kvs (bt_insert n (T n) m) = Ok m'"
    "\<forall>x. map_of m' x = (if x \<in> fst ` set kvs then Some (T x) else map_of (bt_insert n (T n) m) x)"
    using Cons.IH [of "bt_insert n (T n) m"] Cons.prems by auto
  have "n \<noteq> metadata_key" using Cons.prems(2) kv by force
  then show ?case using t m' kv by auto
qed simp

end
