(* ===== verification/Checkpoint.thy ===== *)
theory Checkpoint
  imports Safetensors Pack
begin

text \<open>
  The source checkpoint of the converter (\<open>Checkpoint\<close> of \<open>llmpager-convert/src/lib.rs\<close>) and the
  writer of the resident core. A directory is a partial map from file names to contents; the tensors
  of all shards are one ordered map, each with the number of its shard. The property: the core file
  written is read back by the runtime's reader, tensor for tensor.
\<close>

section \<open>The checkpoint\<close>

record tensor_loc = tensor_info +
  l_file :: nat

record 'j checkpoint =
  c_files :: "file_bytes list"
  c_tensors :: "(string \<times> tensor_loc) list"
  c_config :: "'j json"

datatype conv_error = NoFile string | BadJson string | NoWeightMap | CSt st_error | MissingKey string
  | OutOfRange string | MissingExpert nat nat nat | NotTwoD string | BadCols string nat | CQuant quant_error
  | CPack pack_error | NoTensor string | BadDtype string string | BadEmit | BadPacked string

text \<open>Errors of a part become errors of the whole.\<close>

fun map_err :: "('a \<Rightarrow> 'b) \<Rightarrow> ('a, 'v) res \<Rightarrow> ('b, 'v) res" where
  "map_err g (Ok v) = Ok v"
| "map_err g (Err e) = Err (g e)"
| "map_err g Panic = Panic"

lemma map_err_Ok [panic_simps]: "map_err g r = Ok v \<longleftrightarrow> r = Ok v"
  by (cases r) simp_all

definition config_name :: string where "config_name = ''config.json''"
definition index_name :: string where "index_name = ''model.safetensors.index.json''"
definition single_name :: string where "single_name = ''model.safetensors''"

definition shard_names :: "(bytes \<Rightarrow> 'j json option) \<Rightarrow> (string \<Rightarrow> file_bytes option) \<Rightarrow> (conv_error, string list) res" where
  "shard_names parse dir =
     (case dir index_name of
        None \<Rightarrow> Ok [single_name]
      | Some bs \<Rightarrow>
          (case parse bs of
             None \<Rightarrow> Err (BadJson index_name)
           | Some idx \<Rightarrow>
               (case j_obj (jget idx ''weight_map'') of
                  None \<Rightarrow> Err NoWeightMap
                | Some kvs \<Rightarrow> Ok (remdups_adj (sort (List.map_filter j_str (map snd kvs)))))))"

definition with_file :: "nat \<Rightarrow> tensor_info \<Rightarrow> tensor_loc" where
  "with_file i t = \<lparr>t_dtype = t_dtype t, t_shape = t_shape t, t_start = t_start t, t_end = t_end t, l_file = i\<rparr>"

fun load_locs :: "nat \<Rightarrow> nat \<Rightarrow> (string \<times> 'j json) list \<Rightarrow> (string \<times> tensor_loc) list \<Rightarrow> (st_error, (string \<times> tensor_loc) list) res" where
  "load_locs fidx base [] m = Ok m"
| "load_locs fidx base ((name, info) # kvs) m =
     (if name = metadata_key then load_locs fidx base kvs m
      else bind_res (tensor_fields base name info) (\<lambda>t. load_locs fidx base kvs (bt_insert name (with_file fidx t) m)))"

fun load_shards ::
  "(bytes \<Rightarrow> 'j json option) \<Rightarrow> (string \<Rightarrow> file_bytes option) \<Rightarrow> string list \<Rightarrow> file_bytes list \<times> (string \<times> tensor_loc) list
   \<Rightarrow> (conv_error, file_bytes list \<times> (string \<times> tensor_loc) list) res" where
  "load_shards parse dir [] acc = Ok acc"
| "load_shards parse dir (name # names) (files, m) =
     (case dir name of
        None \<Rightarrow> Err (NoFile name)
      | Some f \<Rightarrow>
          bind_res (map_err CSt (read_header parse f)) (\<lambda>(base, kvs).
          bind_res (map_err CSt (load_locs (length files) base kvs m)) (\<lambda>m'.
            load_shards parse dir names (files @ [f], m'))))"

definition checkpoint_open :: "(bytes \<Rightarrow> 'j json option) \<Rightarrow> (string \<Rightarrow> file_bytes option) \<Rightarrow> (conv_error, 'j checkpoint) res" where
  "checkpoint_open parse dir =
     (case dir config_name of
        None \<Rightarrow> Err (NoFile config_name)
      | Some bs \<Rightarrow>
          (case parse bs of
             None \<Rightarrow> Err (BadJson config_name)
           | Some config \<Rightarrow>
               bind_res (shard_names parse dir) (\<lambda>names.
               bind_res (load_shards parse dir names ([], [])) (\<lambda>(files, m).
                 Ok \<lparr>c_files = files, c_tensors = m, c_config = config\<rparr>))))"

definition read_raw :: "'j checkpoint \<Rightarrow> tensor_loc \<Rightarrow> (conv_error, bytes) res" where
  "read_raw ck loc =
     (if t_end loc < t_start loc \<or> alloc_limit \<le> t_end loc - t_start loc then Panic
      else case nth_opt (c_files ck) (l_file loc) of
        None \<Rightarrow> Panic
      | Some f \<Rightarrow> (case read_exact f (t_start loc) (t_end loc - t_start loc) of None \<Rightarrow> Err (CSt StShort) | Some bs \<Rightarrow> Ok bs))"

definition read_f32 :: "('f, 'm) f32_ops_scheme \<Rightarrow> 'j checkpoint \<Rightarrow> string \<Rightarrow> (conv_error, 'f list \<times> nat list) res" where
  "read_f32 F ck name =
     (case map_of (c_tensors ck) name of
        None \<Rightarrow> Err (NoTensor name)
      | Some loc \<Rightarrow>
          bind_res (read_raw ck loc) (\<lambda>raw.
            case raw_f32 F (t_dtype loc) raw of None \<Rightarrow> Err (BadDtype name (t_dtype loc)) | Some vals \<Rightarrow> Ok (vals, t_shape loc)))"

section \<open>Writing the resident core\<close>

definition tensor_entry :: "tensor_loc \<Rightarrow> nat \<Rightarrow> nat \<Rightarrow> 'j json" where
  "tensor_entry loc a b =
     JObj [(''data_offsets'', JArr [JInt (int a), JInt (int b)]), (''dtype'', JStr (t_dtype loc)),
           (''shape'', JArr (map (\<lambda>n. JInt (int n)) (t_shape loc)))]"

fun core_header :: "'j checkpoint \<Rightarrow> (string \<times> string) list \<Rightarrow> (string \<times> 'j json) list \<times> nat \<Rightarrow> (conv_error, (string \<times> 'j json) list \<times> nat) res" where
  "core_header ck [] acc = Ok acc"
| "core_header ck ((src, dst) # names) (h, cursor) =
     (case map_of (c_tensors ck) src of
        None \<Rightarrow> Panic
      | Some loc \<Rightarrow>
          if t_end loc < t_start loc \<or> 2 ^ 64 \<le> cursor + (t_end loc - t_start loc) then Panic
          else let next = cursor + (t_end loc - t_start loc)
               in core_header ck names (bt_insert dst (tensor_entry loc cursor next) h, next))"

function pad_spaces :: "bytes \<Rightarrow> bytes" where
  "pad_spaces hdr = (if length hdr mod 8 \<noteq> 0 then pad_spaces (hdr @ [0x20]) else hdr)"
  by pat_completeness auto
termination
  by (relation "measure (\<lambda>hdr. (8 - length hdr mod 8) mod 8)") (auto simp: mod_Suc)

declare pad_spaces.simps [simp del]

fun core_data :: "'j checkpoint \<Rightarrow> (string \<times> string) list \<Rightarrow> bytes \<Rightarrow> (conv_error, bytes) res" where
  "core_data ck [] out = Ok out"
| "core_data ck ((src, dst) # names) out =
     (case map_of (c_tensors ck) src of
        None \<Rightarrow> Panic
      | Some loc \<Rightarrow> bind_res (read_raw ck loc) (\<lambda>raw. core_data ck names (out @ raw)))"

text \<open>The number of bytes reported and the file.\<close>

definition write_safetensors_renamed ::
  "('j json \<Rightarrow> bytes option) \<Rightarrow> 'j checkpoint \<Rightarrow> (string \<times> string) list \<Rightarrow> (conv_error, nat \<times> file_bytes) res" where
  "write_safetensors_renamed emit ck names =
     bind_res (core_header ck names ([], 0)) (\<lambda>(h, _).
       case emit (JObj h) of
         None \<Rightarrow> Err BadEmit
       | Some json \<Rightarrow>
           let hdr = pad_spaces json in
           bind_res (core_data ck names []) (\<lambda>data.
             Ok (8 + length hdr + length data, to_le 8 (length hdr) @ hdr @ data)))"

definition write_safetensors :: "('j json \<Rightarrow> bytes option) \<Rightarrow> 'j checkpoint \<Rightarrow> string list \<Rightarrow> (conv_error, nat \<times> file_bytes) res" where
  "write_safetensors emit ck names = write_safetensors_renamed emit ck (map (\<lambda>n. (n, n)) names)"

section \<open>Reading the core back\<close>

definition loc_of :: "'j checkpoint \<Rightarrow> string \<Rightarrow> tensor_loc" where
  "loc_of ck src = the (map_of (c_tensors ck) src)"

definition span_of :: "'j checkpoint \<Rightarrow> string \<times> string \<Rightarrow> nat" where
  "span_of ck p = t_end (loc_of ck (fst p)) - t_start (loc_of ck (fst p))"

definition spans :: "'j checkpoint \<Rightarrow> (string \<times> string) list \<Rightarrow> nat" where
  "spans ck ps = sum_list (map (span_of ck) ps)"

lemma spans_simps [simp]: "spans ck [] = 0" "spans ck (p # ps) = span_of ck p + spans ck ps"
  by (simp_all add: spans_def)

lemma pad_spaces_eq: "\<exists>k. pad_spaces hdr = hdr @ replicate k 0x20"
proof (induction hdr rule: pad_spaces.induct)
  case (1 hdr)
  show ?case
  proof (cases "length hdr mod 8 = 0")
    case True
    then show ?thesis by (intro exI [of _ 0]) (simp add: pad_spaces.simps [of hdr])
  next
    case False
    with 1 obtain k where "pad_spaces (hdr @ [0x20]) = (hdr @ [0x20]) @ replicate k 0x20" by blast
    then show ?thesis using False by (intro exI [of _ "Suc k"]) (simp add: pad_spaces.simps [of hdr])
  qed
qed

text \<open>What the header loop leaves.\<close>

lemma core_header_keys:
  "core_header ck names (h, c) = Ok (h', c') \<Longrightarrow> sorted_wrt (<) (map fst h) \<Longrightarrow>
     sorted_wrt (<) (map fst h') \<and> fst ` set h' = fst ` set h \<union> snd ` set names \<and> (\<forall>n. n \<notin> snd ` set names \<longrightarrow> map_of h' n = map_of h n)"
proof (induction ck names "(h, c)" arbitrary: h c rule: core_header.induct)
  case (2 ck src dst names h c)
  from 2(2) obtain loc where l: "map_of (c_tensors ck) src = Some loc" by (auto split: option.splits)
  define nx where "nx = c + (t_end loc - t_start loc)"
  have step: "\<not> (t_end loc < t_start loc \<or> 2 ^ 64 \<le> c + (t_end loc - t_start loc))"
    "core_header ck names (bt_insert dst (tensor_entry loc c nx) h, nx) = Ok (h', c')"
    using 2(2) l by (auto simp: nx_def Let_def split: if_splits)
  have "fst ` set (bt_insert dst (tensor_entry loc c nx) h) = insert dst (fst ` set h)"
    using set_bt_insert [of dst "tensor_entry loc c nx" h] by simp
  with 2(1) [OF l step(1) nx_def step(2)] sorted_bt_insert [OF 2(3)] show ?case by auto
qed simp

lemma core_header_entry:
  "core_header ck names (h, c) = Ok (h', c') \<Longrightarrow> distinct (map snd names) \<Longrightarrow> sorted_wrt (<) (map fst h) \<Longrightarrow>
   names = a @ (src, dst) # b \<Longrightarrow>
     map_of (c_tensors ck) src = Some (loc_of ck src) \<and> t_start (loc_of ck src) \<le> t_end (loc_of ck src) \<and>
     map_of h' dst = Some (tensor_entry (loc_of ck src) (c + spans ck a) (c + spans ck a + span_of ck (src, dst)))"
proof (induction a arbitrary: names h c)
  case Nil
  from Nil obtain loc where l: "map_of (c_tensors ck) src = Some loc" by (auto split: option.splits)
  then have lo: "loc_of ck src = loc" by (simp add: loc_of_def)
  define nx where "nx = c + (t_end loc - t_start loc)"
  have step: "t_start loc \<le> t_end loc" "core_header ck b (bt_insert dst (tensor_entry loc c nx) h, nx) = Ok (h', c')"
    using Nil l by (auto simp: nx_def Let_def split: if_splits)
  have "dst \<notin> snd ` set b" using Nil(2,4) by simp
  with core_header_keys [OF step(2) sorted_bt_insert [OF Nil(3)]]
  have "map_of h' dst = Some (tensor_entry loc c nx)" by simp
  with l lo step(1) show ?case by (simp add: span_of_def nx_def)
next
  case (Cons p a)
  obtain s d where p: "p = (s, d)" by (cases p)
  from Cons.prems(1,4) p obtain loc where l: "map_of (c_tensors ck) s = Some loc" by (auto split: option.splits)
  define nx where "nx = c + (t_end loc - t_start loc)"
  have step: "core_header ck (a @ (src, dst) # b) (bt_insert d (tensor_entry loc c nx) h, nx) = Ok (h', c')"
    using Cons.prems(1,4) l p by (auto simp: nx_def Let_def split: if_splits)
  have sp: "c + spans ck (p # a) = nx + spans ck a" using l p by (simp add: span_of_def loc_of_def nx_def)
  have "distinct (map snd (a @ (src, dst) # b))" using Cons.prems(2,4) by simp
  from Cons.IH [OF step this sorted_bt_insert [OF Cons.prems(3)] refl] show ?case unfolding sp .
qed

lemma read_raw_len: "read_raw ck loc = Ok raw \<Longrightarrow> length raw = t_end loc - t_start loc"
  by (auto simp: read_raw_def dest: read_exact_len split: if_splits option.splits)

lemma core_data_slice:
  "core_data ck names out = Ok d \<Longrightarrow> names = a @ (src, dst) # b \<Longrightarrow>
     \<exists>raw pre post. read_raw ck (loc_of ck src) = Ok raw \<and> d = out @ pre @ raw @ post \<and> length pre = spans ck a \<and> length raw = span_of ck (src, dst)"
proof (induction a arbitrary: names out)
  case Nil
  obtain raw where r: "read_raw ck (loc_of ck src) = Ok raw" "core_data ck b (out @ raw) = Ok d"
    using Nil by (auto simp: loc_of_def split: option.splits elim!: bind_res.elims)
  have ext: "core_data ck ns o' = Ok d \<Longrightarrow> \<exists>post. d = o' @ post" for ns o'
    by (induction ck ns o' rule: core_data.induct) (fastforce split: option.splits elim!: bind_res.elims)+
  from ext [OF r(2)] obtain post where "d = out @ raw @ post" by auto
  with r(1) read_raw_len [OF r(1)] show ?case
    by (intro exI [of _ raw] exI [of _ "[]"] exI [of _ post]) (simp add: span_of_def)
next
  case (Cons p a)
  obtain s e where p: "p = (s, e)" by (cases p)
  obtain r0 where r: "read_raw ck (loc_of ck s) = Ok r0" "core_data ck (a @ (src, dst) # b) (out @ r0) = Ok d"
    using Cons.prems p by (auto simp: loc_of_def split: option.splits elim!: bind_res.elims)
  obtain raw pre post where "read_raw ck (loc_of ck src) = Ok raw" "d = (out @ r0) @ pre @ raw @ post" "length pre = spans ck a"
    "length raw = span_of ck (src, dst)"
    using Cons.IH [OF r(2) refl] by blast
  with read_raw_len [OF r(1)] p show ?case
    by (intro exI [of _ raw] exI [of _ "r0 @ pre"] exI [of _ post]) (simp add: span_of_def)
qed

text \<open>Every shape of an opened checkpoint is made of \<open>u64\<close> values.\<close>

definition shapes_u64 :: "(string \<times> tensor_loc) list \<Rightarrow> bool" where
  "shapes_u64 m \<longleftrightarrow> (\<forall>n loc. map_of m n = Some loc \<longrightarrow> (\<forall>d \<in> set (t_shape loc). d < 2 ^ 64))"

lemma j_u64_bound: "j_u64 v = Some n \<Longrightarrow> n < 2 ^ 64"
  by (auto simp: j_u64_def split: json.splits if_splits)

lemma tensor_fields_shape:
  fixes i :: "'j json"
  assumes "tensor_fields base n i = Ok t" "d \<in> set (t_shape t)"
  shows "d < 2 ^ 64"
proof -
  have "\<exists>xs :: 'j json list. d \<in> set (List.map_filter j_u64 xs)"
    using assms by (simp add: tensor_fields_def Let_def split: option.splits list.splits if_splits) (elim disjE conjE, auto)
  then obtain xs :: "'j json list" where "d \<in> set (List.map_filter j_u64 xs)" ..
  then obtain v :: "'j json" where "j_u64 v = Some d" by (auto simp: List.map_filter_def)
  then show ?thesis by (rule j_u64_bound)
qed

lemma load_locs_shapes: "load_locs fidx base kvs m = Ok m' \<Longrightarrow> shapes_u64 m \<Longrightarrow> shapes_u64 m'"
proof (induction fidx base kvs m rule: load_locs.induct)
  case (2 fidx base name info kvs m)
  show ?case
  proof (cases "name = metadata_key")
    case True
    then show ?thesis using 2 by simp
  next
    case False
    then obtain t where t: "tensor_fields base name info = Ok t" "load_locs fidx base kvs (bt_insert name (with_file fidx t) m) = Ok m'"
      using 2(3) by (auto elim!: bind_res.elims)
    have "shapes_u64 (bt_insert name (with_file fidx t) m)"
      using 2(4) tensor_fields_shape [OF t(1)] by (auto simp: shapes_u64_def with_file_def)
    from 2(2) [OF False t(2) this] show ?thesis .
  qed
qed simp

lemma load_shards_shapes: "load_shards parse dir names (files, m) = Ok (files', m') \<Longrightarrow> shapes_u64 m \<Longrightarrow> shapes_u64 m'"
proof (induction names arbitrary: files m)
  case (Cons name names)
  then obtain f base kvs m1 where f: "dir name = Some f" "read_header parse f = Ok (base, kvs)"
    "load_locs (length files) base kvs m = Ok m1" "load_shards parse dir names (files @ [f], m1) = Ok (files', m')"
    by (auto simp: panic_simps split: option.splits)
  from Cons.IH [OF f(4) load_locs_shapes [OF f(3) Cons.prems(2)]] show ?case .
qed simp

lemma checkpoint_shapes: "checkpoint_open parse dir = Ok ck \<Longrightarrow> shapes_u64 (c_tensors ck)"
  by (auto simp: checkpoint_open_def shapes_u64_def [of "[]"] panic_simps split: option.splits intro: load_shards_shapes)

lemma fields_of_entry:
  assumes "base + b < 2 ^ 64" "a \<le> b" "\<forall>d \<in> set (t_shape loc). d < 2 ^ 64"
  shows "tensor_fields base n (tensor_entry loc a b) = Ok \<lparr>t_dtype = t_dtype loc, t_shape = t_shape loc, t_start = base + a, t_end = base + b\<rparr>"
proof -
  have "List.map_filter (j_u64 :: 'x json \<Rightarrow> nat option) (map (\<lambda>n. JInt (int n)) ds) = ds" if "\<forall>d \<in> set ds. d < 2 ^ 64" for ds
    using that by (induction ds) (simp_all add: map_filter_simps)
  with assms show ?thesis by (simp add: tensor_fields_def tensor_entry_def Let_def)
qed

lemma map_of_sorted_mem: "sorted_wrt (<) (map fst m) \<Longrightarrow> (k, v) \<in> set m \<longleftrightarrow> map_of m k = Some v" for k :: "'k::linorder"
  by (rule map_of_eq_Some_iff [symmetric]) (rule sorted_distinct)

text \<open>The resident core survives the trip to the runtime. When the converter writes tensors of an opened
  checkpoint under distinct names into a file below the allocation limit, it reports the file's length;
  the runtime's reader opens the file, knows exactly those names, and reads for each the bytes, the
  type and the shape the checkpoint has for its source tensor. (JSON text followed by spaces parses
  back.)\<close>

theorem core_file_reads_back:
  fixes ck :: "'j checkpoint"
  assumes ck: "checkpoint_open parse dir = Ok ck" and w: "write_safetensors_renamed emit ck names = Ok (n, f)"
    and names: "distinct (map snd names)" "metadata_key \<notin> snd ` set names" and small: "length f < alloc_limit"
    and json: "\<And>h bs k. sorted_wrt (<) (map fst h) \<Longrightarrow> emit (JObj h) = Some bs \<Longrightarrow> parse (bs @ replicate k 0x20) = Some (JObj h)"
  shows "n = length f \<and> (\<exists>st. st_open parse f = Ok st \<and> set (st_names st) = snd ` set names \<and>
    (\<forall>(src, dst) \<in> set names. \<exists>loc raw i. map_of (c_tensors ck) src = Some loc \<and> read_raw ck loc = Ok raw \<and>
       st_raw st dst = Ok (raw, i) \<and> t_dtype i = t_dtype loc \<and> t_shape i = t_shape loc))"
proof -
  obtain h c js data where H: "core_header ck names ([], 0) = Ok (h, c)" "emit (JObj h) = Some js" "core_data ck names [] = Ok data"
    and out: "n = 8 + length (pad_spaces js) + length data" "f = to_le 8 (length (pad_spaces js)) @ pad_spaces js @ data"
    using w by (auto simp: write_safetensors_renamed_def Let_def panic_simps split: option.splits)
  obtain k where k: "pad_spaces js = js @ replicate k 0x20" using pad_spaces_eq by blast
  let ?hdr = "pad_spaces js"
  define base where "base = 8 + length ?hdr"
  have keys: "sorted_wrt (<) (map fst h)" "fst ` set h = snd ` set names" using core_header_keys [OF H(1)] by simp_all
  have parsed: "parse ?hdr = Some (JObj h)" unfolding k by (rule json [OF keys(1) H(2)])
  have lf: "length f = base + length data" using out(2) by (simp add: base_def)
  have hl: "length ?hdr < 2 ^ 63" using small lf by (simp add: base_def alloc_limit_def)
  then have le: "from_le (to_le 8 (length ?hdr)) = length ?hdr" by (intro from_to_le) simp
  have "read_exact f 0 8 = Some (to_le 8 (length ?hdr))" "read_exact f 8 (length ?hdr) = Some ?hdr"
    using read_exact_append [of "[]" 0 "to_le 8 (length ?hdr)" 8 "?hdr @ data"] read_exact_append [of "to_le 8 (length ?hdr)" 8 ?hdr "length ?hdr" data]
    by (simp_all add: out(2))
  then have rh: "read_header parse f = Ok (base, h)" using le parsed hl by (simp add: read_header_def Let_def base_def alloc_limit_def)
  have slice: "\<exists>raw pre post. read_raw ck (loc_of ck src) = Ok raw \<and> data = pre @ raw @ post \<and> length pre = spans ck a \<and> length raw = span_of ck (src, dst) \<and>
      map_of (c_tensors ck) src = Some (loc_of ck src) \<and>
      map_of h dst = Some (tensor_entry (loc_of ck src) (spans ck a) (spans ck a + span_of ck (src, dst)))"
    if "names = a @ (src, dst) # b" for a src dst b
    using core_data_slice [OF H(3) that] core_header_entry [OF H(1) names(1) _ that] by simp
  define T where "T d = (case the (map_of h d) of e \<Rightarrow> (case tensor_fields base d e of Ok t \<Rightarrow> t))" for d
  have fields: "tensor_fields base dst (tensor_entry (loc_of ck src) (spans ck a) (spans ck a + span_of ck (src, dst)) :: 'j json) =
      Ok \<lparr>t_dtype = t_dtype (loc_of ck src), t_shape = t_shape (loc_of ck src), t_start = base + spans ck a, t_end = base + spans ck a + span_of ck (src, dst)\<rparr>"
    if s: "names = a @ (src, dst) # b" for a src dst b
  proof -
    obtain raw pre post where r: "data = pre @ raw @ post" "length pre = spans ck a" "length raw = span_of ck (src, dst)"
      "map_of (c_tensors ck) src = Some (loc_of ck src)"
      using slice [OF s] by blast
    have "base + (spans ck a + span_of ck (src, dst)) < 2 ^ 64" using small lf r(1-3) by (simp add: alloc_limit_def)
    moreover have "\<forall>d \<in> set (t_shape (loc_of ck src)). d < 2 ^ 64" using checkpoint_shapes [OF ck] r(4) by (simp add: shapes_u64_def)
    ultimately show ?thesis unfolding add.assoc by (intro fields_of_entry) simp_all
  qed
  have memT: "tensor_fields base d e = Ok (T d)" if "(d, e) \<in> set h" for d e
  proof -
    have e: "map_of h d = Some e" using that map_of_sorted_mem [OF keys(1)] by blast
    have "d \<in> snd ` set names" using that keys(2) by force
    then obtain src a b where s: "names = a @ (src, d) # b" by (auto dest: split_list)
    from slice [OF s] e fields [OF s] show ?thesis by (auto simp: T_def)
  qed
  have meta: "metadata_key \<notin> fst ` set h" using names(2) keys(2) by simp
  have dh: "distinct (map fst h)" using keys(1) by (rule sorted_distinct)
  obtain m where m: "load_tensors base h [] = Ok m" "\<forall>d. map_of m d = (if d \<in> fst ` set h then Some (T d) else None)"
    using load_tensors_Ok [OF dh meta memT, of "[]"] by auto
  let ?st = "\<lparr>st_file = f, st_tensors = m\<rparr>"
  have op: "st_open parse f = Ok ?st" using rh m(1) by (simp add: st_open_def)
  have "dom (map_of m) = fst ` set h" using m(2) by (auto simp: dom_def)
  then have nm: "set (st_names ?st) = snd ` set names" using keys(2) by (simp add: st_names_def dom_map_of_conv_image_fst)
  have rd: "\<exists>loc raw i. map_of (c_tensors ck) src = Some loc \<and> read_raw ck loc = Ok raw \<and>
       st_raw ?st dst = Ok (raw, i) \<and> t_dtype i = t_dtype loc \<and> t_shape i = t_shape loc" if mem: "(src, dst) \<in> set names" for src dst
  proof -
    obtain a b where s: "names = a @ (src, dst) # b" using split_list [OF mem] by blast
    obtain raw pre post where r: "read_raw ck (loc_of ck src) = Ok raw" "data = pre @ raw @ post" "length pre = spans ck a" "length raw = span_of ck (src, dst)"
      "map_of (c_tensors ck) src = Some (loc_of ck src)"
      "map_of h dst = Some (tensor_entry (loc_of ck src) (spans ck a) (spans ck a + span_of ck (src, dst)))"
      using slice [OF s] by blast
    have "(dst, tensor_entry (loc_of ck src) (spans ck a) (spans ck a + span_of ck (src, dst))) \<in> set h"
      using r(6) by (rule map_of_SomeD)
    with memT fields [OF s] have T: "T dst = \<lparr>t_dtype = t_dtype (loc_of ck src), t_shape = t_shape (loc_of ck src),
        t_start = base + spans ck a, t_end = base + spans ck a + span_of ck (src, dst)\<rparr>" by force
    have md: "map_of m dst = Some (T dst)" using m(2) keys(2) mem by force
    have "f = (to_le 8 (length ?hdr) @ ?hdr @ pre) @ raw @ post" using out(2) r(2) by simp
    then have "read_exact f (base + spans ck a) (span_of ck (src, dst)) = Some raw"
      using read_exact_append [of "to_le 8 (length ?hdr) @ ?hdr @ pre" "base + spans ck a" raw "span_of ck (src, dst)" post] r(3,4)
      by (simp add: base_def)
    moreover have "span_of ck (src, dst) < alloc_limit" using small lf r(2-4) by simp
    ultimately have "st_raw ?st dst = Ok (raw, T dst)" using md T by (simp add: st_raw_def st_info_def)
    with r(1,5) T show ?thesis by simp
  qed
  have "n = length f" using out lf by (simp add: base_def)
  with op nm rd show ?thesis by (intro conjI exI [of _ ?st]) auto
qed

section \<open>A small checkpoint\<close>

definition tiny_header :: "(string \<times> unit json) list" where
  "tiny_header = [(''x.a'', JObj [(''data_offsets'', JArr [JInt 0, JInt 2]), (''dtype'', JStr ''BF16''), (''shape'', JArr [JInt 1])])]"

definition tiny_core :: "unit json" where
  "tiny_core = JObj [(''a'', JObj [(''data_offsets'', JArr [JInt 0, JInt 2]), (''dtype'', JStr ''BF16''), (''shape'', JArr [JInt 1])])]"

definition tiny_parse :: "bytes \<Rightarrow> unit json option" where
  "tiny_parse bs = (case bs of [] \<Rightarrow> None | b # _ \<Rightarrow> if b = 1 then Some (JObj tiny_header) else if b = 2 then Some tiny_core else Some JNull)"

definition tiny_emit :: "unit json \<Rightarrow> bytes option" where
  "tiny_emit v = (if v = tiny_core then Some [2] else None)"

definition tiny_dir :: "string \<Rightarrow> file_bytes option" where
  "tiny_dir = Map.empty (config_name \<mapsto> [3], single_name \<mapsto> [1, 0, 0, 0, 0, 0, 0, 0, 1, 0x80, 0x3F])"

definition tiny_ck :: "unit checkpoint" where
  "tiny_ck = \<lparr>c_files = [[1, 0, 0, 0, 0, 0, 0, 0, 1, 0x80, 0x3F]],
     c_tensors = [(''x.a'', \<lparr>t_dtype = ''BF16'', t_shape = [1], t_start = 9, t_end = 11, l_file = 0\<rparr>)], c_config = JNull\<rparr>"

lemma tiny_open: "checkpoint_open tiny_parse tiny_dir = Ok tiny_ck"
  by (simp add: checkpoint_open_def tiny_dir_def tiny_parse_def config_name_def single_name_def index_name_def shard_names_def
      read_header_def read_exact_def read_at_def alloc_limit_def tiny_header_def metadata_key_def tensor_fields_def with_file_def
      map_filter_simps j_u64_def tiny_ck_def)

lemma to_le_numeral: "to_le (numeral k) n = of_nat (n mod 256) # to_le (pred_numeral k) (n div 256)"
  by (subst numeral_eq_Suc) (rule to_le.simps(2))

lemma tiny_spaces: "pad_spaces [2] = [2, 0x20, 0x20, 0x20, 0x20, 0x20, 0x20, 0x20]"
  by (simp add: pad_spaces.simps)

lemma core_file_reads_back_witness:
  "\<exists>st raw i. st_open tiny_parse [8, 0, 0, 0, 0, 0, 0, 0, 2, 0x20, 0x20, 0x20, 0x20, 0x20, 0x20, 0x20, 0x80, 0x3F] = Ok st \<and> st_raw st ''a'' = Ok (raw, i) \<and> t_shape i = [1]"
proof -
  have w: "write_safetensors_renamed tiny_emit tiny_ck [(''x.a'', ''a'')] =
      Ok (18, [8, 0, 0, 0, 0, 0, 0, 0, 2, 0x20, 0x20, 0x20, 0x20, 0x20, 0x20, 0x20, 0x80, 0x3F])"
    by (simp add: write_safetensors_renamed_def tiny_ck_def tiny_emit_def tiny_core_def tensor_entry_def read_raw_def nth_opt_def
      read_exact_def read_at_def alloc_limit_def tiny_spaces to_le_numeral)
  have j: "tiny_parse (bs @ replicate k 0x20) = Some (JObj h)" if "tiny_emit (JObj h) = Some bs" for h bs k
    using that by (auto simp: tiny_emit_def tiny_parse_def tiny_core_def split: if_splits)
  from core_file_reads_back [OF tiny_open w _ _ _ j]
  have "\<exists>st. st_open tiny_parse [8, 0, 0, 0, 0, 0, 0, 0, 2, 0x20, 0x20, 0x20, 0x20, 0x20, 0x20, 0x20, 0x80, 0x3F] = Ok st \<and>
      (\<exists>loc raw i. map_of (c_tensors tiny_ck) ''x.a'' = Some loc \<and> st_raw st ''a'' = Ok (raw, i) \<and> t_shape i = t_shape loc)"
    by (auto simp: alloc_limit_def metadata_key_def)
  then show ?thesis by (auto simp: tiny_ck_def)
qed

end
