(* ===== verification/Convert.thy ===== *)
theory Convert
  imports Checkpoint
begin

text \<open>
  The converter of Qwen3-MoE checkpoints (\<open>llmpager-convert/src/lib.rs\<close>): which tensors are expert
  weights, the table of their names, the blob of one expert, the layers of blobs written to the pack.
  One thread per expert builds a blob; all are joined, in order, before the first is written, so a
  panic in any of them wins over an error in an earlier one. The result is the report and the two
  files; what a failed run leaves on disk is not modelled.
\<close>

section \<open>Names\<close>

definition strip_prefix :: "string \<Rightarrow> string \<Rightarrow> string option" where
  "strip_prefix p s = (if take (length p) s = p then Some (drop (length p) s) else None)"

fun split_once :: "char \<Rightarrow> string \<Rightarrow> (string \<times> string) option" where
  "split_once c [] = None"
| "split_once c (x # xs) = (if x = c then Some ([], xs) else map_option (\<lambda>(a, b). (x # a, b)) (split_once c xs))"

text \<open>\<open>str::parse::<u16>\<close>: decimal digits, one leading plus allowed, no overflow.\<close>

definition digit_val :: "char \<Rightarrow> nat option" where
  "digit_val c = (let n = of_char c :: nat in if 48 \<le> n \<and> n \<le> 57 then Some (n - 48) else None)"

fun digits_u16 :: "nat \<Rightarrow> string \<Rightarrow> nat option" where
  "digits_u16 v [] = Some v"
| "digits_u16 v (c # cs) =
     (case digit_val c of None \<Rightarrow> None | Some d \<Rightarrow> if 65535 < v * 10 + d then None else digits_u16 (v * 10 + d) cs)"

definition parse_u16 :: "string \<Rightarrow> u16 option" where
  "parse_u16 s =
     (let ds = (case s of c # cs \<Rightarrow> if c = CHR ''+'' then cs else s | [] \<Rightarrow> [])
      in if ds = [] then None else map_option of_nat (digits_u16 0 ds))"

definition expert_path :: "string \<Rightarrow> (string \<times> nat) list \<Rightarrow> string \<Rightarrow> (u16 \<times> u16 \<times> nat) option" where
  "expert_path prefix projs name =
     Option.bind (strip_prefix prefix name) (\<lambda>rest.
     Option.bind (split_once (CHR ''.'') rest) (\<lambda>(layer, rest).
     Option.bind (strip_prefix ''mlp.experts.'' rest) (\<lambda>rest.
     Option.bind (split_once (CHR ''.'') rest) (\<lambda>(expert, rest).
     Option.bind (map_of projs rest) (\<lambda>proj.
     Option.bind (parse_u16 layer) (\<lambda>l.
     Option.bind (parse_u16 expert) (\<lambda>e. Some (l, e, proj))))))))"

definition parse_expert :: "string \<Rightarrow> (u16 \<times> u16 \<times> nat) option" where
  "parse_expert = expert_path ''model.layers.'' [(''gate_proj.weight'', 0), (''up_proj.weight'', 1), (''down_proj.weight'', 2)]"

type_synonym expert_table = "string option list list list"

definition empty_table :: "nat \<Rightarrow> nat \<Rightarrow> expert_table" where
  "empty_table layers experts = replicate layers (replicate experts [None, None, None])"

definition table_set :: "expert_table \<Rightarrow> nat \<Rightarrow> nat \<Rightarrow> nat \<Rightarrow> string \<Rightarrow> expert_table" where
  "table_set t l e p name = t[l := (t ! l)[e := (t ! l ! e)[p := Some name]]]"

fun sort_names :: "u16 \<Rightarrow> u16 \<Rightarrow> string list \<Rightarrow> expert_table \<times> string list \<Rightarrow> (conv_error, expert_table \<times> string list) res" where
  "sort_names layers experts [] acc = Ok acc"
| "sort_names layers experts (name # names) (t, core) =
     (case parse_expert name of
        Some (l, e, p) \<Rightarrow>
          if l < layers \<and> e < experts then sort_names layers experts names (table_set t (unat l) (unat e) p name, core)
          else Err (OutOfRange name)
      | None \<Rightarrow> sort_names layers experts names (t, core @ [name]))"

section \<open>Blobs\<close>

definition blob_header_bytes :: nat where
  "blob_header_bytes = 32"

definition q4_group :: nat where
  "q4_group = 64"

definition blob_of :: "nat \<Rightarrow> (nat \<times> nat) list \<Rightarrow> bytes list \<Rightarrow> bytes" where
  "blob_of grp dims regions =
     concat (map (\<lambda>(r, c). to_le 4 r @ to_le 4 c) dims) @ to_le 4 grp @ to_le 4 0 @ concat regions"

definition build_region :: "'f f32_ops \<Rightarrow> 'j checkpoint \<Rightarrow> string \<Rightarrow> (conv_error, (nat \<times> nat) \<times> bytes \<times> 'f) res" where
  "build_region F ck name =
     bind_res (read_f32 F ck name) (\<lambda>(vals, shape).
       case shape of
         [rows, cols] \<Rightarrow>
           if cols mod q4_group \<noteq> 0 then Err (BadCols name cols)
           else if alloc_limit \<le> q4_bytes rows cols q4_group then Panic
           else bind_res (map_err CQuant (q4_quantize F vals rows cols q4_group (zeros (q4_bytes rows cols q4_group))))
             (\<lambda>(err, buf). Ok ((rows, cols), buf, err))
       | _ \<Rightarrow> Err (NotTwoD name))"

fun build_regions ::
  "'f f32_ops \<Rightarrow> 'j checkpoint \<Rightarrow> u16 \<Rightarrow> u16 \<Rightarrow> nat \<Rightarrow> string option list \<Rightarrow> (nat \<times> nat) list \<times> bytes list \<times> 'f
   \<Rightarrow> (conv_error, (nat \<times> nat) list \<times> bytes list \<times> 'f) res" where
  "build_regions F ck layer expert p [] acc = Ok acc"
| "build_regions F ck layer expert p (name # names) (dims, regions, err) =
     (case name of
        None \<Rightarrow> Err (MissingExpert (unat layer) (unat expert) p)
      | Some nm \<Rightarrow>
          bind_res (build_region F ck nm) (\<lambda>(d, buf, e).
            build_regions F ck layer expert (p + 1) names (dims @ [d], regions @ [buf], f_max F err e)))"

definition build_blob :: "'f f32_ops \<Rightarrow> 'j checkpoint \<Rightarrow> string option list \<Rightarrow> u16 \<Rightarrow> u16 \<Rightarrow> (conv_error, bytes \<times> 'f) res" where
  "build_blob F ck names layer expert =
     bind_res (build_regions F ck layer expert 0 names ([], [], f_zero F)) (\<lambda>(dims, regions, err).
       Ok (blob_of q4_group dims regions, err))"

section \<open>The pack\<close>

text \<open>Joining the threads of a layer, then writing its blobs through \<open>put\<close>.\<close>

definition join_all :: "('e, 'a) res list \<Rightarrow> ('e, ('e, 'a) res list) res" where
  "join_all rs = (if Panic \<in> set rs then Panic else Ok rs)"

fun write_blobs ::
  "('f \<Rightarrow> 'f \<Rightarrow> 'f) \<Rightarrow> (bytes \<Rightarrow> 'c pack_writer \<Rightarrow> (conv_error, 'c pack_writer) res) \<Rightarrow> (conv_error, bytes \<times> 'f) res list
   \<Rightarrow> 'c pack_writer \<times> 'f \<Rightarrow> (conv_error, 'c pack_writer \<times> 'f) res" where
  "write_blobs mx put [] acc = Ok acc"
| "write_blobs mx put (b # bs) (w, err) =
     bind_res b (\<lambda>(blob, e). bind_res (put blob w) (\<lambda>w'. write_blobs mx put bs (w', mx err e)))"

fun write_layers ::
  "('f \<Rightarrow> 'f \<Rightarrow> 'f) \<Rightarrow> (bytes \<Rightarrow> 'c pack_writer \<Rightarrow> (conv_error, 'c pack_writer) res) \<Rightarrow> (nat \<Rightarrow> (conv_error, bytes \<times> 'f) res list)
   \<Rightarrow> nat list \<Rightarrow> 'c pack_writer \<times> 'f \<Rightarrow> (conv_error, 'c pack_writer \<times> 'f) res" where
  "write_layers mx put layer [] acc = Ok acc"
| "write_layers mx put layer (l # ls) acc =
     bind_res (join_all (layer l)) (\<lambda>bs. bind_res (write_blobs mx put bs acc) (write_layers mx put layer ls))"

definition put_plain :: "bytes \<Rightarrow> 'c pack_writer \<Rightarrow> (conv_error, 'c pack_writer) res" where
  "put_plain blob w = map_err CPack (add_blob blob w)"

record 'f conv_report =
  cr_layers :: u16
  cr_experts :: u16
  cr_pack_bytes :: nat
  cr_core_bytes :: nat
  cr_core_tensors :: nat
  cr_max_err :: 'f

definition key_u16 :: "'j json \<Rightarrow> string \<Rightarrow> (conv_error, u16) res" where
  "key_u16 v k = (case j_u64 (jget v k) of None \<Rightarrow> Err (MissingKey k) | Some n \<Rightarrow> Ok (of_nat n))"

definition convert_qwen ::
  "'f f32_ops \<Rightarrow> (bytes \<Rightarrow> 'j json option) \<Rightarrow> ('j json \<Rightarrow> bytes option) \<Rightarrow> ('j json pack_meta \<Rightarrow> bytes option)
   \<Rightarrow> (string \<Rightarrow> file_bytes option) \<Rightarrow> (conv_error, 'f conv_report \<times> file_bytes \<times> file_bytes) res" where
  "convert_qwen F parse emit ser dir =
     bind_res (checkpoint_open parse dir) (\<lambda>ck.
     bind_res (key_u16 (c_config ck) ''num_hidden_layers'') (\<lambda>layers.
     bind_res (key_u16 (c_config ck) ''num_experts'') (\<lambda>experts.
     bind_res (sort_names layers experts (map fst (c_tensors ck)) (empty_table (unat layers) (unat experts), [])) (\<lambda>(table, core).
     bind_res (write_safetensors emit ck core) (\<lambda>(core_bytes, core_file).
       let meta = \<lparr>pm_model = opt_or ''unknown'' (j_str (jget (c_config ck) ''model_type'')), pm_layers = layers, pm_experts = experts,
             pm_dtype = ''q4g64-gud'', pm_config = c_config ck, pm_compression = None, pm_max_raw = 0\<rparr>;
           layer = (\<lambda>l. map (\<lambda>e. build_blob F ck (table ! l ! e) (of_nat l) (of_nat e)) [0..<unat experts])
       in bind_res (write_layers (f_max F) put_plain layer [0..<unat layers] (writer_create meta, f_zero F)) (\<lambda>(w, err).
          bind_res (map_err CPack (writer_finish ser w)) (\<lambda>pack.
            Ok (\<lparr>cr_layers = layers, cr_experts = experts, cr_pack_bytes = length pack, cr_core_bytes = core_bytes,
                 cr_core_tensors = length core, cr_max_err = err\<rparr>, pack, core_file))))))))"

section \<open>The table of names\<close>

definition table_ok :: "nat \<Rightarrow> nat \<Rightarrow> (string \<Rightarrow> (u16 \<times> u16 \<times> nat) option) \<Rightarrow> string set \<Rightarrow> expert_table \<Rightarrow> bool" where
  "table_ok L E parse names t \<longleftrightarrow> length t = L \<and> (\<forall>l < L. length (t ! l) = E \<and> (\<forall>e < E. length (t ! l ! e) = 3 \<and>
     (\<forall>p < 3. \<forall>n. t ! l ! e ! p = Some n \<longrightarrow> n \<in> names \<and> parse n = Some (of_nat l, of_nat e, p))))"

lemma table_ok_empty: "table_ok L E parse names (empty_table L E)"
proof -
  have "[None, None, None] ! p \<noteq> Some (n :: string)" if "p < 3" for p n
    using that by (auto simp: less_Suc_eq numeral_eq_Suc)
  then show ?thesis by (simp add: table_ok_def empty_table_def)
qed

lemma table_ok_set:
  assumes t: "table_ok L E parse names t" and b: "unat l < L" "unat e < E" "p < 3" and n: "n \<in> names" "parse n = Some (l, e, p)"
  shows "table_ok L E parse names (table_set t (unat l) (unat e) p n)"
  using t b n unfolding table_ok_def table_set_def
  by (auto simp: nth_list_update split: if_splits)

lemma table_ok_mono: "table_ok L E parse A t \<Longrightarrow> A \<subseteq> B \<Longrightarrow> table_ok L E parse B t"
  unfolding table_ok_def by blast

lemma expert_path_proj: "expert_path pre projs n = Some (l, e, p) \<Longrightarrow> p \<in> snd ` set projs"
  by (auto simp: expert_path_def Option.bind_eq_Some_conv dest!: map_of_SomeD intro: rev_image_eqI)

lemma sort_names_Ok:
  "sort_names L E names (t, core) = Ok (t', core') \<Longrightarrow> table_ok (unat L) (unat E) parse_expert A t \<Longrightarrow> set names \<subseteq> A \<Longrightarrow>
     table_ok (unat L) (unat E) parse_expert A t' \<and> core' = core @ filter (\<lambda>n. parse_expert n = None) names"
proof (induction names arbitrary: t core)
  case (Cons n names)
  show ?case
  proof (cases "parse_expert n")
    case None
    with Cons.prems Cons.IH [of t "core @ [n]"] show ?thesis by simp
  next
    case (Some lep)
    obtain l e p where lep: "lep = (l, e, p)" by (cases lep)
    with Some Cons.prems(1) have b: "l < L" "e < E" and s: "sort_names L E names (table_set t (unat l) (unat e) p n, core) = Ok (t', core')"
      by (auto split: if_splits)
    have "p < 3" using expert_path_proj [of "''model.layers.''" _ n l e p] Some lep unfolding parse_expert_def by fastforce
    then have "table_ok (unat L) (unat E) parse_expert A (table_set t (unat l) (unat e) p n)"
      using table_ok_set [OF Cons.prems(2), of l e p n] b Cons.prems(3) Some lep by (simp add: word_less_nat_alt)
    with Cons.IH [OF s] Cons.prems(3) Some show ?thesis by simp
  qed
qed simp

section \<open>The blobs of a run\<close>

lemma add_blobs_append: "add_blobs (as @ bs) w = bind_res (add_blobs as w) (add_blobs bs)"
proof (induction as arbitrary: w)
  case (Cons a as)
  then show ?case by (cases "add_blob a w") simp_all
qed simp

definition blob_is :: "(conv_error, bytes \<times> 'f) res \<Rightarrow> bytes \<Rightarrow> bool" where
  "blob_is r b \<longleftrightarrow> (\<exists>e. r = Ok (b, e))"

lemma put_plain_Ok [panic_simps]: "put_plain b w = Ok w' \<longleftrightarrow> add_blob b w = Ok w'"
  by (simp add: put_plain_def panic_simps)

lemma write_blobs_Ok:
  "write_blobs mx put_plain rs (w, err) = Ok (w', err') \<Longrightarrow> \<exists>bs. list_all2 blob_is rs bs \<and> add_blobs bs w = Ok w'"
proof (induction rs arbitrary: w err)
  case (Cons r rs)
  then obtain b e w1 where s: "r = Ok (b, e)" "add_blob b w = Ok w1" "write_blobs mx put_plain rs (w1, mx err e) = Ok (w', err')"
    by (auto simp: panic_simps)
  from Cons.IH [OF s(3)] obtain bs where "list_all2 blob_is rs bs" "add_blobs bs w1 = Ok w'" by blast
  moreover have "blob_is r b" using s(1) by (simp add: blob_is_def)
  ultimately show ?case using s(2) by (intro exI [of _ "b # bs"]) simp
qed (auto intro: exI [of _ "[]"])

lemma write_layers_Ok:
  "write_layers mx put_plain layer ls (w, err) = Ok (w', err') \<Longrightarrow>
     \<exists>bs. list_all2 blob_is (concat (map layer ls)) bs \<and> add_blobs bs w = Ok w'"
proof (induction ls arbitrary: w err)
  case (Cons l ls)
  then obtain w1 err1 where s: "write_blobs mx put_plain (layer l) (w, err) = Ok (w1, err1)" "write_layers mx put_plain layer ls (w1, err1) = Ok (w', err')"
    by (auto simp: panic_simps join_all_def split: if_splits)
  obtain as where a: "list_all2 blob_is (layer l) as" "add_blobs as w = Ok w1" using write_blobs_Ok [OF s(1)] by blast
  obtain bs where b: "list_all2 blob_is (concat (map layer ls)) bs" "add_blobs bs w1 = Ok w'" using Cons.IH [OF s(2)] by blast
  from a b show ?case by (intro exI [of _ "as @ bs"]) (simp add: add_blobs_append list_all2_appendI)
qed (auto intro: exI [of _ "[]"])

lemma list_all2_grid:
  assumes "list_all2 P (concat (map (\<lambda>l. map (f l) [0..<E]) [0..<L])) bs" "l < L" "e < E"
  shows "length bs = L * E \<and> P (f l e) (bs ! (l * E + e))"
proof -
  have ln: "length (concat (map (\<lambda>l. map (f l) [0..<E]) [0..<L])) = L * E" by (rule length_blocks) simp
  have nth: "concat (map (\<lambda>l. map (f l) [0..<E]) [0..<L]) ! (l * E + e) = f l e"
    using blocks_nth [of L "\<lambda>l. map (f l) [0..<E]" E l e] assms(2,3) by simp
  have "Suc l * E \<le> L * E" using assms(2) by (intro mult_le_mono1) simp
  then have "l * E + e < L * E" using assms(3) by simp
  with assms(1) ln nth show ?thesis by (metis list_all2_conv_all_nth)
qed

text \<open>A pack that was written entirely serves the blobs, by \<open>(layer, expert)\<close>.\<close>

lemma written_layers_served:
  assumes w: "write_layers mx put_plain (\<lambda>l. map (f l) [0..<unat (pm_experts m)]) [0..<unat (pm_layers m)] (writer_create m, err) = Ok (w, err')"
    and fin: "writer_finish ser w = Ok pack" and raw: "pm_compression m = None" and small: "length pack < 2 ^ 64"
    and json: "\<And>js. ser m = Some js \<Longrightarrow> de js = Some m"
    and le: "unat l < unat (pm_layers m)" "unat e < unat (pm_experts m)"
  shows "\<exists>r blob x. open_inner de pack direct = Ok r \<and> r_meta r = m \<and> f (unat l) (unat e) = Ok (blob, x) \<and>
    (\<forall>addr buf. align_up (length blob) \<le> length buf \<longrightarrow> (direct \<longrightarrow> addr mod pack_align = 0) \<longrightarrow>
       (\<exists>out. read_blob_into unz r l e addr buf = Ok (length blob, out) \<and> length out = length buf \<and> take (length blob) out = blob))"
proof -
  obtain bs where bs: "list_all2 blob_is (concat (map (\<lambda>l. map (f l) [0..<unat (pm_experts m)]) [0..<unat (pm_layers m)])) bs"
    "add_blobs bs (writer_create m) = Ok w"
    using write_layers_Ok [OF w] by blast
  have len: "length bs = pm_total m" and b: "blob_is (f (unat l) (unat e)) (bs ! (unat l * unat (pm_experts m) + unat e))"
    using list_all2_grid [OF bs(1) le] by (simp_all add: pm_total_def)
  have "holds m bs w" using add_blobs_holds [OF holds_create [of m], of bs] len bs(2) by auto
  then have meta: "w_meta w = m" by (simp add: holds_def)
  obtain js where js: "ser m = Some js" "length js \<le> pack_align - 16"
    using fin meta by (auto simp: writer_finish_def Let_def split: if_splits option.splits)
  have pk: "pack = pack_file m js bs" using finish_file [where ser = ser, OF \<open>holds m bs w\<close> len js] fin by simp
  have op: "open_inner de pack direct = Ok (reader_of m js bs direct)"
    unfolding pk reader_of_def by (rule open_pack_file [where de = de, OF len js(2) json [OF js(1)]]) (use small pk in simp)
  obtain x where x: "f (unat l) (unat e) = Ok (bs ! (unat l * unat (pm_experts m) + unat e), x)" using b by (auto simp: blob_is_def)
  have rm: "r_meta (reader_of m js bs direct) = m" by (simp add: reader_of_def)
  note rd = read_pack_file(2) [OF len js(2) raw le, where direct = direct and unz = unz]
  show ?thesis
    by (rule exI, rule exI, rule exI, intro conjI allI impI, rule op, rule rm, rule x, rule rd) (assumption, erule mp)
qed

lemma build_regions_complete: "build_regions F ck l e p names acc = Ok acc' \<Longrightarrow> None \<notin> set names"
proof (induction names arbitrary: p acc)
  case (Cons n names)
  obtain dims regions err where acc: "acc = (dims, regions, err)" by (cases acc)
  from Cons show ?case by (auto simp: acc panic_simps split: option.splits)
qed simp

lemma build_blob_complete: "build_blob F ck names l e = Ok r \<Longrightarrow> None \<notin> set names"
  by (auto simp: build_blob_def panic_simps dest: build_regions_complete)

lemma all_Some: "None \<notin> set xs \<Longrightarrow> map Some (map the xs) = xs"
  by (induction xs) auto

text \<open>C16: What the converter packs is what the pager reads. After a successful conversion of a Qwen checkpoint
  the pack opens with the checkpoint's own configuration, and reading expert \<open>e\<close> of layer \<open>l\<close> gives
  exactly the blob quantized from three tensors of the checkpoint: the gate, up and down projections of
  that layer and expert. (The metadata serializer round-trips.)\<close>

theorem converted_pack_serves_experts:
  assumes conv: "convert_qwen F parse emit ser dir = Ok (rep, pack, core)" and small: "length pack < 2 ^ 64"
    and json: "\<And>m js. ser m = Some js \<Longrightarrow> de js = Some m"
    and le: "l < cr_layers rep" "e < cr_experts rep"
  shows "\<exists>ck r names blob x. checkpoint_open parse dir = Ok ck \<and> open_inner de pack direct = Ok r \<and> pm_config (r_meta r) = c_config ck \<and>
    length names = 3 \<and> (\<forall>p < 3. names ! p \<in> fst ` set (c_tensors ck) \<and> parse_expert (names ! p) = Some (l, e, p)) \<and>
    build_blob F ck (map Some names) l e = Ok (blob, x) \<and>
    (\<forall>addr buf. align_up (length blob) \<le> length buf \<longrightarrow> (direct \<longrightarrow> addr mod pack_align = 0) \<longrightarrow>
       (\<exists>out. read_blob_into unz r l e addr buf = Ok (length blob, out) \<and> length out = length buf \<and> take (length blob) out = blob))"
proof -
  obtain ck table core_names w err where s: "checkpoint_open parse dir = Ok ck"
    "sort_names (cr_layers rep) (cr_experts rep) (map fst (c_tensors ck)) (empty_table (unat (cr_layers rep)) (unat (cr_experts rep)), []) = Ok (table, core_names)"
    and w: "write_layers (f_max F) put_plain (\<lambda>l. map (\<lambda>e. build_blob F ck (table ! l ! e) (of_nat l) (of_nat e)) [0..<unat (cr_experts rep)])
      [0..<unat (cr_layers rep)] (writer_create \<lparr>pm_model = opt_or ''unknown'' (j_str (jget (c_config ck) ''model_type'')), pm_layers = cr_layers rep,
        pm_experts = cr_experts rep, pm_dtype = ''q4g64-gud'', pm_config = c_config ck, pm_compression = None, pm_max_raw = 0\<rparr>, f_zero F) = Ok (w, err)"
    "writer_finish ser w = Ok pack"
    using conv by (auto simp: convert_qwen_def Let_def panic_simps)
  define m where "m = \<lparr>pm_model = opt_or ''unknown'' (j_str (jget (c_config ck) ''model_type'')), pm_layers = cr_layers rep,
        pm_experts = cr_experts rep, pm_dtype = ''q4g64-gud'', pm_config = c_config ck, pm_compression = None, pm_max_raw = 0\<rparr>"
  have mf: "pm_layers m = cr_layers rep" "pm_experts m = cr_experts rep" "pm_compression m = None" "pm_config m = c_config ck"
    by (simp_all add: m_def)
  have le': "unat l < unat (pm_layers m)" "unat e < unat (pm_experts m)" using le mf by (simp_all add: word_less_nat_alt)
  obtain r blob x where r: "open_inner de pack direct = Ok r" "r_meta r = m" "build_blob F ck (table ! unat l ! unat e) l e = Ok (blob, x)"
    "\<forall>addr buf. align_up (length blob) \<le> length buf \<longrightarrow> (direct \<longrightarrow> addr mod pack_align = 0) \<longrightarrow>
       (\<exists>out. read_blob_into unz r l e addr buf = Ok (length blob, out) \<and> length out = length buf \<and> take (length blob) out = blob)"
    using written_layers_served [where ser = ser and de = de and direct = direct and unz = unz, OF w(1) [folded m_def, folded mf(1,2)] w(2) mf(3) small json le']
    by auto
  have ok: "table_ok (unat (cr_layers rep)) (unat (cr_experts rep)) parse_expert (fst ` set (c_tensors ck)) table"
    using sort_names_Ok [OF s(2) table_ok_empty, of "fst ` set (c_tensors ck)"] by simp
  define names where "names = map the (table ! unat l ! unat e)"
  have ns: "map Some names = table ! unat l ! unat e" unfolding names_def by (rule all_Some) (rule build_blob_complete [OF r(3)])
  have len: "length names = 3" using ok le' mf by (simp add: table_ok_def names_def)
  have p3: "names ! p \<in> fst ` set (c_tensors ck) \<and> parse_expert (names ! p) = Some (l, e, p)" if "p < 3" for p
  proof -
    have "table ! unat l ! unat e ! p = Some (names ! p)" using ns len that by (metis nth_map)
    with ok le' mf that show ?thesis unfolding table_ok_def by fastforce
  qed
  have cfg: "pm_config (r_meta r) = c_config ck" using r(2) mf(4) by simp
  have bb: "build_blob F ck (map Some names) l e = Ok (blob, x)" using r(3) ns by simp
  have np: "\<forall>p < 3. names ! p \<in> fst ` set (c_tensors ck) \<and> parse_expert (names ! p) = Some (l, e, p)" using p3 by blast
  show ?thesis
    by (rule exI, rule exI, rule exI, rule exI, rule exI, rule conjI, rule s(1), rule conjI, rule r(1), rule conjI, rule cfg,
      rule conjI, rule len, rule conjI, rule np, rule conjI, rule bb, rule r(4))
qed

end
