(* ===== verification/Convert_Kimi.thy ===== *)
theory Convert_Kimi
  imports Convert Sampling
begin

text \<open>
  The converter of Kimi checkpoints (\<open>llmpager-convert/src/kimi.rs\<close>): experts that are already four
  bits wide are repacked, everything else under \<open>language_model.\<close> goes to the core without that prefix.
  Compression is an argument. The property: no nibble is changed; the runtime's dequantizer gives for
  every element the value the source format defines, up to the rounding of its scale to half precision.
\<close>

section \<open>Names\<close>

definition kimi_prefix :: string where
  "kimi_prefix = ''language_model.''"

definition kimi_group :: nat where
  "kimi_group = 32"

definition parse_expert_packed :: "string \<Rightarrow> (u16 \<times> u16 \<times> nat) option" where
  "parse_expert_packed = expert_path ''language_model.model.layers.''
     [(''gate_proj.weight_packed'', 0), (''up_proj.weight_packed'', 1), (''down_proj.weight_packed'', 2)]"

fun str_contains :: "string \<Rightarrow> string \<Rightarrow> bool" where
  "str_contains p [] = (p = [])"
| "str_contains p (c # cs) = (take (length p) (c # cs) = p \<or> str_contains p cs)"

fun kimi_names ::
  "u16 \<Rightarrow> u16 \<Rightarrow> u16 \<Rightarrow> string list \<Rightarrow> expert_table \<times> (string \<times> string) list \<Rightarrow> (conv_error, expert_table \<times> (string \<times> string) list) res" where
  "kimi_names dense layers experts [] acc = Ok acc"
| "kimi_names dense layers experts (name # names) (t, core) =
     (case parse_expert_packed name of
        Some (l, e, p) \<Rightarrow>
          if l < dense \<or> layers \<le> l \<or> experts \<le> e then Err (OutOfRange name)
          else kimi_names dense layers experts names
                 (table_set t (unat (l - dense)) (unat e) p (take (length name - length ''_packed'') name), core)
      | None \<Rightarrow>
          if strip_prefix kimi_prefix name = None \<or> str_contains ''.mlp.experts.'' name
          then kimi_names dense layers experts names (t, core)
          else kimi_names dense layers experts names (t, core @ [(name, drop (length kimi_prefix) name)]))"

section \<open>Repacking one projection\<close>

text \<open>\<open>i32::from_le_bytes(..) as usize\<close>: a negative dimension becomes a huge one.\<close>

definition i32_usize :: "bytes \<Rightarrow> nat" where
  "i32_usize bs = unat (scast (of_nat (from_le bs) :: u32) :: u64)"

definition packed_dims :: "'j checkpoint \<Rightarrow> string \<Rightarrow> tensor_loc \<Rightarrow> (conv_error, nat \<times> nat) res" where
  "packed_dims ck base packed =
     (case map_of (c_tensors ck) (base @ ''_shape'') of
        Some loc \<Rightarrow>
          bind_res (read_raw ck loc) (\<lambda>raw.
            if length raw < 8 then Panic else Ok (i32_usize (take 4 raw), i32_usize (take 4 (drop 4 raw))))
      | None \<Rightarrow>
          (case t_shape packed of
             a # b # _ \<Rightarrow> if 2 ^ 64 \<le> b * 8 then Panic else Ok (a, b * 8)
           | _ \<Rightarrow> Panic))"

text \<open>The two loops; a slice beyond its region panics.\<close>

fun scale_loop :: "('f, 'm) f32_math_scheme \<Rightarrow> nat \<Rightarrow> bytes list \<Rightarrow> bytes \<times> 'f \<Rightarrow> (bytes \<times> 'f) option" where
  "scale_loop F i [] acc = Some acc"
| "scale_loop F i (c # cs) (sdst, err) =
     (if length sdst < i * 2 + 2 then None
      else let s = f_of_bits F (bf16_f32 c);
               h = f32_to_f16_bits (bf16_f32 c);
               back = f_of_bits F (f16_bits_to_f32 h)
           in scale_loop F (i + 1) cs
                (write_at (i * 2) (le16 h) sdst, if m_eq F s (f_zero F) then err else f_max F err (f_abs F (f_div F (f_sub F s back) s))))"

fun nibble_loop :: "nat \<Rightarrow> bytes list \<Rightarrow> bytes \<Rightarrow> bytes option" where
  "nibble_loop w [] ddst = Some ddst"
| "nibble_loop w (c # cs) ddst = (if length ddst < w * 4 + 4 then None else nibble_loop (w + 1) cs (write_at (w * 4) c ddst))"

definition build_kimi_region :: "('f, 'm) f32_math_scheme \<Rightarrow> 'j checkpoint \<Rightarrow> string \<Rightarrow> 'f \<Rightarrow> (conv_error, (nat \<times> nat) \<times> bytes \<times> 'f) res" where
  "build_kimi_region F ck base err =
     (case (map_of (c_tensors ck) (base @ ''_packed''), map_of (c_tensors ck) (base @ ''_scale'')) of
        (None, _) \<Rightarrow> Err (NoTensor (base @ ''_packed''))
      | (_, None) \<Rightarrow> Err (NoTensor (base @ ''_scale''))
      | (Some ploc, Some sloc) \<Rightarrow>
          if t_dtype ploc \<noteq> ''I32'' \<or> t_dtype sloc \<noteq> ''BF16'' then Err (BadDtype base (t_dtype ploc))
          else bind_res (packed_dims ck base ploc) (\<lambda>(rows, cols).
            if t_shape ploc \<noteq> [rows, cols div 8] \<or> t_shape sloc \<noteq> [rows, cols div kimi_group] then Err (BadPacked base)
            else bind_res (read_raw ck ploc) (\<lambda>packed. bind_res (read_raw ck sloc) (\<lambda>scales.
              if alloc_limit \<le> q4_bytes rows cols kimi_group then Panic
              else let buf = zeros (q4_bytes rows cols kimi_group);
                       n = rows * (cols div kimi_group) * 2
                   in case scale_loop F 0 (chunks_exact 2 scales) (take n buf, err) of
                        None \<Rightarrow> Panic
                      | Some (sdst, err') \<Rightarrow>
                          (case nibble_loop 0 (chunks_exact 4 packed) (drop n buf) of
                             None \<Rightarrow> Panic
                           | Some ddst \<Rightarrow> Ok ((rows, cols), sdst @ ddst, err'))))))"

fun build_kimi_regions ::
  "('f, 'm) f32_math_scheme \<Rightarrow> 'j checkpoint \<Rightarrow> u16 \<Rightarrow> u16 \<Rightarrow> nat \<Rightarrow> string option list \<Rightarrow> (nat \<times> nat) list \<times> bytes list \<times> 'f
   \<Rightarrow> (conv_error, (nat \<times> nat) list \<times> bytes list \<times> 'f) res" where
  "build_kimi_regions F ck layer expert p [] acc = Ok acc"
| "build_kimi_regions F ck layer expert p (base # names) (dims, regions, err) =
     (case base of
        None \<Rightarrow> Err (MissingExpert (unat layer) (unat expert) p)
      | Some b \<Rightarrow>
          bind_res (build_kimi_region F ck b err) (\<lambda>(d, buf, e).
            build_kimi_regions F ck layer expert (p + 1) names (dims @ [d], regions @ [buf], e)))"

definition build_kimi_blob :: "('f, 'm) f32_math_scheme \<Rightarrow> 'j checkpoint \<Rightarrow> string option list \<Rightarrow> u16 \<Rightarrow> u16 \<Rightarrow> (conv_error, bytes \<times> 'f) res" where
  "build_kimi_blob F ck names layer expert =
     bind_res (build_kimi_regions F ck layer expert 0 names ([], [], f_zero F)) (\<lambda>(dims, regions, err).
       Ok (blob_of kimi_group dims regions, err))"

section \<open>The conversion\<close>

definition put_kimi :: "(bytes \<Rightarrow> bytes option) \<Rightarrow> bool \<Rightarrow> bytes \<Rightarrow> 'c pack_writer \<Rightarrow> (conv_error, 'c pack_writer) res" where
  "put_kimi zst compress blob w =
     (if compress then
        let w1 = note_raw_len (length blob) w in
        case zst blob of None \<Rightarrow> Err BadEmit | Some framed \<Rightarrow> put_plain framed w1
      else put_plain blob w)"

definition kimi_config :: "'j json \<Rightarrow> u16 \<Rightarrow> 'j json" where
  "kimi_config txt dense = (case txt of JObj kvs \<Rightarrow> JObj (bt_insert ''moe_layer_offset'' (JInt (int (unat dense))) kvs) | v \<Rightarrow> v)"

definition convert_kimi ::
  "('f, 'm) f32_math_scheme \<Rightarrow> (bytes \<Rightarrow> 'j json option) \<Rightarrow> ('j json \<Rightarrow> bytes option) \<Rightarrow> ('j json pack_meta \<Rightarrow> bytes option)
   \<Rightarrow> (bytes \<Rightarrow> bytes option) \<Rightarrow> bool \<Rightarrow> (string \<Rightarrow> file_bytes option) \<Rightarrow> (conv_error, 'f conv_report \<times> file_bytes \<times> file_bytes) res" where
  "convert_kimi F parse emit ser zst compress dir =
     bind_res (checkpoint_open parse dir) (\<lambda>ck.
       let txt = jget (c_config ck) ''text_config'' in
       if txt = JNull then Err (MissingKey ''text_config'')
       else bind_res (key_u16 txt ''num_hidden_layers'') (\<lambda>layers.
       bind_res (key_u16 txt ''n_routed_experts'') (\<lambda>experts.
         let dense = (of_nat (opt_or 0 (j_u64 (jget txt ''first_k_dense_replace''))) :: u16) in
         if layers < dense then Panic
         else let moe = layers - dense in
           bind_res (kimi_names dense layers experts (map fst (c_tensors ck)) (empty_table (unat moe) (unat experts), [])) (\<lambda>(table, core).
           bind_res (write_safetensors_renamed emit ck core) (\<lambda>(core_bytes, core_file).
             let meta = \<lparr>pm_model = ''kimi_k2.6'', pm_layers = moe, pm_experts = experts, pm_dtype = ''q4g32-gud'',
                   pm_config = kimi_config txt dense, pm_compression = (if compress then Some ''zstd'' else None), pm_max_raw = 0\<rparr>;
                 layer = (\<lambda>l. map (\<lambda>e. build_kimi_blob F ck (table ! l ! e) (of_nat l) (of_nat e)) [0..<unat experts])
             in bind_res (write_layers (f_max F) (put_kimi zst compress) layer [0..<unat moe] (writer_create meta, f_zero F)) (\<lambda>(w, err).
                bind_res (map_err CPack (writer_finish ser w)) (\<lambda>pack.
                  Ok (\<lparr>cr_layers = moe, cr_experts = experts, cr_pack_bytes = length pack, cr_core_bytes = core_bytes,
                       cr_core_tensors = length core, cr_max_err = err\<rparr>, pack, core_file))))))))"

text \<open>The dispatch at the head of \<open>convert\<close>.\<close>

definition convert ::
  "'f f32_math \<Rightarrow> (bytes \<Rightarrow> 'j json option) \<Rightarrow> ('j json \<Rightarrow> bytes option) \<Rightarrow> ('j json pack_meta \<Rightarrow> bytes option)
   \<Rightarrow> (bytes \<Rightarrow> bytes option) \<Rightarrow> bool \<Rightarrow> (string \<Rightarrow> file_bytes option) \<Rightarrow> (conv_error, 'f conv_report \<times> file_bytes \<times> file_bytes) res" where
  "convert F parse emit ser zst compress dir =
     (case dir config_name of
        None \<Rightarrow> Err (NoFile config_name)
      | Some bs \<Rightarrow>
          (case parse bs of
             None \<Rightarrow> Err (BadJson config_name)
           | Some config \<Rightarrow>
               if j_str (jget config ''model_type'') = Some ''kimi_k25'' \<or> jget config ''text_config'' \<noteq> JNull
               then convert_kimi F parse emit ser zst compress dir
               else convert_qwen (f32_ops.truncate F) parse emit ser dir))"

section \<open>The loops\<close>

lemma chunks_exact_mult:
  "0 < n \<Longrightarrow> length xs = k * n \<Longrightarrow> chunks_exact n xs = map (\<lambda>i. take n (drop (i * n) xs)) [0..<k]"
proof (induction k arbitrary: xs)
  case (Suc k)
  then have ne: "xs \<noteq> []" and "length (drop n xs) = k * n" by auto
  from Suc.IH [OF Suc.prems(1) this(2)] have "chunks_exact n (drop n xs) = map (\<lambda>i. take n (drop (i * n) (drop n xs))) [0..<k]" .
  moreover have "chunks_exact n xs = take n xs # chunks_exact n (drop n xs)"
    using Suc.prems ne by (simp add: chunks_exact_def chunks.simps [of n xs])
  moreover have "map (\<lambda>i. take n (drop (i * n) xs)) [0..<Suc k] = take n xs # map (\<lambda>i. take n (drop (i * n) (drop n xs))) [0..<k]"
    by (simp add: upt_rec [of 0] map_Suc_upt [symmetric] comp_def add.commute del: upt_Suc)
  ultimately show ?case by simp
qed (simp add: chunks_exact_def)

lemma concat_chunks_exact: "0 < n \<Longrightarrow> length xs = k * n \<Longrightarrow> concat (chunks_exact n xs) = xs"
proof (induction k arbitrary: xs)
  case (Suc k)
  then have ne: "xs \<noteq> []" and "length (drop n xs) = k * n" by auto
  from Suc.IH [OF Suc.prems(1) this(2)] have "concat (chunks_exact n (drop n xs)) = drop n xs" .
  moreover have "chunks_exact n xs = take n xs # chunks_exact n (drop n xs)"
    using Suc.prems ne by (simp add: chunks_exact_def chunks.simps [of n xs])
  ultimately show ?case by simp
qed (simp add: chunks_exact_def)

definition kimi_scale :: "bytes \<Rightarrow> u16" where
  "kimi_scale c = f32_to_f16_bits (bf16_f32 c)"

lemma overlay_twice:
  assumes q: "q = p + length a" and le: "q + length b \<le> length xs"
  shows "overlay q b (overlay p a xs) = overlay p (a @ b) xs"
proof -
  have l: "length (take p xs @ a) = q" using assms by simp
  have o: "overlay p a xs = (take p xs @ a) @ drop q xs" by (simp add: overlay_def q)
  have "take q (overlay p a xs) = take p xs @ a" "drop (q + length b) (overlay p a xs) = drop (q + length b) xs"
  proof -
    have "length A = q \<Longrightarrow> take q (A @ drop q xs) = A \<and> drop (q + length b) (A @ drop q xs) = drop (q + length b) xs" for A
      by (simp add: add.commute)
    from this [OF l] show "take q (overlay p a xs) = take p xs @ a" "drop (q + length b) (overlay p a xs) = drop (q + length b) xs"
      unfolding o by blast+
  qed
  then show ?thesis by (simp add: overlay_def q add.assoc)
qed

lemma scale_loop_Some:
  "scale_loop F i cs (sdst, err) = Some (sdst', err') \<Longrightarrow> cs = [] \<and> sdst' = sdst \<or>
     (i + length cs) * 2 \<le> length sdst \<and> sdst' = overlay (i * 2) (concat (map (\<lambda>c. le16 (kimi_scale c)) cs)) sdst"
proof (induction cs arbitrary: i sdst err)
  case (Cons c cs)
  let ?l = "le16 (kimi_scale c)"
  have room: "i * 2 + 2 \<le> length sdst" using Cons.prems by (auto split: if_splits)
  have wr: "write_at (i * 2) ?l sdst = overlay (i * 2) ?l sdst" using room by (intro write_at_in) simp
  have lo: "length (overlay (i * 2) ?l sdst) = length sdst" using room by (intro length_overlay) simp
  obtain e where s: "scale_loop F (i + 1) cs (overlay (i * 2) ?l sdst, e) = Some (sdst', err')"
    using Cons.prems room unfolding wr [symmetric] by (simp add: Let_def kimi_scale_def)
  have ih: "cs = [] \<and> sdst' = overlay (i * 2) ?l sdst \<or>
     (i + 1 + length cs) * 2 \<le> length sdst \<and> sdst' = overlay ((i + 1) * 2) (concat (map (\<lambda>c. le16 (kimi_scale c)) cs)) (overlay (i * 2) ?l sdst)"
    using Cons.IH [OF s] lo by simp
  have "length (concat (map (\<lambda>c. le16 (kimi_scale c)) cs)) = length cs * 2" by (induction cs) auto
  with ih room overlay_twice [of "(i + 1) * 2" "i * 2" ?l "concat (map (\<lambda>c. le16 (kimi_scale c)) cs)" sdst] show ?case by auto
qed simp

lemma nibble_loop_Some:
  "nibble_loop w cs ddst = Some ddst' \<Longrightarrow> (\<forall>c \<in> set cs. length c = 4) \<Longrightarrow> cs = [] \<and> ddst' = ddst \<or>
     (w + length cs) * 4 \<le> length ddst \<and> ddst' = overlay (w * 4) (concat cs) ddst"
proof (induction cs arbitrary: w ddst)
  case (Cons c cs)
  have lc: "length c = 4" using Cons.prems(2) by simp
  have room: "w * 4 + 4 \<le> length ddst" using Cons.prems(1) by (auto split: if_splits)
  have wr: "write_at (w * 4) c ddst = overlay (w * 4) c ddst" using room lc by (intro write_at_in) simp
  have lo: "length (overlay (w * 4) c ddst) = length ddst" using room lc by (intro length_overlay) simp
  have s: "nibble_loop (w + 1) cs (overlay (w * 4) c ddst) = Some ddst'" using Cons.prems(1) room wr by simp
  have ih: "cs = [] \<and> ddst' = overlay (w * 4) c ddst \<or>
     (w + 1 + length cs) * 4 \<le> length ddst \<and> ddst' = overlay ((w + 1) * 4) (concat cs) (overlay (w * 4) c ddst)"
    using Cons.IH [OF s] Cons.prems(2) lo by simp
  have "length (concat cs) = length cs * 4" using Cons.prems(2) by (induction cs) auto
  with ih room lc overlay_twice [of "(w + 1) * 4" "w * 4" c "concat cs" ddst] show ?case by auto
qed simp

section \<open>Nibbles\<close>

text \<open>The source format: value \<open>j\<close> is nibble \<open>j mod 8\<close>, at bits \<open>4 * (j mod 8)\<close>, of 32-bit word \<open>j div 8\<close>.\<close>

definition kimi_nibble :: "bytes \<Rightarrow> nat \<Rightarrow> nat" where
  "kimi_nibble packed j = from_le (take 4 (drop (4 * (j div 8)) packed)) div 16 ^ (j mod 8) mod 16"

lemma from_le_digit: "i < length bs \<Longrightarrow> from_le bs div 256 ^ i mod 256 = unat (bs ! i)"
proof (induction bs arbitrary: i)
  case (Cons b bs)
  have b: "unat b < 256" using unat_lt [of b] by simp
  show ?case
  proof (cases i)
    case 0
    then show ?thesis using b by simp
  next
    case (Suc k)
    then have "from_le (b # bs) div 256 ^ i = from_le bs div 256 ^ k" using b by (simp add: div_mult2_eq)
    then show ?thesis using Cons Suc by simp
  qed
qed simp

lemma unat_low: "unat (b AND 0x0F) = unat b mod 16" for b :: u8
  unfolding masks take_bit_eq_mask [symmetric] unsigned_take_bit_eq by (simp add: take_bit_eq_mod)

lemma unat_high: "unat (drop_bit 4 b) = unat b div 16" for b :: u8
  unfolding unsigned_drop_bit_eq using unat_lt [of b] by (simp add: drop_bit_eq_div take_bit_eq_mod)

lemma kimi_nibble_byte:
  assumes "j div 2 < length packed" "length packed mod 4 = 0"
  shows "kimi_nibble packed j = unat (if even j then packed ! (j div 2) AND 0x0F else drop_bit 4 (packed ! (j div 2)))"
proof -
  let ?w = "j div 8"
  define i r where "i = j mod 8 div 2" and "r = j mod 2"
  have "j mod 8 mod 2 = r" unfolding r_def by (rule mod_mod_cancel) simp
  then have j8: "j mod 8 = 2 * i + r" using div_mult_mod_eq [of "j mod 8" 2] by (simp add: i_def)
  have i4: "i < 4" by (simp add: i_def)
  have "j = 2 * (4 * ?w) + j mod 8" by simp
  then have "j div 2 = (2 * (4 * ?w) + j mod 8) div 2" by (rule arg_cong)
  also have "\<dots> = 4 * ?w + i"
  proof -
    have "(2 * a + b) div 2 = a + b div 2" for a b :: nat by simp
    then show ?thesis unfolding i_def .
  qed
  finally have pos: "4 * ?w + i = j div 2" ..
  obtain q where q: "length packed = 4 * q" using assms(2) by (metis mod_0_imp_dvd dvdE)
  have len: "4 * ?w + 4 \<le> length packed" 
  proof -
    have "?w < q" using assms(1) pos unfolding q by linarith
    then show ?thesis unfolding q by linarith
  qed
  have nth: "take 4 (drop (4 * ?w) packed) ! i = packed ! (j div 2)" using i4 len pos by simp
  have dig: "from_le (take 4 (drop (4 * ?w) packed)) div 256 ^ i mod 256 = unat (packed ! (j div 2))"
    using from_le_digit [of i "take 4 (drop (4 * ?w) packed)"] nth i4 len by simp
  have p: "(16 :: nat) ^ (2 * i + r) = 256 ^ i * 16 ^ r" by (simp add: power_add power_mult)
  let ?b = "unat (packed ! (j div 2))"
  have m: "N div 16 mod 16 = N mod 256 div 16" for N :: nat using mod_mult2_eq [of N 16 16] by simp
  have m0: "N mod 16 = N mod 256 mod 16" for N :: nat by (simp add: mod_mod_cancel)
  show ?thesis
  proof (cases "even j")
    case True
    then have "r = 0" unfolding r_def by presburger
    then have "kimi_nibble packed j = from_le (take 4 (drop (4 * ?w) packed)) div 256 ^ i mod 16"
      unfolding kimi_nibble_def j8 p by simp
    also have "\<dots> = ?b mod 16" using dig m0 by metis
    finally show ?thesis using True by (simp add: unat_low)
  next
    case False
    then have "r = 1" unfolding r_def by presburger
    then have "kimi_nibble packed j = from_le (take 4 (drop (4 * ?w) packed)) div 256 ^ i div 16 mod 16"
      unfolding kimi_nibble_def j8 p by (simp add: div_mult2_eq)
    also have "\<dots> = ?b div 16" using dig m by metis
    finally show ?thesis using False by (simp only: unat_high if_False)
  qed
qed

section \<open>The region\<close>

text \<open>C17: Repacking is exact. When the packed and the scale tensor of a projection have the lengths their shapes
  promise, the runtime's dequantizer reads from the converted region, for every element, its nibble of
  the source word minus 8, times the source scale rounded to half precision; nothing is requantized.\<close>

theorem kimi_repack_exact:
  assumes r: "build_kimi_region F ck base err0 = Ok ((rows, cols), buf, err)"
    and locs: "map_of (c_tensors ck) (base @ ''_packed'') = Some ploc" "map_of (c_tensors ck) (base @ ''_scale'') = Some sloc"
    and raw: "read_raw ck ploc = Ok packed" "read_raw ck sloc = Ok scales"
    and size: "cols mod 32 = 0" "length packed = rows * cols div 2" "length scales = rows * (cols div 32) * 2"
    and out: "length out = rows * cols"
  shows "q4_dequantize G buf rows cols 32 out = Ok (map (\<lambda>j.
    f_mul G (f_of_int G (int (kimi_nibble packed j) - 8))
      (f_of_bits G (f16_bits_to_f32 (f32_to_f16_bits (bf16_f32 (take 2 (drop (j div 32 * 2) scales))))))) [0..<rows * cols])"
proof -
  let ?n = "rows * (cols div 32)"
  let ?S = "concat (map (\<lambda>k. le16 (kimi_scale (take 2 (drop (k * 2) scales)))) [0..<?n])"
  have cg: "cols = cols div 32 * 32" using div_mult_mod_eq [of cols 32] size(1) by linarith
  have ng: "?n * 32 = rows * cols" by (subst (2) cg) (simp only: mult.assoc)
  have qb: "q4_bytes rows cols 32 = ?n * 2 + ?n * 16" 
  proof -
    have "rows * cols div 2 = ?n * 16" unfolding ng [symmetric] by simp
    then show ?thesis by (simp add: q4_bytes_def)
  qed
  have lp: "length packed = (?n * 4) * 4" unfolding size(2) ng [symmetric] by simp
  obtain sdst err1 ddst where s: "scale_loop F 0 (chunks_exact 2 scales) (take (?n * 2) (zeros (q4_bytes rows cols 32)), err0) = Some (sdst, err1)"
    "nibble_loop 0 (chunks_exact 4 packed) (drop (?n * 2) (zeros (q4_bytes rows cols 32))) = Some ddst" "buf = sdst @ ddst"
    using r by (auto simp: build_kimi_region_def locs raw Let_def kimi_group_def panic_simps split: if_splits option.splits)
  have lz: "length (take (?n * 2) (zeros (q4_bytes rows cols 32))) = ?n * 2" "length (drop (?n * 2) (zeros (q4_bytes rows cols 32))) = ?n * 16"
    using qb by simp_all
  have cs: "chunks_exact 2 scales = map (\<lambda>i. take 2 (drop (i * 2) scales)) [0..<?n]" using size(3) by (intro chunks_exact_mult) simp_all
  have lS: "length ?S = ?n * 2" by (rule length_blocks) simp
  have sd: "sdst = ?S"
    using scale_loop_Some [OF s(1)] lz(1) lS unfolding cs by (auto simp: overlay_def comp_def)
  have c4: "\<forall>c \<in> set (chunks_exact 4 packed). length c = 4" by (simp add: chunks_exact_def)
  have "concat (chunks_exact 4 packed) = packed" by (rule concat_chunks_exact [OF _ lp]) simp
  then have dd: "ddst = packed"
    using nibble_loop_Some [OF s(2) c4] lz(2) lp by (auto simp: overlay_def)
  have buf: "buf = ?S @ packed" using s(3) sd dd by simp
  have lb: "length buf = q4_bytes rows cols 32" unfolding buf using lS lp qb by simp
  have "q4_dequantize G buf rows cols 32 out = Ok (map (\<lambda>j. decoded G ?S packed 32 (j div 32) (j mod 32)) [0..<rows * cols])"
    by (rule dequantize_all [OF _ _ cg out lb lS buf]) simp_all
  also have "map (\<lambda>j. decoded G ?S packed 32 (j div 32) (j mod 32)) [0..<rows * cols] = map (\<lambda>j.
    f_mul G (f_of_int G (int (kimi_nibble packed j) - 8))
      (f_of_bits G (f16_bits_to_f32 (f32_to_f16_bits (bf16_f32 (take 2 (drop (j div 32 * 2) scales))))))) [0..<rows * cols]"
  proof (rule map_cong [OF refl])
    fix j assume "j \<in> set [0..<rows * cols]"
    then have j: "j < ?n * 32" by (simp add: ng)
    let ?k = "j div 32" and ?x = "j mod 32"
    have k: "?k < ?n" using j by (simp add: less_mult_imp_div_less)
    have sc: "?S ! (?k * 2) = ucast (kimi_scale (take 2 (drop (?k * 2) scales)))" "?S ! (?k * 2 + 1) = ucast (drop_bit 8 (kimi_scale (take 2 (drop (?k * 2) scales))))"
      using blocks_nth [of ?n "\<lambda>k. le16 (kimi_scale (take 2 (drop (k * 2) scales)))" 2 ?k 0] blocks_nth [of ?n "\<lambda>k. le16 (kimi_scale (take 2 (drop (k * 2) scales)))" 2 ?k 1] k
      by (simp_all add: le16_def)
    have "j = 2 * (16 * ?k) + ?x" by simp
    then have "j div 2 = (2 * (16 * ?k) + ?x) div 2" by (rule arg_cong)
    moreover have "(2 * a + b) div 2 = a + b div 2" for a b :: nat by simp
    ultimately have jb: "?k * 16 + ?x div 2 = j div 2" by (simp only: mult.commute [of ?k 16])
    then have k16: "?k * (32 div 2) + ?x div 2 = j div 2" by simp
    have ev: "even ?x \<longleftrightarrow> even j" by (rule dvd_mod_iff) simp
    have "j div 2 < length packed" using j lp by simp
    from kimi_nibble_byte [OF this] lp
    have "kimi_nibble packed j = unat (if even j then packed ! (j div 2) AND 0x0F else drop_bit 4 (packed ! (j div 2)))" by simp
    then have nb: "uint (if even ?x then packed ! (j div 2) AND 0x0F else drop_bit 4 (packed ! (j div 2))) = int (kimi_nibble packed j)"
      unfolding ev by (simp only: uint_nat)
    show "decoded G ?S packed 32 ?k ?x = f_mul G (f_of_int G (int (kimi_nibble packed j) - 8))
      (f_of_bits G (f16_bits_to_f32 (f32_to_f16_bits (bf16_f32 (take 2 (drop (?k * 2) scales))))))"
      unfolding decoded_def Let_def sc k16 nb un_le16 unfolding kimi_scale_def ..
  qed
  finally show ?thesis .
qed

end
