(* ===== verification/Convert_Examples.thy ===== *)
theory Convert_Examples
  imports Convert_Kimi Routing
begin

text \<open>
  A one-layer, one-expert checkpoint on which the conversion runs: three \<open>1 \<times> 64\<close> tensors that
  share one run of zero bytes.
\<close>

section \<open>The checkpoint\<close>

definition ex_entry :: "unit json" where
  "ex_entry = JObj [(''data_offsets'', JArr [JInt 0, JInt 128]), (''dtype'', JStr ''BF16''), (''shape'', JArr [JInt 1, JInt 64])]"

definition ex_header :: "(string \<times> unit json) list" where
  "ex_header = [(''model.layers.0.mlp.experts.0.down_proj.weight'', ex_entry), (''model.layers.0.mlp.experts.0.gate_proj.weight'', ex_entry),
     (''model.layers.0.mlp.experts.0.up_proj.weight'', ex_entry)]"

definition ex_config :: "unit json" where
  "ex_config = JObj [(''num_experts'', JInt 1), (''num_hidden_layers'', JInt 1)]"

definition ex_parse :: "bytes \<Rightarrow> unit json option" where
  "ex_parse bs = (case bs of [] \<Rightarrow> None | b # _ \<Rightarrow> if b = 1 then Some (JObj ex_header) else Some ex_config)"

definition ex_file :: file_bytes where
  "ex_file = [1, 0, 0, 0, 0, 0, 0, 0, 1] @ replicate 128 0"

definition ex_dir :: "string \<Rightarrow> file_bytes option" where
  "ex_dir = Map.empty (config_name \<mapsto> [2], single_name \<mapsto> ex_file)"

definition ex_loc :: tensor_loc where
  "ex_loc = \<lparr>t_dtype = ''BF16'', t_shape = [1, 64], t_start = 9, t_end = 137, l_file = 0\<rparr>"

definition ex_ck :: "unit checkpoint" where
  "ex_ck = \<lparr>c_files = [ex_file], c_tensors = map (\<lambda>(n, _). (n, ex_loc)) ex_header, c_config = ex_config\<rparr>"

definition ex_emit :: "unit json \<Rightarrow> bytes option" where
  "ex_emit v = Some [7, 7, 7, 7, 7, 7, 7, 7]"

definition ex_ser :: "unit json pack_meta \<Rightarrow> bytes option" where
  "ex_ser m = (if m = \<lparr>pm_model = ''unknown'', pm_layers = 1, pm_experts = 1, pm_dtype = ''q4g64-gud'', pm_config = ex_config,
     pm_compression = None, pm_max_raw = 0\<rparr> then Some [5] else None)"

definition ex_meta :: "unit json pack_meta" where
  "ex_meta = \<lparr>pm_model = ''unknown'', pm_layers = 1, pm_experts = 1, pm_dtype = ''q4g64-gud'', pm_config = ex_config,
     pm_compression = None, pm_max_raw = 0\<rparr>"

definition ex_de :: "bytes \<Rightarrow> unit json pack_meta option" where
  "ex_de bs = Some ex_meta"

section \<open>The run\<close>

lemma ex_open: "checkpoint_open ex_parse ex_dir = Ok ex_ck"
  by (simp add: checkpoint_open_def ex_dir_def ex_parse_def config_name_def single_name_def index_name_def shard_names_def ex_file_def
      read_header_def read_exact_def read_at_def alloc_limit_def ex_header_def ex_entry_def metadata_key_def tensor_fields_def with_file_def
      map_filter_simps j_u64_def ex_ck_def ex_loc_def)

lemma ex_raw: "read_raw ex_ck ex_loc = Ok (replicate 128 0)"
  by (simp add: read_raw_def ex_ck_def ex_loc_def alloc_limit_def nth_opt_def read_exact_def read_at_def ex_file_def)

lemma ex_values: "\<exists>vals. raw_f32 int_ops ''BF16'' (replicate 128 0) = Some vals \<and> length vals = 64"
proof -
  have "length (chunks_exact 2 (replicate 128 (0 :: u8))) = 64" by code_simp
  then show ?thesis by (simp add: raw_f32_def)
qed

lemma ex_region:
  assumes "n \<in> fst ` set ex_header"
  shows "\<exists>buf err. build_region int_ops ex_ck n = Ok ((1, 64), buf, err) \<and> length buf = 34"
proof -
  have loc: "map_of (c_tensors ex_ck) n = Some ex_loc" using assms by (auto simp: ex_ck_def ex_header_def)
  obtain vals where v: "raw_f32 int_ops ''BF16'' (replicate 128 0) = Some vals" "length vals = 64" using ex_values by blast
  have rf: "read_f32 int_ops ex_ck n = Ok (vals, [1, 64])" using loc ex_raw v(1) by (simp add: read_f32_def ex_loc_def)
  have b: "q4_bytes 1 64 q4_group = 34" by (simp add: q4_bytes_def q4_group_def)
  obtain err buf where q: "q4_quantize int_ops vals 1 64 q4_group (zeros 34) = Ok (err, buf)"
    using v(2) b by (simp add: q4_quantize_def q4_group_def Let_def case_prod_beta)
  have "length buf = 34" using quantize_layout(6) [OF q] b by simp
  with rf q b show ?thesis by (simp add: build_region_def q4_group_def alloc_limit_def)
qed

definition ex_names :: "string option list" where
  "ex_names = [Some ''model.layers.0.mlp.experts.0.gate_proj.weight'', Some ''model.layers.0.mlp.experts.0.up_proj.weight'',
     Some ''model.layers.0.mlp.experts.0.down_proj.weight'']"

lemma ex_blob: "\<exists>blob err. build_blob int_ops ex_ck ex_names 0 0 = Ok (blob, err) \<and> length blob = 134"
proof -
  obtain a ea where a: "build_region int_ops ex_ck ''model.layers.0.mlp.experts.0.gate_proj.weight'' = Ok ((1, 64), a, ea)" "length a = 34"
    using ex_region [of "''model.layers.0.mlp.experts.0.gate_proj.weight''"] by (auto simp: ex_header_def)
  obtain b eb where b: "build_region int_ops ex_ck ''model.layers.0.mlp.experts.0.up_proj.weight'' = Ok ((1, 64), b, eb)" "length b = 34"
    using ex_region [of "''model.layers.0.mlp.experts.0.up_proj.weight''"] by (auto simp: ex_header_def)
  obtain c ec where c: "build_region int_ops ex_ck ''model.layers.0.mlp.experts.0.down_proj.weight'' = Ok ((1, 64), c, ec)" "length c = 34"
    using ex_region [of "''model.layers.0.mlp.experts.0.down_proj.weight''"] by (auto simp: ex_header_def)
  from a b c show ?thesis by (simp add: build_blob_def ex_names_def blob_of_def)
qed

lemma ex_table: "sort_names 1 1 (map fst (c_tensors ex_ck)) (empty_table 1 1, []) = Ok ([[ex_names]], [])"
proof -
  have p: "parse_expert ''model.layers.0.mlp.experts.0.down_proj.weight'' = Some (0, 0, 2)"
    "parse_expert ''model.layers.0.mlp.experts.0.gate_proj.weight'' = Some (0, 0, 0)"
    "parse_expert ''model.layers.0.mlp.experts.0.up_proj.weight'' = Some (0, 0, 1)"
    by (simp_all add: parse_expert_def expert_path_def strip_prefix_def parse_u16_def digit_val_def)
  show ?thesis by (simp add: ex_ck_def ex_header_def p empty_table_def table_set_def ex_names_def numeral_2_eq_2)
qed

lemma ex_core: "write_safetensors ex_emit ex_ck [] = Ok (16, [8, 0, 0, 0, 0, 0, 0, 0, 7, 7, 7, 7, 7, 7, 7, 7])"
  by (simp add: write_safetensors_def write_safetensors_renamed_def ex_emit_def pad_spaces.simps to_le_numeral)

lemma ex_convert: "\<exists>rep pack core. convert_qwen int_ops ex_parse ex_emit ex_ser ex_dir = Ok (rep, pack, core) \<and>
    cr_layers rep = 1 \<and> cr_experts rep = 1 \<and> length pack < 2 ^ 64"
proof -
  obtain blob err where b: "build_blob int_ops ex_ck ex_names 0 0 = Ok (blob, err)" "length blob = 134" using ex_blob by blast
  have total: "pm_total ex_meta = 1" by (simp add: ex_meta_def pm_total_def)
  have ser: "ex_ser ex_meta = Some [5]" by (simp add: ex_ser_def ex_meta_def)
  have "length [blob] = pm_total ex_meta" "length [5 :: u8] \<le> pack_align - 16" using total by (simp_all add: pack_align_def)
  from written_pack [where ser = ex_ser, OF this(1) ser this(2)]
  obtain w where w: "add_blob blob (writer_create ex_meta) = Ok w" "writer_finish ex_ser w = Ok (pack_file ex_meta [5] [blob])"
    by (auto simp: panic_simps)
  have cfg: "key_u16 ex_config ''num_hidden_layers'' = Ok 1" "key_u16 ex_config ''num_experts'' = Ok 1"
    by (simp_all add: key_u16_def ex_config_def j_u64_def)
  have ck: "c_config ex_ck = ex_config" by (simp add: ex_ck_def)
  have mt: "opt_or ''unknown'' (j_str (jget ex_config ''model_type'')) = ''unknown''" by (simp add: ex_config_def j_str_def)
  have small: "length (pack_file ex_meta [5] [blob]) < 2 ^ 64"
    using b(2) length_header [of "[5]"] total by (simp add: pack_file_def Let_def length_padded align_up_def pack_align_def entry_bytes_def)
  show ?thesis using b w small
    by (simp add: convert_qwen_def ex_open ck cfg ex_table [unfolded One_nat_def] ex_core mt join_all_def put_plain_def ex_meta_def [symmetric])
qed

lemma converted_pack_serves_experts_witness:
  "\<exists>rep pack core ck r names. convert_qwen int_ops ex_parse ex_emit ex_ser ex_dir = Ok (rep, pack, core) \<and>
     checkpoint_open ex_parse ex_dir = Ok ck \<and> open_inner ex_de pack True = Ok r \<and> length names = (3 :: nat) \<and>
     parse_expert (names ! 1) = Some (0, 0, 1)"
proof -
  obtain rep pack core where c: "convert_qwen int_ops ex_parse ex_emit ex_ser ex_dir = Ok (rep, pack, core)"
    "cr_layers rep = 1" "cr_experts rep = 1" "length pack < 2 ^ 64"
    using ex_convert by blast
  have j: "ex_de js = Some m" if "ex_ser m = Some js" for m js using that by (simp add: ex_ser_def ex_de_def ex_meta_def split: if_splits)
  have le: "0 < cr_layers rep" "0 < cr_experts rep" using c(2,3) by simp_all
  have "\<exists>ck r names blob x. checkpoint_open ex_parse ex_dir = Ok ck \<and> open_inner ex_de pack True = Ok r \<and> pm_config (r_meta r) = c_config ck \<and>
    length names = 3 \<and> (\<forall>p < 3. names ! p \<in> fst ` set (c_tensors ck) \<and> parse_expert (names ! p) = Some (0, 0, p)) \<and>
    build_blob int_ops ck (map Some names) 0 0 = Ok (blob, x) \<and>
    (\<forall>addr buf. align_up (length blob) \<le> length buf \<longrightarrow> (True \<longrightarrow> addr mod pack_align = 0) \<longrightarrow>
       (\<exists>out. read_blob_into (\<lambda>_ _. None) r 0 0 addr buf = Ok (length blob, out) \<and> length out = length buf \<and> take (length blob) out = blob))"
    by (rule converted_pack_serves_experts [where de = ex_de and direct = True, OF c(1) c(4) _ le]) (rule j)
  then obtain ck r names where "checkpoint_open ex_parse ex_dir = Ok ck" "open_inner ex_de pack True = Ok r" "length names = 3"
    "\<forall>p < 3. names ! p \<in> fst ` set (c_tensors ck) \<and> parse_expert (names ! p) = Some (0, 0, p)"
    by (elim exE conjE)
  then show ?thesis using c(1) by (intro exI conjI) (assumption | simp)+
qed

section \<open>A Kimi projection\<close>

definition kx_ck :: "unit checkpoint" where
  "kx_ck = \<lparr>c_files = [[0x80, 0x3F, 0x10, 0x32, 0x54, 0x76, 0x98, 0xBA, 0xDC, 0xFE, 0, 1, 2, 3, 4, 5, 6, 7]],
     c_tensors = [(''x_packed'', \<lparr>t_dtype = ''I32'', t_shape = [1, 4], t_start = 2, t_end = 18, l_file = 0\<rparr>),
       (''x_scale'', \<lparr>t_dtype = ''BF16'', t_shape = [1, 1], t_start = 0, t_end = 2, l_file = 0\<rparr>)], c_config = JNull\<rparr>"

lemma kx_raw:
  "read_raw kx_ck \<lparr>t_dtype = ''I32'', t_shape = [1, 4], t_start = 2, t_end = 18, l_file = 0\<rparr> =
     Ok [0x10, 0x32, 0x54, 0x76, 0x98, 0xBA, 0xDC, 0xFE, 0, 1, 2, 3, 4, 5, 6, 7]"
  "read_raw kx_ck \<lparr>t_dtype = ''BF16'', t_shape = [1, 1], t_start = 0, t_end = 2, l_file = 0\<rparr> = Ok [0x80, 0x3F]"
  by (simp_all add: read_raw_def kx_ck_def alloc_limit_def nth_opt_def read_exact_def read_at_def)

lemma kx_chunks:
  "chunks_exact 2 [0x80, 0x3F :: u8] = [[0x80, 0x3F]]"
  "chunks_exact 4 [0x10, 0x32, 0x54, 0x76, 0x98, 0xBA, 0xDC, 0xFE, 0, 1, 2, 3, 4, 5, 6, 7 :: u8] =
     [[0x10, 0x32, 0x54, 0x76], [0x98, 0xBA, 0xDC, 0xFE], [0, 1, 2, 3], [4, 5, 6, 7]]"
  by code_simp+

lemma kx_region: "\<exists>buf err. build_kimi_region int_math kx_ck ''x'' 0 = Ok ((1, 32), buf, err)"
proof -
  have l: "map_of (c_tensors kx_ck) ''x_packed'' = Some \<lparr>t_dtype = ''I32'', t_shape = [1, 4], t_start = 2, t_end = 18, l_file = 0\<rparr>"
    "map_of (c_tensors kx_ck) ''x_scale'' = Some \<lparr>t_dtype = ''BF16'', t_shape = [1, 1], t_start = 0, t_end = 2, l_file = 0\<rparr>"
    "map_of (c_tensors kx_ck) ''x_shape'' = None"
    by (simp_all add: kx_ck_def)
  show ?thesis
    by (simp add: build_kimi_region_def l packed_dims_def kx_raw [unfolded One_nat_def] kx_chunks [unfolded One_nat_def] kimi_group_def q4_bytes_def alloc_limit_def write_at_def Let_def)
qed

lemma kimi_repack_exact_witness:
  "\<exists>buf err vals. build_kimi_region int_math kx_ck ''x'' 0 = Ok ((1, 32), buf, err) \<and>
     q4_dequantize int_ops buf 1 32 32 (replicate 32 0) = Ok vals \<and> length vals = 32"
proof -
  obtain buf err where b: "build_kimi_region int_math kx_ck ''x'' 0 = Ok ((1, 32), buf, err)" using kx_region by blast
  have l: "map_of (c_tensors kx_ck) (''x'' @ ''_packed'') = Some \<lparr>t_dtype = ''I32'', t_shape = [1, 4], t_start = 2, t_end = 18, l_file = 0\<rparr>"
    "map_of (c_tensors kx_ck) (''x'' @ ''_scale'') = Some \<lparr>t_dtype = ''BF16'', t_shape = [1, 1], t_start = 0, t_end = 2, l_file = 0\<rparr>"
    by (simp_all add: kx_ck_def)
  from kimi_repack_exact [OF b l kx_raw, of "replicate 32 0" int_ops] b show ?thesis by simp
qed

end
