(* ===== verification/Gguf.thy ===== *)
theory Gguf
  imports Convert_Kimi
begin

text \<open>
  The GGUF reader (\<open>llmpager-convert/src/gguf.rs\<close>): tensor types and their block sizes, the header
  cursor, the metadata values it skips (arrays may nest), the shard names and the table of tensors.
  \<open>String::from_utf8_lossy\<close> is an argument. The skipper is recursive on file content: its model has a
  depth budget, \<open>None\<close> when it is used up, and a theorem that one more than the bytes left is enough.
\<close>

section \<open>Tensor types\<close>

datatype ggml_type = F32 | F16 | BF16 | Q8_0 | Q2K | Q3K | Q4K | Q5K | Q6K | Other u32

definition ggml_from_u32 :: "u32 \<Rightarrow> ggml_type" where
  "ggml_from_u32 v =
     (if v = 0 then F32 else if v = 1 then F16 else if v = 8 then Q8_0 else if v = 10 then Q2K else if v = 11 then Q3K
      else if v = 12 then Q4K else if v = 13 then Q5K else if v = 14 then Q6K else if v = 30 then BF16 else Other v)"

fun block_layout :: "ggml_type \<Rightarrow> (nat \<times> nat) option" where
  "block_layout F32 = Some (1, 4)"
| "block_layout F16 = Some (1, 2)"
| "block_layout BF16 = Some (1, 2)"
| "block_layout Q8_0 = Some (32, 34)"
| "block_layout Q2K = Some (256, 84)"
| "block_layout Q3K = Some (256, 110)"
| "block_layout Q4K = Some (256, 144)"
| "block_layout Q5K = Some (256, 176)"
| "block_layout Q6K = Some (256, 210)"
| "block_layout (Other v) = None"

text \<open>\<open>row_bytes\<close>, its product in \<open>u64\<close> (out of range: a panic, here the inner \<open>None\<close>).\<close>

definition row_bytes :: "ggml_type \<Rightarrow> nat \<Rightarrow> nat option option" where
  "row_bytes ty cols =
     (case block_layout ty of
        None \<Rightarrow> Some None
      | Some (vals, bs) \<Rightarrow>
          if cols mod vals \<noteq> 0 then Some None
          else if 2 ^ 64 \<le> cols div vals * bs then None else Some (Some (cols div vals * bs)))"

section \<open>The cursor\<close>

record cursor =
  cu_buf :: bytes
  cu_pos :: nat

datatype gguf_error = GTruncated | GUnknownKv nat | GNotGguf string | GBadVersion nat | GNoFile string | GShort

text \<open>A length that takes the position past the last \<open>u64\<close> panics, in the sum or in the slice.\<close>

definition cu_take :: "nat \<Rightarrow> cursor \<Rightarrow> (gguf_error, bytes \<times> cursor) res" where
  "cu_take n c =
     (if 2 ^ 64 \<le> cu_pos c + n then Panic
      else if length (cu_buf c) < cu_pos c + n then Err GTruncated
      else Ok (take n (drop (cu_pos c) (cu_buf c)), c\<lparr>cu_pos := cu_pos c + n\<rparr>))"

definition cu_u32 :: "cursor \<Rightarrow> (gguf_error, nat \<times> cursor) res" where
  "cu_u32 c = bind_res (cu_take 4 c) (\<lambda>(bs, c'). Ok (from_le bs, c'))"

definition cu_u64 :: "cursor \<Rightarrow> (gguf_error, nat \<times> cursor) res" where
  "cu_u64 c = bind_res (cu_take 8 c) (\<lambda>(bs, c'). Ok (from_le bs, c'))"

definition cu_string :: "(bytes \<Rightarrow> string) \<Rightarrow> cursor \<Rightarrow> (gguf_error, string \<times> cursor) res" where
  "cu_string lossy c = bind_res (cu_u64 c) (\<lambda>(n, c1). bind_res (cu_take n c1) (\<lambda>(bs, c2). Ok (lossy bs, c2)))"

text \<open>Decimal numbers.\<close>

function show_nat :: "nat \<Rightarrow> string" where
  "show_nat n = (if n < 10 then [char_of (48 + n)] else show_nat (n div 10) @ [char_of (48 + n mod 10)])"
  by pat_completeness auto
termination
  by (relation "measure id") auto

declare show_nat.simps [simp del]

section \<open>Skipping a value\<close>

fun gbind :: "('e, 'a) res option \<Rightarrow> ('a \<Rightarrow> ('e, 'b) res option) \<Rightarrow> ('e, 'b) res option" where
  "gbind None f = None"
| "gbind (Some (Ok a)) f = f a"
| "gbind (Some (Err e)) f = Some (Err e)"
| "gbind (Some Panic) f = Some Panic"

text \<open>The flat types: how many bytes, and what the value is printed as.\<close>

definition scalar :: "(bytes \<Rightarrow> string) \<Rightarrow> nat \<Rightarrow> cursor \<Rightarrow> (gguf_error, string option \<times> cursor) res" where
  "scalar lossy ty c =
     (if ty = 0 \<or> ty = 1 then bind_res (cu_take 1 c) (\<lambda>(_, c'). Ok (None, c'))
      else if ty = 2 \<or> ty = 3 then bind_res (cu_take 2 c) (\<lambda>(_, c'). Ok (None, c'))
      else if ty = 4 \<or> ty = 5 then bind_res (cu_u32 c) (\<lambda>(v, c'). Ok (Some (show_nat v), c'))
      else if ty = 6 then bind_res (cu_take 4 c) (\<lambda>(_, c'). Ok (None, c'))
      else if ty = 7 then bind_res (cu_take 1 c) (\<lambda>(bs, c'). Ok (Some (if bs ! 0 \<noteq> 0 then ''true'' else ''false''), c'))
      else if ty = 8 then bind_res (cu_string lossy c) (\<lambda>(s, c'). Ok (Some s, c'))
      else if ty = 10 \<or> ty = 11 then bind_res (cu_u64 c) (\<lambda>(v, c'). Ok (Some (show_nat v), c'))
      else if ty = 12 then bind_res (cu_take 8 c) (\<lambda>(_, c'). Ok (None, c'))
      else Err (GUnknownKv ty))"

function skip_value :: "nat \<Rightarrow> (bytes \<Rightarrow> string) \<Rightarrow> nat \<Rightarrow> cursor \<Rightarrow> (gguf_error, string option \<times> cursor) res option"
  and skip_items :: "nat \<Rightarrow> (bytes \<Rightarrow> string) \<Rightarrow> nat \<Rightarrow> nat \<Rightarrow> cursor \<Rightarrow> (gguf_error, string option \<times> cursor) res option" where
  "skip_value 0 lossy ty c = None"
| "skip_value (Suc d) lossy ty c =
     (if ty = 9 then gbind (Some (cu_u32 c)) (\<lambda>(ety, c1). gbind (Some (cu_u64 c1)) (\<lambda>(count, c2). skip_items d lossy ety count c2))
      else Some (scalar lossy ty c))"
| "skip_items d lossy ety 0 c = Some (Ok (None, c))"
| "skip_items d lossy ety (Suc n) c = gbind (skip_value d lossy ety c) (\<lambda>(_, c'). skip_items d lossy ety n c')"
  by pat_completeness auto
termination
  by (relation "measures [\<lambda>x. case x of Inl (d, _) \<Rightarrow> d | Inr (d, _) \<Rightarrow> d, \<lambda>x. case x of Inl _ \<Rightarrow> 0 | Inr (_, _, _, n, _) \<Rightarrow> Suc n]") auto

section \<open>Shards\<close>

fun digits_u64 :: "nat \<Rightarrow> string \<Rightarrow> nat option" where
  "digits_u64 v [] = Some v"
| "digits_u64 v (c # cs) =
     (case digit_val c of None \<Rightarrow> None | Some d \<Rightarrow> if 2 ^ 64 \<le> v * 10 + d then None else digits_u64 (v * 10 + d) cs)"

definition parse_u64 :: "string \<Rightarrow> nat option" where
  "parse_u64 s =
     (let ds = (case s of c # cs \<Rightarrow> if c = CHR ''+'' then cs else s | [] \<Rightarrow> [])
      in if ds = [] then None else digits_u64 0 ds)"

fun find_sub :: "string \<Rightarrow> string \<Rightarrow> nat option" where
  "find_sub p [] = (if p = [] then Some 0 else None)"
| "find_sub p (c # cs) = (if take (length p) (c # cs) = p then Some 0 else map_option Suc (find_sub p cs))"

text \<open>\<open>str::replace\<close> for a non-empty pattern.\<close>

function str_replace :: "string \<Rightarrow> string \<Rightarrow> string \<Rightarrow> string" where
  "str_replace p r s =
     (if s = [] then []
      else if p \<noteq> [] \<and> take (length p) s = p then r @ str_replace p r (drop (length p) s)
      else hd s # str_replace p r (tl s))"
  by pat_completeness auto
termination
  by (relation "measure (\<lambda>(p, r, s). length s)") auto

declare str_replace.simps [simp del]

definition first_mark :: string where
  "first_mark = ''-00001-of-''"

definition pad5 :: "nat \<Rightarrow> string" where
  "pad5 i = (let s = show_nat i in replicate (5 - length s) (CHR ''0'') @ s)"

text \<open>\<open>None\<close> is the panic of slicing a name that ends too early.\<close>

definition shard_paths :: "string \<Rightarrow> string list option" where
  "shard_paths name =
     (case find_sub first_mark name of
        None \<Rightarrow> Some [name]
      | Some idx \<Rightarrow>
          if length name < idx + 15 then None
          else let total = opt_or 1 (parse_u64 (take 5 (drop (idx + 10) name)))
               in Some (name # map (\<lambda>i. str_replace first_mark (''-'' @ pad5 i @ ''-of-'') name) [2..<total + 1]))"

section \<open>Opening a model\<close>

record gguf_tensor =
  g_file :: nat
  g_dims :: "nat list"
  g_ty :: ggml_type
  g_offset :: nat

record gguf =
  gg_files :: "file_bytes list"
  gg_paths :: "string list"
  gg_tensors :: "(string \<times> gguf_tensor) list"
  gg_meta :: "(string \<times> string) list"

definition gguf_magic :: nat where
  "gguf_magic = 0x46554747"

definition head_limit :: nat where
  "head_limit = 33554432"

text \<open>One metadata pair; the budget of the skipper is the header length plus one.\<close>

definition read_kv :: "(bytes \<Rightarrow> string) \<Rightarrow> bool \<Rightarrow> cursor \<times> nat \<times> (string \<times> string) list \<Rightarrow> (gguf_error, cursor \<times> nat \<times> (string \<times> string) list) res" where
  "read_kv lossy primary = (\<lambda>(c, alignment, meta).
     bind_res (cu_string lossy c) (\<lambda>(key, c1).
     bind_res (cu_u32 c1) (\<lambda>(ty, c2).
       case skip_value (length (cu_buf c2) + 1) lossy ty c2 of
         None \<Rightarrow> Panic
       | Some r \<Rightarrow> bind_res r (\<lambda>(val, c3).
           Ok (case val of
                 None \<Rightarrow> (c3, alignment, meta)
               | Some v \<Rightarrow>
                   (c3, if key = ''general.alignment'' then opt_or 32 (parse_u64 v) else alignment,
                    if primary \<and> (strip_prefix ''general.'' key \<noteq> None \<or> str_contains ''expert'' key) then bt_insert key v meta else meta))))))"

fun read_kvs :: "(bytes \<Rightarrow> string) \<Rightarrow> bool \<Rightarrow> nat \<Rightarrow> cursor \<times> nat \<times> (string \<times> string) list \<Rightarrow> (gguf_error, cursor \<times> nat \<times> (string \<times> string) list) res" where
  "read_kvs lossy primary 0 s = Ok s"
| "read_kvs lossy primary (Suc n) s = bind_res (read_kv lossy primary s) (read_kvs lossy primary n)"

fun read_dims :: "nat \<Rightarrow> cursor \<Rightarrow> (gguf_error, nat list \<times> cursor) res" where
  "read_dims 0 c = Ok ([], c)"
| "read_dims (Suc n) c = bind_res (cu_u64 c) (\<lambda>(d, c1). bind_res (read_dims n c1) (\<lambda>(ds, c2). Ok (d # ds, c2)))"

definition read_info :: "(bytes \<Rightarrow> string) \<Rightarrow> cursor \<Rightarrow> (gguf_error, (string \<times> nat list \<times> ggml_type \<times> nat) \<times> cursor) res" where
  "read_info lossy c =
     bind_res (cu_string lossy c) (\<lambda>(name, c1).
     bind_res (cu_u32 c1) (\<lambda>(n, c2).
     bind_res (read_dims n c2) (\<lambda>(dims, c3).
     bind_res (cu_u32 c3) (\<lambda>(ty, c4).
     bind_res (cu_u64 c4) (\<lambda>(off, c5). Ok ((name, dims, ggml_from_u32 (of_nat ty), off), c5))))))"

fun read_infos :: "(bytes \<Rightarrow> string) \<Rightarrow> nat \<Rightarrow> cursor \<Rightarrow> (gguf_error, (string \<times> nat list \<times> ggml_type \<times> nat) list \<times> cursor) res" where
  "read_infos lossy 0 c = Ok ([], c)"
| "read_infos lossy (Suc n) c =
     bind_res (read_info lossy c) (\<lambda>(i, c1). bind_res (read_infos lossy n c1) (\<lambda>(is, c2). Ok (i # is, c2)))"

fun place_tensors ::
  "nat \<Rightarrow> nat \<Rightarrow> (string \<times> nat list \<times> ggml_type \<times> nat) list \<Rightarrow> (string \<times> gguf_tensor) list \<Rightarrow> (gguf_error, (string \<times> gguf_tensor) list) res" where
  "place_tensors fidx start [] m = Ok m"
| "place_tensors fidx start ((name, dims, ty, off) # is) m =
     (if 2 ^ 64 \<le> start + off then Panic
      else place_tensors fidx start is (bt_insert name \<lparr>g_file = fidx, g_dims = dims, g_ty = ty, g_offset = start + off\<rparr> m))"

text \<open>One shard. \<open>Vec::with_capacity\<close> of 64-byte entries panics from \<open>2 ^ 63\<close> bytes.\<close>

definition read_shard ::
  "(bytes \<Rightarrow> string) \<Rightarrow> nat \<Rightarrow> string \<Rightarrow> file_bytes \<Rightarrow> (string \<times> gguf_tensor) list \<times> (string \<times> string) list
   \<Rightarrow> (gguf_error, (string \<times> gguf_tensor) list \<times> (string \<times> string) list) res" where
  "read_shard lossy fidx path f = (\<lambda>(tensors, meta).
     let c0 = \<lparr>cu_buf = take head_limit f, cu_pos = 0\<rparr> in
     bind_res (cu_u32 c0) (\<lambda>(mg, c1).
       if mg \<noteq> gguf_magic then Err (GNotGguf path)
       else bind_res (cu_u32 c1) (\<lambda>(version, c2).
         if version < 2 \<or> 3 < version then Err (GBadVersion version)
         else bind_res (cu_u64 c2) (\<lambda>(tensor_count, c3). bind_res (cu_u64 c3) (\<lambda>(kv_count, c4).
           bind_res (read_kvs lossy (fidx = 0) kv_count (c4, 32, meta)) (\<lambda>(c5, alignment, meta').
             if alloc_limit \<le> tensor_count * 64 then Panic
             else bind_res (read_infos lossy tensor_count c5) (\<lambda>(infos, c6).
               if alignment = 0 then Panic
               else let start = (cu_pos c6 + alignment - 1) div alignment * alignment in
                 if 2 ^ 64 \<le> start then Panic
                 else bind_res (place_tensors fidx start infos tensors) (\<lambda>tensors'. Ok (tensors', meta')))))))))"

fun read_shards ::
  "(bytes \<Rightarrow> string) \<Rightarrow> (string \<Rightarrow> file_bytes option) \<Rightarrow> string list
   \<Rightarrow> file_bytes list \<times> (string \<times> gguf_tensor) list \<times> (string \<times> string) list
   \<Rightarrow> (gguf_error, file_bytes list \<times> (string \<times> gguf_tensor) list \<times> (string \<times> string) list) res" where
  "read_shards lossy dir [] acc = Ok acc"
| "read_shards lossy dir (path # paths) (files, tensors, meta) =
     (case dir path of
        None \<Rightarrow> Err (GNoFile path)
      | Some f \<Rightarrow> bind_res (read_shard lossy (length files) path f (tensors, meta)) (\<lambda>(tensors', meta').
          read_shards lossy dir paths (files @ [f], tensors', meta')))"

definition gguf_open :: "(bytes \<Rightarrow> string) \<Rightarrow> (string \<Rightarrow> file_bytes option) \<Rightarrow> string \<Rightarrow> (gguf_error, gguf) res" where
  "gguf_open lossy dir name =
     (case shard_paths name of
        None \<Rightarrow> Panic
      | Some paths \<Rightarrow> bind_res (read_shards lossy dir paths ([], [], [])) (\<lambda>(files, tensors, meta).
          Ok \<lparr>gg_files = files, gg_paths = paths, gg_tensors = tensors, gg_meta = meta\<rparr>))"

definition gguf_read_at :: "gguf \<Rightarrow> gguf_tensor \<Rightarrow> nat \<Rightarrow> nat \<Rightarrow> (gguf_error, bytes) res" where
  "gguf_read_at g t rel n =
     (case nth_opt (gg_files g) (g_file t) of
        None \<Rightarrow> Panic
      | Some f \<Rightarrow>
          if 2 ^ 64 \<le> g_offset t + rel then Panic
          else case read_exact f (g_offset t + rel) n of None \<Rightarrow> Err GShort | Some bs \<Rightarrow> Ok bs)"

end
