(* ===== verification/Gguf_Props.thy ===== *)
theory Gguf_Props
  imports Gguf
begin

text \<open>
  What the GGUF reader does: skipping a metadata value always ends, skipping an encoded value of any
  type, nested arrays included, consumes exactly its encoding, and opening a model written by the
  format gives its table of tensors, from whose entries the data of each tensor is read.
\<close>

section \<open>Positions\<close>

definition at_pos :: "bytes \<Rightarrow> nat \<Rightarrow> bytes \<Rightarrow> bool" where
  "at_pos buf p bs \<longleftrightarrow> p + length bs \<le> length buf \<and> take (length bs) (drop p buf) = bs"

definition cur :: "bytes \<Rightarrow> nat \<Rightarrow> cursor" where
  "cur buf p = \<lparr>cu_buf = buf, cu_pos = p\<rparr>"

lemma cur_simps [simp]: "cu_buf (cur buf p) = buf" "cu_pos (cur buf p) = p" "(cur buf p)\<lparr>cu_pos := q\<rparr> = cur buf q"
  by (simp_all add: cur_def)

lemma at_pos_append: "at_pos buf p (a @ b) \<longleftrightarrow> at_pos buf p a \<and> at_pos buf (p + length a) b"
proof -
  have "take (length a + length b) (drop p buf) = take (length a) (drop p buf) @ take (length b) (drop (p + length a) buf)"
    by (simp add: take_add add.commute)
  then show ?thesis by (auto simp: at_pos_def append_eq_append_conv)
qed

lemma at_pos_Nil [simp]: "at_pos buf p [] \<longleftrightarrow> p \<le> length buf"
  by (simp add: at_pos_def)

lemma at_pos_le: "at_pos buf p bs \<Longrightarrow> p + length bs \<le> length buf"
  by (simp add: at_pos_def)

lemma take_at: "at_pos buf p bs \<Longrightarrow> length buf < 2 ^ 64 \<Longrightarrow> n = length bs \<Longrightarrow> cu_take n (cur buf p) = Ok (bs, cur buf (p + n))"
  by (auto simp: cu_take_def at_pos_def)

lemma u32_at: "at_pos buf p (to_le 4 n) \<Longrightarrow> length buf < 2 ^ 64 \<Longrightarrow> n < 2 ^ 32 \<Longrightarrow> cu_u32 (cur buf p) = Ok (n, cur buf (p + 4))"
  by (simp add: cu_u32_def take_at [where bs = "to_le 4 n"] from_to_le)

lemma u64_at: "at_pos buf p (to_le 8 n) \<Longrightarrow> length buf < 2 ^ 64 \<Longrightarrow> n < 2 ^ 64 \<Longrightarrow> cu_u64 (cur buf p) = Ok (n, cur buf (p + 8))"
  by (simp add: cu_u64_def take_at [where bs = "to_le 8 n"] from_to_le)

definition enc_str :: "bytes \<Rightarrow> bytes" where
  "enc_str s = to_le 8 (length s) @ s"

lemma string_at:
  assumes a: "at_pos buf p (enc_str s)" and b: "length buf < 2 ^ 64"
  shows "cu_string lossy (cur buf p) = Ok (lossy s, cur buf (p + length (enc_str s)))"
proof -
  have 1: "at_pos buf p (to_le 8 (length s))" "at_pos buf (p + 8) s" using a by (simp_all add: enc_str_def at_pos_append)
  have "length s < 2 ^ 64" using at_pos_le [OF 1(2)] b by simp
  with 1 b show ?thesis by (simp add: cu_string_def u64_at take_at [where bs = s] enc_str_def add.assoc)
qed

section \<open>Termination of the skipper\<close>

definition forward :: "cursor \<Rightarrow> cursor \<Rightarrow> bool" where
  "forward c c' \<longleftrightarrow> cu_buf c' = cu_buf c \<and> cu_pos c \<le> cu_pos c' \<and> cu_pos c' \<le> length (cu_buf c)"

lemma take_forward: "cu_take n c = Ok (bs, c') \<Longrightarrow> forward c c' \<and> cu_pos c' = cu_pos c + n"
  by (auto simp: cu_take_def forward_def split: if_splits)

lemma forward_trans: "forward a b \<Longrightarrow> forward b c \<Longrightarrow> forward a c"
  by (auto simp: forward_def)

lemma u32_forward: "cu_u32 c = Ok (v, c') \<Longrightarrow> forward c c' \<and> cu_pos c' = cu_pos c + 4"
  by (auto simp: cu_u32_def panic_simps dest: take_forward)

lemma u64_forward: "cu_u64 c = Ok (v, c') \<Longrightarrow> forward c c' \<and> cu_pos c' = cu_pos c + 8"
  by (auto simp: cu_u64_def panic_simps dest: take_forward)

lemma string_forward: "cu_string lossy c = Ok (v, c') \<Longrightarrow> forward c c'"
  unfolding cu_string_def by (auto simp: panic_simps dest!: take_forward u64_forward intro: forward_trans)

lemma scalar_forward: "scalar lossy ty c = Ok (v, c') \<Longrightarrow> forward c c'"
  unfolding scalar_def by (auto simp: panic_simps dest!: take_forward u64_forward u32_forward string_forward split: if_splits)

lemma gbind_Some: "gbind x f = Some r \<longleftrightarrow> (\<exists>a. x = Some (Ok a) \<and> f a = Some r) \<or> (\<exists>e. x = Some (Err e) \<and> r = Err e) \<or> (x = Some Panic \<and> r = Panic)"
  by (cases "(x, f)" rule: gbind.cases) auto

text \<open>One induction for both functions: the budget suffices, and the cursor only moves forward.\<close>

definition ends :: "(gguf_error, string option \<times> cursor) res option \<Rightarrow> cursor \<Rightarrow> bool" where
  "ends x c \<longleftrightarrow> (case x of None \<Rightarrow> False | Some r \<Rightarrow> (\<forall>v c'. r = Ok (v, c') \<longrightarrow> forward c c'))"

lemma skip_ends:
  "length (cu_buf c) - cu_pos c < d \<Longrightarrow> ends (skip_value d lossy ty c) c"
  "cu_pos c \<le> length (cu_buf c) \<Longrightarrow> length (cu_buf c) - cu_pos c < d \<Longrightarrow> ends (skip_items d lossy ety n c) c"
proof (induction d lossy ty c and d lossy ety n c rule: skip_value_skip_items.induct)
  case (2 d lossy ty c)
  show ?case
  proof (cases "ty = 9")
    case False
    then show ?thesis by (auto simp: ends_def dest: scalar_forward)
  next
    case True
    show ?thesis
    proof (cases "\<exists>ety c1 count c2. cu_u32 c = Ok (ety, c1) \<and> cu_u64 c1 = Ok (count, c2)")
      case True
      then obtain ety c1 count c2 where r: "cu_u32 c = Ok (ety, c1)" "cu_u64 c1 = Ok (count, c2)" by blast
      have f: "forward c c2" "cu_pos c2 = cu_pos c + 12"
        using u32_forward [OF r(1)] u64_forward [OF r(2)] by (auto intro: forward_trans)
      then have "cu_pos c2 \<le> length (cu_buf c2)" "length (cu_buf c2) - cu_pos c2 < d" using 2(2) by (auto simp: forward_def)
      from 2(1) [OF \<open>ty = 9\<close> this] have "ends (skip_items d lossy ety count c2) c2" by simp
      with r f \<open>ty = 9\<close> show ?thesis by (auto simp: ends_def split: option.splits intro: forward_trans)
    next
      case no: False
      then show ?thesis using \<open>ty = 9\<close>
        by (cases "cu_u32 c") (auto simp: ends_def split: option.splits, (case_tac "cu_u64 b"; auto)+)
    qed
  qed
next
  case (4 d lossy ety n c)
  from 4(1) [OF 4(4)] obtain r where r: "skip_value d lossy ety c = Some r" "\<forall>v c'. r = Ok (v, c') \<longrightarrow> forward c c'"
    by (auto simp: ends_def split: option.splits)
  show ?case
  proof (cases r)
    case (Ok a)
    obtain v c' where a: "a = (v, c')" by (cases a)
    then have f: "forward c c'" using r(2) Ok by blast
    then have "cu_pos c' \<le> length (cu_buf c')" "length (cu_buf c') - cu_pos c' < d" using 4(4) by (auto simp: forward_def)
    then have "ends (skip_items d lossy ety n c') c'" using 4(2) by blast
    with r(1) Ok a f show ?thesis by (auto simp: ends_def split: option.splits intro: forward_trans)
  qed (use r(1) in \<open>auto simp: ends_def\<close>)
qed (auto simp: ends_def forward_def)

text \<open>A result does not depend on the budget.\<close>

lemma skip_more:
  "skip_value d lossy ty c = Some r \<Longrightarrow> d \<le> d' \<Longrightarrow> skip_value d' lossy ty c = Some r"
  "skip_items d lossy ety n c = Some r \<Longrightarrow> d \<le> d' \<Longrightarrow> skip_items d' lossy ety n c = Some r"
proof (induction d lossy ty c and d lossy ety n c arbitrary: d' r and d' r rule: skip_value_skip_items.induct)
  case (2 d lossy ty c)
  obtain e where d': "d' = Suc e" "d \<le> e" using 2(3) by (cases d') auto
  show ?case
  proof (cases "ty = 9")
    case True
    with 2(1) [OF True _ d'(2)] 2(2) d' show ?thesis by (fastforce simp: gbind_Some)
  qed (use 2(2) d' in simp)
next
  case (4 d lossy ety n c)
  from 4(3) consider v c' where "skip_value d lossy ety c = Some (Ok (v, c'))" "skip_items d lossy ety n c' = Some r"
    | e where "skip_value d lossy ety c = Some (Err e)" "r = Err e" | "skip_value d lossy ety c = Some Panic" "r = Panic"
    by (auto simp: gbind_Some)
  then show ?case
  proof cases
    case 1
    with 4(1) [OF 1(1) 4(4)] 4(2) [OF _ 4(4)] show ?thesis by simp
  qed (use 4(1) [OF _ 4(4)] in simp_all)
qed auto

text \<open>C19: The skipper ends. On any bytes and any value type, nested arrays included, a depth budget of one
  more than the bytes left is never used up, and every larger budget gives the same result.\<close>

theorem skip_value_terminates:
  assumes "length (cu_buf c) - cu_pos c < d"
  shows "\<exists>r. \<forall>e \<ge> d. skip_value e lossy ty c = Some r"
proof -
  obtain r where "skip_value d lossy ty c = Some r"
    using skip_ends(1) [OF assms, of lossy ty] by (auto simp: ends_def split: option.splits)
  with skip_more(1) show ?thesis by blast
qed

lemma skip_value_terminates_witness:
  "\<exists>r. \<forall>e \<ge> 14. skip_value e (\<lambda>_. []) 9 (cur [9, 0, 0, 0, 1, 0, 0, 0, 0, 0, 0, 0, 7] 0) = Some r"
  by (rule skip_value_terminates) simp

section \<open>Encoded values\<close>

datatype gval = Flat nat bytes | Str bytes | Arr nat "gval list"

fun val_type :: "gval \<Rightarrow> nat" where
  "val_type (Flat ty bs) = ty"
| "val_type (Str s) = 8"
| "val_type (Arr ety vs) = 9"

fun enc_val :: "gval \<Rightarrow> bytes" where
  "enc_val (Flat ty bs) = bs"
| "enc_val (Str s) = enc_str s"
| "enc_val (Arr ety vs) = to_le 4 ety @ to_le 8 (length vs) @ concat (map enc_val vs)"

definition flat_size :: "nat \<Rightarrow> nat option" where
  "flat_size ty = (if ty \<in> {0, 1, 7} then Some 1 else if ty \<in> {2, 3} then Some 2 else if ty \<in> {4, 5, 6} then Some 4
     else if ty \<in> {10, 11, 12} then Some 8 else None)"

fun valid_val :: "gval \<Rightarrow> bool" where
  "valid_val (Flat ty bs) = (flat_size ty = Some (length bs))"
| "valid_val (Str s) = True"
| "valid_val (Arr ety vs) = (ety < 2 ^ 32 \<and> (\<forall>v \<in> set vs. valid_val v \<and> val_type v = ety))"

text \<open>What the skipper prints of a value.\<close>

fun printed :: "(bytes \<Rightarrow> string) \<Rightarrow> gval \<Rightarrow> string option" where
  "printed lossy (Flat ty bs) =
     (if ty \<in> {4, 5, 10, 11} then Some (show_nat (from_le bs))
      else if ty = 7 then Some (if bs ! 0 \<noteq> 0 then ''true'' else ''false'') else None)"
| "printed lossy (Str s) = Some (lossy s)"
| "printed lossy (Arr ety vs) = None"

lemma flat_at:
  assumes "flat_size ty = Some (length bs)" "at_pos buf p bs" "length buf < 2 ^ 64"
  shows "scalar lossy ty (cur buf p) = Ok (printed lossy (Flat ty bs), cur buf (p + length bs))"
  using assms take_at [OF assms(2,3) refl]
  by (auto simp: flat_size_def scalar_def cu_u32_def cu_u64_def split: if_splits)

lemma length_le_concat: "\<forall>x \<in> set xs. f x \<noteq> [] \<Longrightarrow> length xs \<le> length (concat (map f xs))"
proof (induction xs)
  case (Cons x xs)
  then have "1 \<le> length (f x)" by (cases "f x") auto
  with Cons show ?case by simp
qed simp

lemma to_le_nonempty [simp]: "to_le 8 n \<noteq> []" "to_le 4 n \<noteq> []"
  by (metis length_to_le list.size(3) zero_neq_numeral)+

lemma enc_val_nonempty: "valid_val v \<Longrightarrow> enc_val v \<noteq> []"
  by (cases v) (auto simp: flat_size_def enc_str_def split: if_splits)

lemma skip_encoded:
  "valid_val v \<Longrightarrow> at_pos buf p (enc_val v) \<Longrightarrow> length buf < 2 ^ 64 \<Longrightarrow> length (enc_val v) < d \<Longrightarrow>
     skip_value d lossy (val_type v) (cur buf p) = Some (Ok (printed lossy v, cur buf (p + length (enc_val v))))"
proof (induction v arbitrary: p d)
  case (Flat ty bs)
  obtain e where "d = Suc e" using Flat.prems(4) by (cases d) auto
  moreover have "ty \<noteq> 9" using Flat.prems(1) by (auto simp: flat_size_def)
  ultimately show ?case using flat_at [of ty bs buf p lossy] Flat.prems by simp
next
  case (Str s)
  obtain e where "d = Suc e" using Str.prems(4) by (cases d) auto
  then show ?case using string_at [of buf p s lossy] Str.prems by (simp add: scalar_def)
next
  case (Arr ety vs)
  obtain e where d: "d = Suc e" using Arr.prems(4) by (cases d) auto
  have a: "at_pos buf p (to_le 4 ety)" "at_pos buf (p + 4) (to_le 8 (length vs))" "at_pos buf (p + 12) (concat (map enc_val vs))"
    using Arr.prems(2) by (simp_all add: at_pos_append add.assoc)
  have items: "set us \<subseteq> set vs \<Longrightarrow> at_pos buf q (concat (map enc_val us)) \<Longrightarrow> length (concat (map enc_val us)) < e \<Longrightarrow>
      skip_items e lossy ety (length us) (cur buf q) = Some (Ok (None, cur buf (q + length (concat (map enc_val us)))))" for us q
  proof (induction us arbitrary: q)
    case (Cons u us)
    have u: "u \<in> set vs" "valid_val u" "val_type u = ety" using Cons.prems(1) Arr.prems(1) by auto
    have q: "at_pos buf q (enc_val u)" "at_pos buf (q + length (enc_val u)) (concat (map enc_val us))"
      using Cons.prems(2) by (simp_all add: at_pos_append)
    have "skip_value e lossy ety (cur buf q) = Some (Ok (printed lossy u, cur buf (q + length (enc_val u))))"
      using Arr.IH [OF u(1,2) q(1) Arr.prems(3), of e] Cons.prems(3) u(3) by simp
    with Cons.IH [OF _ q(2)] Cons.prems show ?case by (simp add: add.assoc)
  qed simp
  have "length vs \<le> length (concat (map enc_val vs))" by (rule length_le_concat) (use Arr.prems(1) enc_val_nonempty in auto)
  then have len: "length vs < 2 ^ 64" using at_pos_le [OF a(3)] Arr.prems(3) by simp
  have "skip_items e lossy ety (length vs) (cur buf (p + 12)) = Some (Ok (None, cur buf (p + 12 + length (concat (map enc_val vs)))))"
    by (rule items) (use a(3) Arr.prems(4) d in auto)
  with a Arr.prems(1,3) len show ?case
    by (simp add: d u32_at u64_at add.assoc)
qed

section \<open>A model file\<close>

text \<open>The header as the format lays it out: pairs, tensor infos, and the data from the next multiple of 32.\<close>

type_synonym tensor_spec = "bytes \<times> nat list \<times> nat \<times> nat"

definition enc_kv :: "bytes \<times> gval \<Rightarrow> bytes" where
  "enc_kv = (\<lambda>(k, v). enc_str k @ to_le 4 (val_type v) @ enc_val v)"

definition enc_info :: "tensor_spec \<Rightarrow> bytes" where
  "enc_info = (\<lambda>(nm, dims, ty, off). enc_str nm @ to_le 4 (length dims) @ concat (map (to_le 8) dims) @ to_le 4 ty @ to_le 8 off)"

definition valid_kv :: "(bytes \<Rightarrow> string) \<Rightarrow> bytes \<times> gval \<Rightarrow> bool" where
  "valid_kv lossy = (\<lambda>(k, v). valid_val v \<and> lossy k \<noteq> ''general.alignment'')"

definition valid_info :: "tensor_spec \<Rightarrow> bool" where
  "valid_info = (\<lambda>(nm, dims, ty, off). length dims < 2 ^ 32 \<and> (\<forall>d \<in> set dims. d < 2 ^ 64) \<and> ty < 2 ^ 32 \<and> off < 2 ^ 64)"

definition enc_header :: "(bytes \<times> gval) list \<Rightarrow> tensor_spec list \<Rightarrow> bytes" where
  "enc_header kvs infos = to_le 4 gguf_magic @ to_le 4 3 @ to_le 8 (length infos) @ to_le 8 (length kvs) @
     concat (map enc_kv kvs) @ concat (map enc_info infos)"

definition data_start :: "nat \<Rightarrow> nat" where
  "data_start n = (n + 31) div 32 * 32"

lemma val_type_bound: "valid_val v \<Longrightarrow> val_type v < 2 ^ 32"
  by (cases v) (auto simp: flat_size_def split: if_splits)

lemma read_kv_at:
  assumes kv: "valid_kv lossy (k, v)" "at_pos buf p (enc_kv (k, v))" and b: "length buf < 2 ^ 64"
  shows "\<exists>meta'. read_kv lossy pr (cur buf p, al, meta) = Ok (cur buf (p + length (enc_kv (k, v))), al, meta')"
proof -
  let ?q = "p + length (enc_str k)"
  have a: "at_pos buf p (enc_str k)" "at_pos buf ?q (to_le 4 (val_type v))" "at_pos buf (?q + 4) (enc_val v)"
    using kv(2) by (simp_all add: enc_kv_def at_pos_append add.assoc)
  have v: "valid_val v" "lossy k \<noteq> ''general.alignment''" using kv(1) by (simp_all add: valid_kv_def)
  have "length (enc_val v) < length buf + 1" using at_pos_le [OF a(3)] by simp
  note s = skip_encoded [OF v(1) a(3) b this, of lossy]
  show ?thesis
    using v(2) s val_type_bound [OF v(1)] string_at [OF a(1) b, of lossy] u32_at [OF a(2) b]
    by (auto simp: read_kv_def enc_kv_def add.assoc split: option.splits)
qed

lemma read_kvs_at:
  assumes b: "length buf < 2 ^ 64"
  shows "\<forall>kv \<in> set kvs. valid_kv lossy kv \<Longrightarrow> at_pos buf p (concat (map enc_kv kvs)) \<Longrightarrow>
    \<exists>meta'. read_kvs lossy pr (length kvs) (cur buf p, al, meta) = Ok (cur buf (p + length (concat (map enc_kv kvs))), al, meta')"
proof (induction kvs arbitrary: p meta)
  case (Cons kv kvs)
  obtain k v where kv: "kv = (k, v)" by (cases kv)
  have a: "at_pos buf p (enc_kv (k, v))" "at_pos buf (p + length (enc_kv (k, v))) (concat (map enc_kv kvs))"
    using Cons.prems(2) kv by (simp_all add: at_pos_append)
  obtain m1 where m1: "read_kv lossy pr (cur buf p, al, meta) = Ok (cur buf (p + length (enc_kv (k, v))), al, m1)"
    using read_kv_at [OF _ a(1) b] Cons.prems(1) kv by fastforce
  obtain m2 where "read_kvs lossy pr (length kvs) (cur buf (p + length (enc_kv (k, v))), al, m1) =
      Ok (cur buf (p + length (enc_kv (k, v)) + length (concat (map enc_kv kvs))), al, m2)"
    using Cons.IH [OF _ a(2)] Cons.prems(1) by fastforce
  with m1 kv show ?case by (simp add: add.assoc)
qed simp

lemma read_dims_at:
  assumes b: "length buf < 2 ^ 64"
  shows "\<forall>d \<in> set dims. d < 2 ^ 64 \<Longrightarrow> at_pos buf p (concat (map (to_le 8) dims)) \<Longrightarrow>
    read_dims (length dims) (cur buf p) = Ok (dims, cur buf (p + length (concat (map (to_le 8) dims))))"
proof (induction dims arbitrary: p)
  case (Cons d dims)
  have a: "at_pos buf p (to_le 8 d)" "at_pos buf (p + 8) (concat (map (to_le 8) dims))"
    using Cons.prems(2) at_pos_append [of buf p "to_le 8 d" "concat (map (to_le 8) dims)"] by simp_all
  with Cons b show ?case by (simp add: u64_at add.assoc)
qed simp

definition info_of :: "(bytes \<Rightarrow> string) \<Rightarrow> tensor_spec \<Rightarrow> string \<times> nat list \<times> ggml_type \<times> nat" where
  "info_of lossy = (\<lambda>(nm, dims, ty, off). (lossy nm, dims, ggml_from_u32 (of_nat ty), off))"

lemma read_info_at:
  assumes i: "valid_info i" "at_pos buf p (enc_info i)" and b: "length buf < 2 ^ 64"
  shows "read_info lossy (cur buf p) = Ok (info_of lossy i, cur buf (p + length (enc_info i)))"
proof -
  obtain nm dims ty off where s: "i = (nm, dims, ty, off)" by (cases i)
  define q1 q2 q3 q4 where "q1 = p + length (enc_str nm)" and "q2 = q1 + 4" and "q3 = q2 + length (concat (map (to_le 8) dims))" and "q4 = q3 + 4"
  have a: "at_pos buf p (enc_str nm)" "at_pos buf q1 (to_le 4 (length dims))" "at_pos buf q2 (concat (map (to_le 8) dims))"
    "at_pos buf q3 (to_le 4 ty)" "at_pos buf q4 (to_le 8 off)"
    using i(2) by (simp_all add: s enc_info_def at_pos_append add.assoc q1_def q2_def q3_def q4_def)
  have v: "length dims < 2 ^ 32" "\<forall>d \<in> set dims. d < 2 ^ 64" "ty < 2 ^ 32" "off < 2 ^ 64" using i(1) by (simp_all add: s valid_info_def)
  have e: "p + length (enc_info i) = q4 + 8" by (simp add: s enc_info_def q1_def q2_def q3_def q4_def)
  show ?thesis
    using string_at [OF a(1) b, of lossy, folded q1_def] u32_at [OF a(2) b v(1), folded q2_def] read_dims_at [OF b v(2) a(3), folded q3_def]
      u32_at [OF a(4) b v(3), folded q4_def] u64_at [OF a(5) b v(4)]
    unfolding e by (simp add: read_info_def info_of_def s)
qed

lemma read_infos_at:
  assumes b: "length buf < 2 ^ 64"
  shows "\<forall>i \<in> set infos. valid_info i \<Longrightarrow> at_pos buf p (concat (map enc_info infos)) \<Longrightarrow>
    read_infos lossy (length infos) (cur buf p) = Ok (map (info_of lossy) infos, cur buf (p + length (concat (map enc_info infos))))"
proof (induction infos arbitrary: p)
  case (Cons i infos)
  have a: "at_pos buf p (enc_info i)" "at_pos buf (p + length (enc_info i)) (concat (map enc_info infos))"
    using Cons.prems(2) by (simp_all add: at_pos_append)
  with Cons read_info_at [OF _ a(1) b] show ?case by (simp add: add.assoc)
qed simp

lemma place_tensors_Ok:
  "\<forall>i \<in> set infos. start + snd (snd (snd i)) < 2 ^ 64 \<Longrightarrow> distinct (map (lossy \<circ> fst) infos) \<Longrightarrow>
   \<exists>m'. place_tensors fidx start (map (info_of lossy) infos) m = Ok m' \<and>
     (\<forall>nm dims ty off. (nm, dims, ty, off) \<in> set infos \<longrightarrow>
        map_of m' (lossy nm) = Some \<lparr>g_file = fidx, g_dims = dims, g_ty = ggml_from_u32 (of_nat ty), g_offset = start + off\<rparr>) \<and>
     (\<forall>x. x \<notin> (lossy \<circ> fst) ` set infos \<longrightarrow> map_of m' x = map_of m x)"
proof (induction infos arbitrary: m)
  case (Cons i infos)
  obtain nm dims ty off where i: "i = (nm, dims, ty, off)" by (cases i)
  let ?t = "\<lparr>g_file = fidx, g_dims = dims, g_ty = ggml_from_u32 (of_nat ty), g_offset = start + off\<rparr>"
  obtain m' where m': "place_tensors fidx start (map (info_of lossy) infos) (bt_insert (lossy nm) ?t m) = Ok m'"
    "\<forall>nm dims ty off. (nm, dims, ty, off) \<in> set infos \<longrightarrow>
        map_of m' (lossy nm) = Some \<lparr>g_file = fidx, g_dims = dims, g_ty = ggml_from_u32 (of_nat ty), g_offset = start + off\<rparr>"
    "\<forall>x. x \<notin> (lossy \<circ> fst) ` set infos \<longrightarrow> map_of m' x = map_of (bt_insert (lossy nm) ?t m) x"
    using Cons.IH [of "bt_insert (lossy nm) ?t m"] Cons.prems by auto
  have "lossy nm \<notin> (lossy \<circ> fst) ` set infos" using Cons.prems(2) i by simp
  with m'(3) have "map_of m' (lossy nm) = Some ?t" by simp
  with m' Cons.prems(1) show ?case by (intro exI [of _ m']) (auto simp: i info_of_def)
qed simp

lemma data_start_bounds: "n \<le> data_start n" "data_start n < n + 32"
  unfolding data_start_def by simp_all

text \<open>C18: Opening a model gives its tensors. For a one-shard file with any valid metadata (nested arrays
  included, no explicit alignment) whose header fits the reader's window, every tensor is found under
  its name with its dimensions and type, and reading inside it returns the bytes of the data section,
  which starts at the next multiple of 32 after the header.\<close>

theorem gguf_round_trip:
  assumes f: "dir name = Some (enc_header kvs infos @ zeros (data_start (length (enc_header kvs infos)) - length (enc_header kvs infos)) @ data)"
    and one: "find_sub first_mark name = None" and window: "length (enc_header kvs infos) \<le> head_limit"
    and kvs: "\<forall>kv \<in> set kvs. valid_kv lossy kv" and infos: "\<forall>i \<in> set infos. valid_info i \<and> snd (snd (snd i)) \<le> length data"
    and names: "distinct (map (lossy \<circ> fst) infos)" and small: "length data < 2 ^ 62"
  shows "\<exists>g. gguf_open lossy dir name = Ok g \<and> (\<forall>nm dims ty off. (nm, dims, ty, off) \<in> set infos \<longrightarrow>
    (\<exists>t. map_of (gg_tensors g) (lossy nm) = Some t \<and> g_dims t = dims \<and> g_ty t = ggml_from_u32 (of_nat ty) \<and>
       (\<forall>rel n. off + rel + n \<le> length data \<longrightarrow> gguf_read_at g t rel n = Ok (take n (drop (off + rel) data)))))"
proof -
  define h where "h = enc_header kvs infos"
  define st where "st = data_start (length h)"
  define img where "img = h @ zeros (st - length h) @ data"
  define buf where "buf = take head_limit img"
  define q where "q = 24 + length (concat (map enc_kv kvs))"
  have lh: "length h \<le> head_limit" using window by (simp add: h_def)
  have stb: "length h \<le> st" "st < length h + 32" using data_start_bounds [of "length h"] by (simp_all add: st_def)
  have st64: "st < 2 ^ 62" using stb lh by (simp add: head_limit_def)
  have buf: "buf = h @ take (head_limit - length h) (zeros (st - length h) @ data)" using lh by (simp add: buf_def img_def)
  have b: "length buf < 2 ^ 64" by (simp add: buf_def head_limit_def)
  have "at_pos buf 0 h" by (simp add: at_pos_def buf)
  then have a: "at_pos buf 0 (to_le 4 gguf_magic)" "at_pos buf 4 (to_le 4 3)" "at_pos buf 8 (to_le 8 (length infos))"
    "at_pos buf 16 (to_le 8 (length kvs))" "at_pos buf 24 (concat (map enc_kv kvs))" "at_pos buf q (concat (map enc_info infos))"
    by (simp_all add: h_def enc_header_def at_pos_append q_def add.assoc)
  have e: "q + length (concat (map enc_info infos)) = length h" by (simp add: q_def h_def enc_header_def)
  have "length kvs \<le> length (concat (map enc_kv kvs))" "length infos \<le> length (concat (map enc_info infos))"
    by (rule length_le_concat; auto simp: enc_kv_def enc_info_def enc_str_def)+
  then have cnt: "length kvs \<le> head_limit" "length infos \<le> head_limit" using lh e by (simp_all add: q_def)
  have r1: "cu_u32 (cur buf 0) = Ok (gguf_magic, cur buf 4)" using u32_at [OF a(1) b] by (simp add: gguf_magic_def)
  have r2: "cu_u32 (cur buf 4) = Ok (3, cur buf 8)" using u32_at [OF a(2) b] by simp
  have r3: "cu_u64 (cur buf 8) = Ok (length infos, cur buf 16)" using u64_at [OF a(3) b] cnt by (simp add: head_limit_def)
  have r4: "cu_u64 (cur buf 16) = Ok (length kvs, cur buf 24)" using u64_at [OF a(4) b] cnt by (simp add: head_limit_def)
  obtain meta where r5: "read_kvs lossy True (length kvs) (cur buf 24, 32, []) = Ok (cur buf q, 32, meta)"
    using read_kvs_at [OF b kvs a(5), of True 32 "[]"] by (auto simp: q_def)
  have r6: "read_infos lossy (length infos) (cur buf q) = Ok (map (info_of lossy) infos, cur buf (length h))"
    using read_infos_at [OF b _ a(6), of lossy] infos e by simp
  have "\<forall>i \<in> set infos. st + snd (snd (snd i)) < 2 ^ 64" using infos small st64 by fastforce
  then obtain m where m: "place_tensors 0 st (map (info_of lossy) infos) [] = Ok m"
    "\<forall>nm dims ty off. (nm, dims, ty, off) \<in> set infos \<longrightarrow>
        map_of m (lossy nm) = Some \<lparr>g_file = 0, g_dims = dims, g_ty = ggml_from_u32 (of_nat ty), g_offset = st + off\<rparr>"
    using place_tensors_Ok [OF _ names] by blast
  have stq: "(31 + length h) div 32 * 32 = st" by (simp add: st_def data_start_def add.commute)
  then have sq: "\<not> 576460752303423488 \<le> (31 + length h) div 32" using st64 [simplified] by linarith
  have shard: "read_shard lossy 0 name img ([], []) = Ok (m, meta)"
    using r1 r2 r3 r4 r5 r6 m(1) cnt st64 unfolding read_shard_def Let_def buf_def [symmetric] cur_def [symmetric]
    by (simp add: alloc_limit_def head_limit_def stq sq)
  let ?g = "\<lparr>gg_files = [img], gg_paths = [name], gg_tensors = m, gg_meta = meta\<rparr>"
  have op: "gguf_open lossy dir name = Ok ?g"
    using shard f by (simp add: gguf_open_def shard_paths_def one img_def st_def h_def)
  have rd: "gguf_read_at ?g \<lparr>g_file = 0, g_dims = dims, g_ty = ty, g_offset = st + off\<rparr> rel n = Ok (take n (drop (off + rel) data))"
    if "off + rel + n \<le> length data" for dims ty off rel n
  proof -
    have "img = (h @ zeros (st - length h) @ take (off + rel) data) @ take n (drop (off + rel) data) @ drop n (drop (off + rel) data)"
      by (simp add: img_def del: drop_drop)
    moreover have "length (h @ zeros (st - length h) @ take (off + rel) data) = st + off + rel" "length (take n (drop (off + rel) data)) = n"
      using stb that by simp_all
    ultimately have "read_exact img (st + off + rel) n = Some (take n (drop (off + rel) data))"
      using read_exact_append by metis
    then show ?thesis using that small st64 by (simp add: gguf_read_at_def nth_opt_def)
  qed
  show ?thesis
    using op m(2) rd by (intro exI [of _ ?g] conjI allI impI) (assumption, fastforce)
qed

text \<open>A file with one nested array as metadata and one tensor.\<close>

definition ex_kvs :: "(bytes \<times> gval) list" where
  "ex_kvs = [([0x67], Arr 9 [Arr 4 [Flat 4 [7, 0, 0, 0]]])]"

definition ex_infos :: "tensor_spec list" where
  "ex_infos = [([0x61], [2], 0, 0)]"

definition ex_names :: "bytes \<Rightarrow> string" where
  "ex_names = map (\<lambda>b. char_of (unat b))"

definition ex_image :: "string \<Rightarrow> file_bytes option" where
  "ex_image name = Some (enc_header ex_kvs ex_infos @ zeros (data_start (length (enc_header ex_kvs ex_infos)) - length (enc_header ex_kvs ex_infos)) @
     [1, 2, 3, 4, 5, 6, 7, 8])"

lemma gguf_round_trip_witness:
  "\<exists>g t. gguf_open ex_names ex_image ''m.gguf'' = Ok g \<and> map_of (gg_tensors g) (ex_names [0x61]) = Some t \<and> g_dims t = [2] \<and>
     gguf_read_at g t 4 2 = Ok [5, 6]"
proof -
  have w: "length (enc_header ex_kvs ex_infos) \<le> head_limit"
    by (simp add: enc_header_def ex_kvs_def ex_infos_def enc_kv_def enc_info_def enc_str_def head_limit_def)
  have k: "\<forall>kv \<in> set ex_kvs. valid_kv ex_names kv"
    by (simp add: ex_kvs_def valid_kv_def flat_size_def ex_names_def)
  have i: "\<forall>i \<in> set ex_infos. valid_info i \<and> snd (snd (snd i)) \<le> length [1, 2, 3, 4, 5, 6, 7, 8 :: u8]"
    by (simp add: ex_infos_def valid_info_def)
  have d: "distinct (map (ex_names \<circ> fst) ex_infos)" by (simp add: ex_infos_def)
  have o: "find_sub first_mark ''m.gguf'' = None" by (simp add: first_mark_def)
  have m: "([0x61], [2], 0, 0) \<in> set ex_infos" by (simp add: ex_infos_def)
  have s: "length [1, 2, 3, 4, 5, 6, 7, 8 :: u8] < 2 ^ 62" by simp
  obtain g where g: "gguf_open ex_names ex_image ''m.gguf'' = Ok g" and all: "\<forall>nm dims ty off. (nm, dims, ty, off) \<in> set ex_infos \<longrightarrow>
    (\<exists>t. map_of (gg_tensors g) (ex_names nm) = Some t \<and> g_dims t = dims \<and> g_ty t = ggml_from_u32 (of_nat ty) \<and>
       (\<forall>rel n. off + rel + n \<le> length [1, 2, 3, 4, 5, 6, 7, 8 :: u8] \<longrightarrow>
          gguf_read_at g t rel n = Ok (take n (drop (off + rel) [1, 2, 3, 4, 5, 6, 7, 8]))))"
    using gguf_round_trip [where dir = ex_image, OF ex_image_def o w k i d s] by (elim exE conjE)
  obtain t where t: "map_of (gg_tensors g) (ex_names [0x61]) = Some t" "g_dims t = [2]"
    "\<forall>rel n. 0 + rel + n \<le> length [1, 2, 3, 4, 5, 6, 7, 8 :: u8] \<longrightarrow>
          gguf_read_at g t rel n = Ok (take n (drop (0 + rel) [1, 2, 3, 4, 5, 6, 7, 8]))"
    using all m by blast
  have "gguf_read_at g t 4 2 = Ok [5, 6]" using t(3) [THEN spec, of 4, THEN spec, of 2] by simp
  with g t(1,2) show ?thesis by blast
qed

section \<open>Malformed lengths\<close>

text \<open>A string whose length field reaches past the last \<open>u64\<close> is not reported as truncated: it panics.\<close>

lemma huge_string_panics:
  assumes "at_pos buf p (to_le 8 n)" "length buf < 2 ^ 64" "n < 2 ^ 64" "2 ^ 64 \<le> p + 8 + n"
  shows "cu_string lossy (cur buf p) = Panic"
  using assms by (simp add: cu_string_def u64_at cu_take_def)

end
