(* ===== verification/Layer_Sweep.thy ===== *)
theory Layer_Sweep
  imports Prelude
begin

text \<open>
  The loop both decoders share (\<open>step_multi\<close> of \<open>decode.rs\<close> and \<open>kimi.rs\<close>): layer by layer, the
  attention of every entry in order, then the feed-forward phase of all entries together. Its
  reference runs the entries one after the other, each through all layers. The two agree for every
  list of entries, because entry and layer are the only coordinates the state has: a hidden vector
  belongs to an entry, a KV cache to a layer.
\<close>

section \<open>Success\<close>

fun ok_of :: "('e, 'a) res \<Rightarrow> 'a option" where
  "ok_of (Ok a) = Some a"
| "ok_of (Err e) = None"
| "ok_of Panic = None"

lemma ok_of_bind [simp]: "ok_of (bind_res r f) = Option.bind (ok_of r) (\<lambda>a. ok_of (f a))"
  by (cases r) auto

lemma ok_of_Some [simp]: "ok_of r = Some a \<longleftrightarrow> r = Ok a"
  by (cases r) auto

section \<open>The sweep\<close>

text \<open>
  One pass over the entries at a layer: \<open>att pos\<close> reads and extends the entry's sequence slot of the
  layer's cache and updates its hidden vector.
\<close>

fun attn_pass ::
  "(nat \<Rightarrow> 'c \<Rightarrow> 'h \<Rightarrow> 'c \<times> 'h) \<Rightarrow> (u32 \<times> nat \<times> nat) list \<Rightarrow> (nat \<Rightarrow> 'c) \<Rightarrow> 'h list \<Rightarrow> (nat \<Rightarrow> 'c) \<times> 'h list" where
  "attn_pass att ((tok, pos, seq) # es) c (h # hs) =
     (let (r, h') = att pos (c seq) h; (c', hs') = attn_pass att es (c(seq := r)) hs in (c', h' # hs'))"
| "attn_pass att _ c hs = (c, hs)"

fun layer_sweep ::
  "(nat \<Rightarrow> nat \<Rightarrow> 'c \<Rightarrow> 'h \<Rightarrow> 'c \<times> 'h) \<Rightarrow> (nat \<Rightarrow> 'l \<Rightarrow> 'h list \<Rightarrow> ('e, 'l \<times> 'h list) res)
   \<Rightarrow> (u32 \<times> nat \<times> nat) list \<Rightarrow> nat list \<Rightarrow> 'l \<Rightarrow> (nat \<Rightarrow> nat \<Rightarrow> 'c) \<Rightarrow> 'h list
   \<Rightarrow> ('e, 'l \<times> (nat \<Rightarrow> nat \<Rightarrow> 'c) \<times> 'h list) res" where
  "layer_sweep att ffn es [] tr C hs = Ok (tr, C, hs)"
| "layer_sweep att ffn es (l # ls) tr C hs =
     (let (c, hs1) = attn_pass (att l) es (C l) hs in
      bind_res (ffn l tr hs1) (\<lambda>(tr', hs2). layer_sweep att ffn es ls tr' (C(l := c)) hs2))"

section \<open>The reference\<close>

fun token_layers ::
  "(nat \<Rightarrow> nat \<Rightarrow> 'c \<Rightarrow> 'h \<Rightarrow> 'c \<times> 'h) \<Rightarrow> (nat \<Rightarrow> 'h \<Rightarrow> 'h option) \<Rightarrow> u32 \<times> nat \<times> nat \<Rightarrow> nat list
   \<Rightarrow> (nat \<Rightarrow> nat \<Rightarrow> 'c) \<Rightarrow> 'h \<Rightarrow> ((nat \<Rightarrow> nat \<Rightarrow> 'c) \<times> 'h) option" where
  "token_layers att ffn e [] C h = Some (C, h)"
| "token_layers att ffn (tok, pos, seq) (l # ls) C h =
     (let (r, h1) = att l pos (C l seq) h in
      Option.bind (ffn l h1) (\<lambda>h2. token_layers att ffn (tok, pos, seq) ls (C(l := (C l)(seq := r))) h2))"

fun token_major ::
  "(nat \<Rightarrow> nat \<Rightarrow> 'c \<Rightarrow> 'h \<Rightarrow> 'c \<times> 'h) \<Rightarrow> (nat \<Rightarrow> 'h \<Rightarrow> 'h option) \<Rightarrow> (u32 \<times> nat \<times> nat) list \<Rightarrow> nat list
   \<Rightarrow> (nat \<Rightarrow> nat \<Rightarrow> 'c) \<Rightarrow> 'h list \<Rightarrow> ((nat \<Rightarrow> nat \<Rightarrow> 'c) \<times> 'h list) option" where
  "token_major att ffn (e # es) ls C (h # hs) =
     Option.bind (token_layers att ffn e ls C h) (\<lambda>(C1, h1).
       map_option (\<lambda>(C2, hs2). (C2, h1 # hs2)) (token_major att ffn es ls C1 hs))"
| "token_major att ffn _ ls C hs = Some (C, hs)"

section \<open>The two agree\<close>

fun sweep_opt ::
  "(nat \<Rightarrow> nat \<Rightarrow> 'c \<Rightarrow> 'h \<Rightarrow> 'c \<times> 'h) \<Rightarrow> (nat \<Rightarrow> 'h \<Rightarrow> 'h option) \<Rightarrow> (u32 \<times> nat \<times> nat) list \<Rightarrow> nat list
   \<Rightarrow> (nat \<Rightarrow> nat \<Rightarrow> 'c) \<Rightarrow> 'h list \<Rightarrow> ((nat \<Rightarrow> nat \<Rightarrow> 'c) \<times> 'h list) option" where
  "sweep_opt att ffn es [] C hs = Some (C, hs)"
| "sweep_opt att ffn es (l # ls) C hs =
     (let (c, hs1) = attn_pass (att l) es (C l) hs in
      Option.bind (those (map (ffn l) hs1)) (\<lambda>hs2. sweep_opt att ffn es ls (C(l := c)) hs2))"

lemma length_attn_pass: "length (snd (attn_pass att es c hs)) = length hs"
proof (induction att es c hs rule: attn_pass.induct)
  case (1 att tok pos seq es c h hs)
  have "length (snd (attn_pass att es (c(seq := fst (att pos (c seq) h))) hs)) = length hs"
    by (rule "1.IH" [OF refl, where y = "snd (att pos (c seq) h)"]) simp
  then show ?case by (simp add: case_prod_unfold Let_def)
qed simp_all

lemma length_those: "those xs = Some ys \<Longrightarrow> length ys = length xs"
  by (induction xs arbitrary: ys) (auto split: option.splits)

lemma sweep_frame:
  "l \<notin> set ls \<Longrightarrow>
   sweep_opt att ffn es ls (C(l := x)) hs = map_option (\<lambda>(C', hs'). (C'(l := x), hs')) (sweep_opt att ffn es ls C hs)"
proof (induction ls arbitrary: C hs)
  case (Cons m ms)
  obtain c hs1 where a: "attn_pass (att m) es (C m) hs = (c, hs1)" by fastforce
  from Cons.prems have m: "l \<noteq> m" and ms: "l \<notin> set ms" by auto
  have t: "C(l := x, m := c) = C(m := c, l := x)" using m by (rule fun_upd_twist)
  have "sweep_opt att ffn es (m # ms) (C(l := x)) hs =
      Option.bind (those (map (ffn m) hs1)) (\<lambda>hs2. sweep_opt att ffn es ms (C(l := x, m := c)) hs2)"
    using a m by simp
  also have "\<dots> = map_option (\<lambda>(C', hs'). (C'(l := x), hs')) (sweep_opt att ffn es (m # ms) C hs)"
    unfolding t Cons.IH [OF ms] using a by (cases "those (map (ffn m) hs1)") simp_all
  finally show ?case .
qed simp

lemma token_frame:
  "l \<notin> set ls \<Longrightarrow>
   token_layers att ffn e ls (C(l := x)) h = map_option (\<lambda>(C', h'). (C'(l := x), h')) (token_layers att ffn e ls C h)"
proof (induction ls arbitrary: C h)
  case (Cons m ms)
  obtain tok pos seq where e: "e = (tok, pos, seq)" by (cases e)
  obtain r h1 where a: "att m pos (C m seq) h = (r, h1)" by fastforce
  from Cons.prems have m: "l \<noteq> m" and ms: "l \<notin> set ms" by auto
  have t: "C(l := x, m := (C m)(seq := r)) = C(m := (C m)(seq := r), l := x)" using m by (rule fun_upd_twist)
  have "token_layers att ffn e (m # ms) (C(l := x)) h =
      Option.bind (ffn m h1) (\<lambda>h2. token_layers att ffn e ms (C(l := x, m := (C m)(seq := r))) h2)"
    using a m by (simp add: e)
  also have "\<dots> = map_option (\<lambda>(C', h'). (C'(l := x), h')) (token_layers att ffn e (m # ms) C h)"
    unfolding t Cons.IH [OF ms] using a by (cases "ffn m h1") (simp_all add: e)
  finally show ?case .
qed simp

lemma sweep_split:
  assumes "distinct ls"
  shows "sweep_opt att ffn (e # es) ls C (h # hs) =
     Option.bind (token_layers att ffn e ls C h) (\<lambda>(C1, h1).
       map_option (\<lambda>(C2, hs2). (C2, h1 # hs2)) (sweep_opt att ffn es ls C1 hs))"
  using assms
proof (induction ls arbitrary: C h hs)
  case (Cons l ls)
  obtain tok pos seq where e: "e = (tok, pos, seq)" by (cases e)
  obtain r h1 where a: "att l pos (C l seq) h = (r, h1)" by fastforce
  define k where "k = (C l)(seq := r)"
  obtain c2 hs1 where p: "attn_pass (att l) es k hs = (c2, hs1)" by fastforce
  from Cons.prems have d: "l \<notin> set ls" and ih: "\<And>C h hs. sweep_opt att ffn (e # es) ls C (h # hs) =
     Option.bind (token_layers att ffn e ls C h) (\<lambda>(C1, h1).
       map_option (\<lambda>(C2, hs2). (C2, h1 # hs2)) (sweep_opt att ffn es ls C1 hs))"
    using Cons.IH by auto
  have lhs: "sweep_opt att ffn (e # es) (l # ls) C (h # hs) =
      Option.bind (those (map (ffn l) (h1 # hs1))) (\<lambda>hs2. sweep_opt att ffn (e # es) ls (C(l := c2)) hs2)"
    using a p by (simp add: e k_def)
  have tok: "token_layers att ffn e (l # ls) C h =
      Option.bind (ffn l h1) (\<lambda>h2. map_option (\<lambda>(C', h'). (C'(l := k), h')) (token_layers att ffn e ls C h2))"
    using a unfolding e k_def by (cases "ffn l h1") (simp_all add: token_frame [OF d])
  have rest: "sweep_opt att ffn es (l # ls) (C1(l := k)) hs =
      Option.bind (those (map (ffn l) hs1)) (\<lambda>hs2. map_option (\<lambda>(C', hs'). (C'(l := c2), hs')) (sweep_opt att ffn es ls C1 hs2))"
    for C1 using p by (cases "those (map (ffn l) hs1)") (simp_all add: sweep_frame [OF d])
  show ?case
  proof (cases "ffn l h1")
    case None
    then show ?thesis by (simp del: sweep_opt.simps token_layers.simps add: lhs tok)
  next
    case f: (Some h2)
    show ?thesis
    proof (cases "those (map (ffn l) hs1)")
      case None
      then show ?thesis
        by (cases "token_layers att ffn e ls C h2") (auto simp del: sweep_opt.simps token_layers.simps simp: f lhs tok rest)
    next
      case t: (Some hs2)
      have "sweep_opt att ffn (e # es) (l # ls) C (h # hs) = sweep_opt att ffn (e # es) ls (C(l := c2)) (h2 # hs2)"
        by (simp del: sweep_opt.simps add: lhs f t)
      also have "\<dots> = Option.bind (token_layers att ffn e ls C h2) (\<lambda>(C1, h1).
          map_option (\<lambda>(C2, hs2). (C2, h1 # hs2)) (map_option (\<lambda>(C', hs'). (C'(l := c2), hs')) (sweep_opt att ffn es ls C1 hs2)))"
        unfolding ih token_frame [OF d] by (cases "token_layers att ffn e ls C h2") (auto simp: sweep_frame [OF d])
      finally show ?thesis
        by (cases "token_layers att ffn e ls C h2")
          (auto simp del: sweep_opt.simps token_layers.simps simp: tok f rest t option.map_comp comp_def case_prod_unfold)
    qed
  qed
qed simp

lemma sweep_empty: "sweep_opt att ffn [] ls C [] = Some (C, [])"
  by (induction ls arbitrary: C) auto

lemma sweep_tokenwise: "distinct ls \<Longrightarrow> length hs = length es \<Longrightarrow> sweep_opt att ffn es ls C hs = token_major att ffn es ls C hs"
proof (induction es arbitrary: C hs)
  case Nil
  then show ?case by (simp add: sweep_empty)
next
  case (Cons e es)
  then obtain h hs' where "hs = h # hs'" "length hs' = length es" by (cases hs) auto
  with Cons show ?case by (simp add: sweep_split)
qed

text \<open>
  The rule the decoders use: it is enough that the feed-forward phase treats the hidden vectors
  independently.
\<close>

lemma layer_sweep_tokenwise:
  assumes ffn: "\<And>l tr hs. l \<in> set ls \<Longrightarrow> length hs = length es \<Longrightarrow> map_option snd (ok_of (ffn l tr hs)) = those (map (one l) hs)"
    and ls: "distinct ls" and n: "length hs = length es"
  shows "map_option snd (ok_of (layer_sweep att ffn es ls tr C hs)) = token_major att one es ls C hs"
proof -
  have "map_option snd (ok_of (layer_sweep att ffn es ks tr C hs)) = sweep_opt att one es ks C hs"
    if "set ks \<subseteq> set ls" "length hs = length es" for ks tr C hs
    using that
  proof (induction ks arbitrary: tr C hs)
    case (Cons l ks)
    obtain c hs1 where a: "attn_pass (att l) es (C l) hs = (c, hs1)" by fastforce
    have n1: "length hs1 = length es" using length_attn_pass [of "att l" es "C l" hs] a Cons.prems by simp
    have f: "map_option snd (ok_of (ffn l tr hs1)) = those (map (one l) hs1)" using ffn n1 Cons.prems by simp
    show ?case
    proof (cases "ok_of (ffn l tr hs1)")
      case None
      then show ?thesis using a f by simp
    next
      case (Some r)
      then have t: "those (map (one l) hs1) = Some (snd r)" using f by simp
      then have n2: "length (snd r) = length es" using length_those n1 by fastforce
      have "map_option snd (ok_of (layer_sweep att ffn es ks (fst r) (C(l := c)) (snd r))) = sweep_opt att one es ks (C(l := c)) (snd r)"
        by (rule Cons.IH) (use n2 Cons.prems in simp_all)
      then show ?thesis using a Some t by (simp del: fun_upd_apply add: case_prod_unfold)
    qed
  qed simp
  then show ?thesis using sweep_tokenwise [OF ls n] n by simp
qed


section \<open>A prompt, token by token\<close>

text \<open>Every token at the next position, its logits wanted only for the last.\<close>

fun feed_prompt :: "('s \<Rightarrow> u32 \<Rightarrow> nat \<Rightarrow> bool \<Rightarrow> ('e, u32 \<times> 's) res) \<Rightarrow> 's \<Rightarrow> u32 list \<Rightarrow> nat \<Rightarrow> ('e, u32 \<times> 's) res" where
  "feed_prompt step st [] pos = Ok (0, st)"
| "feed_prompt step st [tok] pos = step st tok pos True"
| "feed_prompt step st (tok # toks) pos = bind_res (step st tok pos False) (\<lambda>(_, st'). feed_prompt step st' toks (pos + 1))"

definition prompt_entries :: "nat \<Rightarrow> u32 list \<Rightarrow> (u32 \<times> nat \<times> nat) list" where
  "prompt_entries start toks = map (\<lambda>(i, t). (t, i, 0)) (enumerate start toks)"

lemma prompt_entries_Cons [simp]: "prompt_entries start (t # ts) = (t, start, 0) # prompt_entries (start + 1) ts"
  by (simp add: prompt_entries_def)

lemma prompt_entries_simps [simp]: "prompt_entries start [] = []" "length (prompt_entries start toks) = length toks"
  by (simp_all add: prompt_entries_def)

lemma prompt_entries_shift: "map (\<lambda>(i, t). (t, start + i, 0)) (enumerate 0 toks) = prompt_entries start toks"
  unfolding prompt_entries_def by (rule nth_equalityI) (simp_all add: nth_enumerate_eq)

lemma map_prompt_entries: "map (\<lambda>e. f (fst e)) (prompt_entries start toks) = map f toks"
  by (induction toks arbitrary: start) simp_all

lemma token_major_length: "token_major att ffn es ls C hs = Some (C', hs') \<Longrightarrow> length hs = length es \<Longrightarrow> length hs' = length es"
  by (induction att ffn es ls C hs arbitrary: C' hs' rule: token_major.induct) (auto simp: bind_eq_Some_conv)

lemma feed_prompt_tokenwise:
  assumes law: "\<And>st tok pos want. pos < m \<Longrightarrow> map_option (\<lambda>(out, st'). (out, obs st')) (ok_of (step st tok pos want)) =
      Option.bind (emb tok) (\<lambda>h. map_option (\<lambda>(C, h). (if want then head h else 0, C)) (token_layers att ffn (tok, pos, 0) ls (obs st) h))"
    and toks: "toks \<noteq> []" "start + length toks \<le> m"
  shows "map_option (\<lambda>(out, st'). (out, obs st')) (ok_of (feed_prompt step st toks start)) =
     Option.bind (those (map emb toks)) (\<lambda>hs.
       map_option (\<lambda>(C, hs). (head (last hs), C)) (token_major att ffn (prompt_entries start toks) ls (obs st) hs))"
  using toks
proof (induction toks arbitrary: st start rule: induct_list012)
  case (2 tok)
  show ?case
  proof (cases "emb tok")
    case None
    then show ?thesis using law [of start st tok True] 2 by simp
  next
    case (Some h)
    then show ?thesis using law [of start st tok True] 2
      by (cases "token_layers att ffn (tok, start, 0) ls (obs st) h") auto
  qed
next
  case (3 tok t2 toks)
  have ih: "map_option (\<lambda>(out, st'). (out, obs st')) (ok_of (feed_prompt step st' (t2 # toks) (start + 1))) =
     Option.bind (those (map emb (t2 # toks))) (\<lambda>hs.
       map_option (\<lambda>(C, hs). (head (last hs), C)) (token_major att ffn (prompt_entries (start + 1) (t2 # toks)) ls (obs st') hs))" for st'
    by (rule "3.IH"(2)) (use "3.prems" in simp_all)
  have one: "map_option (\<lambda>(out, st'). (out, obs st')) (ok_of (step st tok start False)) =
      Option.bind (emb tok) (\<lambda>h. map_option (\<lambda>(C, h). (0, C)) (token_layers att ffn (tok, start, 0) ls (obs st) h))"
    using law [of start st tok False] "3.prems" by simp
  show ?case
  proof (cases "Option.bind (emb tok) (\<lambda>h. token_layers att ffn (tok, start, 0) ls (obs st) h)")
    case None
    then have "ok_of (step st tok start False) = None" using one by (cases "emb tok") auto
    moreover have "Option.bind (those (map emb (tok # t2 # toks))) (\<lambda>hs. map_option (\<lambda>(C, hs). (head (last hs), C))
        (token_major att ffn (prompt_entries start (tok # t2 # toks)) ls (obs st) hs)) = None"
      using None by (cases "emb tok"; cases "those (map emb (t2 # toks))") auto
    ultimately show ?thesis by simp
  next
    case (Some q)
    then obtain h C1 h1 where h: "emb tok = Some h" "token_layers att ffn (tok, start, 0) ls (obs st) h = Some (C1, h1)"
      by (cases q) (auto simp: bind_eq_Some_conv)
    with one obtain r where r: "step st tok start False = Ok r" "obs (snd r) = C1"
      by (auto simp: map_option_eq_Some case_prod_unfold)
    have "feed_prompt step st (tok # t2 # toks) start = feed_prompt step (snd r) (t2 # toks) (start + 1)"
      using r by (simp add: case_prod_unfold)
    then have "map_option (\<lambda>(out, st'). (out, obs st')) (ok_of (feed_prompt step st (tok # t2 # toks) start)) =
      Option.bind (those (map emb (t2 # toks))) (\<lambda>hs.
       map_option (\<lambda>(C, hs). (head (last hs), C)) (token_major att ffn (prompt_entries (start + 1) (t2 # toks)) ls C1 hs))"
      using ih [of "snd r"] r by simp
    also have "\<dots> = Option.bind (those (map emb (tok # t2 # toks))) (\<lambda>hs. map_option (\<lambda>(C, hs). (head (last hs), C))
        (token_major att ffn (prompt_entries start (tok # t2 # toks)) ls (obs st) hs))"
    proof (cases "those (map emb (t2 # toks))")
      case None
      then show ?thesis using h by simp
    next
      case (Some hs)
      have ne: "hs2 \<noteq> []" if "token_major att ffn (prompt_entries (start + 1) (t2 # toks)) ls C1 hs = Some (C2, hs2)" for C2 hs2
        using token_major_length [OF that] length_those [OF Some] by auto
      show ?thesis using h Some ne
        by (cases "token_major att ffn (prompt_entries (start + 1) (t2 # toks)) ls C1 hs") (auto simp del: those.simps simp: those.simps(2))
    qed
    finally show ?thesis .
  qed
qed simp

end
