(* ===== verification/Model.thy ===== *)
theory Model
  imports Safetensors Sampling
begin

text \<open>
  The model's shape and its resident weights (\<open>llmpager-run/src/model.rs\<close>): the configuration read
  from the JSON embedded in the pack, and the device addresses of the core matrices and norms.
  Device pointers are 64-bit words; \<open>usize\<close> values are natural numbers, the \<open>as i32\<close> and
  \<open>as u32\<close> casts wrap. \<open>f32_of v\<close> stands for \<open>v.as_f64()\<close> followed by the cast to \<open>f32\<close>.
\<close>

section \<open>Configuration\<close>

record 'f config =
  cf_hidden :: nat
  cf_layers :: nat
  cf_heads :: nat
  cf_kv_heads :: nat
  cf_head_dim :: nat
  cf_moe_inter :: nat
  cf_experts :: nat
  cf_top_k :: nat
  cf_norm_topk :: bool
  cf_rms_eps :: 'f
  cf_rope_theta :: 'f
  cf_vocab :: nat
  cf_eos :: "u32 list"

datatype config_error = CfgMissing string

definition j_bool :: "'j json \<Rightarrow> bool option" where
  "j_bool v = (case v of JBool b \<Rightarrow> Some b | _ \<Rightarrow> None)"

definition need_u64 :: "'j json \<Rightarrow> string \<Rightarrow> (config_error, nat) res" where
  "need_u64 v k = (case j_u64 (jget v k) of None \<Rightarrow> Err (CfgMissing k) | Some x \<Rightarrow> Ok x)"

definition eos_ids :: "'j json \<Rightarrow> u32 list" where
  "eos_ids v =
     (case v of
        JInt i \<Rightarrow> (case j_u64 (JInt i :: 'j json) of None \<Rightarrow> [] | Some x \<Rightarrow> [of_nat x])
      | JArr a \<Rightarrow> map of_nat (List.map_filter j_u64 a)
      | _ \<Rightarrow> [])"

text \<open>
  The default of \<open>head_dim\<close> is computed whether it is needed or not: a configuration with no heads
  panics.
\<close>

definition config_from_json :: "('j json \<Rightarrow> 'f option) \<Rightarrow> 'f \<Rightarrow> 'f \<Rightarrow> 'j json \<Rightarrow> (config_error, 'f config) res" where
  "config_from_json f32_of eps0 theta0 v =
     bind_res (need_u64 v ''num_attention_heads'') (\<lambda>heads.
     bind_res (need_u64 v ''hidden_size'') (\<lambda>hidden.
     bind_res (need_u64 v ''num_hidden_layers'') (\<lambda>layers.
     bind_res (need_u64 v ''num_key_value_heads'') (\<lambda>kv_heads.
     if heads = 0 then Panic else
     bind_res (need_u64 v ''moe_intermediate_size'') (\<lambda>moe_inter.
     bind_res (need_u64 v ''num_experts'') (\<lambda>experts.
     bind_res (need_u64 v ''num_experts_per_tok'') (\<lambda>top_k.
     bind_res (need_u64 v ''vocab_size'') (\<lambda>vocab.
     Ok \<lparr>cf_hidden = hidden, cf_layers = layers, cf_heads = heads, cf_kv_heads = kv_heads,
         cf_head_dim = opt_or (hidden div heads) (j_u64 (jget v ''head_dim'')), cf_moe_inter = moe_inter,
         cf_experts = experts, cf_top_k = top_k, cf_norm_topk = opt_or False (j_bool (jget v ''norm_topk_prob'')),
         cf_rms_eps = opt_or eps0 (f32_of (jget v ''rms_norm_eps'')),
         cf_rope_theta = opt_or theta0 (f32_of (jget v ''rope_theta'')), cf_vocab = vocab,
         cf_eos = eos_ids (jget v ''eos_token_id'')\<rparr>))))))))"

section \<open>Weights\<close>

record mat =
  mt_dev :: u64
  mt_rows :: "32 word"
  mt_cols :: "32 word"
  mt_q4 :: bool

record layer_weights =
  w_input_ln :: u64
  w_q :: mat
  w_k :: mat
  w_v :: mat
  w_o :: mat
  w_q_norm :: u64
  w_k_norm :: u64
  w_post_ln :: u64
  w_router :: mat

record core_weights =
  cw_embed :: u64
  cw_final_norm :: u64
  cw_lm_head :: mat
  cw_layers :: "layer_weights list"

definition sort_dedup :: "'a::linorder list \<Rightarrow> 'a list" where
  "sort_dedup xs = remdups_adj (sort xs)"

lemma set_sort_dedup [simp]: "set (sort_dedup xs) = set xs"
  by (simp add: sort_dedup_def)

lemma distinct_remdups_adj: "sorted xs \<Longrightarrow> distinct (remdups_adj xs)" for xs :: "'a::linorder list"
  by (induction xs rule: remdups_adj.induct) auto

lemma distinct_sort_dedup [simp]: "distinct (sort_dedup xs)" for xs :: "'a::linorder list"
  by (simp add: sort_dedup_def distinct_remdups_adj)

definition layer_ptrs :: "layer_weights \<Rightarrow> u64 list" where
  "layer_ptrs w = [w_input_ln w, mt_dev (w_q w), mt_dev (w_k w), mt_dev (w_v w), mt_dev (w_o w),
     w_q_norm w, w_k_norm w, w_post_ln w, mt_dev (w_router w)]"

definition core_ptrs :: "core_weights \<Rightarrow> u64 list" where
  "core_ptrs c = sort_dedup ([cw_embed c, cw_final_norm c, mt_dev (cw_lm_head c)] @ concat (map layer_ptrs (cw_layers c)))"

end
