(* ===== verification/Decode_Step.thy ===== *)
theory Decode_Step
  imports Model Layer_Sweep Kv_Lanes
begin

text \<open>
  One step of the decoder, kernel by kernel (\<open>step\<close>, \<open>step_chunk\<close> and \<open>step_multi\<close> of
  \<open>llmpager-run/src/decode.rs\<close>). The float kernels are fields of an argument, as functions of the
  buffers they read; the two accumulating ones, \<open>add_f32\<close> and \<open>moe_reduce_f32\<close>, are written out
  after their CUDA source, since the results depend on the order they add in. The pager answers
  requests as a function of the calls made so far, which the state records. Kernel launches and
  copies are taken to succeed; an early return yields the error alone.
\<close>

section \<open>Kernels\<close>

record 'f kernels =
  k_embed :: "u64 \<Rightarrow> u32 \<Rightarrow> 'f list"
  k_rmsnorm :: "u64 \<Rightarrow> 'f \<Rightarrow> nat \<Rightarrow> 'f list \<Rightarrow> 'f list"
  k_q4_gemv :: "mat \<Rightarrow> 'f list \<Rightarrow> 'f list"
  k_bf16_gemv :: "mat \<Rightarrow> 'f list \<Rightarrow> 'f list"
  k_rope :: "nat \<Rightarrow> nat \<Rightarrow> 'f \<Rightarrow> nat \<Rightarrow> 'f list \<Rightarrow> 'f list"
  k_kv_store :: "bool \<Rightarrow> 'f list \<Rightarrow> 'f list"
  k_attn :: "bool \<Rightarrow> 'f list \<Rightarrow> ('f list \<times> 'f list) list \<Rightarrow> 'f list"
  k_silu_mul :: "'f list \<Rightarrow> 'f list \<Rightarrow> 'f list"
  k_blob_gemv :: "bytes \<Rightarrow> nat \<Rightarrow> nat \<Rightarrow> nat \<Rightarrow> nat \<Rightarrow> 'f list \<Rightarrow> 'f list"

text \<open>The decoder's settings; \<open>de_slots\<close> is the pager's \<open>slots_per_layer\<close>.\<close>

record 'f decoder =
  de_cfg :: "'f config"
  de_core :: core_weights
  de_gate_off :: nat
  de_up_off :: nat
  de_down_off :: nat
  de_group :: nat
  de_kv_f16 :: bool
  de_max_seq :: nat
  de_batch_cap :: nat
  de_chunk_cap :: nat
  de_prefetch_next :: bool
  de_slots :: nat

definition mat_gemv :: "'f kernels \<Rightarrow> mat \<Rightarrow> 'f list \<Rightarrow> 'f list" where
  "mat_gemv K m x = (if mt_q4 m then k_q4_gemv K m x else k_bf16_gemv K m x)"

definition add_vec :: "('f, 'm) f32_math_scheme \<Rightarrow> 'f list \<Rightarrow> 'f list \<Rightarrow> 'f list" where
  "add_vec F a b = map2 (m_add F) a b"

definition moe_reduce :: "('f, 'm) f32_math_scheme \<Rightarrow> 'f list \<Rightarrow> 'f list list \<Rightarrow> 'f list \<Rightarrow> 'f list" where
  "moe_reduce F out eouts wts =
     map (\<lambda>i. m_add F (out ! i) (foldl (\<lambda>a (w, y). m_add F a (f_mul F w (y ! i))) (f_zero F) (zip wts eouts)))
       [0..<length out]"

section \<open>The blocks of a layer\<close>

definition layer_at :: "'f decoder \<Rightarrow> nat \<Rightarrow> layer_weights" where
  "layer_at D l = cw_layers (de_core D) ! l"

definition normed :: "'f kernels \<Rightarrow> 'f decoder \<Rightarrow> u64 \<Rightarrow> 'f list \<Rightarrow> 'f list" where
  "normed K D w h = k_rmsnorm K w (cf_rms_eps (de_cfg D)) 1 h"

text \<open>
  Attention of one entry: the new key and value rows go into the sequence slot's cache at \<open>pos\<close>,
  the query attends to the rows up to \<open>pos\<close>, the projection is added to the hidden vector.
\<close>

definition attn_block ::
  "('f, 'm) f32_math_scheme \<Rightarrow> 'f kernels \<Rightarrow> 'f decoder \<Rightarrow> nat \<Rightarrow> nat \<Rightarrow> (nat \<Rightarrow> 'f list \<times> 'f list) \<Rightarrow> 'f list
   \<Rightarrow> (nat \<Rightarrow> 'f list \<times> 'f list) \<times> 'f list" where
  "attn_block F K D l pos rows h =
     (let w = layer_at D l; c = de_cfg D; eps = cf_rms_eps c; theta = cf_rope_theta c; hd = cf_head_dim c;
          hn = normed K D (w_input_ln w) h;
          q = k_rope K (cf_heads c) hd theta pos (k_rmsnorm K (w_q_norm w) eps (cf_heads c) (mat_gemv K (w_q w) hn));
          k = k_rope K (cf_kv_heads c) hd theta pos (k_rmsnorm K (w_k_norm w) eps (cf_kv_heads c) (mat_gemv K (w_k w) hn));
          v = mat_gemv K (w_v w) hn;
          rows' = rows(pos := (k_kv_store K (de_kv_f16 D) k, k_kv_store K (de_kv_f16 D) v));
          att = k_attn K (de_kv_f16 D) q (map rows' [0..<pos + 1])
      in (rows', add_vec F h (mat_gemv K (w_o w) att)))"

definition route :: "('f, 'm) f32_math_scheme \<Rightarrow> 'f kernels \<Rightarrow> 'f decoder \<Rightarrow> nat \<Rightarrow> 'f list \<Rightarrow> (u16 \<times> 'f) list option" where
  "route F K D l x = top_k_softmax F (mat_gemv K (w_router (layer_at D l)) x) (cf_top_k (de_cfg D)) (cf_norm_topk (de_cfg D))"

definition expert_ffn :: "'f kernels \<Rightarrow> 'f decoder \<Rightarrow> bytes \<Rightarrow> 'f list \<Rightarrow> 'f list" where
  "expert_ffn K D blob x =
     (let inter = cf_moe_inter (de_cfg D); hid = cf_hidden (de_cfg D);
          gate = k_blob_gemv K blob (de_gate_off D) inter hid (de_group D) x;
          up = k_blob_gemv K blob (de_up_off D) inter hid (de_group D) x
      in k_blob_gemv K blob (de_down_off D) hid inter (de_group D) (k_silu_mul K gate up))"

definition logits_of :: "'f kernels \<Rightarrow> 'f decoder \<Rightarrow> 'f list \<Rightarrow> 'f list" where
  "logits_of K D h = mat_gemv K (cw_lm_head (de_core D)) (normed K D (cw_final_norm (de_core D)) h)"

section \<open>State\<close>

text \<open>
  The pager calls the decoder makes, in order. \<open>GiveLater\<close> hands the layer's handles to
  \<open>defer_release\<close>; \<open>FlushRing\<close> is \<open>flush_pending_release\<close>; \<open>WaitFor\<close> is \<open>wait_stream\<close> on each handle.
\<close>

datatype pcall =
    AskFor u16 "u16 list" | Warm u16 "u16 list" | WaitFor u16 "u16 list" | GiveBack u16 "u16 list"
  | GiveLater u16 "u16 list" | FlushRing | TickClock

type_synonym 'e request_fn = "pcall list \<Rightarrow> u16 \<Rightarrow> u16 list \<Rightarrow> ('e, (u16 \<times> bytes) list) res"

datatype 'e step_error = PosTooFar nat nat | SlotTooFar nat nat | BadCount nat nat | PagerFailed 'e

record 'f dec_state =
  ds_cache :: "nat \<Rightarrow> nat \<Rightarrow> nat \<Rightarrow> 'f list \<times> 'f list"
  ds_logits :: "'f list"
  ds_multi :: "'f list list"
  ds_calls :: "pcall list"

fun lift_err :: "('e, 'a) res \<Rightarrow> ('e step_error, 'a) res" where
  "lift_err (Ok a) = Ok a"
| "lift_err (Err e) = Err (PagerFailed e)"
| "lift_err Panic = Panic"

fun map_res :: "('a \<Rightarrow> ('e, 'b) res) \<Rightarrow> 'a list \<Rightarrow> ('e, 'b list) res" where
  "map_res f [] = Ok []"
| "map_res f (x # xs) = bind_res (f x) (\<lambda>y. bind_res (map_res f xs) (\<lambda>ys. Ok (y # ys)))"

section \<open>One token\<close>

definition step_ffn ::
  "('f, 'm) f32_math_scheme \<Rightarrow> 'f kernels \<Rightarrow> 'f decoder \<Rightarrow> 'e request_fn \<Rightarrow> nat \<Rightarrow> pcall list \<Rightarrow> 'f list
   \<Rightarrow> ('e step_error, pcall list \<times> 'f list) res" where
  "step_ffn F K D req l calls h =
     (let x = normed K D (w_post_ln (layer_at D l)) h in
      case route F K D l x of
        None \<Rightarrow> Panic
      | Some picks \<Rightarrow>
          let ids = map fst picks in
          bind_res (lift_err (req calls (of_nat l) ids)) (\<lambda>handles.
            Ok (calls @ [AskFor (of_nat l) ids]
                  @ (if de_prefetch_next D \<and> l + 1 < cf_layers (de_cfg D) then [Warm (of_nat (l + 1)) ids] else [])
                  @ [WaitFor (of_nat l) (map fst handles), GiveLater (of_nat l) (map fst handles)],
                moe_reduce F h (map (\<lambda>hd. expert_ffn K D (snd hd) x) handles) (map snd picks))))"

fun step_layers ::
  "('f, 'm) f32_math_scheme \<Rightarrow> 'f kernels \<Rightarrow> 'f decoder \<Rightarrow> 'e request_fn \<Rightarrow> nat \<Rightarrow> nat list \<Rightarrow> pcall list
   \<Rightarrow> (nat \<Rightarrow> nat \<Rightarrow> nat \<Rightarrow> 'f list \<times> 'f list) \<Rightarrow> 'f list
   \<Rightarrow> ('e step_error, pcall list \<times> (nat \<Rightarrow> nat \<Rightarrow> nat \<Rightarrow> 'f list \<times> 'f list) \<times> 'f list) res" where
  "step_layers F K D req pos [] calls C h = Ok (calls, C, h)"
| "step_layers F K D req pos (l # ls) calls C h =
     (let (rows, h1) = attn_block F K D l pos (C l 0) h in
      bind_res (step_ffn F K D req l calls h1) (\<lambda>(calls', h2).
        step_layers F K D req pos ls calls' (C(l := (C l)(0 := rows))) h2))"

definition dec_step ::
  "('f, 'm) f32_math_scheme \<Rightarrow> 'f kernels \<Rightarrow> 'f decoder \<Rightarrow> 'e request_fn \<Rightarrow> 'f dec_state \<Rightarrow> u32 \<Rightarrow> nat \<Rightarrow> bool
   \<Rightarrow> ('e step_error, u32 \<times> 'f dec_state) res" where
  "dec_step F K D req st tok pos want =
     (if de_max_seq D \<le> pos then Err (PosTooFar pos (de_max_seq D))
      else bind_res (step_layers F K D req pos [0..<cf_layers (de_cfg D)] (ds_calls st) (ds_cache st)
                       (k_embed K (cw_embed (de_core D)) tok)) (\<lambda>(calls, C, h).
        if \<not> want then Ok (0, st\<lparr>ds_cache := C, ds_calls := calls\<rparr>)
        else let lg = logits_of K D h in
          Ok (argmax F lg, st\<lparr>ds_cache := C, ds_logits := lg, ds_calls := calls @ [TickClock]\<rparr>)))"

section \<open>Many entries\<close>

definition union_of :: "(u16 \<times> 'f) list list \<Rightarrow> u16 list" where
  "union_of picks = sort_dedup (map fst (concat picks))"

text \<open>One entry in one wave: its picks among the wave's experts, each at its handle's address.\<close>

definition wave_token ::
  "('f, 'm) f32_math_scheme \<Rightarrow> ('b \<Rightarrow> 'f list \<Rightarrow> 'f list) \<Rightarrow> (u16 \<times> 'b) list \<Rightarrow> u16 list
   \<Rightarrow> 'f list \<times> (u16 \<times> 'f) list \<times> 'f list \<Rightarrow> ('e, 'f list \<times> (u16 \<times> 'f) list \<times> 'f list) res" where
  "wave_token F ffn handles wave = (\<lambda>(x, picks, h).
     (let sub = filter (\<lambda>p. fst p \<in> set wave) picks in
      if sub = [] then Ok (x, picks, h)
      else case those (map (\<lambda>p. map_of handles (fst p)) sub) of
        None \<Rightarrow> Panic
      | Some blobs \<Rightarrow> Ok (x, picks, moe_reduce F h (map (\<lambda>b. ffn b x) blobs) (map snd sub))))"

fun wave_loop ::
  "('f, 'm) f32_math_scheme \<Rightarrow> (bytes \<Rightarrow> 'f list \<Rightarrow> 'f list) \<Rightarrow> 'e request_fn \<Rightarrow> u16 \<Rightarrow> u16 list list \<Rightarrow> pcall list
   \<Rightarrow> ('f list \<times> (u16 \<times> 'f) list \<times> 'f list) list
   \<Rightarrow> ('e step_error, pcall list \<times> ('f list \<times> (u16 \<times> 'f) list \<times> 'f list) list) res" where
  "wave_loop F ffn req l [] calls ts = Ok (calls, ts)"
| "wave_loop F ffn req l (wave # waves) calls ts =
     bind_res (lift_err (req calls l wave)) (\<lambda>handles.
     bind_res (map_res (wave_token F ffn handles wave) ts) (\<lambda>ts'.
       wave_loop F ffn req l waves
         (calls @ [AskFor l wave, WaitFor l (map fst handles), GiveBack l (map fst handles)]) ts'))"

definition multi_ffn ::
  "('f, 'm) f32_math_scheme \<Rightarrow> 'f kernels \<Rightarrow> 'f decoder \<Rightarrow> 'e request_fn \<Rightarrow> nat \<Rightarrow> pcall list \<Rightarrow> 'f list list
   \<Rightarrow> ('e step_error, pcall list \<times> 'f list list) res" where
  "multi_ffn F K D req l calls hs =
     (let xs = map (normed K D (w_post_ln (layer_at D l))) hs in
      case those (map (route F K D l) xs) of
        None \<Rightarrow> Panic
      | Some picks \<Rightarrow>
          bind_res (wave_loop F (expert_ffn K D) req (of_nat l) (chunks (max (de_slots D) 1) (union_of picks)) calls
                      (zip xs (zip picks hs)))
            (\<lambda>(calls', ts). Ok (calls', map (\<lambda>t. snd (snd t)) ts)))"

fun guard_entries :: "nat \<Rightarrow> nat \<Rightarrow> (u32 \<times> nat \<times> nat) list \<Rightarrow> ('e step_error, unit) res" where
  "guard_entries max_seq cap [] = Ok ()"
| "guard_entries max_seq cap ((tok, pos, seq) # es) =
     (if max_seq \<le> pos then Err (PosTooFar pos max_seq)
      else if cap \<le> seq then Err (SlotTooFar seq cap) else guard_entries max_seq cap es)"

text \<open>Logits are computed for the last entry of each sequence slot only.\<close>

definition entry_logits :: "('h \<Rightarrow> 'v) \<Rightarrow> (u32 \<times> nat \<times> nat) list \<Rightarrow> 'h list \<Rightarrow> 'v option list" where
  "entry_logits logits es hs = map (\<lambda>t. if last_for_slot es t then Some (logits (hs ! t)) else None) [0..<length es]"

definition entry_tokens :: "('f, 'm) f32_math_scheme \<Rightarrow> 'f list option list \<Rightarrow> u32 list" where
  "entry_tokens F lg = map (\<lambda>r. case r of None \<Rightarrow> 0 | Some v \<Rightarrow> argmax F v) lg"

definition dec_step_multi ::
  "('f, 'm) f32_math_scheme \<Rightarrow> 'f kernels \<Rightarrow> 'f decoder \<Rightarrow> 'e request_fn \<Rightarrow> 'f dec_state \<Rightarrow> (u32 \<times> nat \<times> nat) list
   \<Rightarrow> bool \<Rightarrow> ('e step_error, u32 list \<times> 'f dec_state) res" where
  "dec_step_multi F K D req st es want =
     (let n = length es in
      if n = 0 \<or> de_chunk_cap D < n then Err (BadCount n (de_chunk_cap D))
      else bind_res (guard_entries (de_max_seq D) (de_batch_cap D) es) (\<lambda>_.
        bind_res (layer_sweep (attn_block F K D) (multi_ffn F K D req) es [0..<cf_layers (de_cfg D)]
                    (ds_calls st @ [FlushRing]) (ds_cache st) (map (\<lambda>e. k_embed K (cw_embed (de_core D)) (fst e)) es))
          (\<lambda>(calls, C, hs).
             let st' = st\<lparr>ds_cache := C, ds_calls := calls @ [TickClock]\<rparr> in
             if \<not> want then Ok (replicate n 0, st')
             else let lg = entry_logits (logits_of K D) es hs in
               Ok (entry_tokens F lg,
                   st'\<lparr>ds_multi := map (opt_or []) lg, ds_logits := last (ds_logits st # List.map_filter id lg)\<rparr>))))"

definition dec_step_chunk ::
  "('f, 'm) f32_math_scheme \<Rightarrow> 'f kernels \<Rightarrow> 'f decoder \<Rightarrow> 'e request_fn \<Rightarrow> 'f dec_state \<Rightarrow> u32 list \<Rightarrow> nat
   \<Rightarrow> bool \<Rightarrow> ('e step_error, u32 \<times> 'f dec_state) res" where
  "dec_step_chunk F K D req st toks start want =
     bind_res (dec_step_multi F K D req st (map (\<lambda>(i, t). (t, start + i, 0)) (enumerate 0 toks)) want)
       (\<lambda>(out, st'). Ok (opt_or 0 (if out = [] then None else Some (last out)), st'))"

end
