(* ===== verification/Decode_Waves.thy ===== *)
theory Decode_Waves
  imports Decode_Step
begin

text \<open>
  What the waves of \<open>step_multi\<close> add up to. When the pager serves what it is asked for, the waves
  give every hidden vector exactly the contribution of its own picks: bit for bit when the experts
  of a layer fit one wave, and for any number of waves when addition is exact.
\<close>

section \<open>What the pager promises\<close>

text \<open>A request for at most as many experts as there are slots returns each with its bytes.\<close>

definition serves :: "'e request_fn \<Rightarrow> nat \<Rightarrow> (u16 \<Rightarrow> u16 \<Rightarrow> bytes) \<Rightarrow> bool" where
  "serves req slots blob \<longleftrightarrow>
     (\<forall>calls l ids. length ids \<le> slots \<longrightarrow> req calls l ids = Ok (map (\<lambda>i. (i, blob l i)) ids))"

text \<open>Addition without rounding.\<close>

definition exact_add :: "('f, 'm) f32_math_scheme \<Rightarrow> bool" where
  "exact_add F \<longleftrightarrow> (\<forall>a b c. m_add F (m_add F a b) c = m_add F a (m_add F b c)) \<and>
     (\<forall>a b. m_add F a b = m_add F b a) \<and> (\<forall>a. m_add F (f_zero F) a = a)"

section \<open>The reference feed-forward phase\<close>

definition reduce_picks ::
  "('f, 'm) f32_math_scheme \<Rightarrow> (u16 \<Rightarrow> 'f list) \<Rightarrow> (u16 \<times> 'f) list \<Rightarrow> 'f list \<Rightarrow> 'f list" where
  "reduce_picks F out ps h = moe_reduce F h (map (\<lambda>p. out (fst p)) ps) (map snd ps)"

definition ffn_ref ::
  "('f, 'm) f32_math_scheme \<Rightarrow> 'f kernels \<Rightarrow> 'f decoder \<Rightarrow> (u16 \<Rightarrow> u16 \<Rightarrow> bytes) \<Rightarrow> nat \<Rightarrow> 'f list \<Rightarrow> 'f list option" where
  "ffn_ref F K D blob l h =
     (let x = normed K D (w_post_ln (layer_at D l)) h in
      map_option (\<lambda>ps. reduce_picks F (\<lambda>i. expert_ffn K D (blob (of_nat l) i) x) ps h) (route F K D l x))"

definition wave_pure ::
  "('f, 'm) f32_math_scheme \<Rightarrow> (u16 \<Rightarrow> 'f list) \<Rightarrow> (u16 \<times> 'f) list \<Rightarrow> 'f list \<Rightarrow> u16 list \<Rightarrow> 'f list" where
  "wave_pure F out ps h wave =
     (let sub = filter (\<lambda>p. fst p \<in> set wave) ps in if sub = [] then h else reduce_picks F out sub h)"

lemma map_res_Ok: "(\<And>x. x \<in> set xs \<Longrightarrow> f x = Ok (g x)) \<Longrightarrow> map_res f xs = Ok (map g xs)"
  by (induction xs) auto

lemma those_map_Some: "(\<And>x. x \<in> set xs \<Longrightarrow> f x = Some (g x)) \<Longrightarrow> those (map f xs) = Some (map g xs)"
  by (induction xs) auto

lemma wave_token_pure:
  "wave_token F ffn (map (\<lambda>i. (i, bl i)) wave) wave t =
     Ok (fst t, fst (snd t), wave_pure F (\<lambda>i. ffn (bl i) (fst t)) (fst (snd t)) (snd (snd t)) wave)"
proof -
  obtain x ps h where t: "t = (x, ps, h)" by (cases t)
  have "those (map (\<lambda>p. map_of (map (\<lambda>i. (i, bl i)) wave) (fst p)) (filter (\<lambda>p. fst p \<in> set wave) ps)) =
      Some (map (\<lambda>p. bl (fst p)) (filter (\<lambda>p. fst p \<in> set wave) ps))"
    by (rule those_map_Some) (simp add: map_of_map_restrict)
  then show ?thesis unfolding t by (simp add: wave_token_def wave_pure_def reduce_picks_def Let_def comp_def)
qed

lemma wave_loop_pure:
  assumes s: "serves req slots blob" and w: "\<And>w. w \<in> set waves \<Longrightarrow> length w \<le> slots"
  shows "\<exists>calls'. wave_loop F ffn req l waves calls ts =
     Ok (calls', map (\<lambda>t. (fst t, fst (snd t),
       foldl (wave_pure F (\<lambda>i. ffn (blob l i) (fst t)) (fst (snd t))) (snd (snd t)) waves)) ts)"
  using w
proof (induction waves arbitrary: calls ts)
  case (Cons wave waves)
  let ?f = "\<lambda>t. (fst t, fst (snd t), wave_pure F (\<lambda>i. ffn (blob l i) (fst t)) (fst (snd t)) (snd (snd t)) wave)"
  have r: "req calls l wave = Ok (map (\<lambda>i. (i, blob l i)) wave)" using s Cons.prems by (simp add: serves_def)
  have m: "map_res (wave_token F ffn (map (\<lambda>i. (i, blob l i)) wave) wave) ts = Ok (map ?f ts)"
    by (rule map_res_Ok) (rule wave_token_pure)
  have w: "\<And>w. w \<in> set waves \<Longrightarrow> length w \<le> slots" using Cons.prems by simp
  show ?case
    using Cons.IH [OF w, of "calls @ [AskFor l wave, WaitFor l wave, GiveBack l wave]" "map ?f ts"]
    by (simp add: r m comp_def)
qed simp

section \<open>One wave\<close>

lemma length_remdups_adj: "length (remdups_adj xs) \<le> length xs"
  by (induction xs rule: remdups_adj.induct) auto

lemma length_union: "length (union_of picks) \<le> sum_list (map length picks)"
proof -
  have "length (union_of picks) \<le> length (sort (map fst (concat picks)))"
    unfolding union_of_def sort_dedup_def by (rule length_remdups_adj)
  then show ?thesis by (simp add: length_concat)
qed

lemma set_union: "set (union_of picks) = fst ` (\<Union>ps \<in> set picks. set ps)"
  by (auto simp: union_of_def)

lemma chunks_one: "xs \<noteq> [] \<Longrightarrow> length xs \<le> n \<Longrightarrow> chunks n xs = [xs]"
  by (cases xs) (simp_all add: chunks.simps [of n])

lemma one_wave:
  assumes "length (union_of picks) \<le> n" "ps \<in> set picks" "ps \<noteq> []"
  shows "foldl (wave_pure F out ps) h (chunks n (union_of picks)) = reduce_picks F out ps h"
proof -
  have sub: "fst p \<in> set (union_of picks)" if "p \<in> set ps" for p
    unfolding set_union using assms(2) that by blast
  then have ne: "union_of picks \<noteq> []" using assms(3) by (cases ps) force+
  have "filter (\<lambda>p. fst p \<in> set (union_of picks)) ps = ps" using sub by (simp add: filter_id_conv)
  then show ?thesis using assms(3) by (simp add: chunks_one [OF ne assms(1)] wave_pure_def)
qed

section \<open>Any number of waves\<close>

definition picks_sum :: "('f, 'm) f32_math_scheme \<Rightarrow> (u16 \<Rightarrow> 'f list) \<Rightarrow> nat \<Rightarrow> (u16 \<times> 'f) list \<Rightarrow> 'f" where
  "picks_sum F out i ps = foldl (\<lambda>a p. m_add F a (f_mul F (snd p) (out (fst p) ! i))) (f_zero F) ps"

lemma reduce_picks_sum: "reduce_picks F out ps h = map (\<lambda>i. m_add F (h ! i) (picks_sum F out i ps)) [0..<length h]"
proof -
  have "foldl (\<lambda>a (w, y). m_add F a (f_mul F w (y ! i))) b (zip (map snd ps) (map (\<lambda>p. out (fst p)) ps)) =
      foldl (\<lambda>a p. m_add F a (f_mul F (snd p) (out (fst p) ! i))) b ps" for i b
    by (induction ps arbitrary: b) auto
  then show ?thesis by (simp add: reduce_picks_def moe_reduce_def picks_sum_def)
qed

lemma picks_sum_Cons:
  assumes F: "exact_add F"
  shows "picks_sum F out i (p # ps) = m_add F (f_mul F (snd p) (out (fst p) ! i)) (picks_sum F out i ps)"
proof -
  let ?g = "\<lambda>a p. m_add F a (f_mul F (snd p) (out (fst p) ! i))"
  have z: "m_add F (f_zero F) a = a" "m_add F a (f_zero F) = a" for a
    using F unfolding exact_add_def by metis+
  have "foldl ?g b ps = m_add F b (foldl ?g (f_zero F) ps)" for b
  proof (induction ps arbitrary: b)
    case (Cons q ps)
    have "foldl ?g b (q # ps) = m_add F (?g b q) (foldl ?g (f_zero F) ps)" using Cons.IH [of "?g b q"] by simp
    also have "\<dots> = m_add F b (m_add F (?g (f_zero F) q) (foldl ?g (f_zero F) ps))"
      using F unfolding exact_add_def by simp
    also have "\<dots> = m_add F b (foldl ?g (f_zero F) (q # ps))" using Cons.IH [of "?g (f_zero F) q"] by simp
    finally show ?case .
  qed (simp add: z)
  from this [of "?g (f_zero F) p"] show ?thesis unfolding picks_sum_def by (simp add: z)
qed

lemma picks_sum_split:
  assumes F: "exact_add F" and d: "A \<inter> B = {}"
  shows "picks_sum F out i (filter (\<lambda>p. fst p \<in> A \<union> B) ps) =
     m_add F (picks_sum F out i (filter (\<lambda>p. fst p \<in> A) ps)) (picks_sum F out i (filter (\<lambda>p. fst p \<in> B) ps))"
proof (induction ps)
  case Nil
  show ?case using F by (simp add: picks_sum_def exact_add_def)
next
  case (Cons p ps)
  have as: "m_add F (m_add F a b) c = m_add F a (m_add F b c)" and co: "m_add F a b = m_add F b a" for a b c
    using F unfolding exact_add_def by blast+
  have lc: "m_add F a (m_add F b c) = m_add F b (m_add F a c)" for a b c by (metis as co)
  show ?case using Cons d by (auto simp: picks_sum_Cons [OF F] as lc)
qed

lemma all_waves:
  assumes F: "exact_add F" and d: "distinct (concat waves)"
  shows "foldl (wave_pure F out ps) h waves = reduce_picks F out (filter (\<lambda>p. fst p \<in> set (concat waves)) ps) h"
  using d
proof (induction waves arbitrary: h)
  case Nil
  have "m_add F a (f_zero F) = a" for a using F unfolding exact_add_def by metis
  then show ?case by (simp add: reduce_picks_sum picks_sum_def map_nth)
next
  case (Cons w waves)
  have z: "m_add F a (f_zero F) = a" for a using F unfolding exact_add_def by metis
  have as: "m_add F (m_add F a b) c = m_add F a (m_add F b c)" for a b c using F unfolding exact_add_def by blast
  have wp: "wave_pure F out ps h w = reduce_picks F out (filter (\<lambda>p. fst p \<in> set w) ps) h"
    by (auto simp: wave_pure_def Let_def reduce_picks_sum picks_sum_def z map_nth)
  have dj: "set w \<inter> set (concat waves) = {}" "distinct (concat waves)" using Cons.prems by auto
  have "foldl (wave_pure F out ps) h (w # waves) =
      reduce_picks F out (filter (\<lambda>p. fst p \<in> set (concat waves)) ps) (reduce_picks F out (filter (\<lambda>p. fst p \<in> set w) ps) h)"
    using Cons.IH [OF dj(2)] wp by simp
  also have "\<dots> = reduce_picks F out (filter (\<lambda>p. fst p \<in> set w \<union> set (concat waves)) ps) h"
    by (simp add: reduce_picks_sum picks_sum_split [OF F dj(1)] as del: Un_iff set_concat)
  finally show ?case by simp
qed

lemma exact_waves:
  assumes F: "exact_add F" and n: "0 < n" and ps: "ps \<in> set picks"
  shows "foldl (wave_pure F out ps) h (chunks n (union_of picks)) = reduce_picks F out ps h"
proof -
  have c: "concat (chunks n (union_of picks)) = union_of picks" using n by (rule concat_chunks)
  have "filter (\<lambda>p. fst p \<in> set (union_of picks)) ps = ps"
    using ps by (auto simp: filter_id_conv set_union)
  moreover have "distinct (concat (chunks n (union_of picks)))" unfolding c by (simp add: union_of_def)
  ultimately show ?thesis using all_waves [OF F] c by metis
qed

section \<open>The phase as a whole\<close>

lemma multi_ffn_ref:
  assumes s: "serves req (max (de_slots D) 1) blob"
    and w: "\<And>picks out ps h. those (map (route F K D l) (map (normed K D (w_post_ln (layer_at D l))) hs)) = Some picks \<Longrightarrow>
      ps \<in> set picks \<Longrightarrow> foldl (wave_pure F out ps) h (chunks (max (de_slots D) 1) (union_of picks)) = reduce_picks F out ps h"
  shows "map_option snd (ok_of (multi_ffn F K D req l calls hs)) = those (map (ffn_ref F K D blob l) hs)"
proof -
  let ?x = "normed K D (w_post_ln (layer_at D l))"
  let ?ffn = "\<lambda>h ps. reduce_picks F (\<lambda>i. expert_ffn K D (blob (of_nat l) i) (?x h)) ps h"
  have ref: "those (map (ffn_ref F K D blob l) ks) = map_option (\<lambda>picks. map2 ?ffn ks picks) (those (map (route F K D l) (map ?x ks)))" for ks
  proof (induction ks)
    case (Cons k ks)
    then show ?case
      by (cases "route F K D l (?x k)"; cases "those (map (route F K D l) (map ?x ks))") (simp_all add: ffn_ref_def Let_def)
  qed simp
  show ?thesis
  proof (cases "those (map (route F K D l) (map ?x hs))")
    case None
    then show ?thesis unfolding ref by (simp add: multi_ffn_def Let_def)
  next
    case (Some picks)
    let ?ws = "chunks (max (de_slots D) 1) (union_of picks)"
    obtain calls' where wl: "wave_loop F (expert_ffn K D) req (of_nat l) ?ws calls (zip (map ?x hs) (zip picks hs)) =
        Ok (calls', map (\<lambda>t. (fst t, fst (snd t),
          foldl (wave_pure F (\<lambda>i. expert_ffn K D (blob (of_nat l) i) (fst t)) (fst (snd t))) (snd (snd t)) ?ws))
            (zip (map ?x hs) (zip picks hs)))"
      using wave_loop_pure [OF s, of ?ws F "expert_ffn K D" "of_nat l" calls "zip (map ?x hs) (zip picks hs)"] chunks_bounds by blast
    have len: "length picks = length hs" using length_those [OF Some] by simp
    have "map (\<lambda>t. foldl (wave_pure F (\<lambda>i. expert_ffn K D (blob (of_nat l) i) (fst t)) (fst (snd t))) (snd (snd t)) ?ws)
        (zip (map ?x hs) (zip picks hs)) = map2 ?ffn hs picks"
    proof (rule nth_equalityI)
      fix i assume "i < length (map (\<lambda>t. foldl (wave_pure F (\<lambda>i. expert_ffn K D (blob (of_nat l) i) (fst t)) (fst (snd t))) (snd (snd t)) ?ws)
        (zip (map ?x hs) (zip picks hs)))"
      then have i: "i < length hs" by simp
      then have m: "picks ! i \<in> set picks" by (simp add: len)
      then show "map (\<lambda>t. foldl (wave_pure F (\<lambda>i. expert_ffn K D (blob (of_nat l) i) (fst t)) (fst (snd t))) (snd (snd t)) ?ws)
        (zip (map ?x hs) (zip picks hs)) ! i = map2 ?ffn hs picks ! i"
        using i by (simp add: len w [OF Some m, unfolded One_nat_def])
    qed (simp add: len)
    then show ?thesis unfolding ref using wl Some by (simp add: multi_ffn_def Let_def comp_def)
  qed
qed

end
