(* ===== verification/Decode_Props.thy ===== *)
theory Decode_Props
  imports Decode_Waves Routing
begin

text \<open>
  The decoder's steps against their reference: every entry run alone through all layers, each layer
  adding the contribution of the entry's own picks, with no pager, no waves and no other entries in
  sight.
\<close>

section \<open>The multi-entry step\<close>

definition waves_harmless :: "('f, 'm) f32_math_scheme \<Rightarrow> 'f kernels \<Rightarrow> 'f decoder \<Rightarrow> nat \<Rightarrow> bool" where
  "waves_harmless F K D n \<longleftrightarrow> exact_add F \<or>
     (n * cf_top_k (de_cfg D) \<le> de_slots D \<and> 0 < cf_top_k (de_cfg D) \<and> (\<forall>l x. mat_gemv K (w_router (layer_at D l)) x \<noteq> []))"

definition in_range :: "'f decoder \<Rightarrow> (u32 \<times> nat \<times> nat) list \<Rightarrow> bool" where
  "in_range D es \<longleftrightarrow> es \<noteq> [] \<and> length es \<le> de_chunk_cap D \<and>
     list_all (\<lambda>(t, pos, seq). pos < de_max_seq D \<and> seq < de_batch_cap D) es"

definition dec_reference ::
  "('f, 'm) f32_math_scheme \<Rightarrow> 'f kernels \<Rightarrow> 'f decoder \<Rightarrow> (u16 \<Rightarrow> u16 \<Rightarrow> bytes) \<Rightarrow> (nat \<Rightarrow> nat \<Rightarrow> nat \<Rightarrow> 'f list \<times> 'f list)
   \<Rightarrow> (u32 \<times> nat \<times> nat) list \<Rightarrow> ((nat \<Rightarrow> nat \<Rightarrow> nat \<Rightarrow> 'f list \<times> 'f list) \<times> 'f list list) option" where
  "dec_reference F K D blob C es =
     token_major (attn_block F K D) (ffn_ref F K D blob) es [0..<cf_layers (de_cfg D)] C
       (map (\<lambda>e. k_embed K (cw_embed (de_core D)) (fst e)) es)"

definition outputs :: "('f, 'm) f32_math_scheme \<Rightarrow> ('f list \<Rightarrow> 'f list) \<Rightarrow> bool \<Rightarrow> (u32 \<times> nat \<times> nat) list \<Rightarrow> 'f list list \<Rightarrow> u32 list" where
  "outputs F logits want es hs =
     (if \<not> want then replicate (length es) 0 else entry_tokens F (entry_logits logits es hs))"

lemma route_facts:
  assumes "route F K D l x = Some ps"
  shows "length ps \<le> cf_top_k (de_cfg D)"
    "0 < cf_top_k (de_cfg D) \<Longrightarrow> mat_gemv K (w_router (layer_at D l)) x \<noteq> [] \<Longrightarrow> ps \<noteq> []"
proof -
  let ?lg = "mat_gemv K (w_router (layer_at D l)) x"
  let ?top = "take (cf_top_k (de_cfg D)) (sort_desc (\<lambda>a b. f_gt F (snd a) (snd b))
      (map (\<lambda>(i, p). (of_nat i :: u16, p)) (enumerate 0 (softmax_probs F ?lg))))"
  have len: "length ps = length ?top"
    using assms by (auto simp: route_def top_k_softmax_def Let_def split: if_splits)
  then show "length ps \<le> cf_top_k (de_cfg D)" by simp
  have "length (sort_desc gt xs) = length xs" for gt :: "u16 \<times> 'a \<Rightarrow> u16 \<times> 'a \<Rightarrow> bool" and xs
    using mset_sort_desc [of gt xs] by (metis size_mset)
  then have "length ?top = min (cf_top_k (de_cfg D)) (length (softmax_probs F ?lg))" by simp
  moreover have "length (softmax_probs F ?lg) = length ?lg" by (simp add: softmax_probs_def Let_def)
  ultimately show "ps \<noteq> []" if "0 < cf_top_k (de_cfg D)" "?lg \<noteq> []" using len that by auto
qed

lemma those_mem: "those (map f xs) = Some ys \<Longrightarrow> y \<in> set ys \<Longrightarrow> \<exists>x \<in> set xs. f x = Some y"
  by (induction xs arbitrary: ys) (auto split: option.splits)

lemma sum_list_le: "(\<And>x. x \<in> set xs \<Longrightarrow> f x \<le> k) \<Longrightarrow> sum_list (map f xs) \<le> length xs * (k :: nat)"
  by (induction xs) (auto simp: add_mono)

lemma harmless_waves:
  assumes h: "waves_harmless F K D n" and n: "length hs = n"
    and picks: "those (map (route F K D l) (map (normed K D w) hs)) = Some picks" and ps: "ps \<in> set picks"
  shows "foldl (wave_pure F out ps) h (chunks (max (de_slots D) 1) (union_of picks)) = reduce_picks F out ps h"
proof (cases "exact_add F")
  case True
  then show ?thesis using ps by (intro exact_waves) auto
next
  case False
  have le: "length q \<le> cf_top_k (de_cfg D)" if "q \<in> set picks" for q
    using those_mem [OF picks that] route_facts(1) by blast
  have "length picks = n" using length_those [OF picks] n by simp
  then have "sum_list (map length picks) \<le> n * cf_top_k (de_cfg D)" using sum_list_le [of picks length] le by blast
  then have fit: "length (union_of picks) \<le> max (de_slots D) 1"
    using length_union [of picks] h False unfolding waves_harmless_def by linarith
  have "ps \<noteq> []" using those_mem [OF picks ps] route_facts(2) h False unfolding waves_harmless_def by metis
  then show ?thesis by (rule one_wave [OF fit ps])
qed

lemma guard_ok: "list_all (\<lambda>(t, pos, seq). pos < m \<and> seq < c) es \<Longrightarrow> guard_entries m c es = Ok ()"
  by (induction m c es rule: guard_entries.induct) auto

lemma step_multi_ref:
  fixes F :: "('f, 'm) f32_math_scheme"
  assumes s: "serves req (max (de_slots D) 1) blob" and h: "waves_harmless F K D (length es)" and r: "in_range D es"
  shows "map_option (\<lambda>(out, st'). (out, ds_cache st')) (ok_of (dec_step_multi F K D req st es want)) =
     map_option (\<lambda>(C, hs). (outputs F (logits_of K D) want es hs, C)) (dec_reference F K D blob (ds_cache st) es)"
proof -
  let ?sw = "layer_sweep (attn_block F K D) (multi_ffn F K D req) es [0..<cf_layers (de_cfg D)]
    (ds_calls st @ [FlushRing]) (ds_cache st) (map (\<lambda>e. k_embed K (cw_embed (de_core D)) (fst e)) es)"
  have "map_option snd (ok_of ?sw) = dec_reference F K D blob (ds_cache st) es"
    unfolding dec_reference_def
  proof (rule layer_sweep_tokenwise)
    fix l calls and hs :: "'f list list" assume n: "length hs = length es"
    show "map_option snd (ok_of (multi_ffn F K D req l calls hs)) = those (map (ffn_ref F K D blob l) hs)"
      by (rule multi_ffn_ref [OF s]) (rule harmless_waves [OF h n])
  qed simp_all
  moreover have "map_option (\<lambda>(out, st'). (out, ds_cache st')) (ok_of (dec_step_multi F K D req st es want)) =
      map_option (\<lambda>(C, hs). (outputs F (logits_of K D) want es hs, C)) (map_option snd (ok_of ?sw))"
    using r by (cases ?sw) (auto simp: dec_step_multi_def in_range_def outputs_def Let_def guard_ok)
  ultimately show ?thesis by simp
qed

section \<open>The calls it makes\<close>

text \<open>The pager calls of a layer's waves.\<close>

definition wave_calls :: "u16 \<Rightarrow> u16 list list \<Rightarrow> pcall list" where
  "wave_calls l waves = concat (map (\<lambda>w. [AskFor l w, WaitFor l w, GiveBack l w]) waves)"

lemma wave_loop_calls:
  assumes s: "serves req slots blob" and w: "\<And>w. w \<in> set waves \<Longrightarrow> length w \<le> slots"
    and ok: "wave_loop F ffn req l waves calls ts = Ok (calls', ts')"
  shows "calls' = calls @ wave_calls l waves"
  using w ok
proof (induction waves arbitrary: calls ts)
  case (Cons wave waves)
  have r: "req calls l wave = Ok (map (\<lambda>i. (i, blob l i)) wave)" using s Cons.prems by (simp add: serves_def)
  have w: "\<And>w. w \<in> set waves \<Longrightarrow> length w \<le> slots" using Cons.prems by simp
  from Cons.prems(2) obtain ts1 where
    "wave_loop F ffn req l waves (calls @ [AskFor l wave, WaitFor l wave, GiveBack l wave]) ts1 = Ok (calls', ts')"
    by (auto simp: r panic_simps comp_def)
  from Cons.IH [OF w this] show ?case by (simp add: wave_calls_def)
qed (simp add: wave_calls_def)

definition wave_plan :: "nat \<Rightarrow> u16 list list \<Rightarrow> bool" where
  "wave_plan slots waves \<longleftrightarrow> sorted (concat waves) \<and> distinct (concat waves) \<and> (\<forall>w \<in> set waves. w \<noteq> [] \<and> length w \<le> slots)"

lemma union_plan: "0 < n \<Longrightarrow> wave_plan n (chunks n (union_of picks))"
  using chunks_bounds [of _ n "union_of picks"]
  by (auto simp: wave_plan_def concat_chunks union_of_def sort_dedup_def distinct_remdups_adj)

lemma sweep_calls:
  assumes s: "serves req (max (de_slots D) 1) blob"
    and ok: "layer_sweep att (multi_ffn F K D req) es ls calls C hs = Ok (calls', C', hs')"
  shows "\<exists>plan. length plan = length ls \<and> list_all (wave_plan (max (de_slots D) 1)) plan \<and>
     calls' = calls @ concat (map2 (\<lambda>l waves. wave_calls (of_nat l) waves) ls plan)"
  using ok
proof (induction ls arbitrary: calls C hs)
  case (Cons l ls)
  obtain c hs1 where a: "attn_pass (att l) es (C l) hs = (c, hs1)" by fastforce
  let ?xs = "map (normed K D (w_post_ln (layer_at D l))) hs1" and ?N = "max (de_slots D) 1"
  from Cons.prems a obtain calls1 hs2 where
    m: "multi_ffn F K D req l calls hs1 = Ok (calls1, hs2)"
    and rest: "layer_sweep att (multi_ffn F K D req) es ls calls1 (C(l := c)) hs2 = Ok (calls', C', hs')"
    by (auto simp: panic_simps simp del: fun_upd_apply)
  from m obtain picks ts where p: "those (map (route F K D l) ?xs) = Some picks"
    and wl: "wave_loop F (expert_ffn K D) req (of_nat l) (chunks ?N (union_of picks)) calls (zip ?xs (zip picks hs1)) = Ok (calls1, ts)"
    by (auto simp: multi_ffn_def Let_def panic_simps split: option.splits)
  have plan: "wave_plan ?N (chunks ?N (union_of picks))" by (rule union_plan) simp
  then have c1: "calls1 = calls @ wave_calls (of_nat l) (chunks ?N (union_of picks))"
    using wave_loop_calls [OF s _ wl] by (simp add: wave_plan_def)
  from Cons.IH [OF rest] obtain plan' where "length plan' = length ls" "list_all (wave_plan ?N) plan'"
    "calls' = calls1 @ concat (map2 (\<lambda>l waves. wave_calls (of_nat l) waves) ls plan')" by blast
  then show ?case using plan c1 by (intro exI [of _ "chunks ?N (union_of picks) # plan'"]) simp
qed simp

section \<open>The single-token step\<close>

lemma step_ffn_ref:
  assumes s: "serves req (max (de_slots D) 1) blob" and k: "cf_top_k (de_cfg D) \<le> max (de_slots D) 1"
  shows "map_option snd (ok_of (step_ffn F K D req l calls h)) = ffn_ref F K D blob l h"
proof (cases "route F K D l (normed K D (w_post_ln (layer_at D l)) h)")
  case None
  then show ?thesis by (simp add: step_ffn_def ffn_ref_def Let_def)
next
  case (Some ps)
  have "length (map fst ps) \<le> max (de_slots D) 1" using route_facts(1) [OF Some] k by simp
  then have r: "req calls (of_nat l) (map fst ps) = Ok (map (\<lambda>i. (i, blob (of_nat l) i)) (map fst ps))"
    using s unfolding serves_def by blast
  show ?thesis using Some by (simp add: step_ffn_def ffn_ref_def Let_def r reduce_picks_def comp_def)
qed

lemma step_layers_ref:
  assumes s: "serves req (max (de_slots D) 1) blob" and k: "cf_top_k (de_cfg D) \<le> max (de_slots D) 1"
  shows "map_option snd (ok_of (step_layers F K D req pos ls calls C h)) =
     token_layers (attn_block F K D) (ffn_ref F K D blob) (tok, pos, 0) ls C h"
proof (induction ls arbitrary: calls C h)
  case (Cons l ls)
  obtain rows h1 where a: "attn_block F K D l pos (C l 0) h = (rows, h1)" by fastforce
  have f: "map_option snd (ok_of (step_ffn F K D req l calls h1)) = ffn_ref F K D blob l h1"
    by (rule step_ffn_ref [OF s k])
  show ?case
  proof (cases "ok_of (step_ffn F K D req l calls h1)")
    case None
    then show ?thesis using a f by simp
  next
    case (Some q)
    then have g: "ffn_ref F K D blob l h1 = Some (snd q)" using f by simp
    have "map_option snd (ok_of (step_layers F K D req pos ls (fst q) (C(l := (C l)(0 := rows))) (snd q))) =
        token_layers (attn_block F K D) (ffn_ref F K D blob) (tok, pos, 0) ls (C(l := (C l)(0 := rows))) (snd q)"
      by (rule Cons.IH)
    then show ?thesis using a Some g by (simp del: fun_upd_apply add: case_prod_unfold)
  qed
qed simp

lemma step_ref:
  assumes s: "serves req (max (de_slots D) 1) blob" and k: "cf_top_k (de_cfg D) \<le> max (de_slots D) 1"
    and pos: "pos < de_max_seq D"
  shows "map_option (\<lambda>(out, st'). (out, ds_cache st')) (ok_of (dec_step F K D req st tok pos want)) =
     map_option (\<lambda>(C, h). (if want then argmax F (logits_of K D h) else 0, C))
       (token_layers (attn_block F K D) (ffn_ref F K D blob) (tok, pos, 0) [0..<cf_layers (de_cfg D)] (ds_cache st)
          (k_embed K (cw_embed (de_core D)) tok))"
proof -
  let ?r = "step_layers F K D req pos [0..<cf_layers (de_cfg D)] (ds_calls st) (ds_cache st) (k_embed K (cw_embed (de_core D)) tok)"
  have "map_option (\<lambda>(out, st'). (out, ds_cache st')) (ok_of (dec_step F K D req st tok pos want)) =
      map_option (\<lambda>(C, h). (if want then argmax F (logits_of K D h) else 0, C)) (map_option snd (ok_of ?r))"
    using pos by (cases ?r) (auto simp: dec_step_def Let_def)
  then show ?thesis unfolding step_layers_ref [OF s k, where tok = tok] .
qed

lemma steps_ref:
  assumes s: "serves req (max (de_slots D) 1) blob" and k: "cf_top_k (de_cfg D) \<le> max (de_slots D) 1"
    and toks: "toks \<noteq> []" "start + length toks \<le> de_max_seq D"
  shows "map_option (\<lambda>(out, st'). (out, ds_cache st')) (ok_of (feed_prompt (dec_step F K D req) st toks start)) =
     map_option (\<lambda>(C, hs). (argmax F (logits_of K D (last hs)), C))
       (dec_reference F K D blob (ds_cache st) (prompt_entries start toks))"
proof -
  let ?emb = "k_embed K (cw_embed (de_core D))"
  have "those (map (\<lambda>t. Some (?emb t)) toks) = Some (map ?emb toks)" by (rule those_map_Some) simp
  moreover have "map_option (\<lambda>(out, st'). (out, ds_cache st')) (ok_of (feed_prompt (dec_step F K D req) st toks start)) =
     Option.bind (those (map (\<lambda>t. Some (?emb t)) toks)) (\<lambda>hs.
       map_option (\<lambda>(C, hs). (argmax F (logits_of K D (last hs)), C))
         (token_major (attn_block F K D) (ffn_ref F K D blob) (prompt_entries start toks) [0..<cf_layers (de_cfg D)] (ds_cache st) hs))"
    by (rule feed_prompt_tokenwise [OF _ toks]) (simp add: step_ref [OF s k])
  ultimately show ?thesis by (simp add: dec_reference_def map_prompt_entries)
qed

section \<open>Properties\<close>

text \<open>C20: One call of \<open>step_multi\<close> over any mix of prompt positions and sequence slots computes, for every
  entry, what running the entries one after the other through all layers computes, each with the full
  set of its own picks: layer-by-layer batching, the union of the experts and the waves change neither
  the KV caches nor the outputs. This holds bit for bit when the experts of all entries fit the slots
  at once, and for any number of waves if addition does not round; in particular the two fail together.\<close>

theorem step_multi_tokenwise:
  assumes "serves req (max (de_slots D) 1) blob" "waves_harmless F K D (length es)" "in_range D es"
  shows "map_option (\<lambda>(out, st'). (out, ds_cache st')) (ok_of (dec_step_multi F K D req st es want)) =
     map_option (\<lambda>(C, hs). (outputs F (logits_of K D) want es hs, C)) (dec_reference F K D blob (ds_cache st) es)"
  by (rule step_multi_ref [OF assms])

lemma last_outputs:
  assumes "es \<noteq> []" "length hs = length es"
  shows "outputs F logits True es hs \<noteq> []" "last (outputs F logits True es hs) = argmax F (logits (last hs))"
proof -
  have l: "last_for_slot es (length es - 1)" using assms(1) by (simp add: last_for_slot_def)
  have "last (entry_logits logits es hs) = Some (logits (hs ! (length es - 1)))"
    using assms l by (simp add: entry_logits_def last_map)
  moreover have ne: "entry_logits logits es hs \<noteq> []" using assms by (simp add: entry_logits_def)
  moreover have "hs ! (length es - 1) = last hs" using assms by (metis last_conv_nth length_0_conv)
  ultimately show "last (outputs F logits True es hs) = argmax F (logits (last hs))"
    by (simp add: outputs_def entry_tokens_def last_map)
  show "outputs F logits True es hs \<noteq> []" using ne by (simp add: outputs_def entry_tokens_def)
qed


lemma dec_reference_slots: "dec_reference F K (D\<lparr>de_slots := n\<rparr>) blob C es = dec_reference F K D blob C es"
proof -
  have a: "attn_block F K (D\<lparr>de_slots := n\<rparr>) = attn_block F K D"
    by (intro ext) (simp add: attn_block_def normed_def layer_at_def)
  have e: "expert_ffn K (D\<lparr>de_slots := n\<rparr>) = expert_ffn K D" by (intro ext) (simp add: expert_ffn_def)
  have "ffn_ref F K (D\<lparr>de_slots := n\<rparr>) blob = ffn_ref F K D blob"
    by (intro ext) (simp add: ffn_ref_def route_def normed_def layer_at_def e)
  then show ?thesis by (simp add: dec_reference_def a)
qed

lemma logits_slots: "logits_of K (D\<lparr>de_slots := n\<rparr>) = logits_of K D"
  by (intro ext) (simp add: logits_of_def normed_def)

text \<open>C22: Paging is lossless at any cache size: with addition that does not round, decoding with \<open>m\<close> slots
  per layer and with \<open>n\<close> gives the same outputs and the same KV caches, however the expert unions split
  into waves, down to a single slot.\<close>

theorem paging_lossless:
  assumes "exact_add F" "in_range D es"
    and "serves req (max m 1) blob" "serves req' (max n 1) blob"
  shows "map_option (\<lambda>(out, st'). (out, ds_cache st')) (ok_of (dec_step_multi F K (D\<lparr>de_slots := m\<rparr>) req st es want)) =
     map_option (\<lambda>(out, st'). (out, ds_cache st')) (ok_of (dec_step_multi F K (D\<lparr>de_slots := n\<rparr>) req' st es want))"
proof -
  have *: "map_option (\<lambda>(out, st'). (out, ds_cache st')) (ok_of (dec_step_multi F K (D\<lparr>de_slots := k\<rparr>) r st es want)) =
     map_option (\<lambda>(C, hs). (outputs F (logits_of K D) want es hs, C)) (dec_reference F K D blob (ds_cache st) es)"
    if "serves r (max k 1) blob" for k r
    using step_multi_ref [of r "D\<lparr>de_slots := k\<rparr>" blob F K es st want] that assms(1,2)
    by (simp add: waves_harmless_def in_range_def dec_reference_slots logits_slots)
  show ?thesis using * [OF assms(3)] * [OF assms(4)] by simp
qed

text \<open>The pager calls of \<open>step_multi\<close>: the deferred ring is flushed, then every layer asks for the union
  of its experts in ascending order, each expert once, in waves of at most the slot count, and gives
  each wave back before it asks for the next; the pager's clock ticks once at the end.\<close>

theorem step_multi_calls:
  assumes s: "serves req (max (de_slots D) 1) blob" and ok: "dec_step_multi F K D req st es want = Ok (out, st')"
  shows "\<exists>plan. length plan = cf_layers (de_cfg D) \<and> list_all (wave_plan (max (de_slots D) 1)) plan \<and>
     ds_calls st' = ds_calls st @ FlushRing #
       concat (map2 (\<lambda>l waves. wave_calls (of_nat l) waves) [0..<cf_layers (de_cfg D)] plan) @ [TickClock]"
proof -
  from ok obtain calls C hs where
    sw: "layer_sweep (attn_block F K D) (multi_ffn F K D req) es [0..<cf_layers (de_cfg D)]
      (ds_calls st @ [FlushRing]) (ds_cache st) (map (\<lambda>e. k_embed K (cw_embed (de_core D)) (fst e)) es) = Ok (calls, C, hs)"
    and st': "ds_calls st' = calls @ [TickClock]"
    by (auto simp: dec_step_multi_def Let_def panic_simps split: if_splits)
  show ?thesis using sweep_calls [OF s sw] st' by fastforce
qed

section \<open>A small decoder\<close>

text \<open>One layer, two experts, both picked, one slot: every step takes two waves.\<close>

definition mini_kernels :: "int kernels" where
  "mini_kernels = \<lparr>k_embed = \<lambda>_ t. [uint t, 1], k_rmsnorm = \<lambda>_ _ _ x. x, k_q4_gemv = \<lambda>_ x. x,
     k_bf16_gemv = \<lambda>_ x. case x of [] \<Rightarrow> [0, 0] | a # _ \<Rightarrow> [3, a], k_rope = \<lambda>_ _ _ p x. map ((+) (int p)) x,
     k_kv_store = \<lambda>_ x. x, k_attn = \<lambda>_ q rows. map2 (+) q (snd (last rows)), k_silu_mul = map2 (*),
     k_blob_gemv = \<lambda>b off _ _ _ x. map ((*) (int (from_le b + off))) x\<rparr>"

definition mini_config :: "int config" where
  "mini_config = \<lparr>cf_hidden = 2, cf_layers = 1, cf_heads = 1, cf_kv_heads = 1, cf_head_dim = 2, cf_moe_inter = 2,
     cf_experts = 2, cf_top_k = 2, cf_norm_topk = False, cf_rms_eps = 0, cf_rope_theta = 0, cf_vocab = 2, cf_eos = []\<rparr>"

definition mini_mat :: mat where
  "mini_mat = \<lparr>mt_dev = 0, mt_rows = 2, mt_cols = 2, mt_q4 = False\<rparr>"

definition mini_core :: core_weights where
  "mini_core = \<lparr>cw_embed = 0, cw_final_norm = 0, cw_lm_head = mini_mat, cw_layers = [\<lparr>w_input_ln = 0, w_q = mini_mat,
     w_k = mini_mat, w_v = mini_mat, w_o = mini_mat, w_q_norm = 0, w_k_norm = 0, w_post_ln = 0, w_router = mini_mat\<rparr>]\<rparr>"

definition mini_decoder :: "int decoder" where
  "mini_decoder = \<lparr>de_cfg = mini_config, de_core = mini_core, de_gate_off = 1, de_up_off = 2, de_down_off = 3, de_group = 64,
     de_kv_f16 = False, de_max_seq = 8, de_batch_cap = 2, de_chunk_cap = 4, de_prefetch_next = True, de_slots = 1\<rparr>"

definition mini_blob :: "u16 \<Rightarrow> u16 \<Rightarrow> bytes" where
  "mini_blob l e = [ucast e]"

definition mini_request :: "nat \<Rightarrow> unit request_fn" where
  "mini_request slots calls l ids = (if length ids \<le> slots then Ok (map (\<lambda>i. (i, mini_blob l i)) ids) else Err ())"

definition mini_state :: "int dec_state" where
  "mini_state = \<lparr>ds_cache = \<lambda>_ _ _. ([], []), ds_logits = [], ds_multi = [], ds_calls = []\<rparr>"

lemma mini_serves: "serves (mini_request n) n mini_blob"
  by (simp add: serves_def mini_request_def)

lemma exact_int: "exact_add int_math"
  by (simp add: exact_add_def int_math_def)



abbreviation mini_entries :: "(u32 \<times> nat \<times> nat) list" where
  "mini_entries \<equiv> [(5, 0, 0), (7, 1, 0)]"

lemma mini_run:
  "map_option fst (ok_of (dec_step_multi int_math mini_kernels mini_decoder (mini_request 1) mini_state mini_entries True)) = Some [0, 1]"
  by code_simp

lemma mini_facts:
  "serves (mini_request 1) (max (de_slots mini_decoder) 1) mini_blob" "in_range mini_decoder mini_entries"
  "waves_harmless int_math K mini_decoder n"
  using mini_serves [of 1] exact_int by (simp_all add: mini_decoder_def in_range_def waves_harmless_def)

lemma step_multi_tokenwise_witness:
  "map_option (\<lambda>(C, hs). outputs int_math (logits_of mini_kernels mini_decoder) True mini_entries hs)
     (dec_reference int_math mini_kernels mini_decoder mini_blob (ds_cache mini_state) mini_entries) = Some [0, 1]"
proof -
  have "map_option fst (map_option (\<lambda>(out, st'). (out, ds_cache st'))
      (ok_of (dec_step_multi int_math mini_kernels mini_decoder (mini_request 1) mini_state mini_entries True))) = Some [0, 1]"
    using mini_run by (simp add: option.map_comp comp_def case_prod_unfold)
  then show ?thesis
    unfolding step_multi_tokenwise [OF mini_facts(1) mini_facts(3) mini_facts(2)]
    by (simp add: option.map_comp comp_def case_prod_unfold)
qed


text \<open>One slot and seven.\<close>

lemma paging_lossless_witness:
  "map_option fst (ok_of (dec_step_multi int_math mini_kernels (mini_decoder\<lparr>de_slots := 7\<rparr>) (mini_request 7) mini_state mini_entries True)) =
   Some [0, 1]"
proof -
  have s: "serves (mini_request 1) (max 1 1) mini_blob" "serves (mini_request 7) (max 7 1) mini_blob"
    using mini_serves [of 1] mini_serves [of 7] by simp_all
  have d: "mini_decoder\<lparr>de_slots := 1\<rparr> = mini_decoder" by (simp add: mini_decoder_def)
  have "map_option fst (map_option (\<lambda>(out, st'). (out, ds_cache st'))
      (ok_of (dec_step_multi int_math mini_kernels mini_decoder (mini_request 1) mini_state mini_entries True))) = Some [0, 1]"
    using mini_run by (simp add: option.map_comp comp_def case_prod_unfold)
  then show ?thesis
    unfolding paging_lossless [OF exact_int mini_facts(2) s, of mini_kernels mini_state True, unfolded d]
    by (simp add: option.map_comp comp_def case_prod_unfold)
qed

lemma step_multi_calls_witness:
  "\<exists>(st' :: int dec_state) plan. ds_calls st' = ds_calls mini_state @ FlushRing #
     concat (map2 (\<lambda>l waves. wave_calls (of_nat l) waves) [0..<cf_layers (de_cfg mini_decoder)] plan) @ [TickClock] \<and>
     list_all (wave_plan (max (de_slots mini_decoder) 1)) plan \<and> length plan = cf_layers (de_cfg mini_decoder)"
proof -
  obtain out st' where r: "dec_step_multi int_math mini_kernels mini_decoder (mini_request 1) mini_state mini_entries True = Ok (out, st')"
    using mini_run by (auto simp: map_option_eq_Some)
  show ?thesis using step_multi_calls [OF mini_facts(1) r] by (elim exE conjE) (intro exI conjI)
qed

end
