(* ===== verification/Kimi_Step.thy ===== *)
theory Kimi_Step
  imports Decode_Waves
begin

text \<open>
  One step of the Kimi decoder (\<open>step\<close>, \<open>step_chunk\<close> and \<open>step_multi\<close> of \<open>llmpager-run/src/kimi.rs\<close>):
  multi-head latent attention over a compressed cache row per token, dense layers first, then
  mixture layers with a shared expert and routed experts paged in. Kernels, pager and recorded calls
  are as in \<open>Decode_Step\<close>; the embedding is gathered on the host and panics outside the table. The
  debugging probes are left out.
\<close>

section \<open>Configuration and weights\<close>

record 'f kimi_conf =
  kc_hidden :: nat
  kc_layers :: nat
  kc_dense_layers :: nat
  kc_heads :: nat
  kc_q_lora :: nat
  kc_kv_lora :: nat
  kc_nope :: nat
  kc_rope :: nat
  kc_v_head :: nat
  kc_moe_inter :: nat
  kc_dense_inter :: nat
  kc_experts :: nat
  kc_top_k :: nat
  kc_routed_scaling :: 'f
  kc_norm_topk :: bool
  kc_rms_eps :: 'f
  kc_vocab :: nat
  kc_eos :: "u32 list"
  kc_softmax_scale :: 'f
  kc_inv_freq :: "'f list"

record 'f kimi_layer =
  kl_input_ln :: u64
  kl_post_ln :: u64
  kl_q_a :: mat
  kl_q_a_ln :: u64
  kl_q_b :: mat
  kl_kv_a :: mat
  kl_kv_a_ln :: u64
  kl_kt :: u64
  kl_vw :: u64
  kl_o :: mat
  kl_router :: "mat option"
  kl_bias :: "'f list option"
  kl_shared :: "(mat \<times> mat \<times> mat) option"
  kl_dense :: "(mat \<times> mat \<times> mat) option"

record 'f kimi_core =
  kw_embed_host :: bytes
  kw_final_norm :: u64
  kw_lm_head :: mat
  kw_layers :: "'f kimi_layer list"

text \<open>
  The kernels of latent attention. \<open>k_mla_rope\<close> rotates \<open>heads\<close> slices of a strided buffer;
  \<open>k_gemv16\<close> multiplies with a bf16 matrix at an element offset of a buffer.
\<close>

record 'f mla_kernels = "'f kernels" +
  k_mla_rope :: "nat \<Rightarrow> nat \<Rightarrow> nat \<Rightarrow> nat \<Rightarrow> nat \<Rightarrow> 'f list \<Rightarrow> 'f list \<Rightarrow> 'f list"
  k_gemv16 :: "u64 \<Rightarrow> nat \<Rightarrow> nat \<Rightarrow> nat \<Rightarrow> 'f list \<Rightarrow> 'f list"
  k_mla_attn :: "nat \<Rightarrow> nat \<Rightarrow> nat \<Rightarrow> 'f \<Rightarrow> 'f list \<Rightarrow> 'f list list \<Rightarrow> 'f list"

record 'f kimi_decoder =
  kd_cfg :: "'f kimi_conf"
  kd_core :: "'f kimi_core"
  kd_gate_off :: nat
  kd_up_off :: nat
  kd_down_off :: nat
  kd_group :: nat
  kd_max_seq :: nat
  kd_batch_cap :: nat
  kd_chunk_cap :: nat
  kd_min_weight :: 'f
  kd_slots :: nat

record 'f kimi_state =
  ks_cache :: "nat \<Rightarrow> nat \<Rightarrow> nat \<Rightarrow> 'f list"
  ks_logits :: "'f list"
  ks_multi :: "'f list list"
  ks_calls :: "pcall list"

definition kgemv :: "'f mla_kernels \<Rightarrow> mat \<Rightarrow> 'f list \<Rightarrow> 'f list" where
  "kgemv K = mat_gemv (kernels.truncate K)"

definition knormed :: "'f mla_kernels \<Rightarrow> 'f kimi_decoder \<Rightarrow> u64 \<Rightarrow> 'f list \<Rightarrow> 'f list" where
  "knormed K D w h = k_rmsnorm K w (kc_rms_eps (kd_cfg D)) 1 h"

definition klayer :: "'f kimi_decoder \<Rightarrow> nat \<Rightarrow> 'f kimi_layer" where
  "klayer D l = kw_layers (kd_core D) ! l"

section \<open>The blocks of a layer\<close>

text \<open>The embedding row of a token, two bytes per element.\<close>

definition kimi_embed :: "('f, 'm) f32_math_scheme \<Rightarrow> 'f kimi_decoder \<Rightarrow> u32 \<Rightarrow> 'f list option" where
  "kimi_embed F D tok =
     (let n = kc_hidden (kd_cfg D) * 2; table = kw_embed_host (kd_core D) in
      if length table < (unat tok + 1) * n then None
      else Some (map (\<lambda>b. f_of_bits F (bf16_f32 b)) (chunks_exact 2 (take n (drop (unat tok * n) table)))))"

text \<open>\<open>slice x off n\<close> is the run a strided copy moves for one row.\<close>

definition slice :: "'a list \<Rightarrow> nat \<Rightarrow> nat \<Rightarrow> 'a list" where
  "slice x off n = take n (drop off x)"

definition mla_block ::
  "('f, 'm) f32_math_scheme \<Rightarrow> 'f mla_kernels \<Rightarrow> 'f kimi_decoder \<Rightarrow> nat \<Rightarrow> nat \<Rightarrow> (nat \<Rightarrow> 'f list) \<Rightarrow> 'f list
   \<Rightarrow> (nat \<Rightarrow> 'f list) \<times> 'f list" where
  "mla_block F K D l pos rows h =
     (let w = klayer D l; c = kd_cfg D; heads = kc_heads c; kvl = kc_kv_lora c; nope = kc_nope c; rope = kc_rope c;
          vh = kc_v_head c; qk = kvl + rope; q_dim = nope + rope;
          hn = knormed K D (kl_input_ln w) h;
          qa = knormed K D (kl_q_a_ln w) (kgemv K (kl_q_a w) hn);
          kva0 = kgemv K (kl_kv_a w) hn;
          ckv = knormed K D (kl_kv_a_ln w) (take kvl kva0);
          q = k_mla_rope K heads q_dim nope (rope div 2) pos (kc_inv_freq c) (kgemv K (kl_q_b w) qa);
          kva = k_mla_rope K 1 qk kvl (rope div 2) pos (kc_inv_freq c) kva0;
          rows' = rows(pos := slice ckv 0 kvl @ slice kva kvl rope);
          q_full = concat (map (\<lambda>hd. k_gemv16 K (kl_kt w) (hd * (kvl * nope)) kvl nope (slice q (hd * q_dim) nope)
                                      @ slice q (hd * q_dim + nope) rope) [0..<heads]);
          ctx = k_mla_attn K heads qk kvl (kc_softmax_scale c) q_full (map rows' [0..<pos + 1]);
          pre = concat (map (\<lambda>hd. k_gemv16 K (kl_vw w) (hd * (vh * kvl)) vh kvl (slice ctx (hd * kvl) kvl)) [0..<heads])
      in (rows', add_vec F h (kgemv K (kl_o w) pre)))"

text \<open>Gate, up and down matrices around \<open>silu_mul\<close>: the dense block and the shared expert.\<close>

definition gated :: "'f mla_kernels \<Rightarrow> mat \<times> mat \<times> mat \<Rightarrow> 'f list \<Rightarrow> 'f list" where
  "gated K = (\<lambda>(g, u, d) x. kgemv K d (k_silu_mul K (kgemv K g x) (kgemv K u x)))"

definition kimi_ffn :: "'f mla_kernels \<Rightarrow> 'f kimi_decoder \<Rightarrow> bytes \<Rightarrow> 'f list \<Rightarrow> 'f list" where
  "kimi_ffn K D blob x =
     (let inter = kc_moe_inter (kd_cfg D); hid = kc_hidden (kd_cfg D);
          gate = k_blob_gemv K blob (kd_gate_off D) inter hid (kd_group D) x;
          up = k_blob_gemv K blob (kd_up_off D) inter hid (kd_group D) x
      in k_blob_gemv K blob (kd_down_off D) hid inter (kd_group D) (k_silu_mul K gate up))"

definition kimi_route ::
  "('f, 'm) f32_math_scheme \<Rightarrow> 'f mla_kernels \<Rightarrow> 'f kimi_decoder \<Rightarrow> mat \<Rightarrow> 'f list \<Rightarrow> 'f list \<Rightarrow> (u16 \<times> 'f) list option" where
  "kimi_route F K D router bias x =
     (let c = kd_cfg D in
      sigmoid_topk F (kgemv K router x) bias (kc_top_k c) (kc_norm_topk c) (kc_routed_scaling c) (kd_min_weight D))"

definition pack_layer :: "'f kimi_decoder \<Rightarrow> nat \<Rightarrow> u16" where
  "pack_layer D l = of_nat (l - kc_dense_layers (kd_cfg D))"

definition kimi_logits :: "'f mla_kernels \<Rightarrow> 'f kimi_decoder \<Rightarrow> 'f list \<Rightarrow> 'f list" where
  "kimi_logits K D h = kgemv K (kw_lm_head (kd_core D)) (knormed K D (kw_final_norm (kd_core D)) h)"

section \<open>One token\<close>

text \<open>The waves of a single token: its picks in order, a slot count at a time.\<close>

fun pick_waves ::
  "('f, 'm) f32_math_scheme \<Rightarrow> (bytes \<Rightarrow> 'f list \<Rightarrow> 'f list) \<Rightarrow> 'e request_fn \<Rightarrow> u16 \<Rightarrow> 'f list \<Rightarrow> (u16 \<times> 'f) list list
   \<Rightarrow> pcall list \<Rightarrow> 'f list \<Rightarrow> ('e step_error, pcall list \<times> 'f list) res" where
  "pick_waves F ffn req l x [] calls h = Ok (calls, h)"
| "pick_waves F ffn req l x (wave # waves) calls h =
     (let ids = map fst wave in
      bind_res (lift_err (req calls l ids)) (\<lambda>handles.
        pick_waves F ffn req l x waves
          (calls @ [AskFor l ids, WaitFor l (map fst handles), GiveBack l (map fst handles)])
          (moe_reduce F h (map (\<lambda>hd. ffn (snd hd) x) handles) (map snd wave))))"

definition kimi_step_ffn ::
  "('f, 'm) f32_math_scheme \<Rightarrow> 'f mla_kernels \<Rightarrow> 'f kimi_decoder \<Rightarrow> 'e request_fn \<Rightarrow> nat \<Rightarrow> pcall list \<Rightarrow> 'f list
   \<Rightarrow> ('e step_error, pcall list \<times> 'f list) res" where
  "kimi_step_ffn F K D req l calls h =
     (let w = klayer D l; x = knormed K D (kl_post_ln w) h in
      case kl_dense w of
        Some dn \<Rightarrow> Ok (calls, add_vec F h (gated K dn x))
      | None \<Rightarrow>
          (case (kl_router w, kl_bias w, kl_shared w) of
             (Some router, Some bias, Some sh) \<Rightarrow>
               (case kimi_route F K D router bias x of
                  None \<Rightarrow> Panic
                | Some picks \<Rightarrow>
                    bind_res (pick_waves F (kimi_ffn K D) req (pack_layer D l) x (chunks (max (kd_slots D) 1) picks) calls h)
                      (\<lambda>(calls', h'). Ok (calls', add_vec F h' (gated K sh x))))
           | _ \<Rightarrow> Panic))"

fun kimi_step_layers ::
  "('f, 'm) f32_math_scheme \<Rightarrow> 'f mla_kernels \<Rightarrow> 'f kimi_decoder \<Rightarrow> 'e request_fn \<Rightarrow> nat \<Rightarrow> nat list \<Rightarrow> pcall list
   \<Rightarrow> (nat \<Rightarrow> nat \<Rightarrow> nat \<Rightarrow> 'f list) \<Rightarrow> 'f list
   \<Rightarrow> ('e step_error, pcall list \<times> (nat \<Rightarrow> nat \<Rightarrow> nat \<Rightarrow> 'f list) \<times> 'f list) res" where
  "kimi_step_layers F K D req pos [] calls C h = Ok (calls, C, h)"
| "kimi_step_layers F K D req pos (l # ls) calls C h =
     (let (rows, h1) = mla_block F K D l pos (C l 0) h in
      bind_res (kimi_step_ffn F K D req l calls h1) (\<lambda>(calls', h2).
        kimi_step_layers F K D req pos ls calls' (C(l := (C l)(0 := rows))) h2))"

definition kimi_step ::
  "('f, 'm) f32_math_scheme \<Rightarrow> 'f mla_kernels \<Rightarrow> 'f kimi_decoder \<Rightarrow> 'e request_fn \<Rightarrow> 'f kimi_state \<Rightarrow> u32 \<Rightarrow> nat \<Rightarrow> bool
   \<Rightarrow> ('e step_error, u32 \<times> 'f kimi_state) res" where
  "kimi_step F K D req st tok pos want =
     (if kd_max_seq D \<le> pos then Err (PosTooFar pos (kd_max_seq D))
      else case kimi_embed F D tok of
        None \<Rightarrow> Panic
      | Some h0 \<Rightarrow>
          bind_res (kimi_step_layers F K D req pos [0..<kc_layers (kd_cfg D)] (ks_calls st) (ks_cache st) h0)
            (\<lambda>(calls, C, h).
               if \<not> want then Ok (0, st\<lparr>ks_cache := C, ks_calls := calls\<rparr>)
               else let lg = kimi_logits K D h in
                 Ok (argmax F lg, st\<lparr>ks_cache := C, ks_logits := lg, ks_calls := calls @ [TickClock]\<rparr>)))"

section \<open>Many entries\<close>

text \<open>The shared expert is added before the routed ones here, after them in a single step.\<close>

definition kimi_multi_ffn ::
  "('f, 'm) f32_math_scheme \<Rightarrow> 'f mla_kernels \<Rightarrow> 'f kimi_decoder \<Rightarrow> 'e request_fn \<Rightarrow> nat \<Rightarrow> pcall list \<Rightarrow> 'f list list
   \<Rightarrow> ('e step_error, pcall list \<times> 'f list list) res" where
  "kimi_multi_ffn F K D req l calls hs =
     (let w = klayer D l; xs = map (knormed K D (kl_post_ln w)) hs in
      case kl_dense w of
        Some dn \<Rightarrow> Ok (calls, map2 (\<lambda>x h. add_vec F h (gated K dn x)) xs hs)
      | None \<Rightarrow>
          (case (kl_router w, kl_bias w, kl_shared w) of
             (Some router, Some bias, Some sh) \<Rightarrow>
               (let hs1 = map2 (\<lambda>x h. add_vec F h (gated K sh x)) xs hs in
                case those (map (kimi_route F K D router bias) xs) of
                  None \<Rightarrow> Panic
                | Some picks \<Rightarrow>
                    bind_res (wave_loop F (kimi_ffn K D) req (pack_layer D l) (chunks (max (kd_slots D) 1) (union_of picks))
                                calls (zip xs (zip picks hs1)))
                      (\<lambda>(calls', ts). Ok (calls', map (\<lambda>t. snd (snd t)) ts)))
           | _ \<Rightarrow> Panic))"

definition kimi_step_multi ::
  "('f, 'm) f32_math_scheme \<Rightarrow> 'f mla_kernels \<Rightarrow> 'f kimi_decoder \<Rightarrow> 'e request_fn \<Rightarrow> 'f kimi_state \<Rightarrow> (u32 \<times> nat \<times> nat) list
   \<Rightarrow> bool \<Rightarrow> ('e step_error, u32 list \<times> 'f kimi_state) res" where
  "kimi_step_multi F K D req st es want =
     (let n = length es in
      if n = 0 \<or> kd_chunk_cap D < n then Err (BadCount n (kd_chunk_cap D))
      else bind_res (guard_entries (kd_max_seq D) (kd_batch_cap D) es) (\<lambda>_.
        case those (map (\<lambda>e. kimi_embed F D (fst e)) es) of
          None \<Rightarrow> Panic
        | Some hs0 \<Rightarrow>
            bind_res (layer_sweep (mla_block F K D) (kimi_multi_ffn F K D req) es [0..<kc_layers (kd_cfg D)]
                        (ks_calls st) (ks_cache st) hs0)
              (\<lambda>(calls, C, hs).
                 let st' = st\<lparr>ks_cache := C, ks_calls := calls @ [TickClock]\<rparr> in
                 if \<not> want then Ok (replicate n 0, st')
                 else let lg = entry_logits (kimi_logits K D) es hs in
                   Ok (entry_tokens F lg,
                       st'\<lparr>ks_multi := map (opt_or []) lg, ks_logits := last (ks_logits st # List.map_filter id lg)\<rparr>))))"

definition kimi_step_chunk ::
  "('f, 'm) f32_math_scheme \<Rightarrow> 'f mla_kernels \<Rightarrow> 'f kimi_decoder \<Rightarrow> 'e request_fn \<Rightarrow> 'f kimi_state \<Rightarrow> u32 list \<Rightarrow> nat
   \<Rightarrow> bool \<Rightarrow> ('e step_error, u32 \<times> 'f kimi_state) res" where
  "kimi_step_chunk F K D req st toks start want =
     bind_res (kimi_step_multi F K D req st (map (\<lambda>(i, t). (t, start + i, 0)) (enumerate 0 toks)) want)
       (\<lambda>(out, st'). Ok (opt_or 0 (if out = [] then None else Some (last out)), st'))"

end
