(* ===== verification/Kimi_Props.thy ===== *)
theory Kimi_Props
  imports Kimi_Step Decode_Props
begin

text \<open>
  The Kimi decoder's steps against their reference: every entry alone through all layers, the shared
  expert first, then the whole set of its routed experts.
\<close>

section \<open>Reference\<close>

definition kimi_ffn_ref ::
  "('f, 'm) f32_math_scheme \<Rightarrow> 'f mla_kernels \<Rightarrow> 'f kimi_decoder \<Rightarrow> (u16 \<Rightarrow> u16 \<Rightarrow> bytes) \<Rightarrow> nat \<Rightarrow> 'f list \<Rightarrow> 'f list option" where
  "kimi_ffn_ref F K D blob l h =
     (let w = klayer D l; x = knormed K D (kl_post_ln w) h in
      case kl_dense w of
        Some dn \<Rightarrow> Some (add_vec F h (gated K dn x))
      | None \<Rightarrow>
          (case (kl_router w, kl_bias w, kl_shared w) of
             (Some router, Some bias, Some sh) \<Rightarrow>
               map_option (\<lambda>ps. let h1 = add_vec F h (gated K sh x) in
                   if ps = [] then h1 else reduce_picks F (\<lambda>i. kimi_ffn K D (blob (pack_layer D l) i) x) ps h1)
                 (kimi_route F K D router bias x)
           | _ \<Rightarrow> None))"

definition kimi_harmless :: "('f, 'm) f32_math_scheme \<Rightarrow> 'f kimi_decoder \<Rightarrow> nat \<Rightarrow> bool" where
  "kimi_harmless F D n \<longleftrightarrow> exact_add F \<or> n * kc_top_k (kd_cfg D) \<le> kd_slots D"

definition kimi_in_range :: "'f kimi_decoder \<Rightarrow> (u32 \<times> nat \<times> nat) list \<Rightarrow> bool" where
  "kimi_in_range D es \<longleftrightarrow> es \<noteq> [] \<and> length es \<le> kd_chunk_cap D \<and>
     list_all (\<lambda>(t, pos, seq). pos < kd_max_seq D \<and> seq < kd_batch_cap D) es"

definition kimi_reference ::
  "('f, 'm) f32_math_scheme \<Rightarrow> 'f mla_kernels \<Rightarrow> 'f kimi_decoder \<Rightarrow> (u16 \<Rightarrow> u16 \<Rightarrow> bytes) \<Rightarrow> (nat \<Rightarrow> nat \<Rightarrow> nat \<Rightarrow> 'f list)
   \<Rightarrow> (u32 \<times> nat \<times> nat) list \<Rightarrow> ((nat \<Rightarrow> nat \<Rightarrow> nat \<Rightarrow> 'f list) \<times> 'f list list) option" where
  "kimi_reference F K D blob C es =
     Option.bind (those (map (\<lambda>e. kimi_embed F D (fst e)) es)) (\<lambda>hs.
       token_major (mla_block F K D) (kimi_ffn_ref F K D blob) es [0..<kc_layers (kd_cfg D)] C hs)"

section \<open>The feed-forward phase\<close>

lemma kimi_route_length: "kimi_route F K D router bias x = Some ps \<Longrightarrow> length ps \<le> kc_top_k (kd_cfg D)"
  by (auto simp: kimi_route_def sigmoid_topk_def Let_def split: if_splits intro: le_trans [OF length_filter_le])

lemma no_picks: "foldl (wave_pure F out []) h waves = h"
  by (induction waves) (simp_all add: wave_pure_def)

lemma kimi_waves:
  assumes h: "kimi_harmless F D n" and n: "length xs = n"
    and picks: "those (map (kimi_route F K D router bias) xs) = Some picks" and ps: "ps \<in> set picks"
  shows "foldl (wave_pure F out ps) h (chunks (max (kd_slots D) 1) (union_of picks)) =
     (if ps = [] then h else reduce_picks F out ps h)"
proof (cases "ps = [] \<or> exact_add F")
  case True
  then show ?thesis using ps exact_waves [of F "max (kd_slots D) 1" ps picks out h] by (auto simp: no_picks)
next
  case False
  have le: "length q \<le> kc_top_k (kd_cfg D)" if "q \<in> set picks" for q
    using those_mem [OF picks that] kimi_route_length by blast
  have "length picks = n" using length_those [OF picks] n by simp
  then have "sum_list (map length picks) \<le> n * kc_top_k (kd_cfg D)" using sum_list_le [of picks length] le by blast
  then have fit: "length (union_of picks) \<le> max (kd_slots D) 1"
    using length_union [of picks] h False unfolding kimi_harmless_def by linarith
  show ?thesis using one_wave [OF fit ps, of F out h] False by simp
qed

text \<open>The waves over a batch, when each hidden vector's share of them is known.\<close>

lemma wave_phase:
  assumes s: "serves req n blob" and n: "0 < n" and len: "length picks = length xs" "length hs = length xs"
    and w: "\<And>x ps h. ps \<in> set picks \<Longrightarrow> foldl (wave_pure F (\<lambda>i. ffn (blob l i) x) ps) h (chunks n (union_of picks)) = R x ps h"
  shows "map_option (\<lambda>(c, ts). map (\<lambda>t. snd (snd t)) ts)
     (ok_of (wave_loop F ffn req l (chunks n (union_of picks)) calls (zip xs (zip picks hs)))) =
     Some (map (\<lambda>i. R (xs ! i) (picks ! i) (hs ! i)) [0..<length xs])"
proof -
  let ?ws = "chunks n (union_of picks)"
  let ?out = "\<lambda>t. foldl (wave_pure F (\<lambda>i. ffn (blob l i) (fst t)) (fst (snd t))) (snd (snd t)) ?ws"
  obtain calls' where wl: "wave_loop F ffn req l ?ws calls (zip xs (zip picks hs)) =
      Ok (calls', map (\<lambda>t. (fst t, fst (snd t), ?out t)) (zip xs (zip picks hs)))"
    using wave_loop_pure [OF s, of ?ws F ffn l calls "zip xs (zip picks hs)"] chunks_bounds by blast
  have "map ?out (zip xs (zip picks hs)) = map (\<lambda>i. R (xs ! i) (picks ! i) (hs ! i)) [0..<length xs]"
  proof (rule nth_equalityI)
    fix i assume "i < length (map ?out (zip xs (zip picks hs)))"
    then have i: "i < length xs" using len by simp
    then have m: "picks ! i \<in> set picks" using len by simp
    show "map ?out (zip xs (zip picks hs)) ! i = map (\<lambda>i. R (xs ! i) (picks ! i) (hs ! i)) [0..<length xs] ! i"
      using i len by (simp add: w [OF m])
  qed (simp add: len)
  then show ?thesis using wl by (simp add: comp_def)
qed

lemma zip_map: "map2 g (map f ks) ks = map (\<lambda>h. g (f h) h) ks"
  by (induction ks) simp_all

lemma kimi_multi_ref:
  assumes s: "serves req (max (kd_slots D) 1) blob" and h: "kimi_harmless F D n" and n: "length hs = n" "hs \<noteq> []"
  shows "map_option snd (ok_of (kimi_multi_ffn F K D req l calls hs)) = those (map (kimi_ffn_ref F K D blob l) hs)"
proof -
  define w where "w = klayer D l"
  let ?x = "knormed K D (kl_post_ln w)"
  consider (dense) dn where "kl_dense w = Some dn"
    | (moe) router bias sh where "kl_dense w = None" "kl_router w = Some router" "kl_bias w = Some bias" "kl_shared w = Some sh"
    | (broken) "kl_dense w = None" "kl_router w = None \<or> kl_bias w = None \<or> kl_shared w = None"
    by (cases "kl_dense w"; cases "kl_router w"; cases "kl_bias w"; cases "kl_shared w") auto
  then show ?thesis
  proof cases
    case dense
    have "those (map (kimi_ffn_ref F K D blob l) hs) = Some (map (\<lambda>h. add_vec F h (gated K dn (?x h))) hs)"
      by (rule those_map_Some) (simp add: kimi_ffn_ref_def w_def [symmetric] dense)
    then show ?thesis by (simp add: kimi_multi_ffn_def w_def [symmetric] dense zip_map Let_def)
  next
    case moe
    let ?rt = "kimi_route F K D router bias"
    let ?R = "\<lambda>x ps h. if ps = [] then h else reduce_picks F (\<lambda>i. kimi_ffn K D (blob (pack_layer D l) i) x) ps h"
    let ?sh = "\<lambda>h. add_vec F h (gated K sh (?x h))"
    have one: "kimi_ffn_ref F K D blob l h = map_option (\<lambda>ps. ?R (?x h) ps (?sh h)) (?rt (?x h))" for h
      by (simp add: kimi_ffn_ref_def w_def [symmetric] moe Let_def)
    have ref: "those (map (kimi_ffn_ref F K D blob l) ks) =
        map_option (\<lambda>picks. map2 (\<lambda>h ps. ?R (?x h) ps (?sh h)) ks picks) (those (map ?rt (map ?x ks)))" for ks
    proof (induction ks)
      case (Cons k ks)
      then show ?case by (cases "?rt (?x k)"; cases "those (map ?rt (map ?x ks))") (simp_all add: one)
    qed simp
    show ?thesis
    proof (cases "those (map ?rt (map ?x hs))")
      case None
      then show ?thesis unfolding ref by (simp add: kimi_multi_ffn_def w_def [symmetric] moe Let_def)
    next
      case (Some picks)
      have len: "length picks = length hs" using length_those [OF Some] by simp
      have ph: "map_option (\<lambda>(c, ts). map (\<lambda>t. snd (snd t)) ts)
          (ok_of (wave_loop F (kimi_ffn K D) req (pack_layer D l) (chunks (max (kd_slots D) 1) (union_of picks)) calls
            (zip (map ?x hs) (zip picks (map ?sh hs))))) =
          Some (map (\<lambda>i. ?R (map ?x hs ! i) (picks ! i) (map ?sh hs ! i)) [0..<length (map ?x hs)])"
        by (rule wave_phase [OF s]) (use len kimi_waves [OF h _ Some] n in simp_all)
      have "map (\<lambda>i. ?R (map ?x hs ! i) (picks ! i) (map ?sh hs ! i)) [0..<length (map ?x hs)] = map2 (\<lambda>h ps. ?R (?x h) ps (?sh h)) hs picks"
        by (rule nth_equalityI) (simp_all add: len)
      with ph obtain calls' ts where q:
        "wave_loop F (kimi_ffn K D) req (pack_layer D l) (chunks (max (kd_slots D) 1) (union_of picks)) calls
            (zip (map ?x hs) (zip picks (map ?sh hs))) = Ok (calls', ts)"
        "map (\<lambda>t. snd (snd t)) ts = map2 (\<lambda>h ps. ?R (?x h) ps (?sh h)) hs picks"
        by (auto simp: map_option_eq_Some case_prod_unfold)
      have "kimi_multi_ffn F K D req l calls hs = Ok (calls', map (\<lambda>t. snd (snd t)) ts)"
        by (simp only: kimi_multi_ffn_def w_def [symmetric] moe Let_def option.case prod.case zip_map Some q bind_res.simps)
      then show ?thesis unfolding ref Some by (simp only: q ok_of.simps option.map snd_conv)
    qed
  next
    case broken
    have "kimi_ffn_ref F K D blob l = (\<lambda>h. None)"
      using broken by (auto simp: kimi_ffn_ref_def w_def [symmetric] Let_def fun_eq_iff split: option.splits)
    then show ?thesis
      using broken n(2) by (cases hs) (auto simp: kimi_multi_ffn_def w_def [symmetric] Let_def split: option.splits)
  qed
qed


section \<open>The steps\<close>

lemma kimi_step_multi_ref:
  fixes F :: "('f, 'm) f32_math_scheme"
  assumes s: "serves req (max (kd_slots D) 1) blob" and h: "kimi_harmless F D (length es)" and r: "kimi_in_range D es"
  shows "map_option (\<lambda>(out, st'). (out, ks_cache st')) (ok_of (kimi_step_multi F K D req st es want)) =
     map_option (\<lambda>(C, hs). (outputs F (kimi_logits K D) want es hs, C)) (kimi_reference F K D blob (ks_cache st) es)"
proof (cases "those (map (\<lambda>e. kimi_embed F D (fst e)) es)")
  case None
  then show ?thesis using r by (simp add: kimi_step_multi_def kimi_reference_def kimi_in_range_def guard_ok Let_def)
next
  case (Some hs0)
  let ?sw = "layer_sweep (mla_block F K D) (kimi_multi_ffn F K D req) es [0..<kc_layers (kd_cfg D)] (ks_calls st) (ks_cache st) hs0"
  have "map_option snd (ok_of ?sw) =
      token_major (mla_block F K D) (kimi_ffn_ref F K D blob) es [0..<kc_layers (kd_cfg D)] (ks_cache st) hs0"
  proof (rule layer_sweep_tokenwise)
    fix l calls and hs :: "'f list list" assume n: "length hs = length es"
    then have "hs \<noteq> []" using r by (auto simp: kimi_in_range_def)
    then show "map_option snd (ok_of (kimi_multi_ffn F K D req l calls hs)) = those (map (kimi_ffn_ref F K D blob l) hs)"
      by (rule kimi_multi_ref [OF s h n])
  next
    show "length hs0 = length es" using length_those [OF Some] by simp
  qed simp_all
  moreover have "map_option (\<lambda>(out, st'). (out, ks_cache st')) (ok_of (kimi_step_multi F K D req st es want)) =
      map_option (\<lambda>(C, hs). (outputs F (kimi_logits K D) want es hs, C)) (map_option snd (ok_of ?sw))"
    using r Some by (cases ?sw) (auto simp: kimi_step_multi_def kimi_in_range_def outputs_def Let_def guard_ok)
  ultimately show ?thesis by (simp add: kimi_reference_def Some)
qed

lemma pick_waves_exact:
  assumes s: "serves req n blob" and F: "exact_add F" and w: "\<And>w. w \<in> set waves \<Longrightarrow> length w \<le> n"
  shows "map_option snd (ok_of (pick_waves F ffn req l x waves calls h)) =
     Some (reduce_picks F (\<lambda>i. ffn (blob l i) x) (concat waves) h)"
  using w
proof (induction waves arbitrary: calls h)
  case Nil
  have "m_add F a (f_zero F) = a" for a using F unfolding exact_add_def by metis
  then show ?case by (simp add: reduce_picks_sum picks_sum_def map_nth)
next
  case (Cons wave waves)
  have r: "req calls l (map fst wave) = Ok (map (\<lambda>i. (i, blob l i)) (map fst wave))"
    using s Cons.prems by (simp add: serves_def)
  have as: "m_add F (m_add F a b) c = m_add F a (m_add F b c)" and z: "m_add F (f_zero F) a = a" for a b c
    using F unfolding exact_add_def by blast+
  have app: "picks_sum F out i (ps @ qs) = m_add F (picks_sum F out i ps) (picks_sum F out i qs)" for out i ps qs
  proof (induction ps)
    case Nil
    show ?case by (simp add: picks_sum_def z)
  qed (simp add: picks_sum_Cons [OF F] as)
  let ?out = "\<lambda>i. ffn (blob l i) x"
  let ?calls = "calls @ [AskFor l (map fst wave), WaitFor l (map fst wave), GiveBack l (map fst wave)]"
  have eq: "pick_waves F ffn req l x (wave # waves) calls h = pick_waves F ffn req l x waves ?calls (reduce_picks F ?out wave h)"
    by (simp add: r Let_def comp_def reduce_picks_def)
  have ih: "map_option snd (ok_of (pick_waves F ffn req l x waves ?calls (reduce_picks F ?out wave h))) =
      Some (reduce_picks F ?out (concat waves) (reduce_picks F ?out wave h))"
    by (rule Cons.IH) (use Cons.prems in simp)
  have "reduce_picks F ?out (concat waves) (reduce_picks F ?out wave h) = reduce_picks F ?out (concat (wave # waves)) h"
    by (simp add: reduce_picks_sum app as)
  with ih show ?case unfolding eq by (simp only:)
qed

lemma shared_last:
  assumes F: "exact_add F"
  shows "add_vec F (reduce_picks F out ps h) s = reduce_picks F out ps (add_vec F h s)"
proof (rule nth_equalityI)
  fix i assume "i < length (add_vec F (reduce_picks F out ps h) s)"
  moreover have "m_add F (m_add F a b) c = m_add F (m_add F a c) b" for a b c
    using F unfolding exact_add_def by metis
  ultimately show "add_vec F (reduce_picks F out ps h) s ! i = reduce_picks F out ps (add_vec F h s) ! i"
    by (simp add: add_vec_def reduce_picks_sum)
qed (simp add: add_vec_def reduce_picks_sum)

lemma kimi_step_ffn_ref:
  assumes s: "serves req (max (kd_slots D) 1) blob" and F: "exact_add F"
  shows "map_option snd (ok_of (kimi_step_ffn F K D req l calls h)) = kimi_ffn_ref F K D blob l h"
proof -
  define w where "w = klayer D l"
  let ?x = "knormed K D (kl_post_ln w) h"
  have nil: "reduce_picks F out [] h = h" for out h
  proof -
    have "m_add F a (f_zero F) = a" for a using F unfolding exact_add_def by metis
    then show ?thesis by (simp add: reduce_picks_sum picks_sum_def map_nth)
  qed
  have waves: "map_option snd (ok_of (pick_waves F (kimi_ffn K D) req (pack_layer D l) ?x (chunks (max (kd_slots D) 1) picks) calls h)) =
      Some (reduce_picks F (\<lambda>i. kimi_ffn K D (blob (pack_layer D l) i) ?x) picks h)" for picks
  proof -
    have "length v \<le> max (kd_slots D) 1" if "v \<in> set (chunks (max (kd_slots D) 1) picks)" for v
      using chunks_bounds [OF that] by simp
    moreover have "concat (chunks (max (kd_slots D) 1) picks) = picks" by (rule concat_chunks) simp
    ultimately show ?thesis
      using pick_waves_exact [OF s F, of "chunks (max (kd_slots D) 1) picks" "kimi_ffn K D" "pack_layer D l" ?x calls h] by simp
  qed
  show ?thesis
  proof (cases "kl_dense w")
    case (Some dn)
    then show ?thesis by (simp add: kimi_step_ffn_def kimi_ffn_ref_def w_def [symmetric] Let_def)
  next
    case None
    show ?thesis
    proof (cases "\<exists>router bias sh picks. kl_router w = Some router \<and> kl_bias w = Some bias \<and> kl_shared w = Some sh \<and>
        kimi_route F K D router bias ?x = Some picks")
      case True
      then obtain router bias sh picks where *: "kl_router w = Some router" "kl_bias w = Some bias" "kl_shared w = Some sh"
        "kimi_route F K D router bias ?x = Some picks" by blast
      then show ?thesis
        using None waves [of picks]
        by (cases "pick_waves F (kimi_ffn K D) req (pack_layer D l) ?x (chunks (max (kd_slots D) 1) picks) calls h")
          (auto simp: kimi_step_ffn_def kimi_ffn_ref_def w_def [symmetric] Let_def shared_last [OF F] nil)
    next
      case False
      then show ?thesis using None
        by (auto simp: kimi_step_ffn_def kimi_ffn_ref_def w_def [symmetric] Let_def split: option.splits)
    qed
  qed
qed

lemma kimi_step_layers_ref:
  assumes s: "serves req (max (kd_slots D) 1) blob" and F: "exact_add F"
  shows "map_option snd (ok_of (kimi_step_layers F K D req pos ls calls C h)) =
     token_layers (mla_block F K D) (kimi_ffn_ref F K D blob) (tok, pos, 0) ls C h"
proof (induction ls arbitrary: calls C h)
  case (Cons l ls)
  obtain rows h1 where a: "mla_block F K D l pos (C l 0) h = (rows, h1)" by fastforce
  have f: "map_option snd (ok_of (kimi_step_ffn F K D req l calls h1)) = kimi_ffn_ref F K D blob l h1"
    by (rule kimi_step_ffn_ref [OF s F])
  show ?case
  proof (cases "ok_of (kimi_step_ffn F K D req l calls h1)")
    case None
    then show ?thesis using a f by simp
  next
    case (Some q)
    then have g: "kimi_ffn_ref F K D blob l h1 = Some (snd q)" using f by simp
    have "map_option snd (ok_of (kimi_step_layers F K D req pos ls (fst q) (C(l := (C l)(0 := rows))) (snd q))) =
        token_layers (mla_block F K D) (kimi_ffn_ref F K D blob) (tok, pos, 0) ls (C(l := (C l)(0 := rows))) (snd q)"
      by (rule Cons.IH)
    then show ?thesis using a Some g by (simp del: fun_upd_apply add: case_prod_unfold)
  qed
qed simp

lemma kimi_step_ref:
  assumes s: "serves req (max (kd_slots D) 1) blob" and F: "exact_add F" and pos: "pos < kd_max_seq D"
  shows "map_option (\<lambda>(out, st'). (out, ks_cache st')) (ok_of (kimi_step F K D req st tok pos want)) =
     Option.bind (kimi_embed F D tok) (\<lambda>h. map_option (\<lambda>(C, h). (if want then argmax F (kimi_logits K D h) else 0, C))
       (token_layers (mla_block F K D) (kimi_ffn_ref F K D blob) (tok, pos, 0) [0..<kc_layers (kd_cfg D)] (ks_cache st) h))"
proof (cases "kimi_embed F D tok")
  case None
  then show ?thesis using pos by (simp add: kimi_step_def)
next
  case (Some h0)
  let ?r = "kimi_step_layers F K D req pos [0..<kc_layers (kd_cfg D)] (ks_calls st) (ks_cache st) h0"
  have "map_option (\<lambda>(out, st'). (out, ks_cache st')) (ok_of (kimi_step F K D req st tok pos want)) =
      map_option (\<lambda>(C, h). (if want then argmax F (kimi_logits K D h) else 0, C)) (map_option snd (ok_of ?r))"
    using pos Some by (cases ?r) (auto simp: kimi_step_def Let_def)
  then show ?thesis unfolding kimi_step_layers_ref [OF s F, where tok = tok] Some by simp
qed

section \<open>Properties\<close>


text \<open>Kimi's chunked prefill is token-by-token prefill when addition does not round: \<open>step\<close> cuts a
  token's picks into waves in pick order and adds the shared expert last, \<open>step_chunk\<close> cuts the sorted
  union into waves and adds the shared expert first, and both return the same token and leave the same
  cache, with any number of slots.\<close>

theorem kimi_chunk_matches_steps:
  assumes s: "serves req (max (kd_slots D) 1) blob" and F: "exact_add F"
    and toks: "toks \<noteq> []" "length toks \<le> kd_chunk_cap D" "start + length toks \<le> kd_max_seq D" "0 < kd_batch_cap D"
  shows "map_option (\<lambda>(out, st'). (out, ks_cache st')) (ok_of (kimi_step_chunk F K D req st toks start True)) =
     map_option (\<lambda>(out, st'). (out, ks_cache st')) (ok_of (feed_prompt (kimi_step F K D req) st toks start))"
proof -
  let ?es = "prompt_entries start toks"
  have ne: "?es \<noteq> []" using toks(1) by (cases toks) simp_all
  then have r: "kimi_in_range D ?es" using toks by (auto simp: kimi_in_range_def list_all_iff prompt_entries_def in_set_enumerate_eq)
  have m: "map_option (\<lambda>(out, st'). (out, ks_cache st')) (ok_of (kimi_step_multi F K D req st ?es True)) =
     map_option (\<lambda>(C, hs). (outputs F (kimi_logits K D) True ?es hs, C)) (kimi_reference F K D blob (ks_cache st) ?es)"
    by (rule kimi_step_multi_ref [OF s _ r]) (use F in \<open>simp add: kimi_harmless_def\<close>)
  have out: "outputs F (kimi_logits K D) True ?es hs \<noteq> []"
    "last (outputs F (kimi_logits K D) True ?es hs) = argmax F (kimi_logits K D (last hs))"
    if ref: "kimi_reference F K D blob (ks_cache st) ?es = Some (C, hs)" for C hs
  proof -
    from ref obtain hs0 where "those (map (\<lambda>e. kimi_embed F D (fst e)) ?es) = Some hs0"
      "token_major (mla_block F K D) (kimi_ffn_ref F K D blob) ?es [0..<kc_layers (kd_cfg D)] (ks_cache st) hs0 = Some (C, hs)"
      unfolding kimi_reference_def by (auto simp: bind_eq_Some_conv)
    then have "length hs = length ?es" using token_major_length length_those by fastforce
    from last_outputs [OF ne this] show "outputs F (kimi_logits K D) True ?es hs \<noteq> []"
      "last (outputs F (kimi_logits K D) True ?es hs) = argmax F (kimi_logits K D (last hs))" .
  qed
  have "map_option (\<lambda>(out, st'). (out, ks_cache st')) (ok_of (kimi_step_chunk F K D req st toks start True)) =
      map_option (\<lambda>(out, C). (opt_or 0 (if out = [] then None else Some (last out)), C))
        (map_option (\<lambda>(out, st'). (out, ks_cache st')) (ok_of (kimi_step_multi F K D req st ?es True)))"
    by (cases "kimi_step_multi F K D req st ?es True") (auto simp: kimi_step_chunk_def prompt_entries_shift)
  also have "\<dots> = map_option (\<lambda>(C, hs). (argmax F (kimi_logits K D (last hs)), C)) (kimi_reference F K D blob (ks_cache st) ?es)"
    unfolding m using out by (cases "kimi_reference F K D blob (ks_cache st) ?es") auto
  also have "\<dots> = map_option (\<lambda>(out, st'). (out, ks_cache st')) (ok_of (feed_prompt (kimi_step F K D req) st toks start))"
    unfolding kimi_reference_def map_prompt_entries
    by (subst feed_prompt_tokenwise [OF kimi_step_ref [OF s F] toks(1,3)])
      (auto simp: map_option_bind comp_def)
  finally show ?thesis .
qed

section \<open>A small Kimi decoder\<close>

text \<open>A dense layer, then a mixture layer with two experts picked out of two, and one slot.\<close>

definition mini_mla :: "int mla_kernels" where
  "mini_mla = kernels.extend mini_kernels \<lparr>k_mla_rope = \<lambda>_ _ _ _ p _ x. map ((+) (int p)) x,
     k_gemv16 = \<lambda>_ off rows _ x. take rows (x @ [int off, 1]), k_mla_attn = \<lambda>_ _ _ _ q rows. map2 (+) q (last rows)\<rparr>"

definition mini_kimi :: "int kimi_decoder" where
  "mini_kimi = \<lparr>kd_cfg = \<lparr>kc_hidden = 2, kc_layers = 2, kc_dense_layers = 1, kc_heads = 1, kc_q_lora = 2, kc_kv_lora = 1,
       kc_nope = 1, kc_rope = 1, kc_v_head = 2, kc_moe_inter = 2, kc_dense_inter = 2, kc_experts = 2, kc_top_k = 2,
       kc_routed_scaling = 1, kc_norm_topk = False, kc_rms_eps = 0, kc_vocab = 8, kc_eos = [], kc_softmax_scale = 1, kc_inv_freq = []\<rparr>,
     kd_core = \<lparr>kw_embed_host = map of_nat [0..<32], kw_final_norm = 0, kw_lm_head = mini_mat, kw_layers = map (\<lambda>l.
       \<lparr>kl_input_ln = 0, kl_post_ln = 0, kl_q_a = mini_mat, kl_q_a_ln = 0, kl_q_b = mini_mat, kl_kv_a = mini_mat, kl_kv_a_ln = 0,
        kl_kt = 0, kl_vw = 0, kl_o = mini_mat, kl_router = (if l = 0 then None else Some mini_mat),
        kl_bias = (if l = 0 then None else Some [0, 1]), kl_shared = (if l = 0 then None else Some (mini_mat, mini_mat, mini_mat)),
        kl_dense = (if l = 0 then Some (mini_mat, mini_mat, mini_mat) else None)\<rparr>) [0..<2]\<rparr>,
     kd_gate_off = 1, kd_up_off = 2, kd_down_off = 3, kd_group = 32, kd_max_seq = 8, kd_batch_cap = 2, kd_chunk_cap = 4,
     kd_min_weight = 0, kd_slots = 1\<rparr>"

definition mini_kstate :: "int kimi_state" where
  "mini_kstate = \<lparr>ks_cache = \<lambda>_ _ _. [], ks_logits = [], ks_multi = [], ks_calls = []\<rparr>"

lemma mini_kimi_run:
  "map_option fst (ok_of (kimi_step_multi int_math mini_mla mini_kimi (mini_request 1) mini_kstate mini_entries True)) = Some [0, 1]"
  by code_simp


lemma kimi_chunk_matches_steps_witness:
  "map_option (\<lambda>(out, st'). (out, ks_cache st'))
     (ok_of (kimi_step_chunk int_math mini_mla mini_kimi (mini_request 1) mini_kstate [5, 7] 0 True)) =
   map_option (\<lambda>(out, st'). (out, ks_cache st'))
     (ok_of (feed_prompt (kimi_step int_math mini_mla mini_kimi (mini_request 1)) mini_kstate [5, 7] 0))"
proof -
  have s: "serves (mini_request 1) (max (kd_slots mini_kimi) 1) mini_blob"
    using mini_serves [of 1] by (simp add: mini_kimi_def)
  have n: "[5, 7 :: u32] \<noteq> []" "length [5, 7 :: u32] \<le> kd_chunk_cap mini_kimi" "0 + length [5, 7 :: u32] \<le> kd_max_seq mini_kimi"
    "0 < kd_batch_cap mini_kimi"
    by (simp_all add: mini_kimi_def)
  show ?thesis by (rule kimi_chunk_matches_steps [OF s exact_int n])
qed

end
