(* ===== verification/Release_Ring.thy ===== *)
theory Release_Ring
  imports Prelude "HOL-Library.Sublist"
begin

text \<open>
  The deferred release of expert handles: \<open>defer_release\<close> and \<open>flush_pending_release\<close> of
  \<open>llmpager-run/src/decode.rs\<close> (\<open>kimi.rs\<close> has the same \<open>defer_release\<close>), over the event calls of
  \<open>llmpager-cuda/src/driver.rs\<close>. A handle pins a cache slot that kernels already enqueued may still
  read, so it may go back only when the stream has passed them. The GPU is not modelled: \<open>rc n\<close> is the
  CUDA result code of the \<open>n\<close>-th driver call, and the state keeps what CUDA documents the host to
  know: a successful query or synchronisation of an event means that all work enqueued before its
  most recent record is complete.
\<close>

section \<open>Events\<close>

text \<open>Kernels launched so far, launches captured by each event's last record, launches known complete.\<close>

record stream_view =
  v_launched :: nat
  v_captured :: "nat \<Rightarrow> nat"
  v_confirmed :: nat

text \<open>\<open>rg_log\<close> lists the calls of \<open>Pager::release\<close>, each with what was known complete at that point.\<close>

record 'h ring =
  rg_pending :: "(nat \<times> 'h list) list"
  rg_next :: nat
  rg_events :: nat
  rg_view :: stream_view
  rg_log :: "('h \<times> nat) list"
  rg_calls :: nat

type_synonym ('a, 'h) ring_op = "'h ring \<Rightarrow> (nat, 'a) res \<times> 'h ring"

definition cu_result :: "nat \<Rightarrow> (nat, unit) res" where
  "cu_result code = (if code = 0 then Ok () else Err code)"

definition not_ready :: nat where
  "not_ready = 600"

definition see_event :: "nat \<Rightarrow> stream_view \<Rightarrow> stream_view" where
  "see_event e v = v\<lparr>v_confirmed := max (v_confirmed v) (v_captured v e)\<rparr>"

definition event_done :: "(nat \<Rightarrow> nat) \<Rightarrow> nat \<Rightarrow> (bool, 'h) ring_op" where
  "event_done rc e s =
     (let code = rc (rg_calls s); s' = s\<lparr>rg_calls := rg_calls s + 1\<rparr> in
      if code = 0 then (Ok True, s'\<lparr>rg_view := see_event e (rg_view s)\<rparr>)
      else if code = not_ready then (Ok False, s') else (Err code, s'))"

definition sync_event :: "(nat \<Rightarrow> nat) \<Rightarrow> nat \<Rightarrow> (unit, 'h) ring_op" where
  "sync_event rc e s =
     (let code = rc (rg_calls s); s' = s\<lparr>rg_calls := rg_calls s + 1\<rparr> in
      (cu_result code, if code = 0 then s'\<lparr>rg_view := see_event e (rg_view s)\<rparr> else s'))"

definition record_event :: "(nat \<Rightarrow> nat) \<Rightarrow> nat \<Rightarrow> (unit, 'h) ring_op" where
  "record_event rc e s =
     (let code = rc (rg_calls s); s' = s\<lparr>rg_calls := rg_calls s + 1\<rparr>; v = rg_view s in
      (cu_result code,
       if code = 0 then s'\<lparr>rg_view := v\<lparr>v_captured := (v_captured v)(e := v_launched v)\<rparr>\<rparr> else s'))"

section \<open>The ring\<close>

definition release_all :: "'h list \<Rightarrow> 'h ring \<Rightarrow> 'h ring" where
  "release_all hs s = s\<lparr>rg_log := rg_log s @ map (\<lambda>h. (h, v_confirmed (rg_view s))) hs\<rparr>"

text \<open>The loop that releases every group already complete, from the front; its argument is the queue.\<close>

fun drain_done :: "(nat \<Rightarrow> nat) \<Rightarrow> (nat \<times> 'h list) list \<Rightarrow> (unit, 'h) ring_op" where
  "drain_done rc [] s = (Ok (), s\<lparr>rg_pending := []\<rparr>)"
| "drain_done rc ((e, hs) # ps) s =
     and_then (event_done rc e (s\<lparr>rg_pending := (e, hs) # ps\<rparr>)) (\<lambda>ready s'.
       if ready then drain_done rc ps (release_all hs s') else (Ok (), s'))"

text \<open>A full ring waits for its oldest group, which has left the queue by then.\<close>

definition make_room :: "(nat \<Rightarrow> nat) \<Rightarrow> (unit, 'h) ring_op" where
  "make_room rc s =
     (if length (rg_pending s) = rg_events s then
        (case rg_pending s of
           [] \<Rightarrow> (Panic, s)
         | (e, hs) # ps \<Rightarrow> and_then (sync_event rc e (s\<lparr>rg_pending := ps\<rparr>)) (\<lambda>_ s'. (Ok (), release_all hs s')))
      else (Ok (), s))"

definition defer_release :: "(nat \<Rightarrow> nat) \<Rightarrow> 'h list \<Rightarrow> (unit, 'h) ring_op" where
  "defer_release rc handles s =
     and_then (drain_done rc (rg_pending s) s) (\<lambda>_ s1.
     and_then (make_room rc s1) (\<lambda>_ s2.
       let ev = rg_next s2 in
       and_then (record_event rc ev (s2\<lparr>rg_next := (rg_next s2 + 1) mod rg_events s2\<rparr>)) (\<lambda>_ s3.
         (Ok (), s3\<lparr>rg_pending := rg_pending s3 @ [(ev, handles)]\<rparr>))))"

fun flush_from :: "(nat \<Rightarrow> nat) \<Rightarrow> (nat \<times> 'h list) list \<Rightarrow> (unit, 'h) ring_op" where
  "flush_from rc [] s = (Ok (), s\<lparr>rg_pending := []\<rparr>)"
| "flush_from rc ((e, hs) # ps) s =
     and_then (sync_event rc e (s\<lparr>rg_pending := (e, hs) # ps\<rparr>)) (\<lambda>_ s'. flush_from rc ps (release_all hs s'))"

definition flush_pending_release :: "(nat \<Rightarrow> nat) \<Rightarrow> (unit, 'h) ring_op" where
  "flush_pending_release rc s = flush_from rc (rg_pending s) s"

text \<open>The decoder's ring as \<open>new\<close> makes it: eight events.\<close>

definition ring_new :: "'h ring" where
  "ring_new = \<lparr>rg_pending = [], rg_next = 0, rg_events = 8,
     rg_view = \<lparr>v_launched = 0, v_captured = \<lambda>_. 0, v_confirmed = 0\<rparr>, rg_log = [], rg_calls = 0\<rparr>"

section \<open>Runs\<close>

definition launch_kernel :: "'h ring \<Rightarrow> 'h ring" where
  "launch_kernel s = s\<lparr>rg_view := (rg_view s)\<lparr>v_launched := v_launched (rg_view s) + 1\<rparr>\<rparr>"

text \<open>
  \<open>used h\<close> is the number of launches after which no kernel reads the slot of \<open>h\<close> any more: a group is
  deferred after the kernels that read its slots are enqueued. \<open>gs\<close> collects the handles passed to
  \<open>defer_release\<close>, \<open>errs\<close> counts the calls that failed.
\<close>

inductive ring_run :: "('h \<Rightarrow> nat) \<Rightarrow> 'h ring \<Rightarrow> 'h list \<Rightarrow> nat \<Rightarrow> bool" for used where
  run_new: "ring_run used ring_new [] 0"
| run_launch: "ring_run used s gs errs \<Longrightarrow> ring_run used (launch_kernel s) gs errs"
| run_defer: "ring_run used s gs errs \<Longrightarrow> (\<And>h. h \<in> set hs \<Longrightarrow> used h \<le> v_launched (rg_view s)) \<Longrightarrow>
    defer_release rc hs s = (r, s') \<Longrightarrow> ring_run used s' (gs @ hs) (errs + (if r = Ok () then 0 else 1))"
| run_flush: "ring_run used s gs errs \<Longrightarrow> flush_pending_release rc s = (r, s') \<Longrightarrow>
    ring_run used s' gs (errs + (if r = Ok () then 0 else 1))"


section \<open>The invariant\<close>

definition ring_safe :: "('h \<Rightarrow> nat) \<Rightarrow> 'h ring \<Rightarrow> bool" where
  "ring_safe used s \<longleftrightarrow>
     (\<forall>(e, hs) \<in> set (rg_pending s). \<forall>h \<in> set hs. used h \<le> v_captured (rg_view s) e) \<and>
     (\<forall>e. v_captured (rg_view s) e \<le> v_launched (rg_view s)) \<and> v_confirmed (rg_view s) \<le> v_launched (rg_view s) \<and>
     (\<forall>(h, c) \<in> set (rg_log s). used h \<le> c \<and> c \<le> v_confirmed (rg_view s))"

text \<open>Every handle released or still queued, in order; and what the operations leave alone.\<close>

definition handled :: "'h ring \<Rightarrow> 'h list" where
  "handled s = map fst (rg_log s) @ concat (map snd (rg_pending s))"

definition same_stream :: "'h ring \<Rightarrow> 'h ring \<Rightarrow> bool" where
  "same_stream s s' \<longleftrightarrow> rg_next s' = rg_next s \<and> rg_events s' = rg_events s \<and>
     v_launched (rg_view s') = v_launched (rg_view s) \<and> v_captured (rg_view s') = v_captured (rg_view s)"

lemma same_stream_trans: "same_stream s s' \<Longrightarrow> same_stream s' s'' \<Longrightarrow> same_stream s s''"
  by (simp add: same_stream_def)

text \<open>A successful query or synchronisation of the front event lets the front group go.\<close>

lemma release_front:
  fixes n :: nat
  assumes "ring_safe used (s\<lparr>rg_pending := (e, hs) # ps\<rparr>)"
  defines "s1 \<equiv> release_all hs (s\<lparr>rg_calls := n, rg_view := see_event e (rg_view s), rg_pending := ps\<rparr>)"
  shows "ring_safe used (s1\<lparr>rg_pending := ps\<rparr>)" "map fst (rg_log s1) = map fst (rg_log s) @ hs" "same_stream s s1" "rg_pending s1 = ps"
proof -
  show "ring_safe used (s1\<lparr>rg_pending := ps\<rparr>)"
    using assms(1) by (fastforce simp: ring_safe_def s1_def release_all_def see_event_def le_max_iff_disj)
  show "map fst (rg_log s1) = map fst (rg_log s) @ hs" "same_stream s s1" "rg_pending s1 = ps"
    by (simp_all add: s1_def release_all_def see_event_def same_stream_def comp_def)
qed

lemma ring_safe_call [simp]: "ring_safe used (s\<lparr>rg_calls := n\<rparr>) = ring_safe used s"
  by (simp add: ring_safe_def)

lemma pending_cong: "ring_safe used s \<Longrightarrow> rg_pending s = q \<Longrightarrow> ring_safe used (s\<lparr>rg_pending := q\<rparr>)"
  by (cases s) simp

lemma pending_same: "ring_safe used (s\<lparr>rg_pending := q\<rparr>) \<Longrightarrow> rg_pending s = q \<Longrightarrow> ring_safe used s"
  by (cases s) simp

lemma drain_done_keeps:
  assumes "ring_safe used (s\<lparr>rg_pending := q\<rparr>)" "drain_done rc q s = (r, s')"
  shows "ring_safe used s' \<and> handled s' = map fst (rg_log s) @ concat (map snd q) \<and> same_stream s s' \<and>
     (\<exists>k. rg_pending s' = drop k q) \<and> r \<noteq> Panic"
  using assms
proof (induction rc q s arbitrary: r s' rule: drain_done.induct)
  case (1 rc s)
  then show ?case by (auto simp: handled_def same_stream_def)
next
  case (2 rc e hs ps s)
  let ?n = "rg_calls s + 1"
  consider (ready) "rc (rg_calls s) = 0" | (busy) "rc (rg_calls s) = not_ready" | (err) "rc (rg_calls s) \<noteq> 0" "rc (rg_calls s) \<noteq> not_ready"
    by blast
  then show ?case
  proof cases
    case ready
    let ?s1 = "release_all hs (s\<lparr>rg_calls := ?n, rg_view := see_event e (rg_view s), rg_pending := (e, hs) # ps\<rparr>)"
    let ?t1 = "release_all hs (s\<lparr>rg_calls := ?n, rg_view := see_event e (rg_view s), rg_pending := ps\<rparr>)"
    note f = release_front [OF "2.prems"(1), of ?n]
    have st: "event_done rc e (s\<lparr>rg_pending := (e, hs) # ps\<rparr>) =
        (Ok True, s\<lparr>rg_calls := ?n, rg_view := see_event e (rg_view s), rg_pending := (e, hs) # ps\<rparr>)"
      using ready by (simp add: event_done_def Let_def)
    have rest: "drain_done rc ps ?s1 = (r, s')" using "2.prems"(2) st by simp
    have s1: "ring_safe used (?s1\<lparr>rg_pending := ps\<rparr>)" "map fst (rg_log ?s1) = map fst (rg_log s) @ hs" "same_stream s ?s1"
      using f(1-3) by (simp_all add: release_all_def same_stream_def)
    from "2.IH" [OF _ s1(1) rest] st have "ring_safe used s' \<and> handled s' = map fst (rg_log ?s1) @ concat (map snd ps) \<and>
        same_stream ?s1 s' \<and> (\<exists>k. rg_pending s' = drop k ps) \<and> r \<noteq> Panic" by simp
    then show ?thesis using s1(2,3) same_stream_trans by (auto intro: exI [of _ "Suc _"])
  next
    case busy
    then have s': "s' = s\<lparr>rg_pending := (e, hs) # ps, rg_calls := ?n\<rparr>" "r = Ok ()"
      using "2.prems"(2) by (auto simp: event_done_def Let_def not_ready_def)
    have "ring_safe used s'" unfolding s' ring_safe_call by (rule "2.prems"(1))
    then show ?thesis by (auto simp: s' handled_def same_stream_def intro: exI [of _ 0])
  next
    case err
    then have s': "s' = s\<lparr>rg_pending := (e, hs) # ps, rg_calls := ?n\<rparr>" "r = Err (rc (rg_calls s))"
      using "2.prems"(2) by (auto simp: event_done_def Let_def)
    have "ring_safe used s'" unfolding s' ring_safe_call by (rule "2.prems"(1))
    then show ?thesis by (auto simp: s' handled_def same_stream_def intro: exI [of _ 0])
  qed
qed


lemma sync_front:
  assumes "ring_safe used (s\<lparr>rg_pending := (e, hs) # ps\<rparr>)" "sync_event rc e (s\<lparr>rg_pending := qs\<rparr>) = (r, s')"
  shows "r = Ok () \<Longrightarrow> ring_safe used ((release_all hs s')\<lparr>rg_pending := ps\<rparr>)"
    "r = Ok () \<Longrightarrow> map fst (rg_log (release_all hs s')) = map fst (rg_log s) @ hs"
    "r \<noteq> Ok () \<Longrightarrow> s' = s\<lparr>rg_pending := qs, rg_calls := rg_calls s + 1\<rparr>"
    "rg_pending s' = qs" "same_stream s s'" "r \<noteq> Panic"
proof -
  note f = release_front [OF assms(1), of "rg_calls s + 1"]
  show "r = Ok () \<Longrightarrow> ring_safe used ((release_all hs s')\<lparr>rg_pending := ps\<rparr>)"
    "r = Ok () \<Longrightarrow> map fst (rg_log (release_all hs s')) = map fst (rg_log s) @ hs"
    using f(1,2) assms(2) by (auto simp: sync_event_def cu_result_def Let_def release_all_def split: if_splits)
  show "r \<noteq> Ok () \<Longrightarrow> s' = s\<lparr>rg_pending := qs, rg_calls := rg_calls s + 1\<rparr>"
    "rg_pending s' = qs" "same_stream s s'" "r \<noteq> Panic"
    using assms(2) by (auto simp: sync_event_def cu_result_def Let_def same_stream_def see_event_def split: if_splits)
qed

lemma make_room_keeps:
  assumes "ring_safe used s" "make_room rc s = (r, s')" "length (rg_pending s) \<le> rg_events s" "0 < rg_events s"
  shows "ring_safe used s' \<and> subseq (handled s') (handled s) \<and> (r = Ok () \<longrightarrow> handled s' = handled s \<and> length (rg_pending s') < rg_events s) \<and>
     same_stream s s' \<and> (\<exists>k. rg_pending s' = drop k (rg_pending s)) \<and> r \<noteq> Panic"
proof (cases "length (rg_pending s) = rg_events s")
  case False
  then have "s' = s" "r = Ok ()" using assms(2) by (simp_all add: make_room_def)
  then show ?thesis using assms False by (auto simp: same_stream_def intro: exI [of _ 0])
next
  case True
  then obtain e hs ps where p: "rg_pending s = (e, hs) # ps" using assms(4) by (cases "rg_pending s") auto
  obtain r1 s1 where sy: "sync_event rc e (s\<lparr>rg_pending := ps\<rparr>) = (r1, s1)" by fastforce
  have safe: "ring_safe used (s\<lparr>rg_pending := (e, hs) # ps\<rparr>)" using assms(1) p by (rule pending_cong)
  note f = sync_front [OF safe sy]
  have mr: "make_room rc s = and_then (r1, s1) (\<lambda>_ s'. (Ok (), release_all hs s'))" using True p sy by (simp add: make_room_def)
  have k: "\<exists>k. ps = drop k ((e, hs) # ps)" by (rule exI [of _ 1]) simp
  show ?thesis
  proof (cases "r1 = Ok ()")
    case ok: True
    then have s': "s' = release_all hs s1" "r = Ok ()" using mr assms(2) by auto
    have ps: "rg_pending s' = ps" using f(4) s' by (simp add: release_all_def)
    moreover have "ring_safe used s'" by (rule pending_same [OF _ ps]) (use f(1) ok s' in simp)
    moreover have "same_stream s s'" using f(5) s' by (simp add: release_all_def same_stream_def)
    moreover have "length ps < rg_events s" using True p by simp
    ultimately show ?thesis using f(2) ok s' p k by (simp add: handled_def)
  next
    case err: False
    then have s': "s' = s\<lparr>rg_pending := ps, rg_calls := rg_calls s + 1\<rparr>" "r = r1" using mr assms(2) f(3,6) by (cases r1; auto)+
    have "ring_safe used s'" using assms(1) p by (auto simp: s' ring_safe_def)
    moreover have "subseq (handled s') (handled s)" by (simp add: s' handled_def p) (intro list_emb_append_mono subseq_order.refl list_emb_append2)
    ultimately show ?thesis using f(6) err s' p k by (simp add: same_stream_def)
  qed
qed


text \<open>The queue holds the events just before \<open>rg_next\<close>, going round.\<close>

definition ring_order :: "'h ring \<Rightarrow> bool" where
  "ring_order s \<longleftrightarrow> (\<exists>a. map fst (rg_pending s) = map (\<lambda>i. (a + i) mod rg_events s) [0..<length (rg_pending s)] \<and>
     rg_next s = (a + length (rg_pending s)) mod rg_events s)"

lemma ring_order_drop:
  assumes "ring_order s" "same_stream s s'" "rg_pending s' = drop k (rg_pending s)"
  shows "ring_order s'"
proof (cases "k \<le> length (rg_pending s)")
  case True
  from assms(1) obtain a where a: "map fst (rg_pending s) = map (\<lambda>i. (a + i) mod rg_events s) [0..<length (rg_pending s)]"
    "rg_next s = (a + length (rg_pending s)) mod rg_events s" unfolding ring_order_def by blast
  have "map fst (rg_pending s') = drop k (map fst (rg_pending s))" using assms(3) by (simp add: drop_map)
  also have "\<dots> = map (\<lambda>i. (a + k + i) mod rg_events s) [0..<length (rg_pending s')]"
    unfolding a(1) by (rule nth_equalityI) (auto simp: assms(3) add.assoc less_diff_conv add.commute [of k])
  finally show ?thesis
    using a(2) assms(2,3) True by (auto simp: ring_order_def same_stream_def intro!: exI [of _ "a + k"])
next
  case False
  then show ?thesis using assms unfolding ring_order_def same_stream_def
    by (auto intro!: exI [of _ "rg_next s"])
qed

definition ring_bounds :: "'h ring \<Rightarrow> bool" where
  "ring_bounds s \<longleftrightarrow> rg_events s = 8 \<and> rg_next s < 8 \<and> length (rg_pending s) \<le> 8"

lemma defer_keeps:
  assumes safe: "ring_safe used s" and b: "ring_bounds s" and hs: "\<And>h. h \<in> set hs \<Longrightarrow> used h \<le> v_launched (rg_view s)"
    and d: "defer_release rc hs s = (r, s')"
  shows "ring_safe used s' \<and> ring_bounds s' \<and> subseq (handled s') (handled s @ hs) \<and>
     (r = Ok () \<longrightarrow> handled s' = handled s @ hs \<and> (ring_order s \<longrightarrow> ring_order s'))"
proof -
  obtain r1 s1 where d1: "drain_done rc (rg_pending s) s = (r1, s1)" by fastforce
  have safe': "ring_safe used (s\<lparr>rg_pending := rg_pending s\<rparr>)" using safe by simp
  note k1 = drain_done_keeps [OF safe' d1]
  have h1: "handled s1 = handled s" using k1 by (simp add: handled_def)
  from k1 obtain n1 where n1: "rg_pending s1 = drop n1 (rg_pending s)" by blast
  have b1: "ring_bounds s1" using b k1 n1 by (auto simp: ring_bounds_def same_stream_def)
  have sub1: "subseq (handled s1) (handled s @ hs)" unfolding h1 by (rule prefix_imp_subseq) simp
  obtain r2 s2 where d2: "make_room rc s1 = (r2, s2)" by fastforce
  have k2: "ring_safe used s2 \<and> subseq (handled s2) (handled s1) \<and> (r2 = Ok () \<longrightarrow> handled s2 = handled s1 \<and> length (rg_pending s2) < rg_events s1) \<and>
     same_stream s1 s2 \<and> (\<exists>k. rg_pending s2 = drop k (rg_pending s1)) \<and> r2 \<noteq> Panic"
    by (rule make_room_keeps [OF _ d2]) (use k1 b1 in \<open>auto simp: ring_bounds_def\<close>)
  then obtain n2 where n2: "rg_pending s2 = drop n2 (rg_pending s1)" by blast
  have b2: "ring_bounds s2" using b1 k2 n2 by (auto simp: ring_bounds_def same_stream_def)
  have sub2: "subseq (handled s2) (handled s @ hs)" using k2 sub1 h1 by (metis subseq_order.trans)
  let ?t = "s2\<lparr>rg_next := (rg_next s2 + 1) mod rg_events s2\<rparr>" and ?ev = "rg_next s2"
  obtain r3 s3 where d3: "record_event rc ?ev ?t = (r3, s3)" by fastforce
  have def3: "defer_release rc hs s = and_then (r1, s1) (\<lambda>_ s1. and_then (make_room rc s1) (\<lambda>_ s2.
      and_then (record_event rc (rg_next s2) (s2\<lparr>rg_next := (rg_next s2 + 1) mod rg_events s2\<rparr>)) (\<lambda>_ s3.
         (Ok (), s3\<lparr>rg_pending := rg_pending s3 @ [(rg_next s2, hs)]\<rparr>))))"
    unfolding defer_release_def d1 by (simp add: Let_def)
  consider (e1) "r1 \<noteq> Ok ()" | (e2) "r1 = Ok ()" "r2 \<noteq> Ok ()" | (e3) "r1 = Ok ()" "r2 = Ok ()" "r3 \<noteq> Ok ()"
    | (ok) "r1 = Ok ()" "r2 = Ok ()" "r3 = Ok ()" by blast
  then show ?thesis
  proof cases
    case e1
    then have "s' = s1" "r \<noteq> Ok ()" using def3 d k1 by (cases r1; auto)+
    then show ?thesis using k1 b1 sub1 by simp
  next
    case e2
    then have "s' = s2" "r \<noteq> Ok ()" using def3 d d2 k2 by (cases r2; auto)+
    then show ?thesis using k2 b2 sub2 by simp
  next
    case e3
    have "s3 = ?t\<lparr>rg_calls := rg_calls s2 + 1\<rparr>" "r3 = Err (rc (rg_calls s2))"
      using d3 e3(3) by (auto simp: record_event_def cu_result_def Let_def split: if_splits)
    then have s': "s' = ?t\<lparr>rg_calls := rg_calls s2 + 1\<rparr>" "r \<noteq> Ok ()" using def3 d d2 d3 e3 by auto
    have "ring_safe used s'" using k2 by (simp add: s' ring_safe_def)
    moreover have "ring_bounds s'" using b2 by (auto simp: s' ring_bounds_def)
    moreover have "handled s' = handled s2" by (simp add: s' handled_def)
    ultimately show ?thesis using sub2 s' by simp
  next
    case ok
    have s3: "s3 = ?t\<lparr>rg_calls := rg_calls s2 + 1, rg_view := (rg_view s2)\<lparr>v_captured := (v_captured (rg_view s2))(?ev := v_launched (rg_view s2))\<rparr>\<rparr>"
      using d3 ok(3) by (auto simp: record_event_def cu_result_def Let_def split: if_splits)
    have s': "s' = s3\<lparr>rg_pending := rg_pending s3 @ [(?ev, hs)]\<rparr>" "r = Ok ()" using def3 d d2 d3 ok by auto
    have l: "v_launched (rg_view s2) = v_launched (rg_view s)" using k1 k2 by (simp add: same_stream_def)
    have safe2: "ring_safe used s2" using k2 by blast
    have "ring_safe used s'"
      using safe2 hs l by (fastforce simp: ring_safe_def s' s3 intro: le_trans)
    moreover have "length (rg_pending s2) < 8" using k2 ok b1 by (simp add: ring_bounds_def)
    then have "ring_bounds s'" using b2 by (simp add: ring_bounds_def s' s3)
    moreover have "handled s' = handled s @ hs" using k2 ok h1 by (simp add: handled_def s' s3)
    moreover have "ring_order s'" if o: "ring_order s"
    proof -
      have "ring_order s1" by (rule ring_order_drop [OF o _ n1]) (use k1 in blast)
      then have "ring_order s2" by (rule ring_order_drop [OF _ _ n2]) (use k2 in blast)
      then obtain a where a: "map fst (rg_pending s2) = map (\<lambda>i. (a + i) mod rg_events s2) [0..<length (rg_pending s2)]"
        "rg_next s2 = (a + length (rg_pending s2)) mod rg_events s2" unfolding ring_order_def by blast
      then show ?thesis unfolding ring_order_def by (intro exI [of _ a]) (simp add: s' s3 mod_Suc_eq)
    qed
    ultimately show ?thesis using s' by simp
  qed
qed


lemma flush_keeps:
  assumes "ring_safe used (s\<lparr>rg_pending := q\<rparr>)" "flush_from rc q s = (r, s')"
  shows "ring_safe used s' \<and> handled s' = map fst (rg_log s) @ concat (map snd q) \<and> same_stream s s' \<and>
     (\<exists>k. rg_pending s' = drop k q) \<and> (r = Ok () \<longrightarrow> rg_pending s' = [])"
  using assms
proof (induction rc q s arbitrary: r s' rule: flush_from.induct)
  case (1 rc s)
  then show ?case by (auto simp: handled_def same_stream_def)
next
  case (2 rc e hs ps s)
  obtain r1 s1 where sy: "sync_event rc e (s\<lparr>rg_pending := (e, hs) # ps\<rparr>) = (r1, s1)" by fastforce
  note f = sync_front [OF "2.prems"(1) sy]
  show ?case
  proof (cases "r1 = Ok ()")
    case True
    have rest: "flush_from rc ps (release_all hs s1) = (r, s')" using "2.prems"(2) sy True by simp
    have "ring_safe used s' \<and> handled s' = map fst (rg_log (release_all hs s1)) @ concat (map snd ps) \<and> same_stream (release_all hs s1) s' \<and>
       (\<exists>k. rg_pending s' = drop k ps) \<and> (r = Ok () \<longrightarrow> rg_pending s' = [])"
      by (rule "2.IH" [OF f(1) rest]) (use True in simp)
    moreover have "same_stream s (release_all hs s1)" using f(5) by (simp add: release_all_def same_stream_def)
    ultimately show ?thesis using f(2) True same_stream_trans by (auto intro: exI [of _ "Suc _"])
  next
    case False
    then have s': "s' = s\<lparr>rg_pending := (e, hs) # ps, rg_calls := rg_calls s + 1\<rparr>" "r = r1"
      using "2.prems"(2) sy f(3,6) by (cases r1; auto)+
    have "ring_safe used s'" unfolding s' ring_safe_call by (rule "2.prems"(1))
    then show ?thesis using False by (auto simp: s' handled_def same_stream_def intro: exI [of _ 0])
  qed
qed

lemma ring_run_keeps:
  "ring_run used s gs errs \<Longrightarrow>
     ring_safe used s \<and> ring_bounds s \<and> subseq (handled s) gs \<and> (errs = 0 \<longrightarrow> handled s = gs \<and> ring_order s)"
proof (induction rule: ring_run.induct)
  case run_new
  show ?case by (auto simp: ring_new_def ring_safe_def ring_bounds_def handled_def ring_order_def intro: exI [of _ 0])
next
  case (run_launch s gs errs)
  have "ring_safe used (launch_kernel s)" if "ring_safe used s"
    using that by (fastforce simp: ring_safe_def launch_kernel_def intro: le_SucI)
  then show ?case using run_launch.IH by (auto simp: launch_kernel_def ring_bounds_def handled_def ring_order_def)
next
  case (run_defer s gs errs hs rc r s')
  have k: "ring_safe used s' \<and> ring_bounds s' \<and> subseq (handled s') (handled s @ hs) \<and>
     (r = Ok () \<longrightarrow> handled s' = handled s @ hs \<and> (ring_order s \<longrightarrow> ring_order s'))"
    by (rule defer_keeps [OF _ _ run_defer.hyps(2) run_defer.hyps(3)]) (use run_defer.IH in simp_all)
  have "subseq (handled s @ hs) (gs @ hs)" using run_defer.IH by (simp add: list_emb_append_mono)
  then have "subseq (handled s') (gs @ hs)" using k subseq_order.trans by blast
  then show ?case using k run_defer.IH by simp
next
  case (run_flush s gs errs rc r s')
  have fl: "flush_from rc (rg_pending s) s = (r, s')" using run_flush.hyps by (simp add: flush_pending_release_def)
  have safe: "ring_safe used (s\<lparr>rg_pending := rg_pending s\<rparr>)" using run_flush.IH by simp
  note k = flush_keeps [OF safe fl]
  then obtain n where n: "rg_pending s' = drop n (rg_pending s)" by blast
  have "ring_bounds s'" using run_flush.IH k n by (auto simp: ring_bounds_def same_stream_def)
  moreover have "ring_order s \<Longrightarrow> ring_order s'" by (rule ring_order_drop [OF _ _ n]) (use k in simp_all)
  moreover have "handled s' = handled s" using k by (simp add: handled_def)
  ultimately show ?case using run_flush.IH k by simp
qed

lemma ring_index_inj:
  fixes i j k n :: nat
  assumes "(k + i) mod n = (k + j) mod n" "i < n" "j < n"
  shows "i = j"
proof -
  have "i = j" if le: "i \<le> j" and eq: "(k + j) mod n = (k + i) mod n" and j: "j < n" for i j
  proof -
    have "n dvd (k + j) - (k + i)" using eq le by (simp add: mod_eq_dvd_iff_nat)
    then have "n dvd j - i" by simp
    then show ?thesis using dvd_imp_le [of n "j - i"] le j by fastforce
  qed
  then show ?thesis using assms by (metis nat_le_linear)
qed

section \<open>Properties\<close>

text \<open>C24: A cache slot is never given back while a kernel may still read it: whatever the driver calls
  return, every handle passed to the pager's \<open>release\<close> was at that moment known to be behind the
  stream, by an event whose record followed all kernels reading its slot. And the ring never holds
  more than its eight groups.\<close>

theorem deferred_release_is_safe:
  assumes "ring_run used s gs errs"
  shows "(\<forall>(h, c) \<in> set (rg_log s). used h \<le> c \<and> c \<le> v_launched (rg_view s)) \<and> length (rg_pending s) \<le> 8"
  using ring_run_keeps [OF assms] by (fastforce simp: ring_safe_def ring_bounds_def)

text \<open>No handle is released twice or out of turn, whatever fails; and as long as no call has failed,
  the handles released, then those queued, are exactly the handles deferred, in order, and the events of
  the queued groups are all different, so that recording the next event never disturbs one still
  waited for.\<close>

theorem deferred_release_exactly_once:
  assumes "ring_run used s gs errs"
  shows "subseq (handled s) gs \<and> (errs = 0 \<longrightarrow> handled s = gs \<and> distinct (map fst (rg_pending s)))"
proof -
  note k = ring_run_keeps [OF assms]
  have "distinct (map fst (rg_pending s))" if o: "ring_order s"
  proof -
    from o obtain a where a: "map fst (rg_pending s) = map (\<lambda>i. (a + i) mod rg_events s) [0..<length (rg_pending s)]"
      unfolding ring_order_def by blast
    have "inj_on (\<lambda>i. (a + i) mod rg_events s) {0..<length (rg_pending s)}"
    proof (rule inj_onI)
      have b: "rg_events s = 8" "length (rg_pending s) \<le> 8" using k unfolding ring_bounds_def by blast+
      fix i j assume ij: "i \<in> {0..<length (rg_pending s)}" "j \<in> {0..<length (rg_pending s)}"
        "(a + i) mod rg_events s = (a + j) mod rg_events s"
      then have "i < rg_events s" "j < rg_events s" using b by simp_all
      with ij(3) show "i = j" by (rule ring_index_inj)
    qed
    then have "distinct (map (\<lambda>i. (a + i) mod rg_events s) [0..<length (rg_pending s)])"
      unfolding distinct_map set_upt using distinct_upt by (rule conjI [rotated])
    then show ?thesis by (subst a)
  qed
  then show ?thesis using k by blast
qed

text \<open>\<open>flush_pending_release\<close> restores the clean pin state that \<open>step_multi\<close> needs: if the events
  synchronise, it returns, the queue is empty, and every queued handle has been released, in order.\<close>

theorem flush_releases_everything:
  assumes "\<And>n. rc n = 0"
  shows "\<exists>s'. flush_pending_release rc s = (Ok (), s') \<and> rg_pending s' = [] \<and>
     map fst (rg_log s') = map fst (rg_log s) @ concat (map snd (rg_pending s))"
proof -
  have "\<exists>s'. flush_from rc q t = (Ok (), s') \<and> rg_pending s' = [] \<and> map fst (rg_log s') = map fst (rg_log t) @ concat (map snd q)" for q t
  proof (induction q arbitrary: t)
    case (Cons p ps)
    obtain e hs where p: "p = (e, hs)" by (cases p)
    have "flush_from rc (p # ps) t = flush_from rc ps (release_all hs (t\<lparr>rg_pending := p # ps, rg_calls := rg_calls t + 1, rg_view := see_event e (rg_view t)\<rparr>))"
      using assms by (simp add: p sync_event_def cu_result_def Let_def)
    then show ?case using Cons.IH [of "release_all hs (t\<lparr>rg_pending := p # ps, rg_calls := rg_calls t + 1, rg_view := see_event e (rg_view t)\<rparr>)"]
      by (auto simp: p release_all_def comp_def)
  qed simp
  then show ?thesis unfolding flush_pending_release_def by blast
qed

section \<open>Example\<close>

text \<open>Two groups deferred one launch apart; the first event is done by the second call.\<close>

definition ring_a :: "nat ring" where
  "ring_a = snd (defer_release (\<lambda>_. 0) [1] (launch_kernel ring_new))"

definition ring_b :: "nat ring" where
  "ring_b = snd (defer_release (\<lambda>_. 0) [2] (launch_kernel ring_a))"

lemma ring_b_run: "ring_run id ring_b [1, 2] 0"
proof -
  have a: "defer_release (\<lambda>_. 0) [1] (launch_kernel ring_new) = (Ok (), ring_a)"
  proof (rule prod_eqI)
    show "fst (defer_release (\<lambda>_. 0) [1 :: nat] (launch_kernel ring_new)) = fst (Ok (), ring_a)" by code_simp
  qed (simp add: ring_a_def)
  have b: "defer_release (\<lambda>_. 0) [2] (launch_kernel ring_a) = (Ok (), ring_b)"
  proof (rule prod_eqI)
    show "fst (defer_release (\<lambda>_. 0) [2] (launch_kernel ring_a)) = fst (Ok (), ring_b)" by code_simp
  qed (simp add: ring_b_def)
  have l: "v_launched (rg_view (launch_kernel ring_new)) = 1" "v_launched (rg_view (launch_kernel ring_a)) = 2"
    unfolding ring_a_def by code_simp+
  have "ring_run id (launch_kernel ring_new) [] 0" by (intro run_launch run_new)
  from run_defer [OF this _ a] have "ring_run id ring_a ([] @ [1]) (0 + 0)" by (simp add: l(1) [unfolded One_nat_def])
  then have "ring_run id (launch_kernel ring_a) ([] @ [1]) (0 + 0)" by (rule run_launch)
  from run_defer [OF this _ b] show ?thesis by (simp add: l(2))
qed

lemma deferred_release_is_safe_witness:
  "rg_log ring_b = [(1, 1)] \<and> 1 \<le> v_launched (rg_view ring_b) \<and> length (rg_pending ring_b) \<le> 8"
proof -
  have "rg_log ring_b = [(1, 1)]" unfolding ring_b_def ring_a_def by code_simp
  then show ?thesis using deferred_release_is_safe [OF ring_b_run] by simp
qed

lemma deferred_release_exactly_once_witness: "handled ring_b = [1, 2] \<and> rg_pending ring_b = [(1, [2])]"
proof -
  have "rg_pending ring_b = [(1, [2])]" unfolding ring_b_def ring_a_def by code_simp
  then show ?thesis using deferred_release_exactly_once [OF ring_b_run] by simp
qed

lemma flush_releases_everything_witness:
  "\<exists>s'. flush_pending_release (\<lambda>_. 0) ring_b = (Ok (), s') \<and> map fst (rg_log s') = map fst (rg_log ring_b) @ concat (map snd (rg_pending ring_b))"
proof -
  have z: "\<And>n :: nat. (\<lambda>_. 0 :: nat) n = 0" by simp
  from flush_releases_everything [of "\<lambda>_. 0" ring_b, OF z] show ?thesis by blast
qed

end
