(* ===== verification/Wave_Requests.thy ===== *)
theory Wave_Requests
  imports Pager_Request Decode_Props
begin

text \<open>
  The decoder's waves on the pager: from a state in which the decoder holds no handle and no prefetch
  is under way, a wave that fits the layer's pool is served at once. This is what \<open>step_multi\<close>
  relies on when it flushes the ring first and gives each wave back before the next.
\<close>

lemma clean_slots_unpinned:
  assumes m: "minv W m" and h: "m_handles m = []" and j: "\<forall>j. j \<in># jobs_of m \<longrightarrow> \<not> j_release j"
  shows "pinned_slots (g_cache (m_g m)) = {}" "n < 2 ^ 32 \<Longrightarrow> pins_room (g_cache (m_g m)) n"
proof -
  have p: "p = 0" if v: "view (g_cache (m_g m)) s = Some (e, p, r)" for s e p r
  proof -
    have "s < length (g_fill (m_g m))" using view_in [OF v] m by (simp add: minv_def)
    then have "slot_ok W m s" by (rule minv_slot [OF m])
    then have "p = of_nat (pin_count m s)" using v by (auto simp: slot_ok_def)
    moreover have "filter_mset (\<lambda>j. j_slot j = s \<and> j_release j) (jobs_of m) = {#}" by (rule filter_none) (use j in auto)
    then have "pin_count m s = 0" by (simp add: pin_count_def h)
    ultimately show ?thesis by simp
  qed
  then show "pinned_slots (g_cache (m_g m)) = {}" unfolding pinned_slots_def by blast
  show "pins_room (g_cache (m_g m)) n" if "n < 2 ^ 32" using p that unfolding pins_room_def by fastforce
qed



end
