(* ===== verification/Kimi_Kv.thy ===== *)
theory Kimi_Kv
  imports Kv_Lanes
begin

text \<open>
  Parking a context of the Kimi decoder (\<open>kv_bytes_per_token\<close>, \<open>kv_geometry\<close>, \<open>kv_export\<close> and
  \<open>kv_import\<close> of \<open>llmpager-run/src/kimi.rs\<close>): one compressed row of \<open>kv_lora + rope\<close> floats per
  position, so the prefix of a sequence slot is one contiguous run per layer.
\<close>

record kimi_kv =
  y_layers :: nat
  y_kv_lora :: nat
  y_rope :: nat
  y_max_seq :: nat
  y_batch_cap :: nat
  y_mem :: "nat \<Rightarrow> nat \<Rightarrow> u8"

definition kimi_bytes_per_token :: "kimi_kv \<Rightarrow> nat" where
  "kimi_bytes_per_token d = y_layers d * (y_kv_lora d + y_rope d) * 4"

definition kimi_geometry :: "kimi_kv \<Rightarrow> nat \<Rightarrow> nat \<Rightarrow> (kv_error, nat \<times> nat) res" where
  "kimi_geometry d seq n =
     (if y_batch_cap d \<le> seq then Err (SlotTooLarge seq (y_batch_cap d))
      else if y_max_seq d < n then Err (LenTooLarge n (y_max_seq d))
      else let qk = y_kv_lora d + y_rope d in Ok (n * qk * 4, seq * y_max_seq d * qk * 4))"

definition kimi_export :: "kimi_kv \<Rightarrow> nat \<Rightarrow> nat \<Rightarrow> (kv_error, bytes) res" where
  "kimi_export d seq n =
     bind_res (kimi_geometry d seq n) (\<lambda>(run, off). Ok (concat (map (\<lambda>l. rd (y_mem d l) off run) [0..<y_layers d])))"

fun copy_layers :: "(nat \<Rightarrow> nat \<Rightarrow> u8) \<Rightarrow> nat \<Rightarrow> nat \<Rightarrow> nat list \<Rightarrow> bytes \<Rightarrow> nat \<Rightarrow> nat \<Rightarrow> u8" where
  "copy_layers mem off run [] blob = mem"
| "copy_layers mem off run (l # ls) blob =
     copy_layers (mem(l := wr (mem l) off (take run (drop (l * run) blob)))) off run ls blob"

definition kimi_import :: "kimi_kv \<Rightarrow> nat \<Rightarrow> nat \<Rightarrow> bytes \<Rightarrow> (kv_error, kimi_kv) res" where
  "kimi_import d seq n blob =
     bind_res (kimi_geometry d seq n) (\<lambda>(run, off).
       let want = y_layers d * run in
       if length blob \<noteq> want then Err (BlobSize (length blob) want)
       else Ok (d\<lparr>y_mem := copy_layers (y_mem d) off run [0..<y_layers d] blob\<rparr>))"

text \<open>The cache row of a position, layer by layer.\<close>

definition kimi_row :: "kimi_kv \<Rightarrow> nat \<Rightarrow> nat \<Rightarrow> bytes list" where
  "kimi_row d seq p =
     (let r = (y_kv_lora d + y_rope d) * 4 in
      map (\<lambda>l. rd (y_mem d l) (seq * y_max_seq d * r + p * r) r) [0..<y_layers d])"

definition kimi_geo :: "kimi_kv \<Rightarrow> nat \<times> nat \<times> nat \<times> nat \<times> nat" where
  "kimi_geo d = (y_layers d, y_kv_lora d, y_rope d, y_max_seq d, y_batch_cap d)"

section \<open>Copies\<close>

lemma copy_layers_at:
  assumes "distinct ls"
  shows "copy_layers mem off run ls blob l =
     (if l \<in> set ls then wr (mem l) off (take run (drop (l * run) blob)) else mem l)"
  using assms by (induction ls arbitrary: mem) (auto simp del: fun_upd_apply simp: fun_upd_apply)

lemma kimi_export_Ok:
  "kimi_export d s n = Ok b \<longleftrightarrow> s < y_batch_cap d \<and> n \<le> y_max_seq d \<and>
     b = concat (map (\<lambda>l. rd (y_mem d l) (s * y_max_seq d * ((y_kv_lora d + y_rope d) * 4)) (n * ((y_kv_lora d + y_rope d) * 4))) [0..<y_layers d])"
  unfolding kimi_export_def kimi_geometry_def by (auto simp: Let_def mult.assoc)

lemma kimi_import_Ok:
  "kimi_import d s n b = Ok d' \<longleftrightarrow> s < y_batch_cap d \<and> n \<le> y_max_seq d \<and>
     length b = y_layers d * (n * ((y_kv_lora d + y_rope d) * 4)) \<and>
     d' = d\<lparr>y_mem := copy_layers (y_mem d) (s * y_max_seq d * ((y_kv_lora d + y_rope d) * 4)) (n * ((y_kv_lora d + y_rope d) * 4)) [0..<y_layers d] b\<rparr>"
  unfolding kimi_import_def kimi_geometry_def by (auto simp: Let_def mult.assoc)

lemma nth_piece:
  assumes "\<forall>x \<in> set xs. length x = n" "k < length xs"
  shows "take n (drop (k * n) (concat xs)) = xs ! k"
proof -
  have "map (\<lambda>k. take n (drop (k * n) (concat xs))) [0..<length xs] ! k = xs ! k"
    using concat_pieces [OF assms(1)] by simp
  then show ?thesis using assms(2) by simp
qed

text \<open>Addresses of different sequence slots do not meet.\<close>

lemma kimi_slots_apart:
  fixes x :: nat
  assumes "s \<noteq> s'" "n \<le> M" "p < M" "s' * M * r + p * r \<le> x" "x < s' * M * r + p * r + r"
  shows "x < s * M * r \<or> s * M * r + n * r \<le> x"
proof -
  have pr: "p * r + r \<le> M * r" using mult_le_mono1 [of "Suc p" M r] assms(3) by simp
  have nr: "n * r \<le> M * r" using assms(2) by (rule mult_le_mono1)
  consider "Suc s \<le> s'" | "Suc s' \<le> s" using assms(1) by linarith
  then show ?thesis
  proof cases
    case 1
    then have "Suc s * (M * r) \<le> s' * (M * r)" by (rule mult_le_mono1)
    with assms(4) nr show ?thesis unfolding mult.assoc mult_Suc by linarith
  next
    case 2
    then have "Suc s' * (M * r) \<le> s * (M * r)" by (rule mult_le_mono1)
    with assms(5) pr show ?thesis unfolding mult.assoc mult_Suc by linarith
  qed
qed

section \<open>Parking\<close>

text \<open>Parking a Kimi context is lossless: the export of the first \<open>n\<close> positions of a slot has the size
  that \<open>kv_bytes_per_token\<close> announces, and importing it into any slot of a decoder of the same shape
  restores exactly those cache rows in every layer and leaves every row of every other slot as it was.\<close>

theorem kimi_export_import:
  assumes ex: "kimi_export d s n = Ok b" and geo: "kimi_geo d2 = kimi_geo d" and s2: "s2 < y_batch_cap d2"
  shows "length b = kimi_bytes_per_token d * n \<and>
    (\<exists>d3. kimi_import d2 s2 n b = Ok d3 \<and> (\<forall>p < n. kimi_row d3 s2 p = kimi_row d s p) \<and>
       (\<forall>s' p. s' \<noteq> s2 \<and> p < y_max_seq d2 \<longrightarrow> kimi_row d3 s' p = kimi_row d2 s' p))"
proof -
  define r where "r = (y_kv_lora d + y_rope d) * 4"
  let ?xs = "map (\<lambda>l. rd (y_mem d l) (s * y_max_seq d * r) (n * r)) [0..<y_layers d]"
  have g: "y_layers d2 = y_layers d" "(y_kv_lora d2 + y_rope d2) * 4 = r" "y_max_seq d2 = y_max_seq d"
    using geo by (simp_all add: kimi_geo_def r_def)
  have n: "n \<le> y_max_seq d" and b: "b = concat ?xs" using ex by (simp_all add: kimi_export_Ok r_def)
  have all: "\<forall>x \<in> set ?xs. length x = n * r" by simp
  have len: "length b = y_layers d * (n * r)" unfolding b by (subst length_concat_const [OF all]) simp
  define d3 where "d3 = d2\<lparr>y_mem := copy_layers (y_mem d2) (s2 * y_max_seq d * r) (n * r) [0..<y_layers d] b\<rparr>"
  have im: "kimi_import d2 s2 n b = Ok d3" unfolding kimi_import_Ok g d3_def using s2 n len by simp
  have mem: "y_mem d3 l = wr (y_mem d2 l) (s2 * y_max_seq d * r) (rd (y_mem d l) (s * y_max_seq d * r) (n * r))" if "l < y_layers d" for l
  proof -
    have "take (n * r) (drop (l * (n * r)) b) = ?xs ! l" unfolding b by (rule nth_piece [OF all]) (use that in simp)
    then show ?thesis using that by (simp add: d3_def copy_layers_at)
  qed
  have own: "kimi_row d3 s2 p = kimi_row d s p" if p: "p < n" for p
  proof -
    have "rd (y_mem d3 l) (s2 * y_max_seq d * r + p * r) r = rd (y_mem d l) (s * y_max_seq d * r + p * r) r" if "l < y_layers d" for l
      unfolding rd_sub [OF p] mem [OF that] by (simp add: rd_wr_same)
    moreover have "(y_kv_lora d3 + y_rope d3) * 4 = r" "y_layers d3 = y_layers d" "y_max_seq d3 = y_max_seq d"
      using g by (simp_all add: d3_def)
    ultimately show ?thesis unfolding kimi_row_def Let_def g r_def [symmetric] by simp
  qed
  have other: "kimi_row d3 s' p = kimi_row d2 s' p" if "s' \<noteq> s2" "p < y_max_seq d2" for s' p
  proof -
    have "rd (y_mem d3 l) (s' * y_max_seq d * r + p * r) r = rd (y_mem d2 l) (s' * y_max_seq d * r + p * r) r" if l: "l < y_layers d" for l
    proof (rule rd_cong)
      fix x assume "s' * y_max_seq d * r + p * r \<le> x" "x < s' * y_max_seq d * r + p * r + r"
      then have "x < s2 * y_max_seq d * r \<or> s2 * y_max_seq d * r + n * r \<le> x"
        using kimi_slots_apart [of s2 s' n "y_max_seq d" p r x] n \<open>s' \<noteq> s2\<close> \<open>p < y_max_seq d2\<close> g(3) by simp
      then show "y_mem d3 l x = y_mem d2 l x" unfolding mem [OF l] by (auto simp: wr_def)
    qed
    moreover have "(y_kv_lora d3 + y_rope d3) * 4 = r" "y_layers d3 = y_layers d" "y_max_seq d3 = y_max_seq d"
      using g by (simp_all add: d3_def)
    ultimately show ?thesis unfolding kimi_row_def Let_def g r_def [symmetric] by simp
  qed
  have "length b = kimi_bytes_per_token d * n" using len by (simp add: kimi_bytes_per_token_def r_def algebra_simps)
  then show ?thesis using im own other by blast
qed

definition tiny_kimi :: kimi_kv where
  "tiny_kimi = \<lparr>y_layers = 2, y_kv_lora = 1, y_rope = 1, y_max_seq = 3, y_batch_cap = 2, y_mem = (\<lambda>l x. of_nat (100 * l + x))\<rparr>"

lemma kimi_export_import_witness:
  "\<exists>b d3. kimi_export tiny_kimi 0 2 = Ok b \<and> length b = 32 \<and> kimi_import tiny_kimi 1 2 b = Ok d3 \<and> kimi_row d3 1 1 = kimi_row tiny_kimi 0 1"
proof -
  obtain b where b: "kimi_export tiny_kimi 0 2 = Ok b" using kimi_export_Ok [of tiny_kimi 0 2] by (auto simp: tiny_kimi_def)
  have "1 < y_batch_cap tiny_kimi" by (simp add: tiny_kimi_def)
  from kimi_export_import [OF b refl this] obtain d3 where "length b = kimi_bytes_per_token tiny_kimi * 2"
    "kimi_import tiny_kimi 1 2 b = Ok d3" "\<forall>p < 2. kimi_row d3 1 p = kimi_row tiny_kimi 0 p" by blast
  then show ?thesis using b by (simp add: kimi_bytes_per_token_def tiny_kimi_def)
qed

end
