(* ===== verification/Device.thy ===== *)
theory Device
  imports Prelude "HOL-Library.Multiset"
begin

text \<open>
  Device memory as the decoders use it (\<open>alloc_device\<close>, \<open>htod_async\<close> with its \<open>sync_stream\<close>, and
  \<open>free_device\<close> of \<open>llmpager-cuda/src/driver.rs\<close>). The driver's answers are an argument: \<open>cu_alloc\<close>
  sees the addresses in use with their sizes, the number of the call and the size asked for. What is
  relied on is that an allocation never returns an address in use.
\<close>

section \<open>Memory\<close>

record cuda =
  cu_alloc :: "(u64 \<times> nat) list \<Rightarrow> nat \<Rightarrow> nat \<Rightarrow> u64 option"
  cu_mem :: "(u64 \<times> nat) list \<Rightarrow> nat \<Rightarrow> (u64 \<times> u64) option"
  cu_ok :: "nat \<Rightarrow> bool"

text \<open>\<open>gp_stray\<close> counts frees of addresses that are not allocated. Events are not counted.\<close>

record gpu =
  gp_live :: "u64 list"
  gp_len :: "u64 \<Rightarrow> nat"
  gp_data :: "u64 \<Rightarrow> bytes"
  gp_calls :: nat
  gp_stray :: nat

datatype device_error = OutOfMemory nat | CallFailed

definition in_use :: "gpu \<Rightarrow> (u64 \<times> nat) list" where
  "in_use g = map (\<lambda>p. (p, gp_len g p)) (gp_live g)"

definition alloc_fresh :: "cuda \<Rightarrow> bool" where
  "alloc_fresh C \<longleftrightarrow> (\<forall>live n len p. cu_alloc C live n len = Some p \<longrightarrow> p \<notin> fst ` set live)"

definition alloc_device :: "cuda \<Rightarrow> nat \<Rightarrow> gpu \<Rightarrow> (device_error, u64) res \<times> gpu" where
  "alloc_device C len g =
     (case cu_alloc C (in_use g) (gp_calls g) len of
        None \<Rightarrow> (Err (OutOfMemory len), g\<lparr>gp_calls := gp_calls g + 1\<rparr>)
      | Some p \<Rightarrow> (Ok p, g\<lparr>gp_live := gp_live g @ [p], gp_len := (gp_len g)(p := len), gp_data := (gp_data g)(p := []),
                         gp_calls := gp_calls g + 1\<rparr>))"

definition mem_info :: "cuda \<Rightarrow> gpu \<Rightarrow> (u64 \<times> u64) option" where
  "mem_info C g = cu_mem C (in_use g) (gp_calls g)"

definition upload :: "cuda \<Rightarrow> u64 \<Rightarrow> bytes \<Rightarrow> gpu \<Rightarrow> (device_error, unit) res \<times> gpu" where
  "upload C p bs g =
     (if cu_ok C (gp_calls g) then (Ok (), g\<lparr>gp_data := (gp_data g)(p := bs), gp_calls := gp_calls g + 1\<rparr>)
      else (Err CallFailed, g\<lparr>gp_calls := gp_calls g + 1\<rparr>))"

definition free_device :: "u64 \<Rightarrow> gpu \<Rightarrow> gpu" where
  "free_device p g =
     (if p \<in> set (gp_live g) then g\<lparr>gp_live := remove1 p (gp_live g)\<rparr> else g\<lparr>gp_stray := gp_stray g + 1\<rparr>)"

text \<open>Creating events, up to the first failure, and a synchronisation, which may fail.\<close>

fun make_events :: "cuda \<Rightarrow> nat \<Rightarrow> gpu \<Rightarrow> (device_error, unit) res \<times> gpu" where
  "make_events C 0 g = (Ok (), g)"
| "make_events C (Suc n) g =
     (let g1 = g\<lparr>gp_calls := gp_calls g + 1\<rparr> in if cu_ok C (gp_calls g) then make_events C n g1 else (Err CallFailed, g1))"

definition sync :: "cuda \<Rightarrow> gpu \<Rightarrow> (device_error, unit) res \<times> gpu" where
  "sync C g = (if cu_ok C (gp_calls g) then Ok () else Err CallFailed, g\<lparr>gp_calls := gp_calls g + 1\<rparr>)"

text \<open>Allocate and fill, the pattern of every upload; and many allocations in a row.\<close>

definition put_device :: "cuda \<Rightarrow> bytes \<Rightarrow> gpu \<Rightarrow> (device_error, u64) res \<times> gpu" where
  "put_device C bs g = and_then (alloc_device C (length bs) g) (\<lambda>p g1. and_then (upload C p bs g1) (\<lambda>_ g2. (Ok p, g2)))"

fun alloc_all :: "cuda \<Rightarrow> nat list \<Rightarrow> gpu \<Rightarrow> (device_error, u64 list) res \<times> gpu" where
  "alloc_all C [] g = (Ok [], g)"
| "alloc_all C (n # ns) g =
     and_then (alloc_device C n g) (\<lambda>p g1. and_then (alloc_all C ns g1) (\<lambda>ps g2. (Ok (p # ps), g2)))"

definition free_all :: "u64 list \<Rightarrow> gpu \<Rightarrow> gpu" where
  "free_all ps g = foldl (\<lambda>g p. free_device p g) g ps"

section \<open>Growth\<close>

text \<open>
  \<open>grows g g' ps\<close>: the addresses \<open>ps\<close> were allocated, in this order, on top of those of \<open>g\<close>, whose
  contents are untouched.
\<close>

definition grows :: "gpu \<Rightarrow> gpu \<Rightarrow> u64 list \<Rightarrow> bool" where
  "grows g g' ps \<longleftrightarrow> gp_live g' = gp_live g @ ps \<and> distinct ps \<and> set ps \<inter> set (gp_live g) = {} \<and>
     (\<forall>p \<in> set (gp_live g). gp_data g' p = gp_data g p) \<and> gp_stray g' = gp_stray g"

named_theorems grow_intros

lemma grows_refl [grow_intros]: "grows g g []"
  by (simp add: grows_def)

lemma grows_trans: "grows g g1 ps \<Longrightarrow> grows g1 g2 qs \<Longrightarrow> grows g g2 (ps @ qs)"
  by (auto simp: grows_def)

lemma grows_keeps: "grows g1 g2 qs \<Longrightarrow> p \<in> set (gp_live g1) \<Longrightarrow> gp_data g2 p = gp_data g1 p \<and> p \<in> set (gp_live g2)"
  by (simp add: grows_def)

lemma grows_live: "grows g g' ps \<Longrightarrow> set ps \<subseteq> set (gp_live g')"
  by (simp add: grows_def)

lemma alloc_device_grows:
  assumes "alloc_fresh C" "alloc_device C n g = (r, g')"
  shows "case r of Ok p \<Rightarrow> grows g g' [p] | Err e \<Rightarrow> grows g g' [] | Panic \<Rightarrow> False"
  using assms by (fastforce simp: alloc_device_def alloc_fresh_def grows_def in_use_def image_iff split: option.splits)

lemma upload_grows:
  assumes "upload C p bs g1 = (r, g2)" "grows g g1 [p]"
  shows "grows g g2 [p]" "r = Ok () \<Longrightarrow> gp_data g2 p = bs" "r \<noteq> Panic"
  using assms by (auto simp: upload_def grows_def split: if_splits)

text \<open>
  \<open>adds g r Q\<close>: an action started in \<open>g\<close> only adds allocations, and its value satisfies \<open>Q\<close> with
  the list of them and the memory it leaves. The rules follow the shape of the actions.
\<close>

definition adds :: "gpu \<Rightarrow> ('e, 'a) res \<times> gpu \<Rightarrow> ('a \<Rightarrow> u64 list \<Rightarrow> gpu \<Rightarrow> bool) \<Rightarrow> bool" where
  "adds g r Q \<longleftrightarrow> (\<exists>ps. grows g (snd r) ps \<and> (\<forall>x. fst r = Ok x \<longrightarrow> Q x ps (snd r)))"

lemma adds_ok [grow_intros]: "Q x [] g \<Longrightarrow> adds g (Ok x, g) Q"
  and adds_err [grow_intros]: "adds g (Err e, g) Q"
  and adds_panic [grow_intros]: "adds g (Panic, g) Q"
  using grows_refl by (auto simp: adds_def)

lemma adds_then:
  assumes "adds g r P" "\<And>x ps g1. grows g g1 ps \<Longrightarrow> P x ps g1 \<Longrightarrow> adds g1 (f x g1) (\<lambda>y qs. Q y (ps @ qs))"
  shows "adds g (and_then r f) Q"
proof (cases r)
  case (Pair r1 g1)
  with assms(1) obtain ps where ps: "grows g g1 ps" "\<forall>x. r1 = Ok x \<longrightarrow> P x ps g1" by (auto simp: adds_def)
  show ?thesis
  proof (cases r1)
    case (Ok x)
    with ps assms(2) [of g1 ps x] obtain qs where "grows g1 (snd (f x g1)) qs"
        "\<forall>y. fst (f x g1) = Ok y \<longrightarrow> Q y (ps @ qs) (snd (f x g1))" by (auto simp: adds_def)
    then show ?thesis using grows_trans [OF ps(1)] Pair Ok by (auto simp: adds_def)
  qed (use ps Pair in \<open>auto simp: adds_def\<close>)
qed

lemma adds_mono: "adds g r P \<Longrightarrow> (\<And>x ps g'. grows g g' ps \<Longrightarrow> P x ps g' \<Longrightarrow> Q x ps g') \<Longrightarrow> adds g r Q"
  unfolding adds_def by blast

lemma alloc_device_adds [grow_intros]: "alloc_fresh C \<Longrightarrow> adds g (alloc_device C n g) (\<lambda>p ps g'. ps = [p])"
  using alloc_device_grows [of C n g "fst (alloc_device C n g)" "snd (alloc_device C n g)"]
  by (auto simp: adds_def split: res.splits)

lemma put_device_adds:
  assumes C: "alloc_fresh C"
  shows "adds g (put_device C bs g) (\<lambda>p ps g'. ps = [p] \<and> gp_data g' p = bs)"
proof -
  obtain r1 g1 where a: "alloc_device C (length bs) g = (r1, g1)" by fastforce
  note ag = alloc_device_grows [OF C a]
  show ?thesis
  proof (cases r1)
    case (Ok p)
    then have g1: "grows g g1 [p]" using ag by simp
    obtain r2 g2 where u: "upload C p bs g1 = (r2, g2)" by fastforce
    have p: "put_device C bs g = and_then (r2, g2) (\<lambda>_ g2. (Ok p, g2))" by (simp add: put_device_def a Ok u)
    show ?thesis using upload_grows [OF u g1] by (cases r2) (auto simp: adds_def p)
  qed (use ag in \<open>auto simp: put_device_def a adds_def\<close>)
qed

lemma alloc_all_adds: "alloc_fresh C \<Longrightarrow> adds g (alloc_all C ns g) (\<lambda>qs ps g'. ps = qs \<and> length qs = length ns)"
proof (induction ns arbitrary: g)
  case (Cons n ns)
  show ?case unfolding alloc_all.simps
    by (rule adds_then [OF alloc_device_adds [OF Cons.prems]], rule adds_then [OF Cons.IH [OF Cons.prems]]) (auto intro: grow_intros)
qed (auto intro: grow_intros)

lemma touch_grows: "grows g (g\<lparr>gp_calls := n\<rparr>) []"
  by (simp add: grows_def)

lemma make_events_adds: "adds g (make_events C n g) (\<lambda>_ ps g'. ps = [])"
proof (induction n arbitrary: g)
  case (Suc n)
  from Suc [of "g\<lparr>gp_calls := gp_calls g + 1\<rparr>"] show ?case
    using touch_grows [of g "gp_calls g + 1"] by (auto simp: adds_def Let_def grows_def)
qed (auto intro: grow_intros)

lemma grows_mset: "grows g g' ps \<Longrightarrow> mset (gp_live g') = mset (gp_live g) + mset ps"
  by (simp add: grows_def)

section \<open>Freeing\<close>

text \<open>Freeing addresses that are all in use takes exactly these away.\<close>

lemma free_all_mset:
  "mset ps \<subseteq># mset (gp_live g) \<Longrightarrow>
     mset (gp_live (free_all ps g)) = mset (gp_live g) - mset ps \<and> gp_stray (free_all ps g) = gp_stray g"
proof (induction ps arbitrary: g)
  case (Cons p ps)
  let ?g = "free_device p g"
  have p: "p \<in># mset (gp_live g)" using Cons.prems by (simp add: insert_subset_eq_iff)
  then have g: "mset (gp_live ?g) = mset (gp_live g) - {#p#}" "gp_stray ?g = gp_stray g" by (simp_all add: free_device_def)
  have "mset ps \<subseteq># mset (gp_live ?g)" using Cons.prems g by (simp add: insert_subset_eq_iff)
  from Cons.IH [OF this] g show ?case by (simp add: free_all_def)
qed (simp add: free_all_def)

lemma free_all_data [simp]: "gp_data (free_all ps g) = gp_data g"
  unfolding free_all_def by (induction ps arbitrary: g) (auto simp: free_device_def)

end
