(* ===== verification/Core_Load.thy ===== *)
theory Core_Load
  imports Model Device Gguf
begin

text \<open>
  The resident weights on the device (\<open>CoreWeights::load\<close> of \<open>llmpager-run/src/model.rs\<close>): each tensor
  is read from the core file, checked, turned into the bytes the kernels expect (bf16 as stored, q4
  blocks of 64, or \<open>f32\<close> for norms), and uploaded to an allocation of its own. An error returns at
  once; what was allocated before stays.
\<close>

datatype load_error = LSt st_error | LDtype string string | LSize string nat nat | LShape string "nat list" | LQuant quant_error
  | LDev device_error

section \<open>Host side\<close>

definition bf16_host :: "safetensors \<Rightarrow> string \<Rightarrow> nat \<Rightarrow> (load_error, bytes) res" where
  "bf16_host st name want =
     bind_res (map_err LSt (st_raw st name)) (\<lambda>(raw, info).
       if t_dtype info \<noteq> ''BF16'' then Err (LDtype name (t_dtype info))
       else if length raw \<noteq> want * 2 then Err (LSize name (length raw) (want * 2)) else Ok raw)"

definition goes_q4 :: "bool \<Rightarrow> nat \<Rightarrow> bool" where
  "goes_q4 core_q4 cols \<longleftrightarrow> core_q4 \<and> cols mod 64 = 0"

definition q4_host :: "'f f32_ops \<Rightarrow> safetensors \<Rightarrow> string \<Rightarrow> nat \<Rightarrow> nat \<Rightarrow> (load_error, bytes) res" where
  "q4_host F st name rows cols =
     bind_res (map_err LSt (st_f32 F st name)) (\<lambda>(vals, shape).
       if shape \<noteq> [rows, cols] then Err (LShape name shape)
       else bind_res (map_err LQuant (q4_quantize F vals rows cols 64 (replicate (q4_bytes rows cols 64) 0))) (\<lambda>(e, blob). Ok blob))"

definition mat_host :: "'f f32_ops \<Rightarrow> safetensors \<Rightarrow> bool \<Rightarrow> string \<Rightarrow> nat \<Rightarrow> nat \<Rightarrow> (load_error, bytes) res" where
  "mat_host F st core_q4 name rows cols =
     (if goes_q4 core_q4 cols then q4_host F st name rows cols else bf16_host st name (rows * cols))"

definition f32_bytes :: "('f, 'm) f32_ops_scheme \<Rightarrow> 'f list \<Rightarrow> bytes" where
  "f32_bytes F v = concat (map (\<lambda>x. to_le 4 (unat (f_to_bits F x))) v)"

definition norm_host :: "('f, 'm) f32_ops_scheme \<Rightarrow> safetensors \<Rightarrow> string \<Rightarrow> nat \<Rightarrow> (load_error, bytes) res" where
  "norm_host F st name want =
     bind_res (map_err LSt (st_f32 F st name)) (\<lambda>(vals, _).
       if length vals \<noteq> want then Err (LSize name (length vals) want) else Ok (f32_bytes F vals))"

section \<open>Onto the device\<close>

definition on_device :: "(device_error, 'a) res \<times> gpu \<Rightarrow> (load_error, 'a) res \<times> gpu" where
  "on_device r = (map_err LDev (fst r), snd r)"

definition put_item :: "cuda \<Rightarrow> (load_error, bytes) res \<Rightarrow> gpu \<Rightarrow> (load_error, u64) res \<times> gpu" where
  "put_item C item g = and_then (item, g) (\<lambda>bs g1. on_device (put_device C bs g1))"

fun put_items :: "cuda \<Rightarrow> (load_error, bytes) res list \<Rightarrow> gpu \<Rightarrow> (load_error, u64 list) res \<times> gpu" where
  "put_items C [] g = (Ok [], g)"
| "put_items C (item # items) g =
     and_then (put_item C item g) (\<lambda>p g1. and_then (put_items C items g1) (\<lambda>ps g2. (Ok (p # ps), g2)))"

definition layer_prefix :: "nat \<Rightarrow> string" where
  "layer_prefix l = ''model.layers.'' @ show_nat l"

text \<open>The tensors of a layer, in the order the fields of \<open>LayerWeights\<close> are loaded.\<close>

definition layer_items :: "'f f32_ops \<Rightarrow> safetensors \<Rightarrow> 'f config \<Rightarrow> bool \<Rightarrow> nat \<Rightarrow> (load_error, bytes) res list" where
  "layer_items F st c q4 l =
     (let p = layer_prefix l; qkv = cf_heads c * cf_head_dim c; kv = cf_kv_heads c * cf_head_dim c; hid = cf_hidden c in
      [norm_host F st (p @ ''.input_layernorm.weight'') hid,
       mat_host F st q4 (p @ ''.self_attn.q_proj.weight'') qkv hid,
       mat_host F st q4 (p @ ''.self_attn.k_proj.weight'') kv hid,
       mat_host F st q4 (p @ ''.self_attn.v_proj.weight'') kv hid,
       mat_host F st q4 (p @ ''.self_attn.o_proj.weight'') hid qkv,
       norm_host F st (p @ ''.self_attn.q_norm.weight'') (cf_head_dim c),
       norm_host F st (p @ ''.self_attn.k_norm.weight'') (cf_head_dim c),
       norm_host F st (p @ ''.post_attention_layernorm.weight'') hid,
       mat_host F st q4 (p @ ''.mlp.gate.weight'') (cf_experts c) hid])"

definition mat_at :: "bool \<Rightarrow> nat \<Rightarrow> nat \<Rightarrow> u64 \<Rightarrow> mat" where
  "mat_at q4 rows cols p = \<lparr>mt_dev = p, mt_rows = of_nat rows, mt_cols = of_nat cols, mt_q4 = goes_q4 q4 cols\<rparr>"

definition layer_of :: "'f config \<Rightarrow> bool \<Rightarrow> u64 list \<Rightarrow> layer_weights" where
  "layer_of c q4 ps =
     (let qkv = cf_heads c * cf_head_dim c; kv = cf_kv_heads c * cf_head_dim c; hid = cf_hidden c in
      \<lparr>w_input_ln = ps ! 0, w_q = mat_at q4 qkv hid (ps ! 1), w_k = mat_at q4 kv hid (ps ! 2), w_v = mat_at q4 kv hid (ps ! 3),
       w_o = mat_at q4 hid qkv (ps ! 4), w_q_norm = ps ! 5, w_k_norm = ps ! 6, w_post_ln = ps ! 7,
       w_router = mat_at q4 (cf_experts c) hid (ps ! 8)\<rparr>)"

fun load_layers ::
  "cuda \<Rightarrow> 'f f32_ops \<Rightarrow> safetensors \<Rightarrow> 'f config \<Rightarrow> bool \<Rightarrow> nat list \<Rightarrow> gpu \<Rightarrow> (load_error, layer_weights list) res \<times> gpu" where
  "load_layers C F st c q4 [] g = (Ok [], g)"
| "load_layers C F st c q4 (l # ls) g =
     and_then (put_items C (layer_items F st c q4 l) g) (\<lambda>ps g1.
     and_then (load_layers C F st c q4 ls g1) (\<lambda>ws g2. (Ok (layer_of c q4 ps # ws), g2)))"

definition embed_host :: "safetensors \<Rightarrow> 'f config \<Rightarrow> (load_error, bytes) res" where
  "embed_host st c = bf16_host st ''model.embed_tokens.weight'' (cf_vocab c * cf_hidden c)"

definition lm_head_name :: string where
  "lm_head_name = ''lm_head.weight''"

definition load_head :: "cuda \<Rightarrow> 'f f32_ops \<Rightarrow> safetensors \<Rightarrow> 'f config \<Rightarrow> bool \<Rightarrow> u64 \<Rightarrow> gpu \<Rightarrow> (load_error, mat) res \<times> gpu" where
  "load_head C F st c q4 emb g =
     (if lm_head_name \<in> set (st_names st) then
        and_then (put_item C (mat_host F st q4 lm_head_name (cf_vocab c) (cf_hidden c)) g) (\<lambda>p g1.
          (Ok (mat_at q4 (cf_vocab c) (cf_hidden c) p), g1))
      else (Ok \<lparr>mt_dev = emb, mt_rows = of_nat (cf_vocab c), mt_cols = of_nat (cf_hidden c), mt_q4 = False\<rparr>, g))"

definition upload_core ::
  "cuda \<Rightarrow> 'f f32_ops \<Rightarrow> safetensors \<Rightarrow> 'f config \<Rightarrow> bool \<Rightarrow> gpu \<Rightarrow> (load_error, core_weights) res \<times> gpu" where
  "upload_core C F st c q4 g =
     and_then (load_layers C F st c q4 [0..<cf_layers c] g) (\<lambda>ws g1.
     and_then (put_item C (embed_host st c) g1) (\<lambda>emb g2.
     and_then (load_head C F st c q4 emb g2) (\<lambda>head g3.
     and_then (put_item C (norm_host F st ''model.norm.weight'' (cf_hidden c)) g3) (\<lambda>fnorm g4.
       (Ok \<lparr>cw_embed = emb, cw_final_norm = fnorm, cw_lm_head = head, cw_layers = ws\<rparr>, g4)))))"

definition core_load ::
  "cuda \<Rightarrow> 'f f32_ops \<Rightarrow> (bytes \<Rightarrow> 'j json option) \<Rightarrow> file_bytes \<Rightarrow> 'f config \<Rightarrow> bool \<Rightarrow> gpu
     \<Rightarrow> (load_error, core_weights) res \<times> gpu" where
  "core_load C F parse core c q4 g =
     and_then (map_err LSt (st_open parse core), g) (\<lambda>st g0. upload_core C F st c q4 g0)"

section \<open>What loading does to the device\<close>

text \<open>Each item's bytes are at its address.\<close>

definition placed :: "gpu \<Rightarrow> (load_error, bytes) res list \<Rightarrow> u64 list \<Rightarrow> bool" where
  "placed g items ps \<longleftrightarrow> list_all2 (\<lambda>item p. p \<in> set (gp_live g) \<and> item = Ok (gp_data g p)) items ps"

lemma placed_keeps: "placed g1 items ps \<Longrightarrow> grows g1 g2 qs \<Longrightarrow> placed g2 items ps"
  unfolding placed_def by (erule list_all2_mono) (use grows_keeps in fastforce)

lemma put_item_adds:
  assumes "alloc_fresh C"
  shows "adds g (put_item C item g) (\<lambda>p ps g'. ps = [p] \<and> placed g' [item] [p])"
proof (cases item)
  case (Ok bs)
  have "put_item C item g = on_device (put_device C bs g)" by (simp add: put_item_def Ok)
  moreover obtain ps where "grows g (snd (put_device C bs g)) ps"
      "\<forall>p. fst (put_device C bs g) = Ok p \<longrightarrow> ps = [p] \<and> gp_data (snd (put_device C bs g)) p = bs"
    using put_device_adds [OF assms, of g bs] by (auto simp: adds_def)
  ultimately show ?thesis using grows_live [of g "snd (put_device C bs g)" ps]
    by (cases "fst (put_device C bs g)") (auto simp: adds_def placed_def Ok on_device_def)
qed (auto simp: put_item_def intro: grow_intros)

lemma put_items_adds:
  assumes "alloc_fresh C"
  shows "adds g (put_items C items g) (\<lambda>qs ps g'. ps = qs \<and> placed g' items qs)"
proof (induction items arbitrary: g)
  case (Cons item items)
  show ?case unfolding put_items.simps
  proof (rule adds_then [OF put_item_adds [OF assms]], rule adds_then [OF Cons.IH])
    fix p ps g1 qs ps' g2
    assume "grows g1 g2 ps'" "ps = [p] \<and> placed g1 [item] [p]" "ps' = qs \<and> placed g2 items qs"
    then show "adds g2 (Ok (p # qs), g2) (\<lambda>y qs' g'. ps @ ps' @ qs' = y \<and> placed g' (item # items) y)"
      using placed_keeps [of g1 "[item]" "[p]" g2 ps'] by (auto simp: placed_def intro!: grow_intros)
  qed
qed (auto simp: placed_def intro: grow_intros)

lemma layer_ptrs_of: "length ps = 9 \<Longrightarrow> layer_ptrs (layer_of c q4 ps) = ps"
  by (auto simp: layer_ptrs_def layer_of_def mat_at_def Let_def numeral_nat length_Suc_conv)

definition layers_placed :: "gpu \<Rightarrow> 'f f32_ops \<Rightarrow> safetensors \<Rightarrow> 'f config \<Rightarrow> bool \<Rightarrow> nat list \<Rightarrow> layer_weights list \<Rightarrow> bool" where
  "layers_placed g F st c q4 ls ws \<longleftrightarrow>
     list_all2 (\<lambda>l w. w = layer_of c q4 (layer_ptrs w) \<and> placed g (layer_items F st c q4 l) (layer_ptrs w)) ls ws"

lemma layers_placed_keeps: "layers_placed g1 F st c q4 ls ws \<Longrightarrow> grows g1 g2 qs \<Longrightarrow> layers_placed g2 F st c q4 ls ws"
  unfolding layers_placed_def by (erule list_all2_mono) (use placed_keeps in blast)

lemma load_layers_adds:
  assumes "alloc_fresh C"
  shows "adds g (load_layers C F st c q4 ls g) (\<lambda>ws ps g'. ps = concat (map layer_ptrs ws) \<and> layers_placed g' F st c q4 ls ws)"
proof (induction ls arbitrary: g)
  case (Cons l ls)
  show ?case unfolding load_layers.simps
  proof (rule adds_then [OF put_items_adds [OF assms]], rule adds_then [OF Cons.IH])
    fix qs ps g1 ws ps' g2
    assume a: "grows g1 g2 ps'" "ps = qs \<and> placed g1 (layer_items F st c q4 l) qs"
      "ps' = concat (map layer_ptrs ws) \<and> layers_placed g2 F st c q4 ls ws"
    then have "length qs = 9" by (auto simp: placed_def layer_items_def Let_def dest: list_all2_lengthD)
    then have "layer_ptrs (layer_of c q4 qs) = qs" by (rule layer_ptrs_of)
    with a show "adds g2 (Ok (layer_of c q4 qs # ws), g2)
        (\<lambda>ws qs' g'. ps @ ps' @ qs' = concat (map layer_ptrs ws) \<and> layers_placed g' F st c q4 (l # ls) ws)"
      using placed_keeps [of g1 "layer_items F st c q4 l" qs g2 ps'] by (auto simp: layers_placed_def intro!: grow_intros)
  qed
qed (auto simp: layers_placed_def intro: grow_intros)

lemma load_head_adds:
  assumes "alloc_fresh C"
  shows "adds g (load_head C F st c q4 emb g) (\<lambda>m ps g'.
    if lm_head_name \<in> set (st_names st) then ps = [mt_dev m] \<and> placed g' [mat_host F st q4 lm_head_name (cf_vocab c) (cf_hidden c)] ps
    else ps = [] \<and> mt_dev m = emb \<and> \<not> mt_q4 m)"
proof (cases "lm_head_name \<in> set (st_names st)")
  case True
  show ?thesis unfolding load_head_def if_P [OF True]
    by (rule adds_then [OF put_item_adds [OF assms]]) (auto simp: mat_at_def intro!: grow_intros)
qed (auto simp: load_head_def intro!: grow_intros)

text \<open>What a loaded core is: every weight at the address the decoder will use for it.\<close>

definition core_placed :: "gpu \<Rightarrow> 'f f32_ops \<Rightarrow> safetensors \<Rightarrow> 'f config \<Rightarrow> bool \<Rightarrow> core_weights \<Rightarrow> bool" where
  "core_placed g F st c q4 w \<longleftrightarrow>
     layers_placed g F st c q4 [0..<cf_layers c] (cw_layers w) \<and> placed g [embed_host st c] [cw_embed w] \<and>
     placed g [norm_host F st ''model.norm.weight'' (cf_hidden c)] [cw_final_norm w] \<and>
     (if lm_head_name \<in> set (st_names st) then placed g [mat_host F st q4 lm_head_name (cf_vocab c) (cf_hidden c)] [mt_dev (cw_lm_head w)]
      else mt_dev (cw_lm_head w) = cw_embed w \<and> \<not> mt_q4 (cw_lm_head w))"

lemma upload_core_adds:
  assumes "alloc_fresh C"
  shows "adds g (upload_core C F st c q4 g) (\<lambda>w ps g'. set (core_ptrs w) = set ps \<and> core_placed g' F st c q4 w)"
  unfolding upload_core_def
proof (rule adds_then [OF load_layers_adds [OF assms]], rule adds_then [OF put_item_adds [OF assms]],
    rule adds_then [OF load_head_adds [OF assms]], rule adds_then [OF put_item_adds [OF assms]])
  fix ws ps g1 emb ps1 g2 ps2 g3 fnorm ps3 g4 and head :: mat
  assume a: "ps = concat (map layer_ptrs ws) \<and> layers_placed g1 F st c q4 [0..<cf_layers c] ws"
    "ps1 = [emb] \<and> placed g2 [embed_host st c] [emb]"
    "if lm_head_name \<in> set (st_names st) then ps2 = [mt_dev head] \<and> placed g3 [mat_host F st q4 lm_head_name (cf_vocab c) (cf_hidden c)] ps2
     else ps2 = [] \<and> mt_dev head = emb \<and> \<not> mt_q4 head"
    "ps3 = [fnorm] \<and> placed g4 [norm_host F st ''model.norm.weight'' (cf_hidden c)] [fnorm]"
  assume g: "grows g1 g2 ps1" "grows g2 g3 ps2" "grows g3 g4 ps3"
  have "layers_placed g4 F st c q4 [0..<cf_layers c] ws" "placed g4 [embed_host st c] [emb]"
    using a g by (blast intro: layers_placed_keeps placed_keeps)+
  moreover have "placed g4 [mat_host F st q4 lm_head_name (cf_vocab c) (cf_hidden c)] ps2" if "lm_head_name \<in> set (st_names st)"
    by (rule placed_keeps [OF _ g(3)]) (use a(3) that in auto)
  ultimately show "adds g4 (Ok \<lparr>cw_embed = emb, cw_final_norm = fnorm, cw_lm_head = head, cw_layers = ws\<rparr>, g4)
      (\<lambda>w qs g'. set (core_ptrs w) = set (ps @ ps1 @ ps2 @ ps3 @ qs) \<and> core_placed g' F st c q4 w)"
    using a by (intro adds_ok) (auto simp: core_placed_def core_ptrs_def split: if_splits)
qed

lemma core_load_adds:
  assumes "alloc_fresh C"
  shows "adds g (core_load C F parse core c q4 g) (\<lambda>w ps g'.
    \<exists>st. st_open parse core = Ok st \<and> set (core_ptrs w) = set ps \<and> core_placed g' F st c q4 w)"
  unfolding core_load_def
  by (cases "st_open parse core") (auto intro!: grow_intros adds_mono [OF upload_core_adds [OF assms]])

text \<open>C26:
  Loading the core writes into device memory, at the address each field of \<open>CoreWeights\<close> names, the
  bytes of that field's tensor, checked for type, shape and size; \<open>lm_head\<close> falls back on the
  embedding table when the file has no such tensor; what was on the device before is untouched, and
  \<open>device_ptrs\<close> lists exactly the addresses the load allocated.\<close>
theorem core_load_places_weights:
  fixes F :: "'f f32_ops"
  assumes C: "alloc_fresh C" and r: "core_load C F parse core c q4 g = (Ok w, g')"
  shows "\<exists>st. st_open parse core = Ok st \<and> core_placed g' F st c q4 w \<and> grows g g' (drop (length (gp_live g)) (gp_live g')) \<and>
    set (core_ptrs w) = set (drop (length (gp_live g)) (gp_live g'))"
proof -
  from core_load_adds [OF C, of g F parse core c q4] r obtain ps st where "grows g g' ps" "st_open parse core = Ok st"
      "set (core_ptrs w) = set ps" "core_placed g' F st c q4 w" by (auto simp: adds_def)
  moreover from this(1) have "drop (length (gp_live g)) (gp_live g') = ps" by (simp add: grows_def)
  ultimately show ?thesis by auto
qed

end
