(* ===== verification/Lifecycle.thy ===== *)
theory Lifecycle
  imports Core_Load Pager_Request Convert
begin

text \<open>
  A decoder's life on the device: \<open>Decoder::new\<close>, \<open>resize_cache\<close> and \<open>Drop\<close> of
  \<open>llmpager-run/src/decode.rs\<close>, with the allocations of \<open>Pager::new\<close> and its \<open>Drop\<close>. The pack
  and core files, the two JSON parsers and the driver are arguments. Opening the driver library and
  loading the kernel module come before any allocation and are left out.
\<close>

section \<open>The pager's memory\<close>

datatype life_error = LfPack pack_error | LfConfig config_error | LfDtype string | LfLoad load_error | LfPager pager_error
  | LfDevice device_error

definition lift_dev :: "(device_error, 'a) res \<times> gpu \<Rightarrow> (life_error, 'a) res \<times> gpu" where
  "lift_dev r = (map_err LfDevice (fst r), snd r)"

text \<open>What a decoder keeps to rebuild its pager from: the pack and the environment.\<close>

record 'c pager_env =
  pe_de :: "bytes \<Rightarrow> 'c pack_meta option"
  pe_pack :: file_bytes
  pe_global :: bool
  pe_decay :: "u32 option"

text \<open>
  \<open>Pager::new\<close>: with a reserve it asks the card for its memory; then the clamp, an arena per layer,
  an event per slot, and the state (\<open>pager_new\<close> of theory \<open>Pager\<close>, given the arenas). The value
  is the pager with the addresses it must free.
\<close>

definition pager_build :: "cuda \<Rightarrow> 'c pager_env \<Rightarrow> pager_config \<Rightarrow> gpu \<Rightarrow> (life_error, pager \<times> u64 list) res \<times> gpu" where
  "pager_build C E cfg g =
     and_then (map_err LfPack (open_inner (pe_de E) (pe_pack E) (cfg_direct cfg)), g) (\<lambda>r g0.
       let spn = align_span (max_blob_bytes r); layers = pm_layers (r_meta r); mem = mem_info C g0;
           g1 = (if 0 < cfg_reserve cfg then g0\<lparr>gp_calls := gp_calls g0 + 1\<rparr> else g0) in
       and_then (map_err LfPager (clamp_slots mem layers spn cfg), g1) (\<lambda>slots g2.
       and_then (lift_dev (alloc_all C (replicate (unat layers) (unat slots * spn)) g2)) (\<lambda>arenas g3.
       and_then (lift_dev (make_events C (unat layers * unat slots) g3)) (\<lambda>_ g4.
       and_then (map_err LfPager (pager_new mem (nth_opt arenas) (pe_global E) (pe_decay E) layers (pm_experts (r_meta r))
                                    (max_blob_bytes r) cfg), g4) (\<lambda>p g5.
         (Ok (p, arenas), g5))))))"

definition pager_drop :: "(pager \<times> u64 list) option \<Rightarrow> gpu \<Rightarrow> gpu" where
  "pager_drop pg g = (case pg of None \<Rightarrow> g | Some (p, arenas) \<Rightarrow> free_all arenas g)"

section \<open>Decoders\<close>

text \<open>
  What both decoders keep: the pager, and what is needed to build it again. The pack is read through
  its path; where a function takes a \<open>pager_env\<close>, it is the one found at \<open>dm_pack\<close>.
\<close>

record dev_mem =
  dm_pager :: "(pager \<times> u64 list) option"
  dm_pack :: string
  dm_io_threads :: nat
  dm_direct :: bool
  dm_ram :: u64
  dm_reserve :: u64
  dm_group :: nat
  dm_batch :: nat

record dec_mem = dev_mem +
  dm_bufs :: "u64 list"
  dm_kcache :: "u64 list"
  dm_vcache :: "u64 list"
  dm_core :: core_weights

text \<open>The offsets of the three projections in an expert's blob, and the bytes of a KV cache.\<close>

definition expert_group :: "string \<Rightarrow> (life_error, nat) res" where
  "expert_group dtype =
     (if dtype = ''q4g64-gud'' then Ok 64 else if dtype = ''q4g32-gud'' then Ok 32 else Err (LfDtype dtype))"

definition blob_offsets :: "'f config \<Rightarrow> nat \<Rightarrow> nat \<times> nat \<times> nat" where
  "blob_offsets c grp = (let gate_bytes = q4_bytes (cf_moe_inter c) (cf_hidden c) grp in (32, 32 + gate_bytes, 32 + 2 * gate_bytes))"

definition kv_bytes :: "'f config \<Rightarrow> bool \<Rightarrow> nat \<Rightarrow> nat \<Rightarrow> nat" where
  "kv_bytes c kv_f16 batch_cap max_seq = batch_cap * cf_kv_heads c * max_seq * cf_head_dim c * (if kv_f16 then 2 else 4)"

text \<open>The sizes of the nineteen work buffers, in the order they are allocated.\<close>

definition buffer_sizes :: "'f config \<Rightarrow> nat \<Rightarrow> nat list" where
  "buffer_sizes c max_seq =
     (let f = (*) 4; qkv = cf_heads c * cf_head_dim c; kvd = cf_kv_heads c * cf_head_dim c; chunk_cap = 64 in
      map f [cf_hidden c, cf_hidden c, qkv, kvd, kvd, qkv, cf_hidden c, cf_experts c, cf_top_k c * cf_moe_inter c,
             cf_top_k c * cf_moe_inter c, cf_top_k c * cf_moe_inter c, cf_top_k c * cf_hidden c] @
      [cf_top_k c * 8] @
      map f [cf_top_k c, cf_vocab c, cf_heads c * max_seq, chunk_cap * cf_hidden c, chunk_cap * cf_hidden c, chunk_cap * cf_experts c])"

fun alloc_kv :: "cuda \<Rightarrow> nat \<Rightarrow> nat \<Rightarrow> gpu \<Rightarrow> (device_error, u64 list \<times> u64 list) res \<times> gpu" where
  "alloc_kv C n 0 g = (Ok ([], []), g)"
| "alloc_kv C n (Suc layers) g =
     and_then (alloc_device C n g) (\<lambda>k g1.
     and_then (alloc_device C n g1) (\<lambda>v g2.
     and_then (alloc_kv C n layers g2) (\<lambda>kvs g3. (Ok (k # fst kvs, v # snd kvs), g3))))"

text \<open>The pager's configuration for a number of slots; \<open>slots * 4\<close> wraps.\<close>

definition pager_conf :: "nat \<Rightarrow> bool \<Rightarrow> u64 \<Rightarrow> u32 \<Rightarrow> u64 \<Rightarrow> pager_config" where
  "pager_conf io direct ram slots reserve =
     \<lparr>cfg_slots = slots, cfg_io_threads = io, cfg_decay = max 64 (slots * 4), cfg_direct = direct, cfg_ram_bytes = ram,
      cfg_reserve = reserve\<rparr>"

record 'f dec_args =
  da_pack :: string
  da_slots :: u32
  da_io_threads :: nat
  da_max_seq :: nat
  da_core_q4 :: bool
  da_direct :: bool
  da_ram :: u64
  da_reserve :: u64
  da_batch_cap :: nat
  da_kv_f16 :: bool
  da_f32_of :: "'f json \<Rightarrow> 'f option"
  da_eps :: 'f
  da_theta :: 'f

definition decoder_new ::
  "cuda \<Rightarrow> 'f json pager_env \<Rightarrow> 'f f32_ops \<Rightarrow> (bytes \<Rightarrow> 'j json option) \<Rightarrow> file_bytes \<Rightarrow> 'f dec_args \<Rightarrow> gpu
     \<Rightarrow> (life_error, dec_mem) res \<times> gpu" where
  "decoder_new C E F parse core a g =
     and_then (map_err LfPack (open_inner (pe_de E) (pe_pack E) False), g) (\<lambda>r g0.
     and_then (map_err LfConfig (config_from_json (da_f32_of a) (da_eps a) (da_theta a) (pm_config (r_meta r))), g0) (\<lambda>cfg g1.
     and_then (expert_group (pm_dtype (r_meta r)), g1) (\<lambda>grp g2.
     and_then (case core_load C F parse core cfg (da_core_q4 a) g2 of (x, g') \<Rightarrow> (map_err LfLoad x, g')) (\<lambda>w g3.
     and_then (pager_build C E (pager_conf (da_io_threads a) (da_direct a) (da_ram a) (da_slots a) (da_reserve a)) g3) (\<lambda>pg g4.
     and_then (lift_dev (alloc_kv C (kv_bytes cfg (da_kv_f16 a) (max 1 (da_batch_cap a)) (da_max_seq a)) (cf_layers cfg) g4)) (\<lambda>kv g5.
     and_then (lift_dev (alloc_all C (buffer_sizes cfg (da_max_seq a)) g5)) (\<lambda>bufs g6.
     and_then (lift_dev (make_events C 8 g6)) (\<lambda>_ g7.
       (Ok \<lparr>dm_pager = Some pg, dm_pack = da_pack a, dm_io_threads = da_io_threads a, dm_direct = da_direct a, dm_ram = da_ram a, dm_reserve = da_reserve a,
            dm_group = grp, dm_batch = max 1 (da_batch_cap a), dm_bufs = bufs, dm_kcache = fst kv, dm_vcache = snd kv, dm_core = w\<rparr>, g7)))))))))"

definition dec_ptrs :: "dec_mem \<Rightarrow> u64 list" where
  "dec_ptrs d = sort_dedup (dm_bufs d @ dm_kcache d @ dm_vcache d @ core_ptrs (dm_core d))"

definition decoder_drop :: "cuda \<Rightarrow> dec_mem \<Rightarrow> gpu \<Rightarrow> gpu" where
  "decoder_drop C d g = pager_drop (dm_pager d) (free_all (dec_ptrs d) (snd (sync C g)))"

definition slots_per_layer :: "'m dev_mem_scheme \<Rightarrow> u32" where
  "slots_per_layer d = (case dm_pager d of None \<Rightarrow> 0 | Some (p, _) \<Rightarrow> g_slots_per_layer p)"

definition set_reserve_bytes :: "u64 \<Rightarrow> 'm dev_mem_scheme \<Rightarrow> 'm dev_mem_scheme" where
  "set_reserve_bytes n d = d\<lparr>dm_reserve := n\<rparr>"

text \<open>The old pager goes first; a failure builds one of the previous size, without a reserve.\<close>

definition resize_cache ::
  "cuda \<Rightarrow> 'c pager_env \<Rightarrow> u32 \<Rightarrow> 'm dev_mem_scheme \<Rightarrow> gpu \<Rightarrow> (life_error, unit) res \<times> 'm dev_mem_scheme \<times> gpu" where
  "resize_cache C E slots d g =
     (case sync C g of
        (Ok _, g1) \<Rightarrow>
          let previous = slots_per_layer d; g2 = pager_drop (dm_pager d) g1;
              build = (\<lambda>slots reserve. pager_build C E (pager_conf (dm_io_threads d) (dm_direct d) (dm_ram d) slots reserve)) in
          (case build slots (dm_reserve d) g2 of
             (Ok pg, g3) \<Rightarrow> (Ok (), d\<lparr>dm_pager := Some pg\<rparr>, g3)
           | (Err e, g3) \<Rightarrow>
               (case build previous 0 g3 of
                  (Ok pg, g4) \<Rightarrow> (Err e, d\<lparr>dm_pager := Some pg\<rparr>, g4)
                | (Err e', g4) \<Rightarrow> (Err e', d\<lparr>dm_pager := None\<rparr>, g4)
                | (Panic, g4) \<Rightarrow> (Panic, d\<lparr>dm_pager := None\<rparr>, g4))
           | (Panic, g3) \<Rightarrow> (Panic, d\<lparr>dm_pager := None\<rparr>, g3))
      | (Err e, g1) \<Rightarrow> (Err (LfDevice e), d, g1)
      | (Panic, g1) \<Rightarrow> (Panic, d, g1))"

section \<open>Growth\<close>

lemma adds_map_err: "adds g r Q \<Longrightarrow> adds g (map_err h (fst r), snd r) Q"
  by (cases "fst r") (auto simp: adds_def)

lemma adds_lift_dev: "adds g r Q \<Longrightarrow> adds g (lift_dev r) Q"
  unfolding lift_dev_def by (rule adds_map_err)

lemma adds_pure: "(\<And>x. r = Ok x \<Longrightarrow> adds g (f x g) Q) \<Longrightarrow> adds g (and_then (r, g) f) Q"
  by (cases r) (auto intro: grow_intros)

lemma adds_touch: "adds (g\<lparr>gp_calls := n\<rparr>) r Q \<Longrightarrow> adds g r Q"
  by (auto simp: adds_def grows_def)

lemma alloc_kv_adds: "alloc_fresh C \<Longrightarrow> adds g (alloc_kv C n L g) (\<lambda>(ks, vs) ps g'. mset ps = mset (ks @ vs) \<and> length ks = L \<and> length vs = L)"
proof (induction L arbitrary: g)
  case (Suc L)
  show ?case unfolding alloc_kv.simps
    by (rule adds_then [OF alloc_device_adds [OF Suc.prems]], rule adds_then [OF alloc_device_adds [OF Suc.prems]],
        rule adds_then [OF Suc.IH [OF Suc.prems]]) (auto intro!: grow_intros split: prod.splits)
qed (auto intro: grow_intros)

text \<open>A pager that was built has one arena per layer and its slots inside them.\<close>

definition pager_of :: "'c pager_env \<Rightarrow> pager_config \<Rightarrow> (u64 \<times> u64) option \<Rightarrow> pager \<times> u64 list \<Rightarrow> bool" where
  "pager_of E cfg mem pg \<longleftrightarrow> (\<exists>r. open_inner (pe_de E) (pe_pack E) (cfg_direct cfg) = Ok r \<and>
     length (snd pg) = unat (pm_layers (r_meta r)) \<and>
     pager_new mem (nth_opt (snd pg)) (pe_global E) (pe_decay E) (pm_layers (r_meta r)) (pm_experts (r_meta r)) (max_blob_bytes r) cfg = Ok (fst pg))"

lemma pager_build_adds:
  assumes C: "alloc_fresh C"
  shows "adds g (pager_build C E cfg g) (\<lambda>pg ps g'. ps = snd pg \<and> pager_of E cfg (mem_info C g) pg)"
  unfolding pager_build_def Let_def
proof (rule adds_pure)
  fix r
  assume "map_err LfPack (open_inner (pe_de E) (pe_pack E) (cfg_direct cfg)) = Ok r"
  then have o: "open_inner (pe_de E) (pe_pack E) (cfg_direct cfg) = Ok r" by (simp add: panic_simps)
  let ?L = "unat (pm_layers (r_meta r))"
  let ?new = "\<lambda>arenas. pager_new (mem_info C g) (nth_opt arenas) (pe_global E) (pe_decay E) (pm_layers (r_meta r)) (pm_experts (r_meta r)) (max_blob_bytes r) cfg"
  let ?rest = "\<lambda>g1. and_then (map_err LfPager (clamp_slots (mem_info C g) (pm_layers (r_meta r)) (align_span (max_blob_bytes r)) cfg), g1) (\<lambda>slots g2.
       and_then (lift_dev (alloc_all C (replicate ?L (unat slots * align_span (max_blob_bytes r))) g2)) (\<lambda>arenas g3.
       and_then (lift_dev (make_events C (?L * unat slots) g3)) (\<lambda>_ g4.
       and_then (map_err LfPager (?new arenas), g4) (\<lambda>p g5. (Ok (p, arenas), g5)))))"
  have "adds g1 (?rest g1) (\<lambda>pg ps g'. ps = snd pg \<and> pager_of E cfg (mem_info C g) pg)" for g1
    by (rule adds_pure, rule adds_then [OF adds_lift_dev [OF alloc_all_adds [OF C]]],
        rule adds_then [OF adds_lift_dev [OF make_events_adds]], rule adds_pure)
      (auto simp: panic_simps pager_of_def o intro!: grow_intros)
  then show "adds g (?rest (if 0 < cfg_reserve cfg then g\<lparr>gp_calls := gp_calls g + 1\<rparr> else g))
     (\<lambda>pg ps g'. ps = snd pg \<and> pager_of E cfg (mem_info C g) pg)"
    by (auto intro: adds_touch)
qed

lemma decoder_new_adds:
  assumes C: "alloc_fresh C"
  shows "adds g (decoder_new C E F parse core a g) (\<lambda>d ps g'. \<exists>cps kvs pg. ps = cps @ snd pg @ kvs @ dm_bufs d \<and>
    set cps = set (core_ptrs (dm_core d)) \<and> mset kvs = mset (dm_kcache d @ dm_vcache d) \<and> dm_pager d = Some pg)"
  unfolding decoder_new_def split_beta
  by (rule adds_pure, rule adds_pure, rule adds_pure, rule adds_then [OF adds_map_err [OF core_load_adds [OF C]]],
      rule adds_then [OF pager_build_adds [OF C]], rule adds_then [OF adds_lift_dev [OF alloc_kv_adds [OF C]]],
      rule adds_then [OF adds_lift_dev [OF alloc_all_adds [OF C]]], rule adds_then [OF adds_lift_dev [OF make_events_adds]])
    (fastforce intro!: grow_intros split: prod.splits)

section \<open>Ownership\<close>

text \<open>
  \<open>owns g0 ps d lost g\<close>: what is allocated in \<open>g\<close> is what was in \<open>g0\<close>, the addresses \<open>ps\<close> and the arenas
  the decoder would free, and \<open>lost\<close>, which nobody frees; the contents of \<open>g0\<close> are untouched and nothing
  was freed twice.
\<close>

definition arenas_of :: "'m dev_mem_scheme \<Rightarrow> u64 list" where
  "arenas_of d = (case dm_pager d of None \<Rightarrow> [] | Some pg \<Rightarrow> snd pg)"

definition owns :: "gpu \<Rightarrow> u64 list \<Rightarrow> 'm dev_mem_scheme \<Rightarrow> u64 list \<Rightarrow> gpu \<Rightarrow> bool" where
  "owns g0 ps d lost g \<longleftrightarrow> mset (gp_live g) = mset (gp_live g0) + mset ps + mset (arenas_of d) + mset lost \<and>
     (\<forall>p \<in> set (gp_live g0). gp_data g p = gp_data g0 p) \<and> gp_stray g = gp_stray g0"

lemma arenas_of_simps [simp]:
  "arenas_of (d\<lparr>dm_pager := None\<rparr>) = []" "arenas_of (d\<lparr>dm_pager := Some pg\<rparr>) = snd pg" "arenas_of (set_reserve_bytes n d) = arenas_of d"
  by (simp_all add: arenas_of_def set_reserve_bytes_def)

lemma sort_dedup_mset: "distinct xs \<Longrightarrow> set ys = set xs \<Longrightarrow> mset (sort_dedup ys) = mset xs"
  by (subst set_eq_iff_mset_eq_distinct [symmetric]) auto

lemma decoder_new_owns:
  assumes "alloc_fresh C" "decoder_new C E F parse core a g = (Ok d, g')"
  shows "owns g (dec_ptrs d) d [] g'"
proof -
  from decoder_new_adds [OF assms(1), of g E F parse core a] assms(2) obtain ps cps kvs pg where ps: "grows g g' ps"
    "ps = cps @ snd pg @ kvs @ dm_bufs d" "set cps = set (core_ptrs (dm_core d))" "mset kvs = mset (dm_kcache d @ dm_vcache d)"
    "dm_pager d = Some pg" by (auto simp: adds_def)
  have d: "distinct (cps @ kvs @ dm_bufs d)" using ps(1,2) by (auto simp: grows_def)
  have "mset (dec_ptrs d) = mset (cps @ kvs @ dm_bufs d)" unfolding dec_ptrs_def
    by (rule sort_dedup_mset [OF d]) (use ps(3) mset_eq_setD [OF ps(4)] in auto)
  then show ?thesis using ps grows_mset [OF ps(1)] by (simp add: owns_def arenas_of_def grows_def)
qed

lemma sync_live [simp]: "gp_live (snd (sync C g)) = gp_live g" "gp_data (snd (sync C g)) = gp_data g" "gp_stray (snd (sync C g)) = gp_stray g"
  by (simp_all add: sync_def)

lemma pager_drop_owns:
  assumes "owns g0 ps d lost g"
  shows "owns g0 ps (d\<lparr>dm_pager := None\<rparr>) lost (pager_drop (dm_pager d) g)"
proof -
  have "mset (arenas_of d) \<subseteq># mset (gp_live g)" using assms by (simp add: owns_def)
  from free_all_mset [OF this] assms show ?thesis
    by (auto simp: owns_def pager_drop_def arenas_of_def split: option.splits)
qed

lemma pager_build_owns:
  assumes C: "alloc_fresh C" and o: "owns g0 qs (d\<lparr>dm_pager := None\<rparr>) lost g" and b: "pager_build C E cfg g = (r, g')"
  shows "\<exists>lost'. owns g0 qs (d\<lparr>dm_pager := case r of Ok pg \<Rightarrow> Some pg | _ \<Rightarrow> None\<rparr>) (lost @ lost') g' \<and> (\<forall>pg. r = Ok pg \<longrightarrow> lost' = [])"
proof -
  from pager_build_adds [OF C, of g E cfg] b obtain ps where ps: "grows g g' ps"
      "\<forall>pg. r = Ok pg \<longrightarrow> ps = snd pg" by (auto simp: adds_def)
  have m: "mset (gp_live g') = mset (gp_live g0) + mset qs + mset lost + mset ps"
    using grows_mset [OF ps(1)] o by (simp add: owns_def)
  have "set (gp_live g0) \<subseteq> set (gp_live g)" using o by (auto simp: owns_def simp flip: set_mset_mset)
  then have k: "\<forall>p \<in> set (gp_live g0). gp_data g' p = gp_data g0 p" "gp_stray g' = gp_stray g0"
    using ps(1) o by (auto simp: grows_def owns_def)
  show ?thesis
  proof (cases r)
    case (Ok pg)
    then show ?thesis using ps m k by (intro exI [of _ "[]"]) (simp add: owns_def)
  qed (use m k in \<open>auto intro!: exI [of _ ps] simp: owns_def\<close>)
qed

lemma resize_owns:
  assumes C: "alloc_fresh C" and o: "owns g0 ps d lost g" and r: "resize_cache C E n d g = (r, d', g')"
  shows "\<exists>lost'. owns g0 ps d' (lost @ lost') g' \<and> (r = Ok () \<longrightarrow> lost' = [])"
proof -
  let ?d = "d\<lparr>dm_pager := None\<rparr>"
  obtain r0 g1 where s: "sync C g = (r0, g1)" by fastforce
  have g1: "owns g0 ps d lost g1" using o sync_live [of C g] by (simp add: owns_def s)
  show ?thesis
  proof (cases "r0 = Ok ()")
    case True
    let ?b = "\<lambda>n res. pager_build C E (pager_conf (dm_io_threads d) (dm_direct d) (dm_ram d) n res)"
    let ?g2 = "pager_drop (dm_pager d) g1"
    have g2: "owns g0 ps ?d lost ?g2" by (rule pager_drop_owns [OF g1])
    obtain r1 g3 where b1: "?b n (dm_reserve d) ?g2 = (r1, g3)" by fastforce
    from pager_build_owns [OF C g2 b1] obtain l1 where l1: "owns g0 ps (d\<lparr>dm_pager := case r1 of Ok pg \<Rightarrow> Some pg | _ \<Rightarrow> None\<rparr>) (lost @ l1) g3"
        "\<forall>pg. r1 = Ok pg \<longrightarrow> l1 = []" by blast
    show ?thesis
    proof (cases r1)
      case (Ok pg)
      then show ?thesis using l1 r True by (auto simp: resize_cache_def s b1 Let_def)
    next
      case (Err e)
      have g3: "owns g0 ps (d\<lparr>dm_pager := None\<rparr>) (lost @ l1) g3" using l1(1) Err by simp
      obtain r2 g4 where b2: "?b (slots_per_layer d) 0 g3 = (r2, g4)" by fastforce
      from pager_build_owns [OF C g3 b2] obtain l2 where
          "owns g0 ps (d\<lparr>dm_pager := case r2 of Ok pg \<Rightarrow> Some pg | _ \<Rightarrow> None\<rparr>) ((lost @ l1) @ l2) g4" by blast
      then show ?thesis using r True Err by (intro exI [of _ "l1 @ l2"]) (cases r2; auto simp: resize_cache_def s b1 b2 Let_def)
    next
      case Panic
      then show ?thesis using l1 r True by (auto simp: resize_cache_def s b1 Let_def)
    qed
  next
    case False
    then show ?thesis using r g1 by (intro exI [of _ "[]"]) (cases r0; auto simp: resize_cache_def s)
  qed
qed

text \<open>A decoder's life: any number of changes of the reserve, each followed by a resize.\<close>

fun resizes :: "cuda \<Rightarrow> 'c pager_env \<Rightarrow> (u64 \<times> u32) list \<Rightarrow> dec_mem \<Rightarrow> gpu \<Rightarrow> (life_error, unit) res list \<times> dec_mem \<times> gpu" where
  "resizes C E [] d g = ([], d, g)"
| "resizes C E ((reserve, n) # ns) d g =
     (case resize_cache C E n (set_reserve_bytes reserve d) g of
        (r, d1, g1) \<Rightarrow> (case resizes C E ns d1 g1 of (rs, d2, g2) \<Rightarrow> (r # rs, d2, g2)))"

lemma resize_keeps: "resize_cache C E n d g = (r, d', g') \<Longrightarrow> d'\<lparr>dm_pager := dm_pager d\<rparr> = d"
  by (auto simp: resize_cache_def Let_def split: prod.splits res.splits)

lemma resizes_own:
  "alloc_fresh C \<Longrightarrow> owns g0 ps d lost g \<Longrightarrow> resizes C E ns d g = (rs, d', g') \<Longrightarrow>
     \<exists>lost'. owns g0 ps d' (lost @ lost') g' \<and> ((\<forall>r \<in> set rs. r = Ok ()) \<longrightarrow> lost' = []) \<and>
       (\<exists>n. d'\<lparr>dm_pager := dm_pager d, dm_reserve := n\<rparr> = d)"
proof (induction ns arbitrary: d g lost rs)
  case Nil
  then show ?case by (auto intro!: exI [of _ "[]"] exI [of _ "dm_reserve d"])
next
  case (Cons rn ns)
  obtain reserve n where rn: "rn = (reserve, n)" by fastforce
  obtain r d1 g1 where a: "resize_cache C E n (set_reserve_bytes reserve d) g = (r, d1, g1)" using prod_cases3 by blast
  obtain rs' d2 g2 where b: "resizes C E ns d1 g1 = (rs', d2, g2)" using prod_cases3 by blast
  have eq: "rs = r # rs'" "d' = d2" "g' = g2" using Cons.prems(3) by (simp_all add: rn a b)
  have o: "owns g0 ps (set_reserve_bytes reserve d) lost g" using Cons.prems(2) by (simp add: owns_def)
  from resize_owns [OF Cons.prems(1) o a] obtain l1 where l1: "owns g0 ps d1 (lost @ l1) g1" "r = Ok () \<longrightarrow> l1 = []" by blast
  from Cons.IH [OF Cons.prems(1) l1(1) b [folded eq(2,3)]] obtain l2 n2 where
    l2: "owns g0 ps d' ((lost @ l1) @ l2) g'" "(\<forall>r \<in> set rs'. r = Ok ()) \<longrightarrow> l2 = []" "d'\<lparr>dm_pager := dm_pager d1, dm_reserve := n2\<rparr> = d1" by blast
  have "d'\<lparr>dm_pager := dm_pager d, dm_reserve := dm_reserve d\<rparr> = d"
    using resize_keeps [OF a] l2(3) by (cases d', cases d1, cases d) (auto simp: set_reserve_bytes_def)
  with l1(2) l2 show ?case by (intro exI [of _ "l1 @ l2"]) (auto simp: eq(1))
qed

text \<open>Giving everything back, as both decoders do it: the addresses of their own, then the arenas.\<close>

lemma drop_owned:
  assumes "owns g0 ps d lost g"
  shows "let g' = pager_drop (dm_pager d) (free_all ps (snd (sync C g))) in
    mset (gp_live g') = mset (gp_live g0) + mset lost \<and> gp_stray g' = gp_stray g0 \<and> (\<forall>p \<in> set (gp_live g0). gp_data g' p = gp_data g0 p)"
proof -
  let ?g1 = "free_all ps (snd (sync C g))"
  have m: "mset ps \<subseteq># mset (gp_live (snd (sync C g)))" using assms by (simp add: owns_def)
  have "owns g0 [] d lost ?g1" using free_all_mset [OF m] assms by (simp add: owns_def)
  from pager_drop_owns [OF this] show ?thesis by (simp add: owns_def Let_def)
qed

text \<open>C27:
  Unloading a model gives back the device memory that loading it took, whatever resizes lie between:
  after \<open>new\<close>, any number of resizes and \<open>Drop\<close>, the addresses in use are those in use before \<open>new\<close>,
  with their contents, and no address was freed that was not allocated, so none twice (the
  embedding table that doubles as \<open>lm_head\<close> included). Only resizes that failed leave something
  behind.\<close>
theorem unloading_returns_memory:
  assumes C: "alloc_fresh C" and new: "decoder_new C E F parse core a g0 = (Ok d, g1)"
    and run: "resizes C E ns d g1 = (rs, d', g2)"
  shows "\<exists>lost. mset (gp_live (decoder_drop C d' g2)) = mset (gp_live g0) + mset lost \<and>
    ((\<forall>r \<in> set rs. r = Ok ()) \<longrightarrow> lost = []) \<and> gp_stray (decoder_drop C d' g2) = gp_stray g0 \<and>
    (\<forall>p \<in> set (gp_live g0). gp_data (decoder_drop C d' g2) p = gp_data g0 p)"
proof -
  from resizes_own [OF C decoder_new_owns [OF C new] run] obtain lost n where
    l: "owns g0 (dec_ptrs d) d' lost g2" "(\<forall>r \<in> set rs. r = Ok ()) \<longrightarrow> lost = []" "d'\<lparr>dm_pager := dm_pager d, dm_reserve := n\<rparr> = d" by auto
  from l(3) have "dec_ptrs d' = dec_ptrs d" by (cases d', cases d) (auto simp: dec_ptrs_def)
  with drop_owned [OF l(1), of C] l(2) show ?thesis by (auto simp: decoder_drop_def Let_def)
qed

section \<open>Resizing\<close>

lemma clamp_le: "clamp_slots mem layers spn cfg = Ok n \<Longrightarrow> n \<le> cfg_slots cfg \<and> (cfg_reserve cfg = 0 \<longrightarrow> n = cfg_slots cfg)"
  by (auto simp: clamp_slots_def Let_def split: if_splits option.splits)

lemma pager_of_slots:
  fixes E :: "'c pager_env"
  assumes "pager_of E cfg mem (p, arenas)"
  shows "g_slots_per_layer p \<le> cfg_slots cfg" "cfg_reserve cfg = 0 \<Longrightarrow> g_slots_per_layer p = cfg_slots cfg"
    "g_fill p = replicate (length arenas * unat (g_slots_per_layer p)) FEmpty"
    "k < length arenas \<Longrightarrow> s < unat (g_slots_per_layer p) \<Longrightarrow>
       g_dev_slots p ! (k * unat (g_slots_per_layer p) + s) = arenas ! k + of_nat s * of_nat (g_span p)"
proof -
  from assms obtain r :: "'c pack_reader" where len: "length arenas = unat (pm_layers (r_meta r))"
    and new: "pager_new mem (nth_opt arenas) (pe_global E) (pe_decay E) (pm_layers (r_meta r)) (pm_experts (r_meta r)) (max_blob_bytes r) cfg = Ok p"
    unfolding pager_of_def fst_conv snd_conv by (elim exE conjE)
  obtain slots where cs: "clamp_slots mem (pm_layers (r_meta r)) (align_span (max_blob_bytes r)) cfg = Ok slots"
    using new by (cases "clamp_slots mem (pm_layers (r_meta r)) (align_span (max_blob_bytes r)) cfg") (auto simp: pager_new_def Let_def)
  obtain as dev where ar: "alloc_arenas (nth_opt arenas) (unat slots) (align_span (max_blob_bytes r)) [0..<length arenas] = Some (as, dev)"
    and p: "g_dev_slots p = dev" "g_slots_per_layer p = slots" "g_span p = align_span (max_blob_bytes r)"
      "g_fill p = replicate (length arenas * unat slots) FEmpty"
    using new cs by (auto simp: pager_new_def Let_def len split: option.splits prod.splits if_splits)
  note c = clamp_le [OF cs]
  show "g_slots_per_layer p \<le> cfg_slots cfg" "cfg_reserve cfg = 0 \<Longrightarrow> g_slots_per_layer p = cfg_slots cfg"
    "g_fill p = replicate (length arenas * unat (g_slots_per_layer p)) FEmpty" using c p by simp_all
  show "g_dev_slots p ! (k * unat (g_slots_per_layer p) + s) = arenas ! k + of_nat s * of_nat (g_span p)"
    if "k < length arenas" "s < unat (g_slots_per_layer p)"
    using alloc_arenas_nth [OF ar] that p by (auto simp: nth_opt_def)
qed

lemma resize_facts:
  assumes C: "alloc_fresh C" and r: "resize_cache C E n d g = (r, d', g')"
  shows "d'\<lparr>dm_pager := dm_pager d\<rparr> = d"
    and "r = Ok () \<Longrightarrow> \<exists>p arenas. dm_pager d' = Some (p, arenas) \<and> g_slots_per_layer p \<le> n \<and> (dm_reserve d = 0 \<longrightarrow> g_slots_per_layer p = n) \<and>
      g_fill p = replicate (length arenas * unat (g_slots_per_layer p)) FEmpty \<and>
      (\<forall>k < length arenas. \<forall>s < unat (g_slots_per_layer p).
         g_dev_slots p ! (k * unat (g_slots_per_layer p) + s) = arenas ! k + of_nat s * of_nat (g_span p))"
    and "r = Err e \<Longrightarrow> d' = d \<or> dm_pager d' = None \<or> slots_per_layer d' = slots_per_layer d"
proof -
  let ?cfg = "pager_conf (dm_io_threads d) (dm_direct d) (dm_ram d)"
  have b: "pager_of E cfg (mem_info C g0) pg" if "pager_build C E cfg g0 = (Ok pg, g1)" for cfg g0 pg g1
    using pager_build_adds [OF C, of g0 E cfg] that by (auto simp: adds_def)
  show "d'\<lparr>dm_pager := dm_pager d\<rparr> = d" by (rule resize_keeps [OF r])
  show "\<exists>p arenas. dm_pager d' = Some (p, arenas) \<and> g_slots_per_layer p \<le> n \<and> (dm_reserve d = 0 \<longrightarrow> g_slots_per_layer p = n) \<and>
      g_fill p = replicate (length arenas * unat (g_slots_per_layer p)) FEmpty \<and>
      (\<forall>k < length arenas. \<forall>s < unat (g_slots_per_layer p).
         g_dev_slots p ! (k * unat (g_slots_per_layer p) + s) = arenas ! k + of_nat s * of_nat (g_span p))" if ok: "r = Ok ()"
  proof -
    obtain p arenas g2 where p: "dm_pager d' = Some (p, arenas)" "pager_build C E (?cfg n (dm_reserve d)) g2 = (Ok (p, arenas), g')"
      using r ok by (auto simp: resize_cache_def Let_def split: prod.splits res.splits)
    have c: "cfg_slots (?cfg n (dm_reserve d)) = n" "cfg_reserve (?cfg n (dm_reserve d)) = dm_reserve d" by (simp_all add: pager_conf_def)
    from pager_of_slots [OF b [OF p(2)], unfolded c] p(1) show ?thesis by blast
  qed
  show "d' = d \<or> dm_pager d' = None \<or> slots_per_layer d' = slots_per_layer d" if er: "r = Err e"
  proof (cases "d' = d \<or> dm_pager d' = None")
    case False
    then obtain p arenas g2 where p: "dm_pager d' = Some (p, arenas)" "pager_build C E (?cfg (slots_per_layer d) 0) g2 = (Ok (p, arenas), g')"
      using r er False by (auto simp: resize_cache_def Let_def split: prod.splits res.splits)
    from pager_of_slots(2) [OF b [OF p(2)]] p(1) show ?thesis by (simp add: pager_conf_def slots_per_layer_def)
  qed blast
qed

text \<open>C28:
  What a resize leaves. Success: a cold pager of at most the size asked for (exactly that size
  without a reserve), its slots laid out in the new arenas. An error: the decoder unchanged, or a pager
  of exactly the previous size whatever the reserve, or no pager at all when that could not be built
  either. Everything else of the decoder stays.\<close>
theorem resize_outcomes:
  assumes C: "alloc_fresh C" and r: "resize_cache C E n d g = (r, d', g')"
  shows "d'\<lparr>dm_pager := dm_pager d\<rparr> = d \<and>
    (case r of
       Ok _ \<Rightarrow> \<exists>p arenas. dm_pager d' = Some (p, arenas) \<and> g_slots_per_layer p \<le> n \<and> (dm_reserve d = 0 \<longrightarrow> g_slots_per_layer p = n) \<and>
         g_fill p = replicate (length arenas * unat (g_slots_per_layer p)) FEmpty \<and>
         (\<forall>k < length arenas. \<forall>s < unat (g_slots_per_layer p).
            g_dev_slots p ! (k * unat (g_slots_per_layer p) + s) = arenas ! k + of_nat s * of_nat (g_span p))
     | Err _ \<Rightarrow> d' = d \<or> dm_pager d' = None \<or> slots_per_layer d' = slots_per_layer d
     | Panic \<Rightarrow> True)"
  using resize_facts(1) [OF C r] resize_facts(2) [OF C r] resize_facts(3) [OF C r] by (cases r) simp_all

section \<open>The blobs of the converter\<close>

lemma build_region_Ok:
  assumes "build_region F ck n = Ok (dims, buf, err)"
  shows "\<exists>vals. read_f32 F ck n = Ok (vals, [fst dims, snd dims]) \<and> length buf = q4_bytes (fst dims) (snd dims) q4_group \<and>
    q4_quantize F vals (fst dims) (snd dims) q4_group (zeros (q4_bytes (fst dims) (snd dims) q4_group)) = Ok (err, buf)"
proof -
  obtain vals shape where v: "read_f32 F ck n = Ok (vals, shape)" using assms by (auto simp: build_region_def panic_simps)
  obtain rows cols where sh: "shape = [rows, cols]" using assms v by (auto simp: build_region_def split: list.splits)
  have q: "q4_quantize F vals rows cols q4_group (zeros (q4_bytes rows cols q4_group)) = Ok (err, buf)" and d: "dims = (rows, cols)"
    using assms by (auto simp: build_region_def v sh panic_simps split: if_splits)
  show ?thesis using v q quantize_layout(6) [OF q] by (simp add: sh d)
qed

text \<open>
  The decoder finds each projection where the converter put it: at the three offsets it computes from
  the model's configuration lie, in a blob of group 64 whose gate and up tensors have the configured
  shape, exactly the quantized gate, up and down projections of that expert.\<close>
theorem offsets_find_projections:
  fixes F :: "'f f32_ops"
  assumes build: "build_blob F ck [Some a, Some b, Some c] l e = Ok (blob, err)"
    and gate: "read_f32 F ck a = Ok (va, [cf_moe_inter cfg, cf_hidden cfg])" and up: "read_f32 F ck b = Ok (vb, [cf_moe_inter cfg, cf_hidden cfg])"
  shows "case blob_offsets cfg q4_group of (gate_off, up_off, down_off) \<Rightarrow>
    (let quant = (\<lambda>vals rows cols buf. \<exists>x. q4_quantize F vals rows cols q4_group (zeros (q4_bytes rows cols q4_group)) = Ok (x, buf));
         gate_bytes = q4_bytes (cf_moe_inter cfg) (cf_hidden cfg) q4_group in
     quant va (cf_moe_inter cfg) (cf_hidden cfg) (take gate_bytes (drop gate_off blob)) \<and>
     quant vb (cf_moe_inter cfg) (cf_hidden cfg) (take gate_bytes (drop up_off blob)) \<and>
     (\<exists>vc rows cols. read_f32 F ck c = Ok (vc, [rows, cols]) \<and> quant vc rows cols (drop down_off blob)))"
proof -
  obtain da ba ea db bb eb dc bc ec where r: "build_region F ck a = Ok (da, ba, ea)" "build_region F ck b = Ok (db, bb, eb)"
      "build_region F ck c = Ok (dc, bc, ec)" and blob: "blob = blob_of q4_group [da, db, dc] [ba, bb, bc]"
    using build by (auto simp: build_blob_def panic_simps)
  from build_region_Ok [OF r(1)] gate have g: "length ba = q4_bytes (cf_moe_inter cfg) (cf_hidden cfg) q4_group"
    "q4_quantize F va (cf_moe_inter cfg) (cf_hidden cfg) q4_group (zeros (q4_bytes (cf_moe_inter cfg) (cf_hidden cfg) q4_group)) = Ok (ea, ba)" by auto
  from build_region_Ok [OF r(2)] up have u: "length bb = q4_bytes (cf_moe_inter cfg) (cf_hidden cfg) q4_group"
    "q4_quantize F vb (cf_moe_inter cfg) (cf_hidden cfg) q4_group (zeros (q4_bytes (cf_moe_inter cfg) (cf_hidden cfg) q4_group)) = Ok (eb, bb)" by auto
  from build_region_Ok [OF r(3)] obtain vc where d: "read_f32 F ck c = Ok (vc, [fst dc, snd dc])"
    "q4_quantize F vc (fst dc) (snd dc) q4_group (zeros (q4_bytes (fst dc) (snd dc) q4_group)) = Ok (ec, bc)" by blast
  define hd where "hd = concat (map (\<lambda>(r, c). to_le 4 r @ to_le 4 c) [da, db, dc]) @ to_le 4 q4_group @ to_le 4 0"
  have hd: "length hd = 32" "blob = hd @ ba @ bb @ bc" by (simp_all add: hd_def blob blob_of_def case_prod_beta)
  show ?thesis using g u d by (auto simp: blob_offsets_def Let_def hd)
qed

end
