(* ===== verification/Life_Examples.thy ===== *)
theory Life_Examples
  imports Lifecycle Convert_Examples
begin

text \<open>
  Cards, and a model small enough to load on them: the inputs on which the theorems of
  \<open>Core_Load\<close> and \<open>Lifecycle\<close> are applied, and two runs that show what errors leave behind.
\<close>

section \<open>Cards\<close>

text \<open>The first free address; with a capacity, only while the sizes in use leave room.\<close>

definition free_addr :: "(u64 \<times> nat) list \<Rightarrow> u64 option" where
  "free_addr live = List.find (\<lambda>p. p \<notin> fst ` set live) (map of_nat [0..<Suc (length live)])"

definition card_of :: "nat option \<Rightarrow> cuda" where
  "card_of cap = \<lparr>cu_alloc = (\<lambda>live n len. case cap of None \<Rightarrow> free_addr live
       | Some k \<Rightarrow> if sum_list (map snd live) + len \<le> k then free_addr live else None),
     cu_mem = (\<lambda>_ _. None), cu_ok = (\<lambda>_. True)\<rparr>"

lemma free_addr_fresh: "free_addr live = Some p \<Longrightarrow> p \<notin> fst ` set live"
  by (auto simp: free_addr_def find_Some_iff simp del: upt_Suc)

lemma card_ok [simp]: "cu_ok (card_of cap) n"
  by (simp add: card_of_def)

lemma card_fresh: "alloc_fresh (card_of cap)"
  using free_addr_fresh by (auto simp: alloc_fresh_def card_of_def split: option.splits if_splits)

lemma free_addr_some:
  assumes "length live < 2 ^ 64 - 1"
  shows "\<exists>p. free_addr live = Some p"
proof (rule ccontr)
  assume "\<not> ?thesis"
  then have "free_addr live = None" by auto
  then have "of_nat ` {0..<Suc (length live)} \<subseteq> (fst ` set live :: u64 set)"
    by (auto simp: free_addr_def find_None_iff simp del: upt_Suc)
  moreover have "inj_on (of_nat :: nat \<Rightarrow> u64) {0..<Suc (length live)}"
    using assms by (intro inj_onI) (simp add: word_of_nat_eq_iff take_bit_nat_eq_self)
  ultimately have "Suc (length live) \<le> card (fst ` set live)"
    by (metis card_atLeastLessThan card_image card_mono diff_zero finite_imageI finite_set)
  also have "\<dots> \<le> length live" by (metis card_image_le card_length finite_set le_trans)
  finally show False by simp
qed

text \<open>\<open>fine n g r\<close>: the action succeeds and makes \<open>n\<close> allocations.\<close>

definition fine :: "nat \<Rightarrow> gpu \<Rightarrow> ('e, 'a) res \<times> gpu \<Rightarrow> bool" where
  "fine n g r \<longleftrightarrow> (\<exists>x g'. r = (Ok x, g') \<and> length (gp_live g') = length (gp_live g) + n)"

lemma fine_then: "fine n g r \<Longrightarrow> (\<And>x g1. length (gp_live g1) = length (gp_live g) + n \<Longrightarrow> fine m g1 (f x g1)) \<Longrightarrow> fine (n + m) g (and_then r f)"
  unfolding fine_def by fastforce

lemma fine_ok: "fine 0 g (Ok x, g)"
  by (simp add: fine_def)

abbreviation roomy :: cuda where
  "roomy \<equiv> card_of None"

lemma fine_alloc: "length (gp_live g) < 2 ^ 64 - 1 \<Longrightarrow> fine 1 g (alloc_device roomy n g)"
  using free_addr_some [of "in_use g"] by (auto simp: fine_def alloc_device_def card_of_def in_use_def)

lemma fine_put:
  assumes "length (gp_live g) < 2 ^ 64 - 1"
  shows "fine 1 g (put_device roomy bs g)"
proof -
  obtain p g1 where a: "alloc_device roomy (length bs) g = (Ok p, g1)" "length (gp_live g1) = length (gp_live g) + 1"
    using fine_alloc [OF assms, of "length bs"] unfolding fine_def by (elim exE conjE)
  show ?thesis using a(2) by (simp add: fine_def put_device_def a(1) upload_def)
qed

lemma fine_put_items:
  "length (gp_live g) + length items < 2 ^ 64 \<Longrightarrow> (\<forall>i \<in> set items. \<exists>bs. i = Ok bs) \<Longrightarrow> fine (length items) g (put_items roomy items g)"
proof (induction items arbitrary: g)
  case (Cons i items)
  obtain bs where i: "i = Ok bs" using Cons.prems(2) by auto
  have "fine 1 g (put_item roomy i g)"
    using fine_put [of g bs] Cons.prems(1) by (auto simp: fine_def put_item_def i on_device_def)
  then have "fine (1 + (length items + 0)) g (put_items roomy (i # items) g)" unfolding put_items.simps
    by (intro fine_then Cons.IH fine_ok) (use Cons.prems in simp_all)
  then show ?case by simp
qed (simp add: fine_ok)

lemma fine_alloc_all: "length (gp_live g) + length ns < 2 ^ 64 \<Longrightarrow> fine (length ns) g (alloc_all roomy ns g)"
proof (induction ns arbitrary: g)
  case (Cons n ns)
  have "fine (1 + (length ns + 0)) g (alloc_all roomy (n # ns) g)" unfolding alloc_all.simps
    by (intro fine_then fine_alloc Cons.IH fine_ok) (use Cons.prems in simp_all)
  then show ?case by simp
qed (simp add: fine_ok)

lemma fine_alloc_kv: "length (gp_live g) + 2 * L < 2 ^ 64 \<Longrightarrow> fine (2 * L) g (alloc_kv roomy n L g)"
proof (induction L arbitrary: g)
  case (Suc L)
  have "fine (1 + (1 + (2 * L + 0))) g (alloc_kv roomy n (Suc L) g)" unfolding alloc_kv.simps
    by (intro fine_then fine_alloc Suc.IH fine_ok) (use Suc.prems in simp_all)
  then show ?case by simp
qed (simp add: fine_ok)

lemma fine_events: "fine 0 g (make_events roomy n g)"
proof (induction n arbitrary: g)
  case (Suc n)
  from Suc [of "g\<lparr>gp_calls := gp_calls g + 1\<rparr>"] show ?case by (simp add: fine_def card_of_def Let_def)
qed (simp add: fine_ok)

lemma fine_lift: "fine n g r \<Longrightarrow> fine n g (lift_dev r)"
  by (auto simp: fine_def lift_dev_def)

section \<open>A small core\<close>

definition small_cfg :: "int config" where
  "small_cfg = \<lparr>cf_hidden = 1, cf_layers = 1, cf_heads = 1, cf_kv_heads = 1, cf_head_dim = 1, cf_moe_inter = 1, cf_experts = 1,
     cf_top_k = 1, cf_norm_topk = True, cf_rms_eps = 0, cf_rope_theta = 1, cf_vocab = 1, cf_eos = []\<rparr>"

text \<open>Every tensor of the tiny core is the same number.\<close>

definition small_tensors :: "string list" where
  "small_tensors = [''model.embed_tokens.weight'', ''model.layers.0.input_layernorm.weight'', ''model.layers.0.mlp.gate.weight'',
     ''model.layers.0.post_attention_layernorm.weight'', ''model.layers.0.self_attn.k_norm.weight'',
     ''model.layers.0.self_attn.k_proj.weight'', ''model.layers.0.self_attn.o_proj.weight'', ''model.layers.0.self_attn.q_norm.weight'',
     ''model.layers.0.self_attn.q_proj.weight'', ''model.layers.0.self_attn.v_proj.weight'', ''model.norm.weight'']"

definition core_json :: "bytes \<Rightarrow> unit json option" where
  "core_json bs = Some (JObj (map (\<lambda>n. (n, JObj [(''data_offsets'', JArr [JInt 0, JInt 2]), (''dtype'', JStr ''BF16''),
     (''shape'', JArr [JInt 1, JInt 1])])) small_tensors))"

definition no_gpu :: gpu where
  "no_gpu = \<lparr>gp_live = [], gp_len = (\<lambda>_. 0), gp_data = (\<lambda>_. []), gp_calls = 0, gp_stray = 0\<rparr>"

definition small_st :: safetensors where
  "small_st = \<lparr>st_file = [1, 0, 0, 0, 0, 0, 0, 0, 1, 0x80, 0x3F],
     st_tensors = map (\<lambda>n. (n, \<lparr>t_dtype = ''BF16'', t_shape = [1, 1], t_start = 9, t_end = 11\<rparr>)) small_tensors\<rparr>"

lemma small_st_open: "st_open core_json [1, 0, 0, 0, 0, 0, 0, 0, 1, 0x80, 0x3F] = Ok small_st"
  by (simp add: st_open_def core_json_def small_st_def small_tensors_def read_header_def read_exact_def read_at_def alloc_limit_def
      metadata_key_def tensor_fields_def map_filter_simps j_u64_def less_list_code)

lemma tiny_raw: "n \<in> set small_tensors \<Longrightarrow> st_raw small_st n = Ok ([0x80, 0x3F], \<lparr>t_dtype = ''BF16'', t_shape = [1, 1], t_start = 9, t_end = 11\<rparr>)"
  by (simp add: st_raw_def st_info_def small_st_def map_of_map_keys read_exact_def read_at_def alloc_limit_def map_of_map_restrict
      option.case_eq_if)

lemma tiny_bf16: "n \<in> set small_tensors \<Longrightarrow> bf16_host small_st n 1 = Ok [0x80, 0x3F]"
  and tiny_mat: "n \<in> set small_tensors \<Longrightarrow> mat_host int_ops small_st False n 1 1 = Ok [0x80, 0x3F]"
  and tiny_norm: "n \<in> set small_tensors \<Longrightarrow> norm_host int_ops small_st n 1 = Ok (f32_bytes int_ops [0x3F800000])"
  using tiny_raw by (simp_all add: mat_host_def goes_q4_def bf16_host_def norm_host_def st_f32_def raw_f32_def chunks_exact_def chunks.simps
    int_ops_def bf16_f32_def un_le16_def)

lemma tiny_names: "st_names small_st = small_tensors"
  by (simp add: st_names_def small_st_def comp_def)

lemma tiny_prefix: "layer_prefix 0 = ''model.layers.0''"
  by code_simp


lemma small_layer: "\<forall>i \<in> set (layer_items int_ops small_st small_cfg False 0). \<exists>bs. i = Ok bs"
  by (simp add: layer_items_def Let_def tiny_prefix small_cfg_def tiny_mat [unfolded One_nat_def] tiny_norm [unfolded One_nat_def] small_tensors_def)

lemma small_embed: "embed_host small_st small_cfg = Ok [0x80, 0x3F]"
  using tiny_bf16 by (simp add: embed_host_def small_cfg_def small_tensors_def)

lemma small_final_norm: "norm_host int_ops small_st ''model.norm.weight'' (cf_hidden small_cfg) = Ok (f32_bytes int_ops [0x3F800000])"
  using tiny_norm by (simp add: small_cfg_def small_tensors_def)

lemma no_lm_head: "lm_head_name \<notin> set (st_names small_st)"
  by (simp add: tiny_names small_tensors_def lm_head_name_def)

abbreviation core_bytes :: file_bytes where
  "core_bytes \<equiv> [1, 0, 0, 0, 0, 0, 0, 0, 1, 0x80, 0x3F]"

lemma fine_core:
  assumes "length (gp_live g) < 1000"
  shows "fine 11 g (core_load roomy int_ops core_json core_bytes small_cfg False g)"
proof -
  have it: "length (layer_items int_ops small_st small_cfg False 0) = 9" by (simp add: layer_items_def Let_def)
  have p: "fine 1 g (put_item roomy (Ok bs) g)" if "length (gp_live g) < 2 ^ 64 - 1" for bs g
    using fine_put [OF that, of bs] by (auto simp: fine_def put_item_def on_device_def)
  have l: "fine 9 g (load_layers roomy int_ops small_st small_cfg False [0..<cf_layers small_cfg] g)"
    if "length (gp_live g) < 1000" for g
  proof -
    have "fine (9 + (0 + 0)) g (load_layers roomy int_ops small_st small_cfg False [0] g)" unfolding load_layers.simps
      by (intro fine_then fine_ok fine_put_items [of _ "layer_items int_ops small_st small_cfg False 0", unfolded it])
        (use that small_layer in auto)
    then show ?thesis by (simp add: small_cfg_def)
  qed
  have "fine (9 + (1 + (0 + (1 + 0)))) g (upload_core roomy int_ops small_st small_cfg False g)"
    unfolding upload_core_def small_embed small_final_norm load_head_def if_not_P [OF no_lm_head]
    by (intro fine_then fine_ok l p) (use assms in auto)
  then show ?thesis by (simp add: core_load_def small_st_open)
qed

lemma core_load_places_weights_witness:
  "\<exists>w g'. core_load roomy int_ops core_json core_bytes small_cfg False no_gpu = (Ok w, g') \<and>
     gp_data g' (cw_embed w) = [0x80, 0x3F] \<and> set (core_ptrs w) = set (gp_live g') \<and> length (gp_live g') = 11"
proof -
  obtain w g' where l: "core_load roomy int_ops core_json core_bytes small_cfg False no_gpu = (Ok w, g')" "length (gp_live g') = 11"
    using fine_core [of no_gpu] by (auto simp: fine_def no_gpu_def)
  from core_load_places_weights [OF card_fresh l(1)] have "core_placed g' int_ops small_st small_cfg False w"
      "set (core_ptrs w) = set (drop (length (gp_live no_gpu)) (gp_live g'))" by (auto simp: small_st_open)
  with l show ?thesis by (auto simp: core_placed_def placed_def no_gpu_def small_embed)
qed

section \<open>A small decoder\<close>

definition small_json :: "int json" where
  "small_json = JObj [(''num_attention_heads'', JInt 1), (''hidden_size'', JInt 1), (''num_hidden_layers'', JInt 1),
     (''num_key_value_heads'', JInt 1), (''moe_intermediate_size'', JInt 1), (''num_experts'', JInt 1), (''num_experts_per_tok'', JInt 1),
     (''vocab_size'', JInt 1), (''norm_topk_prob'', JBool True)]"

definition life_meta :: "u16 \<Rightarrow> int json pack_meta" where
  "life_meta L = \<lparr>pm_model = ''small'', pm_layers = L, pm_experts = 1, pm_dtype = ''q4g64-gud'', pm_config = small_json,
     pm_compression = None, pm_max_raw = 100\<rparr>"

definition small_env :: "u16 \<Rightarrow> int json pager_env" where
  "small_env L = \<lparr>pe_de = (\<lambda>_. Some (life_meta L)), pe_pack = pack_file (life_meta L) [7] (replicate (unat L) [1]),
     pe_global = False, pe_decay = None\<rparr>"

lemma small_env_simps:
  "pe_global (small_env L) = False" "pe_decay (small_env L) = None"
  "pm_layers (life_meta L) = L" "pm_experts (life_meta L) = 1" "pm_dtype (life_meta L) = ''q4g64-gud''" "pm_config (life_meta L) = small_json"
  by (simp_all add: small_env_def life_meta_def)

lemma small_config: "config_from_json (\<lambda>_. None) 0 1 small_json = Ok small_cfg"
  by (simp add: config_from_json_def small_json_def small_cfg_def need_u64_def j_u64_def j_bool_def eos_ids_def)

lemma small_open:
  assumes "L < 3"
  shows "\<exists>r. open_inner (pe_de (small_env L)) (pe_pack (small_env L)) direct = Ok r \<and> r_meta r = life_meta L \<and> max_blob_bytes r = 100"
proof -
  have t: "pm_total (life_meta L) = unat L" "unat L < 3" using assms by (simp_all add: pm_total_def life_meta_def word_less_nat_alt)
  then have "unat L = 0 \<or> unat L = 1 \<or> unat L = 2" by linarith
  moreover have "replicate 2 [1 :: u8] = [[1], [1]]" by (simp add: numeral_2_eq_2)
  ultimately have "length (pack_file (life_meta L) [7] (replicate (unat L) [1])) < 2 ^ 64"
    by (elim disjE) (simp_all add: pack_file_def t Let_def length_padded align_up_def pack_align_def header_of_def magic_def entry_bytes_def)
  from open_pack_file [where de = "\<lambda>_. Some (life_meta L)" and direct = direct, OF _ _ refl this] t show ?thesis
    by (auto simp: small_env_def pack_align_def max_blob_bytes_def life_meta_def)
qed

text \<open>Building a pager of one layer, of one or two slots.\<close>

lemma small_pager:
  assumes g: "length (gp_live g) < 1000" and n: "n = 1 \<or> n = 2"
  shows "fine 1 g (pager_build roomy (small_env 1) (pager_conf io direct ram n 0) g)"
proof -
  obtain r where r: "open_inner (pe_de (small_env 1)) (pe_pack (small_env 1)) direct = Ok r" "r_meta r = life_meta 1" "max_blob_bytes r = 100"
    using small_open [of 1] by auto
  let ?c = "pager_conf io direct ram n 0"
  have c: "cfg_direct ?c = direct" "cfg_reserve ?c = 0" "cfg_slots ?c = n" "cfg_decay ?c = 64"
    using n by (auto simp: pager_conf_def max_def word_le_nat_alt)
  have new: "\<exists>p. pager_new mem (nth_opt [a]) False None 1 1 100 ?c = Ok p" for mem a
    using n by (auto simp: pager_new_def Let_def clamp_slots_def c nth_opt_def partitioned_def)
  obtain a g1 where a: "alloc_device roomy (unat n * align_span 100) g = (Ok a, g1)" "length (gp_live g1) = length (gp_live g) + 1"
    using fine_alloc [of g "unat n * align_span 100"] g unfolding fine_def by auto
  obtain u g2 where e: "make_events roomy (unat n) g1 = (Ok u, g2)" "length (gp_live g2) = length (gp_live g1)"
    using fine_events [of g1 "unat n"] by (auto simp: fine_def)
  obtain p where p: "pager_new (mem_info roomy g) (nth_opt [a]) False None 1 1 100 ?c = Ok p" using new by blast
  show ?thesis
    using e p a by (simp add: fine_def pager_build_def Let_def r c clamp_slots_def small_env_simps lift_dev_def)
qed

lemma fine_map_err: "fine n g r \<Longrightarrow> fine n g (map_err h (fst r), snd r)"
  by (auto simp: fine_def)

lemma fine_pure: "r = Ok x \<Longrightarrow> fine n g (f x g) \<Longrightarrow> fine n g (and_then (r, g) f)"
  by simp

definition small_args :: "int dec_args" where
  "small_args = \<lparr>da_pack = [], da_slots = 1, da_io_threads = 1, da_max_seq = 4, da_core_q4 = False, da_direct = True, da_ram = 0, da_reserve = 0,
     da_batch_cap = 1, da_kv_f16 = True, da_f32_of = (\<lambda>_. None), da_eps = 0, da_theta = 1\<rparr>"

lemma fine_decoder:
  assumes "length (gp_live g) < 900"
  shows "fine 33 g (decoder_new roomy (small_env 1) int_ops core_json core_bytes small_args g)"
proof -
  obtain r where r: "open_inner (pe_de (small_env 1)) (pe_pack (small_env 1)) False = Ok r" "r_meta r = life_meta 1"
    using small_open [of 1] by auto
  have b: "length (buffer_sizes small_cfg 4) = 19" by (simp add: buffer_sizes_def Let_def)
  have L: "cf_layers small_cfg = 1" by (simp add: small_cfg_def)
  have "fine (11 + (1 + (2 * 1 + (19 + (0 + 0))))) g (decoder_new roomy (small_env 1) int_ops core_json core_bytes small_args g)"
    unfolding decoder_new_def split_beta r map_err.simps r(2) small_env_simps
  proof (rule fine_pure [OF refl], unfold r(2) small_env_simps, rule fine_pure)
    show "map_err LfConfig (config_from_json (da_f32_of small_args) (da_eps small_args) (da_theta small_args) small_json) = Ok small_cfg"
      using small_config by (simp add: small_args_def)
  next
    show "fine (11 + (1 + (2 * 1 + (19 + (0 + 0))))) g (and_then (expert_group ''q4g64-gud'', g) (\<lambda>grp g2.
       and_then (map_err LfLoad (fst (core_load roomy int_ops core_json core_bytes small_cfg (da_core_q4 small_args) g2)),
         snd (core_load roomy int_ops core_json core_bytes small_cfg (da_core_q4 small_args) g2)) (\<lambda>w g3.
       and_then (pager_build roomy (small_env 1) (pager_conf (da_io_threads small_args) (da_direct small_args) (da_ram small_args) (da_slots small_args) (da_reserve small_args)) g3) (\<lambda>pg g4.
       and_then (lift_dev (alloc_kv roomy (kv_bytes small_cfg (da_kv_f16 small_args) (max 1 (da_batch_cap small_args)) (da_max_seq small_args)) (cf_layers small_cfg) g4)) (\<lambda>kv g5.
       and_then (lift_dev (alloc_all roomy (buffer_sizes small_cfg (da_max_seq small_args)) g5)) (\<lambda>bufs g6.
       and_then (lift_dev (make_events roomy 8 g6)) (\<lambda>_ g7.
         (Ok \<lparr>dm_pager = Some pg, dm_pack = da_pack small_args, dm_io_threads = da_io_threads small_args, dm_direct = da_direct small_args, dm_ram = da_ram small_args,
            dm_reserve = da_reserve small_args, dm_group = grp, dm_batch = max 1 (da_batch_cap small_args), dm_bufs = bufs, dm_kcache = fst kv, dm_vcache = snd kv, dm_core = w\<rparr>, g7))))))))"
      by (rule fine_pure [where x = 64], simp add: expert_group_def, intro fine_then fine_map_err fine_lift fine_ok fine_events,
          unfold L)
        (use assms in \<open>auto simp: small_args_def intro!: fine_core small_pager [unfolded One_nat_def] fine_alloc_kv [where L = 1, simplified]
          fine_alloc_all [where ns = "buffer_sizes small_cfg 4", unfolded b]\<close>)
  qed
  then show ?thesis by simp
qed

text \<open>Its cache grows to two slots, and it is unloaded.\<close>

lemma small_decoder:
  obtains d g where "decoder_new roomy (small_env 1) int_ops core_json core_bytes small_args no_gpu = (Ok d, g)" "length (gp_live g) = 33"
    "owns no_gpu (dec_ptrs d) d [] g"
proof -
  obtain d g where d: "decoder_new roomy (small_env 1) int_ops core_json core_bytes small_args no_gpu = (Ok d, g)" "length (gp_live g) = 33"
    using fine_decoder [of no_gpu] by (auto simp: fine_def no_gpu_def)
  show thesis by (rule that [OF d decoder_new_owns [OF card_fresh d(1)]])
qed

lemma small_resize:
  assumes "owns no_gpu ps d [] g" "length (gp_live g) = 33" "n = 1 \<or> n = 2" "dm_reserve d = 0"
  shows "\<exists>d' g'. resize_cache roomy (small_env 1) n d g = (Ok (), d', g')"
proof -
  obtain g1 where s: "sync roomy g = (Ok (), g1)" "gp_live g1 = gp_live g" by (simp add: sync_def)
  have o: "owns no_gpu ps d [] g1" using assms(1) sync_live [of roomy g] by (simp add: owns_def s(1))
  from pager_drop_owns [OF o] have "mset (gp_live (pager_drop (dm_pager d) g1)) = mset (gp_live g1) - mset (arenas_of d)"
    using o by (simp add: owns_def)
  then have "mset (gp_live (pager_drop (dm_pager d) g1)) \<subseteq># mset (gp_live g1)" by simp
  from size_mset_mono [OF this] have "length (gp_live (pager_drop (dm_pager d) g1)) < 1000" using assms(2) s(2) by simp
  from small_pager [OF this assms(3), of "dm_io_threads d" "dm_direct d" "dm_ram d"] assms(4) s(1) show ?thesis
    unfolding fine_def by (auto simp: resize_cache_def Let_def)
qed

lemma new_reserve: "decoder_new C E F parse core a g = (Ok d, g') \<Longrightarrow> dm_reserve d = da_reserve a"
  by (auto simp: decoder_new_def panic_simps)

lemma unloading_returns_memory_witness:
  "\<exists>d g1 d' g2. decoder_new roomy (small_env 1) int_ops core_json core_bytes small_args no_gpu = (Ok d, g1) \<and> length (gp_live g1) = 33 \<and>
     resizes roomy (small_env 1) [(0, 2)] d g1 = ([Ok ()], d', g2) \<and> gp_live (decoder_drop roomy d' g2) = [] \<and>
     gp_stray (decoder_drop roomy d' g2) = 0"
proof -
  obtain d g1 where new: "decoder_new roomy (small_env 1) int_ops core_json core_bytes small_args no_gpu = (Ok d, g1)" "length (gp_live g1) = 33"
    "owns no_gpu (dec_ptrs d) d [] g1" by (rule small_decoder)
  have "owns no_gpu (dec_ptrs d) (set_reserve_bytes 0 d) [] g1" using new(3) by (simp add: owns_def)
  from small_resize [OF this new(2), of 2] obtain d' g2 where
    "resize_cache roomy (small_env 1) 2 (set_reserve_bytes 0 d) g1 = (Ok (), d', g2)" by (auto simp: set_reserve_bytes_def)
  then have run: "resizes roomy (small_env 1) [(0, 2)] d g1 = ([Ok ()], d', g2)" by simp
  from unloading_returns_memory [OF card_fresh new(1) run] have
    "mset (gp_live (decoder_drop roomy d' g2)) = mset (gp_live no_gpu)" "gp_stray (decoder_drop roomy d' g2) = gp_stray no_gpu" by auto
  with new run show ?thesis by (simp add: no_gpu_def)
qed

lemma resize_outcomes_witness:
  "\<exists>(d :: dec_mem) g d' g' p arenas. resize_cache roomy (small_env 1) 2 d g = (Ok (), d', g') \<and> dm_pager d' = Some (p, arenas) \<and> g_slots_per_layer p = 2"
proof -
  obtain d g where new: "decoder_new roomy (small_env 1) int_ops core_json core_bytes small_args no_gpu = (Ok d, g)" "length (gp_live g) = 33"
    "owns no_gpu (dec_ptrs d) d [] g" by (rule small_decoder)
  have z: "dm_reserve d = 0" using new_reserve [OF new(1)] by (simp add: small_args_def)
  from small_resize [OF new(3,2), of 2] z obtain d' g' where r: "resize_cache roomy (small_env 1) 2 d g = (Ok (), d', g')" by auto
  from resize_outcomes [OF card_fresh r] z have "\<exists>p arenas. dm_pager d' = Some (p, arenas) \<and> g_slots_per_layer p = 2" by auto
  with r show ?thesis by blast
qed

lemma offsets_find_projections_witness:
  "\<exists>blob err x vals. build_blob int_ops ex_ck ex_names 0 0 = Ok (blob, err) \<and>
     q4_quantize int_ops vals 1 64 q4_group (zeros (q4_bytes 1 64 q4_group)) = Ok (x, take 34 (drop 66 blob))"
proof -
  obtain blob err where b: "build_blob int_ops ex_ck ex_names 0 0 = Ok (blob, err)" using ex_blob by blast
  obtain vals where v: "raw_f32 int_ops ''BF16'' (replicate 128 0) = Some vals" "length vals = 64" using ex_values by blast
  let ?a = "''model.layers.0.mlp.experts.0.gate_proj.weight''" and ?b = "''model.layers.0.mlp.experts.0.up_proj.weight''"
  let ?cfg = "small_cfg\<lparr>cf_hidden := 64\<rparr>"
  have "map_of (c_tensors ex_ck) ?a = Some ex_loc" "map_of (c_tensors ex_ck) ?b = Some ex_loc" by (simp_all add: ex_ck_def ex_header_def)
  then have rd: "read_f32 int_ops ex_ck ?a = Ok (vals, [1, 64])" "read_f32 int_ops ex_ck ?b = Ok (vals, [1, 64])"
    using ex_raw v(1) by (simp_all add: read_f32_def ex_loc_def)
  have c: "cf_moe_inter ?cfg = 1" "cf_hidden ?cfg = 64" "q4_bytes 1 64 q4_group = 34" by (simp_all add: small_cfg_def q4_bytes_def q4_group_def)
  note off = offsets_find_projections [OF b [unfolded ex_names_def], of vals ?cfg vals, unfolded c blob_offsets_def Let_def prod.case, OF rd]
  from off obtain x where "q4_quantize int_ops vals 1 64 q4_group (zeros 34) = Ok (x, take 34 (drop (32 + 34) blob))" by blast
  with b show ?thesis unfolding c by (intro exI [of _ blob] exI [of _ err] exI [of _ x] exI [of _ vals]) simp
qed

section \<open>What errors leave behind\<close>

text \<open>A decoder whose pager holds one slot in each of two layers, on a card with room for three.\<close>

definition two_arenas :: gpu where
  "two_arenas = \<lparr>gp_live = [100, 101], gp_len = (\<lambda>_. 4096), gp_data = (\<lambda>_. []), gp_calls = 0, gp_stray = 0\<rparr>"

definition one_slot :: "pager \<Rightarrow> dec_mem" where
  "one_slot p = \<lparr>dm_pager = Some (p\<lparr>g_slots_per_layer := 1\<rparr>, [100, 101]), dm_pack = [], dm_io_threads = 1, dm_direct = True, dm_ram = 0, dm_reserve = 0, dm_group = 64, dm_batch = 1,
     dm_bufs = [], dm_kcache = [], dm_vcache = [],
     dm_core = \<lparr>cw_embed = 0, cw_final_norm = 0, cw_lm_head = \<lparr>mt_dev = 0, mt_rows = 0, mt_cols = 0, mt_q4 = False\<rparr>, cw_layers = []\<rparr>\<rparr>"

lemma free_addr_small: "free_addr [] = Some 0" "free_addr [(0, n)] = Some 1"
  by (simp_all add: free_addr_def)

lemma pager_oom:
  assumes r: "n = 1 \<or> n = 2" and oom: "alloc_all C (replicate 2 (unat n * 4096)) g = (Err e, g')"
  shows "pager_build C (small_env 2) (pager_conf io direct ram n 0) g = (Err (LfDevice e), g')"
proof -
  obtain r where r: "open_inner (pe_de (small_env 2)) (pe_pack (small_env 2)) direct = Ok r" "r_meta r = life_meta 2" "max_blob_bytes r = 100"
    using small_open [of 2] by auto
  have c: "cfg_direct (pager_conf io direct ram n 0) = direct" "cfg_reserve (pager_conf io direct ram n 0) = 0"
    "cfg_slots (pager_conf io direct ram n 0) = n" by (simp_all add: pager_conf_def)
  have "align_span 100 = 4096" by (simp add: align_span_def)
  with oom show ?thesis by (simp add: pager_build_def Let_def r c clamp_slots_def small_env_simps lift_dev_def)
qed


text \<open>A core that does not fit fails to load, and what was uploaded before the error is not freed.\<close>
theorem failed_load_leaks:
  "case core_load (card_of (Some 5)) int_ops core_json core_bytes small_cfg False no_gpu of (r, g') \<Rightarrow>
     r = Err (LDev (OutOfMemory 2)) \<and> gp_live g' = [0]"
proof -
  let ?C = "card_of (Some 5)"
  obtain rest where items: "layer_items int_ops small_st small_cfg False 0 = Ok (f32_bytes int_ops [0x3F800000]) # Ok [0x80, 0x3F] # rest"
    by (simp add: layer_items_def Let_def tiny_prefix small_cfg_def tiny_mat [unfolded One_nat_def] tiny_norm [unfolded One_nat_def] small_tensors_def)
  have l4: "length (f32_bytes int_ops [0x3F800000]) = 4" by (simp add: f32_bytes_def)
  have "load_layers ?C int_ops small_st small_cfg False [0..<cf_layers small_cfg] no_gpu = load_layers ?C int_ops small_st small_cfg False [0] no_gpu"
    by (simp add: small_cfg_def)
  then show ?thesis
    by (simp add: core_load_def small_st_open upload_core_def items put_item_def on_device_def put_device_def alloc_device_def upload_def
      card_of_def in_use_def no_gpu_def free_addr_small l4)
qed

end
