(* ===== verification/Kimi_Core.thy ===== *)
theory Kimi_Core
  imports Kimi_Step Lifecycle
begin

text \<open>
  Loading a Kimi model (\<open>llmpager-run/src/kimi.rs\<close>): the configuration with its YaRN frequencies
  (\<open>KimiConfig::from_json\<close>), the split of \<open>kv_b_proj\<close> into the two absorbed matrices, and the
  upload of the core (\<open>KimiCore::load\<close>, \<open>device_ptrs\<close>).
\<close>

section \<open>Configuration\<close>

text \<open>The \<open>f32\<close> functions the configuration needs; \<open>y_num\<close> is a literal, \<open>y_json\<close> is \<open>as_f64\<close> with the cast.\<close>

record 'f yarn_math =
  y_num :: "rat \<Rightarrow> 'f"
  y_json :: "'f json \<Rightarrow> 'f option"
  y_add :: "'f \<Rightarrow> 'f \<Rightarrow> 'f"
  y_sub :: "'f \<Rightarrow> 'f \<Rightarrow> 'f"
  y_mul :: "'f \<Rightarrow> 'f \<Rightarrow> 'f"
  y_div :: "'f \<Rightarrow> 'f \<Rightarrow> 'f"
  y_pow :: "'f \<Rightarrow> 'f \<Rightarrow> 'f"
  y_ln :: "'f \<Rightarrow> 'f"
  y_floor :: "'f \<Rightarrow> 'f"
  y_ceil :: "'f \<Rightarrow> 'f"
  y_min :: "'f \<Rightarrow> 'f \<Rightarrow> 'f"
  y_max :: "'f \<Rightarrow> 'f \<Rightarrow> 'f"
  y_gt :: "'f \<Rightarrow> 'f \<Rightarrow> bool"
  y_pi :: 'f

definition y_nat :: "'f yarn_math \<Rightarrow> nat \<Rightarrow> 'f" where
  "y_nat Y n = y_num Y (of_nat n)"

definition is_kimi :: "'j json \<Rightarrow> bool" where
  "is_kimi v \<longleftrightarrow> jget v ''kv_lora_rank'' \<noteq> JNull"

definition extrapolated :: "'f yarn_math \<Rightarrow> 'f \<Rightarrow> nat \<Rightarrow> 'f list" where
  "extrapolated Y theta rope =
     map (\<lambda>i. y_pow Y theta (y_div Y (y_mul Y (y_num Y (- 2)) (y_nat Y i)) (y_nat Y rope))) [0..<rope div 2]"

text \<open>The blend between extrapolated and interpolated frequencies, and the squared scale correction.\<close>

definition yarn_blend :: "'f yarn_math \<Rightarrow> 'f \<Rightarrow> nat \<Rightarrow> 'f json \<Rightarrow> 'f list \<times> 'f" where
  "yarn_blend Y theta rope rs =
     (let f = (\<lambda>k d. opt_or (y_num Y d) (y_json Y (jget rs k)));
          factor = f ''factor'' 1; beta_fast = f ''beta_fast'' 32; beta_slow = f ''beta_slow'' 1;
          orig = f ''original_max_position_embeddings'' 4096; mscale_all = f ''mscale_all_dim'' 0;
          dim = y_nat Y rope; one = y_num Y 1;
          corr = (\<lambda>rot. y_div Y (y_mul Y dim (y_ln Y (y_div Y orig (y_mul Y (y_mul Y rot (y_num Y 2)) (y_pi Y)))))
                                (y_mul Y (y_num Y 2) (y_ln Y theta)));
          low = y_max Y (y_floor Y (corr beta_fast)) (y_num Y 0);
          high = y_min Y (y_ceil Y (corr beta_slow)) (y_sub Y dim one);
          ext = extrapolated Y theta rope;
          blended = map (\<lambda>i.
            let ramp0 = y_div Y (y_sub Y (y_nat Y i) low) (y_max Y (y_sub Y high low) (y_num Y (1 / 1000)));
                ramp = y_min Y (y_max Y ramp0 (y_num Y 0)) one;
                mask = y_sub Y one ramp
            in y_add Y (y_mul Y (y_div Y (ext ! i) factor) (y_sub Y one mask)) (y_mul Y (ext ! i) mask)) [0..<rope div 2];
          m = (if y_gt Y mscale_all (y_num Y 0) then y_add Y (y_mul Y (y_mul Y (y_num Y (1 / 10)) mscale_all) (y_ln Y factor)) one else one)
      in (blended, y_mul Y m m))"

definition kimi_from_json :: "'f yarn_math \<Rightarrow> 'f json \<Rightarrow> (config_error, 'f kimi_conf) res" where
  "kimi_from_json Y v =
     bind_res (need_u64 v ''qk_nope_head_dim'') (\<lambda>nope.
     bind_res (need_u64 v ''qk_rope_head_dim'') (\<lambda>rope.
     let theta = opt_or (y_num Y 10000) (y_json Y (jget v ''rope_theta''));
         (inv_freq, mscale_sq) =
           (if j_obj (jget v ''rope_scaling'') \<noteq> None \<and> j_str (jget (jget v ''rope_scaling'') ''type'') = Some ''yarn''
            then yarn_blend Y theta rope (jget v ''rope_scaling'') else (extrapolated Y theta rope, y_num Y 1));
         scale = y_mul Y (y_pow Y (y_nat Y (nope + rope)) (y_num Y (- 1 / 2))) mscale_sq in
     bind_res (need_u64 v ''hidden_size'') (\<lambda>hidden.
     bind_res (need_u64 v ''num_hidden_layers'') (\<lambda>layers.
     bind_res (need_u64 v ''num_attention_heads'') (\<lambda>heads.
     bind_res (need_u64 v ''q_lora_rank'') (\<lambda>q_lora.
     bind_res (need_u64 v ''kv_lora_rank'') (\<lambda>kv_lora.
     bind_res (need_u64 v ''v_head_dim'') (\<lambda>v_head.
     bind_res (need_u64 v ''moe_intermediate_size'') (\<lambda>moe_inter.
     bind_res (need_u64 v ''intermediate_size'') (\<lambda>dense_inter.
     bind_res (need_u64 v ''n_routed_experts'') (\<lambda>experts.
     bind_res (need_u64 v ''num_experts_per_tok'') (\<lambda>top_k.
     bind_res (need_u64 v ''vocab_size'') (\<lambda>vocab.
     Ok \<lparr>kc_hidden = hidden, kc_layers = layers,
         kc_dense_layers = (case j_u64 (jget v ''moe_layer_offset'') of Some n \<Rightarrow> n
           | None \<Rightarrow> opt_or 0 (j_u64 (jget v ''first_k_dense_replace''))),
         kc_heads = heads, kc_q_lora = q_lora, kc_kv_lora = kv_lora, kc_nope = nope, kc_rope = rope, kc_v_head = v_head,
         kc_moe_inter = moe_inter, kc_dense_inter = dense_inter, kc_experts = experts, kc_top_k = top_k,
         kc_routed_scaling = opt_or (y_num Y 1) (y_json Y (jget v ''routed_scaling_factor'')),
         kc_norm_topk = opt_or True (j_bool (jget v ''norm_topk_prob'')),
         kc_rms_eps = opt_or (y_num Y (1 / 1000000)) (y_json Y (jget v ''rms_norm_eps'')), kc_vocab = vocab,
         kc_eos = eos_ids (jget v ''eos_token_id''), kc_softmax_scale = scale, kc_inv_freq = inv_freq\<rparr>)))))))))))))"

section \<open>The absorbed matrices\<close>

text \<open>Rounding to bf16 adds half of the last place, which for a NaN of all ones wraps.\<close>

definition f32_to_bf16 :: "('f, 'm) f32_ops_scheme \<Rightarrow> 'f \<Rightarrow> u16" where
  "f32_to_bf16 F x = ucast (drop_bit 16 (f_to_bits F x + 0x8000))"

definition bf16_table :: "u16 list \<Rightarrow> bytes" where
  "bf16_table v = concat (map le16 v)"

text \<open>The loops over one head: \<open>kt\<close> gets the transposed key rows, \<open>vw\<close> the value rows.\<close>

definition split_head ::
  "('f, 'm) f32_ops_scheme \<Rightarrow> nat \<Rightarrow> nat \<Rightarrow> nat \<Rightarrow> 'f list \<Rightarrow> u16 list \<times> u16 list \<Rightarrow> nat \<Rightarrow> u16 list \<times> u16 list" where
  "split_head F nope vh kvl kvb = (\<lambda>(kt, vw) hd.
     let base = hd * (nope + vh) in
     (foldl (\<lambda>kt (r, c). kt[hd * kvl * nope + c * nope + r := f32_to_bf16 F (kvb ! ((base + r) * kvl + c))]) kt
        (List.product [0..<nope] [0..<kvl]),
      foldl (\<lambda>vw (r, c). vw[hd * vh * kvl + r * kvl + c := f32_to_bf16 F (kvb ! ((base + nope + r) * kvl + c))]) vw
        (List.product [0..<vh] [0..<kvl])))"

definition split_kv_b ::
  "('f, 'm) f32_ops_scheme \<Rightarrow> nat \<Rightarrow> nat \<Rightarrow> nat \<Rightarrow> nat \<Rightarrow> 'f list \<times> nat list \<Rightarrow> (load_error, u16 list \<times> u16 list) res" where
  "split_kv_b F h nope vh kvl = (\<lambda>(kvb, shape).
     if shape \<noteq> [h * (nope + vh), kvl] then Err (LShape ''kv_b_proj'' shape)
     else if length kvb < h * (nope + vh) * kvl then Panic
     else Ok (foldl (split_head F nope vh kvl kvb) (replicate (h * kvl * nope) 0, replicate (h * vh * kvl) 0) [0..<h]))"

lemma fold_writes:
  assumes "inj_on f (set ks)" "\<forall>k \<in> set ks. f k < length xs"
  shows "length (foldl (\<lambda>xs k. xs[f k := g k]) xs ks) = length xs"
    "k \<in> set ks \<Longrightarrow> foldl (\<lambda>xs k. xs[f k := g k]) xs ks ! f k = g k"
proof -
  have len: "length (foldl (\<lambda>xs k. xs[f k := g k]) xs ks) = length xs" for ks
    by (induction ks rule: rev_induct) simp_all
  have "foldl (\<lambda>xs k. xs[f k := g k]) xs ls ! f k = g k" if "k \<in> set ls" "set ls \<subseteq> set ks" for k ls
    using that
  proof (induction ls rule: rev_induct)
    case (snoc l ls)
    show ?case
    proof (cases "f l = f k")
      case True
      then have "l = k" using assms(1) snoc.prems by (auto dest: inj_onD)
      then show ?thesis using assms(2) snoc.prems by (simp add: len)
    next
      case False
      then show ?thesis using snoc by auto
    qed
  qed simp
  then show "length (foldl (\<lambda>xs k. xs[f k := g k]) xs ks) = length xs"
    "k \<in> set ks \<Longrightarrow> foldl (\<lambda>xs k. xs[f k := g k]) xs ks ! f k = g k" using len by blast+
qed

lemma foldl_pairs: "foldl (\<lambda>(a, b) x. (f a x, g b x)) (a, b) xs = (foldl f a xs, foldl g b xs)"
  by (induction xs arbitrary: a b) simp_all

lemma foldl_product: "foldl (\<lambda>a x. foldl (\<lambda>a y. f a (x, y)) a ys) a xs = foldl f a (List.product xs ys)"
  by (induction xs arbitrary: a) (simp_all add: foldl_map)

lemma radix_eq: "a * n + r = b * n + s \<Longrightarrow> r < n \<Longrightarrow> s < n \<Longrightarrow> a = b \<and> r = s" for a b n r s :: nat
  by (metis add.commute add_right_cancel div_mult_self3 less_nat_zero_code div_less add_cancel_right_left)

lemma split_heads:
  "foldl (split_head F nope vh kvl kvb) (kt, vw) hs =
     (foldl (\<lambda>kt (hd, r, c). kt[hd * kvl * nope + c * nope + r := f32_to_bf16 F (kvb ! ((hd * (nope + vh) + r) * kvl + c))]) kt
        (List.product hs (List.product [0..<nope] [0..<kvl])),
      foldl (\<lambda>vw (hd, r, c). vw[hd * vh * kvl + r * kvl + c := f32_to_bf16 F (kvb ! ((hd * (nope + vh) + nope + r) * kvl + c))]) vw
        (List.product hs (List.product [0..<vh] [0..<kvl])))"
  unfolding foldl_product [symmetric] split_head_def Let_def by (simp add: foldl_pairs)

text \<open>C30:
  The absorbed matrices are the blocks of \<open>kv_b_proj\<close> that belong there: for every head, \<open>kt\<close> is the
  transpose of its key rows and \<open>vw\<close> is its value rows, each rounded to bf16, every entry written.\<close>
theorem absorbed_matrices:
  assumes s: "split_kv_b F h nope vh kvl (kvb, shape) = Ok (kt, vw)"
  shows "length kt = h * kvl * nope \<and> length vw = h * vh * kvl \<and>
    (\<forall>hd < h. \<forall>c < kvl.
      (\<forall>r < nope. kt ! (hd * kvl * nope + c * nope + r) = f32_to_bf16 F (kvb ! ((hd * (nope + vh) + r) * kvl + c))) \<and>
      (\<forall>r < vh. vw ! (hd * vh * kvl + r * kvl + c) = f32_to_bf16 F (kvb ! ((hd * (nope + vh) + nope + r) * kvl + c))))"
proof -
  let ?P = "List.product [0..<h] (List.product [0..<nope] [0..<kvl])" and ?Q = "List.product [0..<h] (List.product [0..<vh] [0..<kvl])"
  let ?f = "\<lambda>(hd, r, c). hd * kvl * nope + c * nope + r" and ?g = "\<lambda>(hd, r, c). hd * vh * kvl + r * kvl + c"
  have bound: "(a * n + b) * m + k < x * n * m" if "a < x" "b < n" "k < m" for a b k n m x :: nat
  proof -
    have "(a * n + b) * m + k < (a * n + b) * m + m" using that by simp
    also have "\<dots> = Suc (a * n + b) * m" by simp
    also have "\<dots> \<le> (x * n) * m" using block_bound [of a x n] that by (intro mult_le_mono1) simp
    finally show ?thesis .
  qed
  have f: "inj_on ?f (set ?P)" "\<forall>k \<in> set ?P. ?f k < h * kvl * nope"
  proof -
    show "inj_on ?f (set ?P)"
    proof (rule inj_onI)
      fix x y
      assume xy: "x \<in> set ?P" "y \<in> set ?P" "?f x = ?f y"
      obtain a r c a' r' c' where e: "x = (a, r, c)" "y = (a', r', c')" using prod_cases3 by metis
      from xy have "(a * kvl + c) * nope + r = (a' * kvl + c') * nope + r'" "r < nope" "r' < nope" "c < kvl" "c' < kvl"
        by (auto simp: e algebra_simps)
      then show "x = y" unfolding e using radix_eq by (metis (no_types))
    qed
    show "\<forall>k \<in> set ?P. ?f k < h * kvl * nope" using bound [of _ h _ kvl _ nope] by (auto simp: algebra_simps)
  qed
  have g: "inj_on ?g (set ?Q)" "\<forall>k \<in> set ?Q. ?g k < h * vh * kvl"
  proof -
    show "inj_on ?g (set ?Q)"
    proof (rule inj_onI)
      fix x y
      assume xy: "x \<in> set ?Q" "y \<in> set ?Q" "?g x = ?g y"
      obtain a r c a' r' c' where e: "x = (a, r, c)" "y = (a', r', c')" using prod_cases3 by metis
      from xy have "(a * vh + r) * kvl + c = (a' * vh + r') * kvl + c'" "r < vh" "r' < vh" "c < kvl" "c' < kvl"
        by (auto simp: e algebra_simps)
      then show "x = y" unfolding e using radix_eq by (metis (no_types))
    qed
    show "\<forall>k \<in> set ?Q. ?g k < h * vh * kvl" using bound [of _ h _ vh _ kvl] by (auto simp: algebra_simps)
  qed
  define key where "key = (\<lambda>(hd, r, c). f32_to_bf16 F (kvb ! ((hd * (nope + vh) + r) * kvl + c)))"
  define val where "val = (\<lambda>(hd, r, c). f32_to_bf16 F (kvb ! ((hd * (nope + vh) + nope + r) * kvl + c)))"
  have loops: "(\<lambda>xs k. xs[?f k := key k]) = (\<lambda>kt (hd, r, c). kt[hd * kvl * nope + c * nope + r := f32_to_bf16 F (kvb ! ((hd * (nope + vh) + r) * kvl + c))])"
    "(\<lambda>xs k. xs[?g k := val k]) = (\<lambda>vw (hd, r, c). vw[hd * vh * kvl + r * kvl + c := f32_to_bf16 F (kvb ! ((hd * (nope + vh) + nope + r) * kvl + c))])"
    by (auto simp: fun_eq_iff key_def val_def)
  have kt: "kt = foldl (\<lambda>xs k. xs[?f k := key k]) (replicate (h * kvl * nope) 0) ?P"
    and vw: "vw = foldl (\<lambda>xs k. xs[?g k := val k]) (replicate (h * vh * kvl) 0) ?Q"
    unfolding loops using s by (auto simp: split_kv_b_def split_heads split: if_splits)
  have "kt ! ?f k = key k" if "k \<in> set ?P" for k
    using fold_writes(2) [OF f(1), of "replicate (h * kvl * nope) 0" k key] f(2) that unfolding kt by simp
  moreover have "vw ! ?g k = val k" if "k \<in> set ?Q" for k
    using fold_writes(2) [OF g(1), of "replicate (h * vh * kvl) 0" k val] g(2) that unfolding vw by simp
  moreover have "length kt = h * kvl * nope" "length vw = h * vh * kvl"
    using fold_writes(1) [OF f(1), of "replicate (h * kvl * nope) 0" key] f(2) fold_writes(1) [OF g(1), of "replicate (h * vh * kvl) 0" val] g(2)
    unfolding kt vw by simp_all
  ultimately show ?thesis by (fastforce simp: key_def val_def)
qed

lemma absorbed_matrices_witness:
  "\<exists>kt vw. split_kv_b int_ops 1 1 1 2 ([2 ^ 16, 2 ^ 17, 3 * 2 ^ 16, 2 ^ 18], [2, 2]) = Ok (kt, vw) \<and> length kt = 2 \<and> kt ! 1 = f32_to_bf16 int_ops (2 ^ 17)"
proof -
  obtain kt vw where s: "split_kv_b int_ops 1 1 1 2 ([2 ^ 16, 2 ^ 17, 3 * 2 ^ 16, 2 ^ 18], [2, 2]) = Ok (kt, vw)"
    by (simp add: split_kv_b_def prod_eq_iff)
  from absorbed_matrices [OF s] show ?thesis using s by (intro exI [of _ kt] exI [of _ vw]) auto
qed

section \<open>Loading the core\<close>

definition kimi_bf16_host :: "safetensors \<Rightarrow> string \<Rightarrow> nat \<Rightarrow> nat \<Rightarrow> (load_error, bytes) res" where
  "kimi_bf16_host st name rows cols =
     bind_res (map_err LSt (st_raw st name)) (\<lambda>(raw, info).
       if t_dtype info \<noteq> ''BF16'' \<or> length raw \<noteq> rows * cols * 2 then Err (LDtype name (t_dtype info)) else Ok raw)"

text \<open>The matrices of a gated feed-forward block, in the order they are uploaded, and as they are kept.\<close>

definition ffn_items :: "'f f32_ops \<Rightarrow> safetensors \<Rightarrow> string \<Rightarrow> nat \<Rightarrow> nat \<Rightarrow> (load_error, bytes) res list" where
  "ffn_items F st prefix wide hdim =
     [q4_host F st (prefix @ ''.gate_proj.weight'') wide hdim, q4_host F st (prefix @ ''.up_proj.weight'') wide hdim,
      q4_host F st (prefix @ ''.down_proj.weight'') hdim wide]"

definition q4_mat :: "nat \<Rightarrow> nat \<Rightarrow> u64 \<Rightarrow> mat" where
  "q4_mat rows cols p = \<lparr>mt_dev = p, mt_rows = of_nat rows, mt_cols = of_nat cols, mt_q4 = True\<rparr>"

definition ffn_of :: "nat \<Rightarrow> nat \<Rightarrow> u64 list \<Rightarrow> mat \<times> mat \<times> mat" where
  "ffn_of wide hdim ps = (q4_mat wide hdim (ps ! 0), q4_mat wide hdim (ps ! 1), q4_mat hdim wide (ps ! 2))"

text \<open>
  The feed-forward part of a layer: dense in the first layers; elsewhere the router, its bias, which
  stays on the host, and the shared expert.
\<close>

type_synonym 'f kimi_ffn_weights = "mat option \<times> 'f list option \<times> (mat \<times> mat \<times> mat) option \<times> (mat \<times> mat \<times> mat) option"

definition kimi_load_ffn ::
  "cuda \<Rightarrow> 'f f32_ops \<Rightarrow> safetensors \<Rightarrow> 'f kimi_conf \<Rightarrow> nat \<Rightarrow> gpu \<Rightarrow> (load_error, 'f kimi_ffn_weights) res \<times> gpu" where
  "kimi_load_ffn C F st c l g =
     (let p = layer_prefix l @ ''.mlp'' in
      if l < kc_dense_layers c then
        and_then (put_items C (ffn_items F st p (kc_dense_inter c) (kc_hidden c)) g) (\<lambda>ps g1.
          (Ok (None, None, None, Some (ffn_of (kc_dense_inter c) (kc_hidden c) ps)), g1))
      else
        and_then (put_item C (kimi_bf16_host st (p @ ''.gate.weight'') (kc_experts c) (kc_hidden c)) g) (\<lambda>router g1.
        and_then (map_err LSt (st_f32 F st (p @ ''.gate.e_score_correction_bias'')), g1) (\<lambda>bias g2.
        and_then (put_items C (ffn_items F st (p @ ''.shared_experts'') (kc_moe_inter c) (kc_hidden c)) g2) (\<lambda>ps g3.
          (Ok (Some \<lparr>mt_dev = router, mt_rows = of_nat (kc_experts c), mt_cols = of_nat (kc_hidden c), mt_q4 = False\<rparr>,
               Some (fst bias), Some (ffn_of (kc_moe_inter c) (kc_hidden c) ps), None), g3)))))"

text \<open>The attention part, uploaded after it.\<close>

definition kimi_attn_items ::
  "'f f32_ops \<Rightarrow> safetensors \<Rightarrow> 'f kimi_conf \<Rightarrow> nat \<Rightarrow> u16 list \<times> u16 list \<Rightarrow> (load_error, bytes) res list" where
  "kimi_attn_items F st c l = (\<lambda>(kt, vw).
     let p = layer_prefix l; hdim = kc_hidden c; h = kc_heads c; kvl = kc_kv_lora c in
     [norm_host F st (p @ ''.input_layernorm.weight'') hdim,
      norm_host F st (p @ ''.post_attention_layernorm.weight'') hdim,
      q4_host F st (p @ ''.self_attn.q_a_proj.weight'') (kc_q_lora c) hdim,
      norm_host F st (p @ ''.self_attn.q_a_layernorm.weight'') (kc_q_lora c),
      q4_host F st (p @ ''.self_attn.q_b_proj.weight'') (h * (kc_nope c + kc_rope c)) (kc_q_lora c),
      q4_host F st (p @ ''.self_attn.kv_a_proj_with_mqa.weight'') (kvl + kc_rope c) hdim,
      norm_host F st (p @ ''.self_attn.kv_a_layernorm.weight'') kvl,
      Ok (bf16_table kt), Ok (bf16_table vw),
      q4_host F st (p @ ''.self_attn.o_proj.weight'') hdim (h * kc_v_head c)])"

definition kimi_layer_of :: "'f kimi_conf \<Rightarrow> 'f kimi_ffn_weights \<Rightarrow> u64 list \<Rightarrow> 'f kimi_layer" where
  "kimi_layer_of c = (\<lambda>(router, bias, shared, dense) ps.
     let hdim = kc_hidden c; h = kc_heads c; kvl = kc_kv_lora c in
     \<lparr>kl_input_ln = ps ! 0, kl_post_ln = ps ! 1, kl_q_a = q4_mat (kc_q_lora c) hdim (ps ! 2), kl_q_a_ln = ps ! 3,
      kl_q_b = q4_mat (h * (kc_nope c + kc_rope c)) (kc_q_lora c) (ps ! 4), kl_kv_a = q4_mat (kvl + kc_rope c) hdim (ps ! 5),
      kl_kv_a_ln = ps ! 6, kl_kt = ps ! 7, kl_vw = ps ! 8, kl_o = q4_mat hdim (h * kc_v_head c) (ps ! 9),
      kl_router = router, kl_bias = bias, kl_shared = shared, kl_dense = dense\<rparr>)"

definition kimi_load_layer ::
  "cuda \<Rightarrow> 'f f32_ops \<Rightarrow> safetensors \<Rightarrow> 'f kimi_conf \<Rightarrow> nat \<Rightarrow> gpu \<Rightarrow> (load_error, 'f kimi_layer) res \<times> gpu" where
  "kimi_load_layer C F st c l g =
     and_then (map_err LSt (st_f32 F st (layer_prefix l @ ''.self_attn.kv_b_proj.weight'')), g) (\<lambda>kvb g0.
     and_then (split_kv_b F (kc_heads c) (kc_nope c) (kc_v_head c) (kc_kv_lora c) kvb, g0) (\<lambda>ktvw g1.
     and_then (kimi_load_ffn C F st c l g1) (\<lambda>ffn g2.
     and_then (put_items C (kimi_attn_items F st c l ktvw) g2) (\<lambda>ps g3. (Ok (kimi_layer_of c ffn ps), g3)))))"

fun kimi_load_layers ::
  "cuda \<Rightarrow> 'f f32_ops \<Rightarrow> safetensors \<Rightarrow> 'f kimi_conf \<Rightarrow> nat list \<Rightarrow> gpu \<Rightarrow> (load_error, 'f kimi_layer list) res \<times> gpu" where
  "kimi_load_layers C F st c [] g = (Ok [], g)"
| "kimi_load_layers C F st c (l # ls) g =
     and_then (kimi_load_layer C F st c l g) (\<lambda>w g1.
     and_then (kimi_load_layers C F st c ls g1) (\<lambda>ws g2. (Ok (w # ws), g2)))"

definition kimi_core_load ::
  "cuda \<Rightarrow> 'f f32_ops \<Rightarrow> (bytes \<Rightarrow> 'j json option) \<Rightarrow> file_bytes \<Rightarrow> 'f kimi_conf \<Rightarrow> gpu \<Rightarrow> (load_error, 'f kimi_core) res \<times> gpu" where
  "kimi_core_load C F parse core c g =
     and_then (map_err LSt (st_open parse core), g) (\<lambda>st g0.
     and_then (kimi_load_layers C F st c [0..<kc_layers c] g0) (\<lambda>ws g1.
     and_then (kimi_bf16_host st ''model.embed_tokens.weight'' (kc_vocab c) (kc_hidden c), g1) (\<lambda>emb g2.
     and_then (put_items C [norm_host F st ''model.norm.weight'' (kc_hidden c), q4_host F st lm_head_name (kc_vocab c) (kc_hidden c)] g2) (\<lambda>ps g3.
       (Ok \<lparr>kw_embed_host = emb, kw_final_norm = ps ! 0, kw_lm_head = q4_mat (kc_vocab c) (kc_hidden c) (ps ! 1), kw_layers = ws\<rparr>, g3)))))"

definition ffn_ptrs :: "(mat \<times> mat \<times> mat) option \<Rightarrow> u64 list" where
  "ffn_ptrs x = (case x of None \<Rightarrow> [] | Some (a, b, c) \<Rightarrow> [mt_dev a, mt_dev b, mt_dev c])"

definition kimi_layer_ptrs :: "'f kimi_layer \<Rightarrow> u64 list" where
  "kimi_layer_ptrs l =
     [kl_input_ln l, kl_post_ln l, mt_dev (kl_q_a l), kl_q_a_ln l, mt_dev (kl_q_b l), mt_dev (kl_kv_a l), kl_kv_a_ln l, kl_kt l, kl_vw l,
      mt_dev (kl_o l)] @
     (case kl_router l of None \<Rightarrow> [] | Some r \<Rightarrow> [mt_dev r]) @ ffn_ptrs (kl_shared l) @ ffn_ptrs (kl_dense l)"

definition kimi_core_ptrs :: "'f kimi_core \<Rightarrow> u64 list" where
  "kimi_core_ptrs c = sort_dedup ([kw_final_norm c, mt_dev (kw_lm_head c)] @ concat (map kimi_layer_ptrs (kw_layers c)))"

section \<open>Where the weights are\<close>

text \<open>Every device matrix of a layer at its address, given the two parts of \<open>kv_b_proj\<close>.\<close>

definition kimi_ffn_placed :: "gpu \<Rightarrow> 'f f32_ops \<Rightarrow> safetensors \<Rightarrow> 'f kimi_conf \<Rightarrow> nat \<Rightarrow> 'f kimi_ffn_weights \<Rightarrow> u64 list \<Rightarrow> bool" where
  "kimi_ffn_placed g F st c l = (\<lambda>(router, bias, shared, dense) ps.
     let p = layer_prefix l @ ''.mlp'' in
     if l < kc_dense_layers c then
       router = None \<and> bias = None \<and> shared = None \<and> ps = ffn_ptrs dense \<and>
       placed g (ffn_items F st p (kc_dense_inter c) (kc_hidden c)) (ffn_ptrs dense)
     else dense = None \<and> (\<exists>r b shape. router = Some r \<and> bias = Some b \<and> st_f32 F st (p @ ''.gate.e_score_correction_bias'') = Ok (b, shape) \<and>
       ps = mt_dev r # ffn_ptrs shared \<and> placed g [kimi_bf16_host st (p @ ''.gate.weight'') (kc_experts c) (kc_hidden c)] [mt_dev r] \<and>
       placed g (ffn_items F st (p @ ''.shared_experts'') (kc_moe_inter c) (kc_hidden c)) (ffn_ptrs shared)))"

definition kimi_attn_ptrs :: "'f kimi_layer \<Rightarrow> u64 list" where
  "kimi_attn_ptrs l = take 10 (kimi_layer_ptrs l)"

definition kimi_layer_placed :: "gpu \<Rightarrow> 'f f32_ops \<Rightarrow> safetensors \<Rightarrow> 'f kimi_conf \<Rightarrow> nat \<Rightarrow> 'f kimi_layer \<Rightarrow> bool" where
  "kimi_layer_placed g F st c l w \<longleftrightarrow>
     (\<exists>kvb shape ktvw ps. st_f32 F st (layer_prefix l @ ''.self_attn.kv_b_proj.weight'') = Ok (kvb, shape) \<and>
        split_kv_b F (kc_heads c) (kc_nope c) (kc_v_head c) (kc_kv_lora c) (kvb, shape) = Ok ktvw \<and>
        placed g (kimi_attn_items F st c l ktvw) (kimi_attn_ptrs w) \<and>
        kimi_ffn_placed g F st c l (kl_router w, kl_bias w, kl_shared w, kl_dense w) ps)"

lemma kimi_ffn_placed_keeps:
  assumes "kimi_ffn_placed g1 F st c l w ps" "grows g1 g2 qs"
  shows "kimi_ffn_placed g2 F st c l w ps"
proof -
  obtain router bias shared dense where w: "w = (router, bias, shared, dense)" using prod_cases4 by blast
  note k = placed_keeps [OF _ assms(2)]
  show ?thesis using assms(1) k unfolding kimi_ffn_placed_def w prod.case Let_def by (auto split: if_splits)
qed

lemma kimi_layer_placed_keeps: "kimi_layer_placed g1 F st c l w \<Longrightarrow> grows g1 g2 qs \<Longrightarrow> kimi_layer_placed g2 F st c l w"
  unfolding kimi_layer_placed_def by (meson kimi_ffn_placed_keeps placed_keeps)

lemma ffn_ptrs_of: "length ps = 3 \<Longrightarrow> ffn_ptrs (Some (ffn_of wide hdim ps)) = ps"
  by (auto simp: ffn_ptrs_def ffn_of_def q4_mat_def numeral_nat length_Suc_conv)

lemma ffn_items_length: "length (ffn_items F st p wide hdim) = 3"
  by (simp add: ffn_items_def)

lemma placed_length: "placed g items ps \<Longrightarrow> length ps = length items"
  by (auto simp: placed_def dest: list_all2_lengthD)

lemma ffn_ptrs_placed: "placed g (ffn_items F st p a b) ps \<Longrightarrow> ffn_ptrs (Some (ffn_of a b ps)) = ps"
  by (rule ffn_ptrs_of) (simp add: placed_length ffn_items_length)

lemma kimi_load_ffn_adds:
  assumes C: "alloc_fresh C"
  shows "adds g (kimi_load_ffn C F st c l g) (\<lambda>w ps g'. kimi_ffn_placed g' F st c l w ps)"
proof (cases "l < kc_dense_layers c")
  case True
  show ?thesis unfolding kimi_load_ffn_def Let_def if_P [OF True]
  proof (rule adds_then [OF put_items_adds [OF C]], rule adds_ok)
    fix ps qs g1
    assume a: "ps = qs \<and> placed g1 (ffn_items F st (layer_prefix l @ ''.mlp'') (kc_dense_inter c) (kc_hidden c)) qs"
    then have "ffn_ptrs (Some (ffn_of (kc_dense_inter c) (kc_hidden c) qs)) = qs" using ffn_ptrs_placed by blast
    then show "kimi_ffn_placed g1 F st c l (None, None, None, Some (ffn_of (kc_dense_inter c) (kc_hidden c) qs)) (ps @ [])"
      using True a by (simp add: kimi_ffn_placed_def Let_def)
  qed
next
  case False
  let ?p = "layer_prefix l @ ''.mlp''"
  show ?thesis unfolding kimi_load_ffn_def Let_def if_not_P [OF False]
  proof (rule adds_then [OF put_item_adds [OF C]], rule adds_pure, rule adds_then [OF put_items_adds [OF C]], rule adds_ok)
    fix r ps g1 bias qs ps' g2
    assume a: "ps = [r] \<and> placed g1 [kimi_bf16_host st (?p @ ''.gate.weight'') (kc_experts c) (kc_hidden c)] [r]"
      "map_err LSt (st_f32 F st (?p @ ''.gate.e_score_correction_bias'')) = Ok bias"
      "ps' = qs \<and> placed g2 (ffn_items F st (?p @ ''.shared_experts'') (kc_moe_inter c) (kc_hidden c)) qs" and g: "grows g1 g2 ps'"
    have f: "ffn_ptrs (Some (ffn_of (kc_moe_inter c) (kc_hidden c) qs)) = qs" by (rule ffn_ptrs_placed) (rule conjunct2 [OF a(3)])
    have "placed g2 [kimi_bf16_host st (?p @ ''.gate.weight'') (kc_experts c) (kc_hidden c)] [r]"
      using a(1) placed_keeps [OF _ g] by blast
    moreover obtain b shape where "bias = (b, shape)" "st_f32 F st (?p @ ''.gate.e_score_correction_bias'') = Ok (b, shape)"
      using a(2) by (cases bias) (auto simp: panic_simps)
    ultimately show "kimi_ffn_placed g2 F st c l
        (Some \<lparr>mt_dev = r, mt_rows = of_nat (kc_experts c), mt_cols = of_nat (kc_hidden c), mt_q4 = False\<rparr>, Some (fst bias),
         Some (ffn_of (kc_moe_inter c) (kc_hidden c) qs), None) (ps @ ps' @ [])"
      using False a by (simp add: kimi_ffn_placed_def Let_def f)
  qed
qed

lemma kimi_attn_ptrs_of:
  assumes "length ps = 10"
  shows "kimi_attn_ptrs (kimi_layer_of c w ps) = ps"
proof -
  have "map (\<lambda>i. ps ! i) [0..<10] = ps" using assms map_nth by metis
  moreover have "[0..<10] = [0, 1, 2, 3, 4, 5, 6, 7, 8, 9 :: nat]" by (simp add: upt_rec)
  ultimately show ?thesis using assms by (cases w) (simp add: kimi_attn_ptrs_def kimi_layer_ptrs_def kimi_layer_of_def Let_def q4_mat_def)
qed

lemma kimi_layer_fields:
  "kl_router (kimi_layer_of c (r, b, s, d) ps) = r" "kl_bias (kimi_layer_of c (r, b, s, d) ps) = b"
  "kl_shared (kimi_layer_of c (r, b, s, d) ps) = s" "kl_dense (kimi_layer_of c (r, b, s, d) ps) = d"
  by (simp_all add: kimi_layer_of_def Let_def)

lemma kimi_ffn_ptrs:
  "kimi_ffn_placed g F st c l (r, b, s, d) ps \<Longrightarrow>
     ps = (case r of None \<Rightarrow> [] | Some m \<Rightarrow> [mt_dev m]) @ ffn_ptrs s @ ffn_ptrs d"
  by (auto simp: kimi_ffn_placed_def Let_def ffn_ptrs_def split: if_splits)

lemma kimi_load_layer_adds:
  assumes C: "alloc_fresh C"
  shows "adds g (kimi_load_layer C F st c l g) (\<lambda>w ps g'. set ps = set (kimi_layer_ptrs w) \<and> kimi_layer_placed g' F st c l w)"
  unfolding kimi_load_layer_def
proof (rule adds_pure, rule adds_pure, rule adds_then [OF kimi_load_ffn_adds [OF C]], rule adds_then [OF put_items_adds [OF C]], rule adds_ok)
  fix kvb ktvw ffn ps g1 qs ps' g2
  assume a: "map_err LSt (st_f32 F st (layer_prefix l @ ''.self_attn.kv_b_proj.weight'')) = Ok kvb"
    "split_kv_b F (kc_heads c) (kc_nope c) (kc_v_head c) (kc_kv_lora c) kvb = Ok ktvw"
    "kimi_ffn_placed g1 F st c l ffn ps" "ps' = qs \<and> placed g2 (kimi_attn_items F st c l ktvw) qs" and g: "grows g1 g2 ps'"
  obtain r b s d where ffn: "ffn = (r, b, s, d)" using prod_cases4 by blast
  let ?w = "kimi_layer_of c ffn qs"
  have "length (kimi_attn_items F st c l ktvw) = 10" by (simp add: kimi_attn_items_def Let_def case_prod_beta)
  then have "length qs = 10" using placed_length [OF conjunct2 [OF a(4)]] by simp
  then have at: "kimi_attn_ptrs ?w = qs" by (rule kimi_attn_ptrs_of)
  have f2: "kimi_ffn_placed g2 F st c l ffn ps" by (rule kimi_ffn_placed_keeps [OF a(3) g])
  have "kimi_layer_ptrs ?w = kimi_attn_ptrs ?w @ ps"
    using kimi_ffn_ptrs [OF f2 [unfolded ffn]] by (simp add: kimi_attn_ptrs_def kimi_layer_ptrs_def ffn kimi_layer_fields)
  then have s: "set (ps @ ps' @ []) = set (kimi_layer_ptrs ?w)" using a(4) at by auto
  obtain k sh where k: "kvb = (k, sh)" "st_f32 F st (layer_prefix l @ ''.self_attn.kv_b_proj.weight'') = Ok (k, sh)"
    using a(1) by (cases kvb) (auto simp: panic_simps)
  have "kimi_layer_placed g2 F st c l ?w" unfolding kimi_layer_placed_def
  proof (intro exI conjI)
    show "st_f32 F st (layer_prefix l @ ''.self_attn.kv_b_proj.weight'') = Ok (k, sh)" by (rule k(2))
    show "split_kv_b F (kc_heads c) (kc_nope c) (kc_v_head c) (kc_kv_lora c) (k, sh) = Ok ktvw" using a(2) k(1) by simp
    show "placed g2 (kimi_attn_items F st c l ktvw) (kimi_attn_ptrs ?w)" using a(4) at by simp
    show "kimi_ffn_placed g2 F st c l (kl_router ?w, kl_bias ?w, kl_shared ?w, kl_dense ?w) ps"
      using f2 by (simp add: ffn kimi_layer_fields)
  qed
  with s show "set (ps @ ps' @ []) = set (kimi_layer_ptrs ?w) \<and> kimi_layer_placed g2 F st c l ?w" by blast
qed

lemma kimi_load_layers_adds:
  assumes C: "alloc_fresh C"
  shows "adds g (kimi_load_layers C F st c ls g)
    (\<lambda>ws ps g'. set ps = set (concat (map kimi_layer_ptrs ws)) \<and> list_all2 (kimi_layer_placed g' F st c) ls ws)"
proof (induction ls arbitrary: g)
  case (Cons l ls)
  show ?case unfolding kimi_load_layers.simps
  proof (rule adds_then [OF kimi_load_layer_adds [OF C]], rule adds_then [OF Cons.IH], rule adds_ok)
    fix w ps g1 ws ps' g2
    assume "grows g1 g2 ps'" "set ps = set (kimi_layer_ptrs w) \<and> kimi_layer_placed g1 F st c l w"
      "set ps' = set (concat (map kimi_layer_ptrs ws)) \<and> list_all2 (kimi_layer_placed g2 F st c) ls ws"
    then show "set (ps @ ps' @ []) = set (concat (map kimi_layer_ptrs (w # ws))) \<and> list_all2 (kimi_layer_placed g2 F st c) (l # ls) (w # ws)"
      using kimi_layer_placed_keeps by auto
  qed
qed (auto intro: grow_intros)

definition kimi_core_placed :: "gpu \<Rightarrow> 'f f32_ops \<Rightarrow> safetensors \<Rightarrow> 'f kimi_conf \<Rightarrow> 'f kimi_core \<Rightarrow> bool" where
  "kimi_core_placed g F st c w \<longleftrightarrow>
     list_all2 (kimi_layer_placed g F st c) [0..<kc_layers c] (kw_layers w) \<and>
     kimi_bf16_host st ''model.embed_tokens.weight'' (kc_vocab c) (kc_hidden c) = Ok (kw_embed_host w) \<and>
     placed g [norm_host F st ''model.norm.weight'' (kc_hidden c), q4_host F st lm_head_name (kc_vocab c) (kc_hidden c)]
       [kw_final_norm w, mt_dev (kw_lm_head w)]"

lemma kimi_core_load_adds:
  assumes C: "alloc_fresh C"
  shows "adds g (kimi_core_load C F parse core c g) (\<lambda>w ps g'.
    set (kimi_core_ptrs w) = set ps \<and> (\<exists>st. st_open parse core = Ok st \<and> kimi_core_placed g' F st c w))"
  unfolding kimi_core_load_def
proof (rule adds_pure, rule adds_then [OF kimi_load_layers_adds [OF C]], rule adds_pure, rule adds_then [OF put_items_adds [OF C]], rule adds_ok)
  fix st ws ps g1 emb qs ps' g2
  let ?items = "[norm_host F st ''model.norm.weight'' (kc_hidden c), q4_host F st lm_head_name (kc_vocab c) (kc_hidden c)]"
  assume a: "map_err LSt (st_open parse core) = Ok st" "set ps = set (concat (map kimi_layer_ptrs ws)) \<and> list_all2 (kimi_layer_placed g1 F st c) [0..<kc_layers c] ws"
    "kimi_bf16_host st ''model.embed_tokens.weight'' (kc_vocab c) (kc_hidden c) = Ok emb" "ps' = qs \<and> placed g2 ?items qs" and g: "grows g1 g2 ps'"
  let ?w = "\<lparr>kw_embed_host = emb, kw_final_norm = qs ! 0, kw_lm_head = q4_mat (kc_vocab c) (kc_hidden c) (qs ! 1), kw_layers = ws\<rparr>"
  have "length qs = 2" using placed_length [OF conjunct2 [OF a(4)]] by simp
  then obtain x y where q: "qs = [x, y]" by (auto simp: numeral_nat length_Suc_conv)
  have "list_all2 (kimi_layer_placed g2 F st c) [0..<kc_layers c] ws"
    by (rule list_all2_mono [OF conjunct2 [OF a(2)]]) (rule kimi_layer_placed_keeps [OF _ g])
  then have "kimi_core_placed g2 F st c ?w" using a(3,4) by (simp add: kimi_core_placed_def q q4_mat_def)
  moreover have "set (kimi_core_ptrs ?w) = set (ps @ ps' @ [])" using a(2,4) by (auto simp: kimi_core_ptrs_def q q4_mat_def)
  moreover have "st_open parse core = Ok st" using a(1) by (simp add: panic_simps)
  ultimately show "set (kimi_core_ptrs ?w) = set (ps @ ps' @ []) \<and> (\<exists>st. st_open parse core = Ok st \<and> kimi_core_placed g2 F st c ?w)"
    by blast
qed

text \<open>
  Loading the Kimi core: each layer's matrices, norms, dense or shared experts and the two absorbed
  matrices lie at the addresses its record names, with the bytes of their checked tensors; the bias
  and the embedding table are on the host; nothing else on the device changed, and \<open>device_ptrs\<close> lists
  exactly what was allocated.\<close>
theorem kimi_core_load_places_weights:
  fixes F :: "'f f32_ops"
  assumes C: "alloc_fresh C" and r: "kimi_core_load C F parse core c g = (Ok w, g')"
  shows "\<exists>st. st_open parse core = Ok st \<and> kimi_core_placed g' F st c w \<and> grows g g' (drop (length (gp_live g)) (gp_live g')) \<and>
    set (kimi_core_ptrs w) = set (drop (length (gp_live g)) (gp_live g'))"
proof -
  from kimi_core_load_adds [OF C, of g F parse core c] r obtain ps st where ps: "grows g g' ps" "st_open parse core = Ok st"
      "set (kimi_core_ptrs w) = set ps" "kimi_core_placed g' F st c w" by (auto simp: adds_def)
  from ps(1) have "drop (length (gp_live g)) (gp_live g') = ps" by (simp add: grows_def)
  with ps show ?thesis by auto
qed

end
