(* ===== verification/Kimi_Life.thy ===== *)
theory Kimi_Life
  imports Kimi_Core
begin

text \<open>
  The life of a Kimi decoder on the device (\<open>KimiDecoder::new\<close> and \<open>Drop\<close> of
  \<open>llmpager-run/src/kimi.rs\<close>; \<open>resize_cache\<close> repeats the code of \<open>decode.rs\<close>).
\<close>

section \<open>Kimi decoders\<close>

record 'f kimi_mem = dev_mem +
  km_bufs :: "u64 list"
  km_cache :: "u64 list"
  km_inv_freq :: u64
  km_core :: "'f kimi_core"
  km_min_weight :: 'f

text \<open>
  The buffers allocated after the caches: those before the router in the order of the literal, then
  the rest. The layer count is subtracted in \<open>usize\<close>.
\<close>

definition kimi_buffer_sizes :: "'f kimi_conf \<Rightarrow> nat \<Rightarrow> nat list" where
  "kimi_buffer_sizes c max_seq =
     (let f = (*) 4; qk = kc_kv_lora c + kc_rope c; h = kc_heads c; hdim = kc_hidden c; k = kc_top_k c in
      map f [hdim, hdim, kc_q_lora c, h * (kc_nope c + kc_rope c), qk, kc_kv_lora c, h * qk, h * kc_kv_lora c, h * kc_v_head c, hdim,
             h * max_seq, kc_experts c, k * kc_moe_inter c, k * kc_moe_inter c, k * kc_moe_inter c, k * hdim] @
      [k * 8] @
      map f [k, kc_moe_inter c, kc_moe_inter c, hdim, kc_dense_inter c, kc_dense_inter c, kc_vocab c, 64 * hdim, 64 * hdim, 64 * kc_experts c])"

datatype kimi_error = KLife life_error | KLayers nat nat

definition lift_life :: "(life_error, 'a) res \<times> gpu \<Rightarrow> (kimi_error, 'a) res \<times> gpu" where
  "lift_life r = (map_err KLife (fst r), snd r)"

definition kimi_layers_ok :: "'f kimi_conf \<Rightarrow> u16 \<Rightarrow> (kimi_error, unit) res" where
  "kimi_layers_ok c n =
     (if kc_layers c < kc_dense_layers c then Panic
      else if unat n \<noteq> kc_layers c - kc_dense_layers c then Err (KLayers (unat n) (kc_layers c - kc_dense_layers c)) else Ok ())"

definition kimi_new ::
  "cuda \<Rightarrow> 'f json pager_env \<Rightarrow> 'f f32_ops \<Rightarrow> 'f yarn_math \<Rightarrow> (bytes \<Rightarrow> 'j json option) \<Rightarrow> file_bytes \<Rightarrow> 'f dec_args \<Rightarrow> gpu
     \<Rightarrow> (kimi_error, 'f kimi_mem) res \<times> gpu" where
  "kimi_new C E F Y parse core a g =
     and_then (map_err (KLife \<circ> LfPack) (open_inner (pe_de E) (pe_pack E) False), g) (\<lambda>r g0.
     and_then (map_err (KLife \<circ> LfConfig) (kimi_from_json Y (pm_config (r_meta r))), g0) (\<lambda>cfg g1.
     and_then (map_err KLife (expert_group (pm_dtype (r_meta r))), g1) (\<lambda>grp g2.
     and_then (kimi_layers_ok cfg (pm_layers (r_meta r)), g2) (\<lambda>_ g3.
     and_then (map_err (KLife \<circ> LfLoad) (fst (kimi_core_load C F parse core cfg g3)), snd (kimi_core_load C F parse core cfg g3)) (\<lambda>w g4.
     and_then (lift_life (pager_build C E (pager_conf (da_io_threads a) (da_direct a) (da_ram a) (da_slots a) (da_reserve a)) g4)) (\<lambda>pg g5.
     and_then (lift_life (lift_dev (alloc_all C (replicate (kc_layers cfg)
         (max 1 (da_batch_cap a) * da_max_seq a * (kc_kv_lora cfg + kc_rope cfg) * 4)) g5))) (\<lambda>cache g6.
     and_then (lift_life (lift_dev (put_device C (f32_bytes F (kc_inv_freq cfg)) g6))) (\<lambda>inv g7.
     and_then (lift_life (lift_dev (alloc_all C (kimi_buffer_sizes cfg (da_max_seq a)) g7))) (\<lambda>bufs g8.
     and_then (lift_life (lift_dev (make_events C 8 g8))) (\<lambda>_ g9.
       (Ok \<lparr>dm_pager = Some pg, dm_pack = da_pack a, dm_io_threads = da_io_threads a, dm_direct = da_direct a, dm_ram = da_ram a, dm_reserve = da_reserve a,
            dm_group = grp, dm_batch = max 1 (da_batch_cap a), km_bufs = bufs, km_cache = cache, km_inv_freq = inv, km_core = w, km_min_weight = y_num Y 0\<rparr>, g9)))))))))))"

definition kimi_ptrs :: "'f kimi_mem \<Rightarrow> u64 list" where
  "kimi_ptrs d = sort_dedup (km_bufs d @ [km_inv_freq d] @ km_cache d @ kimi_core_ptrs (km_core d))"

definition kimi_drop :: "cuda \<Rightarrow> 'f kimi_mem \<Rightarrow> gpu \<Rightarrow> gpu" where
  "kimi_drop C d g = pager_drop (dm_pager d) (free_all (kimi_ptrs d) (snd (sync C g)))"

lemma adds_lift_life: "adds g r Q \<Longrightarrow> adds g (lift_life r) Q"
  unfolding lift_life_def by (rule adds_map_err)

lemma kimi_new_adds:
  assumes C: "alloc_fresh C"
  shows "adds g (kimi_new C E F Y parse core a g) (\<lambda>d ps g'. \<exists>cps pg. ps = cps @ snd pg @ km_cache d @ [km_inv_freq d] @ km_bufs d \<and>
      set cps = set (kimi_core_ptrs (km_core d)) \<and> dm_pager d = Some pg)"
  unfolding kimi_new_def
  by (rule adds_pure, rule adds_pure, rule adds_pure, rule adds_pure, rule adds_then [OF adds_map_err [OF kimi_core_load_adds [OF C]]],
      rule adds_then [OF adds_lift_life [OF pager_build_adds [OF C]]], rule adds_then [OF adds_lift_life [OF adds_lift_dev [OF alloc_all_adds [OF C]]]],
      rule adds_then [OF adds_lift_life [OF adds_lift_dev [OF put_device_adds [OF C]]]],
      rule adds_then [OF adds_lift_life [OF adds_lift_dev [OF alloc_all_adds [OF C]]]],
      rule adds_then [OF adds_lift_life [OF adds_lift_dev [OF make_events_adds]]])
    (fastforce intro!: grow_intros)

lemma kimi_new_owns:
  assumes C: "alloc_fresh C" and r: "kimi_new C E F Y parse core a g = (Ok d, g')"
  shows "owns g (kimi_ptrs d) d [] g'"
proof -
  from kimi_new_adds [OF C, of g E F Y parse core a] r obtain ps cps pg where
    ps: "grows g g' ps" "ps = cps @ snd pg @ km_cache d @ [km_inv_freq d] @ km_bufs d"
      "set cps = set (kimi_core_ptrs (km_core d))" "dm_pager d = Some pg" by (auto simp: adds_def)
  have d: "distinct (cps @ km_cache d @ [km_inv_freq d] @ km_bufs d)" using ps(1,2) by (auto simp: grows_def)
  have "mset (kimi_ptrs d) = mset (cps @ km_cache d @ [km_inv_freq d] @ km_bufs d)" unfolding kimi_ptrs_def
    by (rule sort_dedup_mset [OF d]) (use ps(3) in auto)
  then show ?thesis using ps grows_mset [OF ps(1)] by (simp add: owns_def arenas_of_def grows_def)
qed

end
