(* ===== verification/Registry.thy ===== *)
theory Registry
  imports Sessions Device
begin

text \<open>
  The model registry of \<open>llmpager-serve/src/main.rs\<close>: which models are warm, the eviction of the least
  recently used ones, and the budget of cache slots that depends on how many share the card. It works
  through the operations of \<open>AnyDecoder\<close>, here the record \<open>model_api\<close>; theory \<open>Any_Decoder\<close> supplies
  them. The contract it relies on is the locale \<open>device_models\<close>.
\<close>

section \<open>State\<close>

text \<open>Names and paths are strings; the fields of type \<open>f64\<close> have the type \<open>'x\<close>.\<close>

record 'x model_spec =
  ms_name :: string
  ms_pack :: string
  ms_core :: string
  ms_tokenizer :: string
  ms_slots :: u32
  ms_slots_solo :: u32
  ms_io_threads :: nat
  ms_direct :: bool
  ms_ram_gb :: 'x
  ms_core_q4 :: bool
  ms_max_seq :: nat
  ms_batch :: nat
  ms_min_weight :: 'x
  ms_prewarm :: "string option"
  ms_session_ram_gb :: 'x
  ms_reserve_mb :: u64

text \<open>
  An engine. \<open>en_tok\<close> is the file its tokenizer was read from; \<open>en_warmed\<close> the profile its RAM tier was
  filled from when it was loaded.
\<close>

record 'd engine =
  en_dec :: 'd
  en_tok :: string
  en_cur_slots :: u32
  en_max_seq :: nat
  en_sessions :: session_store
  en_reserve :: u64
  en_warmed :: "u64 list option"

type_synonym 'd warm = "(string \<times> 'd engine) list"

record ('x, 'd) registry =
  rt_specs :: "'x model_spec list"
  rt_max_warm :: nat
  rt_warm :: "'d warm"

datatype 'e serve_error = UnknownModel string | BadTokenizer string | Model 'e

text \<open>
  The decoder's operations the registry calls: loading a model with a number of slots, the bytes of its
  RAM tier and a reserve; \<open>ap_stats\<close> is \<open>None\<close> where it panics.
\<close>

record ('x, 'd, 'e) model_api =
  ap_new :: "'x model_spec \<Rightarrow> u32 \<Rightarrow> u64 \<Rightarrow> u64 \<Rightarrow> gpu \<Rightarrow> ('e, 'd) res \<times> gpu"
  ap_min_weight :: "'x \<Rightarrow> 'd \<Rightarrow> 'd"
  ap_resize :: "u32 \<Rightarrow> 'd \<Rightarrow> gpu \<Rightarrow> ('e, unit) res \<times> 'd \<times> gpu"
  ap_drop :: "'d \<Rightarrow> gpu \<Rightarrow> gpu"
  ap_slots :: "'d \<Rightarrow> u32"
  ap_batch :: "'d \<Rightarrow> nat"
  ap_stats :: "'d \<Rightarrow> u64 list option"

text \<open>
  The host: the card, and the profile files that can be read and parsed. What the host answers:
  whether a path is a directory, whether a tokenizer can be read, whether a file can be written, and
  the cast of gigabytes to bytes.
\<close>

record host =
  ht_gpu :: gpu
  ht_files :: "string \<Rightarrow> u64 list option"

record 'x serve_env =
  sv_dir :: "string \<Rightarrow> bool"
  sv_tok :: "string \<Rightarrow> bool"
  sv_writable :: "string \<Rightarrow> bool"
  sv_gb :: "'x \<Rightarrow> u64"

section \<open>Operations\<close>

definition find_spec :: "'x model_spec list \<Rightarrow> string \<Rightarrow> 'x model_spec option" where
  "find_spec specs name = List.find (\<lambda>s. ms_name s = name) specs"

definition target :: "'x model_spec \<Rightarrow> nat \<Rightarrow> u32" where
  "target s sharers = (if sharers \<le> 1 then ms_slots_solo s else ms_slots s)"

text \<open>\<open>PathBuf::join\<close> with a file name, and the reserve in bytes, whose product may overflow.\<close>

definition path_join :: "string \<Rightarrow> string \<Rightarrow> string" where
  "path_join p n = (if p = [] then n else if last p = CHR ''/'' then p @ n else p @ CHR ''/'' # n)"

definition reserve_of :: "'x model_spec \<Rightarrow> u64 option" where
  "reserve_of s = (if uint (ms_reserve_mb s) * 1000000 < 2 ^ 64 then Some (ms_reserve_mb s * 1000000) else None)"

text \<open>\<open>rebalance\<close> stops at the first model whose resize fails.\<close>

fun rebalance ::
  "('x, 'd, 'e) model_api \<Rightarrow> 'x model_spec list \<Rightarrow> nat \<Rightarrow> 'd warm \<Rightarrow> gpu \<Rightarrow> ('e serve_error, unit) res \<times> 'd warm \<times> gpu" where
  "rebalance A specs sharers [] g = (Ok (), [], g)"
| "rebalance A specs sharers ((nm, e) # ws) g =
     (case find_spec specs nm of
        None \<Rightarrow> (Panic, (nm, e) # ws, g)
      | Some s \<Rightarrow>
          if en_cur_slots e = target s sharers then
            (case rebalance A specs sharers ws g of (r, ws', g') \<Rightarrow> (r, (nm, e) # ws', g'))
          else
            (case ap_resize A (target s sharers) (en_dec e) g of
               (Ok _, d, g1) \<Rightarrow>
                 (case rebalance A specs sharers ws g1 of
                    (r, ws', g') \<Rightarrow> (r, (nm, e\<lparr>en_dec := d, en_cur_slots := ap_slots A d\<rparr>) # ws', g'))
             | (Err x, d, g1) \<Rightarrow> (Err (Model x), (nm, e\<lparr>en_dec := d\<rparr>) # ws, g1)
             | (Panic, d, g1) \<Rightarrow> (Panic, (nm, e\<lparr>en_dec := d\<rparr>) # ws, g1)))"

text \<open>An evicted model leaves its profile, when it has a file for it, and is dropped.\<close>

definition retire ::
  "('x, 'd, 'e) model_api \<Rightarrow> 'x serve_env \<Rightarrow> 'x model_spec list \<Rightarrow> string \<times> 'd engine \<Rightarrow> host \<Rightarrow> ('e serve_error, unit) res \<times> host" where
  "retire A V specs w h =
     (let gone = h\<lparr>ht_gpu := ap_drop A (en_dec (snd w)) (ht_gpu h)\<rparr> in
      case Option.bind (find_spec specs (fst w)) ms_prewarm of
        None \<Rightarrow> (Ok (), gone)
      | Some f \<Rightarrow>
          (case ap_stats A (en_dec (snd w)) of
             None \<Rightarrow> (Panic, gone)
           | Some counts \<Rightarrow> (Ok (), if sv_writable V f then gone\<lparr>ht_files := (ht_files h)(f := Some counts)\<rparr> else gone)))"

text \<open>The loop of pops, over the warm models with the least recently used first.\<close>

fun evict_lru ::
  "('x, 'd, 'e) model_api \<Rightarrow> 'x serve_env \<Rightarrow> 'x model_spec list \<Rightarrow> nat \<Rightarrow> 'd warm \<Rightarrow> host \<Rightarrow> ('e serve_error, unit) res \<times> 'd warm \<times> host" where
  "evict_lru A V specs most [] h = (Ok (), [], h)"
| "evict_lru A V specs most (w # ws) h =
     (if length (w # ws) < most then (Ok (), w # ws, h)
      else case retire A V specs w h of
             (Ok _, h') \<Rightarrow> evict_lru A V specs most ws h'
           | (Err x, h') \<Rightarrow> (Err x, ws, h')
           | (Panic, h') \<Rightarrow> (Panic, ws, h'))"

definition drop_warm :: "('x, 'd, 'e) model_api \<Rightarrow> 'd warm \<Rightarrow> gpu \<Rightarrow> gpu" where
  "drop_warm A ws g = foldl (\<lambda>g w. ap_drop A (en_dec (snd w)) g) g ws"

text \<open>The closure \<open>load\<close>. A failed pre-warming is only reported.\<close>

definition load_engine ::
  "('x, 'd, 'e) model_api \<Rightarrow> 'x serve_env \<Rightarrow> (string \<Rightarrow> u64 list option) \<Rightarrow> 'x model_spec \<Rightarrow> u32 \<Rightarrow> gpu \<Rightarrow> ('e serve_error, 'd engine) res \<times> gpu" where
  "load_engine A V files s slots g =
     (let tok = if sv_dir V (ms_tokenizer s) then path_join (ms_tokenizer s) ''tokenizer.json'' else ms_tokenizer s in
      if \<not> sv_tok V tok then (Err (BadTokenizer tok), g)
      else case reserve_of s of
        None \<Rightarrow> (Panic, g)
      | Some reserve \<Rightarrow>
          (case ap_new A s slots (sv_gb V (ms_ram_gb s)) reserve g of
             (Err x, g1) \<Rightarrow> (Err (Model x), g1)
           | (Panic, g1) \<Rightarrow> (Panic, g1)
           | (Ok d, g1) \<Rightarrow>
               (Ok \<lparr>en_dec = ap_min_weight A (ms_min_weight s) d, en_tok = tok, en_cur_slots = slots, en_max_seq = ms_max_seq s,
                    en_sessions = store_new (ap_batch A d) (unat (sv_gb V (ms_session_ram_gb s))), en_reserve = reserve,
                    en_warmed = Option.bind (ms_prewarm s) files\<rparr>, g1)))"

text \<open>The end of \<open>warm_up\<close>: the new model goes to the front and everything is balanced again.\<close>

definition settle_in ::
  "('x, 'd, 'e) model_api \<Rightarrow> ('x, 'd) registry \<Rightarrow> string \<Rightarrow> 'd warm \<Rightarrow> (string \<Rightarrow> u64 list option) \<Rightarrow> 'd engine \<Rightarrow> gpu
     \<Rightarrow> ('e serve_error, nat) res \<times> ('x, 'd) registry \<times> host" where
  "settle_in A rt name ws files e g =
     (let ws1 = (name, e\<lparr>en_cur_slots := ap_slots A (en_dec e)\<rparr>) # ws in
      case rebalance A (rt_specs rt) (length ws1) ws1 g of
        (r, ws2, g') \<Rightarrow> (bind_res r (\<lambda>_. Ok 0), rt\<lparr>rt_warm := ws2\<rparr>, \<lparr>ht_gpu = g', ht_files = files\<rparr>))"

definition load_and_settle ::
  "('x, 'd, 'e) model_api \<Rightarrow> 'x serve_env \<Rightarrow> ('x, 'd) registry \<Rightarrow> 'x model_spec \<Rightarrow> string \<Rightarrow> nat \<Rightarrow> 'd warm \<Rightarrow> (string \<Rightarrow> u64 list option) \<Rightarrow> gpu
     \<Rightarrow> ('e serve_error, nat) res \<times> ('x, 'd) registry \<times> host" where
  "load_and_settle A V rt s name sharers ws files g =
     (case load_engine A V files s (target s sharers) g of
        (Ok e, g1) \<Rightarrow> settle_in A rt name ws files e g1
      | (Panic, g1) \<Rightarrow> (Panic, rt\<lparr>rt_warm := ws\<rparr>, \<lparr>ht_gpu = g1, ht_files = files\<rparr>)
      | (Err x, g1) \<Rightarrow>
          if ws = [] then (Err x, rt\<lparr>rt_warm := []\<rparr>, \<lparr>ht_gpu = g1, ht_files = files\<rparr>)
          else (case load_engine A V files s (ms_slots_solo s) (drop_warm A ws g1) of
                  (Ok e, g2) \<Rightarrow> settle_in A rt name [] files e g2
                | (Err y, g2) \<Rightarrow> (Err y, rt\<lparr>rt_warm := []\<rparr>, \<lparr>ht_gpu = g2, ht_files = files\<rparr>)
                | (Panic, g2) \<Rightarrow> (Panic, rt\<lparr>rt_warm := []\<rparr>, \<lparr>ht_gpu = g2, ht_files = files\<rparr>)))"

definition warm_up ::
  "('x, 'd, 'e) model_api \<Rightarrow> 'x serve_env \<Rightarrow> string \<Rightarrow> ('x, 'd) registry \<Rightarrow> host \<Rightarrow> ('e serve_error, nat) res \<times> ('x, 'd) registry \<times> host" where
  "warm_up A V name rt h =
     (case dropWhile (\<lambda>w. fst w \<noteq> name) (rt_warm rt) of
        w # later \<Rightarrow> (Ok 0, rt\<lparr>rt_warm := w # takeWhile (\<lambda>w. fst w \<noteq> name) (rt_warm rt) @ later\<rparr>, h)
      | [] \<Rightarrow>
          (case find_spec (rt_specs rt) name of
             None \<Rightarrow> (Err (UnknownModel name), rt, h)
           | Some s \<Rightarrow>
               (case evict_lru A V (rt_specs rt) (max 1 (rt_max_warm rt)) (rev (rt_warm rt)) h of
                  (Ok _, kept, h1) \<Rightarrow>
                    let sharers = length kept + 1 in
                    (case rebalance A (rt_specs rt) sharers (rev kept) (ht_gpu h1) of
                       (Ok _, ws, g2) \<Rightarrow> load_and_settle A V rt s name sharers ws (ht_files h1) g2
                     | (Err x, ws, g2) \<Rightarrow> (Err x, rt\<lparr>rt_warm := ws\<rparr>, h1\<lparr>ht_gpu := g2\<rparr>)
                     | (Panic, ws, g2) \<Rightarrow> (Panic, rt\<lparr>rt_warm := ws\<rparr>, h1\<lparr>ht_gpu := g2\<rparr>))
                | (Err x, kept, h1) \<Rightarrow> (Err x, rt\<lparr>rt_warm := rev kept\<rparr>, h1)
                | (Panic, kept, h1) \<Rightarrow> (Panic, rt\<lparr>rt_warm := rev kept\<rparr>, h1))))"

section \<open>What the registry holds\<close>

definition registry_ok :: "('x, 'd) registry \<Rightarrow> bool" where
  "registry_ok rt \<longleftrightarrow> distinct (map fst (rt_warm rt)) \<and> (\<forall>w \<in> set (rt_warm rt). find_spec (rt_specs rt) (fst w) \<noteq> None) \<and>
     length (rt_warm rt) \<le> max 1 (rt_max_warm rt)"

lemma rebalance_names: "rebalance A specs sharers ws g = (r, ws', g') \<Longrightarrow> map fst ws' = map fst ws"
proof (induction ws arbitrary: g r ws')
  case (Cons w ws)
  obtain nm e where w: "w = (nm, e)" by fastforce
  from Cons show ?case by (auto simp: w split: option.splits if_splits prod.splits res.splits)
qed simp

lemma evict_lru_kept:
  "evict_lru A V specs most ws h = (r, kept, h') \<Longrightarrow> \<exists>k. kept = drop k ws \<and> (r = Ok () \<longrightarrow> length kept < most \<or> kept = []) \<and> (\<forall>x. r \<noteq> Err x)"
proof (induction ws arbitrary: h)
  case Nil
  then show ?case by auto
next
  case (Cons w ws)
  show ?case
  proof (cases "length (w # ws) < most")
    case True
    then show ?thesis using Cons.prems by (intro exI [of _ 0]) auto
  next
    case False
    obtain r1 h1 where t: "retire A V specs w h = (r1, h1)" by fastforce
    have r1: "r1 \<noteq> Err x" for x using t by (auto simp: retire_def Let_def split: option.splits)
    show ?thesis
    proof (cases r1)
      case (Ok u)
      with False t Cons.prems have "evict_lru A V specs most ws h1 = (r, kept, h')" by simp
      from Cons.IH [OF this] obtain k where "kept = drop k ws \<and> (r = Ok () \<longrightarrow> length kept < most \<or> kept = []) \<and> (\<forall>x. r \<noteq> Err x)" ..
      then show ?thesis by (intro exI [of _ "Suc k"]) auto
    qed (use False t r1 Cons.prems in \<open>auto intro: exI [of _ 1]\<close>)
  qed
qed

lemma rebalance_err: "rebalance A specs n ws g = (r, ws', g') \<Longrightarrow> r = Err x \<Longrightarrow> \<exists>y. x = Model y"
proof (induction ws arbitrary: g ws')
  case (Cons w ws)
  obtain nm e where w: "w = (nm, e)" by fastforce
  from Cons show ?case by (auto simp: w split: option.splits if_splits prod.splits res.splits)
qed simp

lemma load_err: "load_engine A V files s slots g = (Err x, g') \<Longrightarrow> (\<exists>y. x = Model y) \<or> (\<exists>y. x = BadTokenizer y)"
  by (auto simp: load_engine_def Let_def split: if_splits option.splits prod.splits res.splits)

text \<open>How the names change: those that stay keep their order, and only the least recently used go.\<close>

definition warm_names :: "('x, 'd) registry \<Rightarrow> string list" where
  "warm_names rt = map fst (rt_warm rt)"

lemma registry_okI:
  assumes "registry_ok rt" "warm_names rt' = take k (warm_names rt) \<or> warm_names rt' = nm # take k (remove1 nm (warm_names rt))"
    "find_spec (rt_specs rt) nm \<noteq> None" "length (warm_names rt') \<le> max 1 (rt_max_warm rt)"
    "rt_specs rt' = rt_specs rt" "rt_max_warm rt' = rt_max_warm rt"
  shows "registry_ok rt'"
proof -
  have d: "distinct (warm_names rt)" and s: "\<forall>n \<in> set (warm_names rt). find_spec (rt_specs rt) n \<noteq> None"
    using assms(1) by (auto simp: registry_ok_def warm_names_def)
  have "distinct (warm_names rt') \<and> set (warm_names rt') \<subseteq> insert nm (set (warm_names rt))"
    using assms(2)
  proof
    assume e: "warm_names rt' = nm # take k (remove1 nm (warm_names rt))"
    have "nm \<notin> set (remove1 nm (warm_names rt))" "set (remove1 nm (warm_names rt)) \<subseteq> set (warm_names rt)" using d by (auto simp: set_remove1_eq)
    then show ?thesis using d unfolding e by (auto dest: in_set_takeD)
  qed (use d in \<open>auto dest: in_set_takeD\<close>)
  with s assms(3-) show ?thesis by (force simp: registry_ok_def warm_names_def)
qed

lemma settle_in_names:
  assumes "settle_in A rt name ws files e g = (r, rt', h')"
  shows "warm_names rt' = name # map fst ws \<and> rt_specs rt' = rt_specs rt \<and> rt_max_warm rt' = rt_max_warm rt \<and> (\<forall>i. r = Ok i \<longrightarrow> i = 0) \<and>
    (\<forall>n. r \<noteq> Err (UnknownModel n))"
proof -
  let ?ws = "(name, e\<lparr>en_cur_slots := ap_slots A (en_dec e)\<rparr>) # ws"
  obtain q ws2 g2 where b: "rebalance A (rt_specs rt) (length ?ws) ?ws g = (q, ws2, g2)" using prod_cases3 by blast
  show ?thesis using assms b rebalance_names [OF b] rebalance_err [OF b]
    by (cases q) (auto simp: settle_in_def Let_def warm_names_def)
qed

lemma load_and_settle_names:
  assumes "load_and_settle A V rt s name sharers ws files g = (r, rt', h')"
  shows "\<exists>k. rt_specs rt' = rt_specs rt \<and> rt_max_warm rt' = rt_max_warm rt \<and>
    (if (\<exists>i. r = Ok i) then r = Ok 0 \<and> warm_names rt' = name # take k (map fst ws)
     else warm_names rt' = take k (map fst ws) \<or> warm_names rt' = name # take k (map fst ws)) \<and> (\<forall>n. r \<noteq> Err (UnknownModel n))"
proof (cases "load_engine A V files s (target s sharers) g")
  case (Pair r1 g1)
  show ?thesis
  proof (cases r1)
    case (Ok e)
    then have "settle_in A rt name ws files e g1 = (r, rt', h')" using assms Pair by (simp add: load_and_settle_def)
    from settle_in_names [OF this] show ?thesis by (intro exI [of _ "length ws"]) auto
  next
    case (Err x)
    show ?thesis
    proof (cases "ws = []")
      case True
      then show ?thesis using assms Pair Err load_err [of A V files s "target s sharers" g] by (auto simp: load_and_settle_def warm_names_def)
    next
      case False
      obtain r2 g2 where l2: "load_engine A V files s (ms_slots_solo s) (drop_warm A ws g1) = (r2, g2)" by fastforce
      show ?thesis
      proof (cases r2)
        case (Ok e)
        then have "settle_in A rt name [] files e g2 = (r, rt', h')" using assms Pair Err False l2 by (simp add: load_and_settle_def)
        from settle_in_names [OF this] show ?thesis by (intro exI [of _ 0]) auto
      qed (use assms Pair Err False l2 load_err [of A V files s "ms_slots_solo s" "drop_warm A ws g1"] in \<open>auto simp: load_and_settle_def warm_names_def\<close>)
    qed
  next
    case Panic
    then show ?thesis using assms Pair by (auto simp: load_and_settle_def warm_names_def intro!: exI [of _ "length ws"])
  qed
qed

text \<open>A request for a warm model.\<close>

lemma warm_up_hit:
  assumes "warm_up A V name rt h = (r, rt', h')" "dropWhile (\<lambda>w. fst w \<noteq> name) (rt_warm rt) = v # later"
  obtains before where "rt_warm rt = before @ v # later" "rt' = rt\<lparr>rt_warm := v # before @ later\<rparr>" "h' = h" "r = Ok 0" "fst v = name"
    "name \<notin> set (map fst before)"
proof
  let ?before = "takeWhile (\<lambda>w. fst w \<noteq> name) (rt_warm rt)"
  show "rt_warm rt = ?before @ v # later" using assms(2) takeWhile_dropWhile_id [of "\<lambda>w. fst w \<noteq> name" "rt_warm rt"] by simp
  show "fst v = name" using assms(2) hd_dropWhile [of "\<lambda>w. fst w \<noteq> name" "rt_warm rt"] by simp
  show "name \<notin> set (map fst ?before)" by (auto dest: set_takeWhileD)
qed (use assms in \<open>simp_all add: warm_up_def\<close>)

text \<open>The three ways a request for a cold model can go.\<close>

lemma warm_up_miss:
  assumes w: "warm_up A V name rt h = (r, rt', h')" and cold: "dropWhile (\<lambda>w. fst w \<noteq> name) (rt_warm rt) = []"
    and s: "find_spec (rt_specs rt) name = Some s"
  obtains
    (evict) kept where "evict_lru A V (rt_specs rt) (max 1 (rt_max_warm rt)) (rev (rt_warm rt)) h = (Panic, kept, h')"
      "r = Panic" "rt' = rt\<lparr>rt_warm := rev kept\<rparr>"
  | (shrink) kept h1 q ws g2 where "evict_lru A V (rt_specs rt) (max 1 (rt_max_warm rt)) (rev (rt_warm rt)) h = (Ok (), kept, h1)"
      "rebalance A (rt_specs rt) (length kept + 1) (rev kept) (ht_gpu h1) = (q, ws, g2)" "q \<noteq> Ok ()"
      "r = Panic \<or> (\<exists>y. r = Err (Model y))" "rt' = rt\<lparr>rt_warm := ws\<rparr>" "h' = h1\<lparr>ht_gpu := g2\<rparr>"
  | (load) kept h1 ws g2 where "evict_lru A V (rt_specs rt) (max 1 (rt_max_warm rt)) (rev (rt_warm rt)) h = (Ok (), kept, h1)"
      "rebalance A (rt_specs rt) (length kept + 1) (rev kept) (ht_gpu h1) = (Ok (), ws, g2)"
      "load_and_settle A V rt s name (length kept + 1) ws (ht_files h1) g2 = (r, rt', h')"
proof -
  obtain q1 kept h1 where e: "evict_lru A V (rt_specs rt) (max 1 (rt_max_warm rt)) (rev (rt_warm rt)) h = (q1, kept, h1)"
    using prod_cases3 by blast
  have q1: "\<forall>x. q1 \<noteq> Err x" using evict_lru_kept [OF e] by blast
  obtain q ws g2 where b: "rebalance A (rt_specs rt) (length kept + 1) (rev kept) (ht_gpu h1) = (q, ws, g2)" using prod_cases3 by blast
  show thesis
  proof (cases q1)
    case (Ok u)
    show thesis
    proof (cases q)
      case (Ok u)
      then show thesis using load [of kept h1 ws g2] w cold s e b \<open>q1 = _\<close> by (simp add: warm_up_def)
    next
      case (Err x)
      then show thesis using shrink [of kept h1 q ws g2] rebalance_err [OF b Err] w cold s e b \<open>q1 = _\<close> by (auto simp: warm_up_def)
    next
      case Panic
      then show thesis using shrink [of kept h1 q ws g2] w cold s e b \<open>q1 = _\<close> by (simp add: warm_up_def)
    qed
  qed (use q1 w cold s e evict [of kept] in \<open>auto simp: warm_up_def\<close>)
qed

lemma warm_up_order:
  assumes ok: "registry_ok rt" and w: "warm_up A V name rt h = (r, rt', h')"
  shows "registry_ok rt' \<and> rt_specs rt' = rt_specs rt \<and> rt_max_warm rt' = rt_max_warm rt \<and>
    (if name \<in> set (warm_names rt) then r = Ok 0 \<and> h' = h \<and> warm_names rt' = name # remove1 name (warm_names rt)
     else if find_spec (rt_specs rt) name = None then r = Err (UnknownModel name) \<and> rt' = rt \<and> h' = h
     else \<exists>k. (warm_names rt' = name # take k (warm_names rt) \<or> (\<forall>i. r \<noteq> Ok i) \<and> warm_names rt' = take k (warm_names rt)) \<and>
            (\<forall>i. r = Ok i \<longrightarrow> i = 0) \<and> r \<noteq> Err (UnknownModel name))"
proof (cases "dropWhile (\<lambda>w. fst w \<noteq> name) (rt_warm rt)")
  case (Cons v later)
  from w Cons obtain before where split: "rt_warm rt = before @ v # later" and res: "r = Ok 0" "rt' = rt\<lparr>rt_warm := v # before @ later\<rparr>" "h' = h"
    and v: "fst v = name" and nb: "name \<notin> set (map fst before)" by (rule warm_up_hit)
  have names: "warm_names rt = map fst before @ name # map fst later" using v by (simp add: warm_names_def split)
  have r1: "remove1 name (warm_names rt) = map fst before @ map fst later" unfolding names using nb by (simp add: remove1_append)
  have new: "warm_names rt' = name # remove1 name (warm_names rt)" unfolding r1 using res v by (simp add: warm_names_def)
  have "registry_ok rt'"
  proof (rule registry_okI [OF ok, where k = "length (warm_names rt)" and nm = name])
    have "v \<in> set (rt_warm rt)" by (simp add: split)
    then show "find_spec (rt_specs rt) name \<noteq> None" using ok v by (auto simp: registry_ok_def)
    have "length (warm_names rt') = length (warm_names rt)" unfolding new r1 by (simp add: names)
    then show "length (warm_names rt') \<le> max 1 (rt_max_warm rt)" using ok by (simp add: registry_ok_def warm_names_def)
    show "warm_names rt' = take (length (warm_names rt)) (warm_names rt) \<or> warm_names rt' = name # take (length (warm_names rt)) (remove1 name (warm_names rt))"
      using new by (simp add: length_remove1)
  qed (use res in simp_all)
  then show ?thesis using new res by (simp add: names)
next
  case Nil
  then have fresh: "name \<notin> set (warm_names rt)" by (auto simp: warm_names_def dropWhile_eq_Nil_conv)
  show ?thesis
  proof (cases "find_spec (rt_specs rt) name")
    case None
    then show ?thesis using w Nil ok fresh by (simp add: warm_up_def)
  next
    case (Some s)
    have kept: "\<exists>k. map fst (rev kept) = take k (warm_names rt) \<and> length kept \<le> length (rt_warm rt) \<and> (q = Ok () \<longrightarrow> Suc (length kept) \<le> max 1 (rt_max_warm rt))"
      if e: "evict_lru A V (rt_specs rt) (max 1 (rt_max_warm rt)) (rev (rt_warm rt)) h = (q, kept, h1)" for q kept h1
    proof -
      from evict_lru_kept [OF e] obtain k where k: "kept = drop k (rev (rt_warm rt))"
        "q = Ok () \<longrightarrow> length kept < max 1 (rt_max_warm rt) \<or> kept = []" by blast
      from k(1) have "rev kept = take (length (rt_warm rt) - k) (rt_warm rt)" by (simp add: drop_rev)
      then have "map fst (rev kept) = take (length (rt_warm rt) - k) (warm_names rt)" unfolding warm_names_def by (simp only: take_map)
      moreover have "length kept \<le> length (rt_warm rt)" "q = Ok () \<longrightarrow> Suc (length kept) \<le> max 1 (rt_max_warm rt)" using k by auto
      ultimately show ?thesis by blast
    qed
    have len: "length (rt_warm rt) \<le> max 1 (rt_max_warm rt)" using ok by (simp add: registry_ok_def)
    have rm: "remove1 name (warm_names rt) = warm_names rt" using fresh by (simp add: remove1_idem)
    have "\<exists>k. rt_specs rt' = rt_specs rt \<and> rt_max_warm rt' = rt_max_warm rt \<and> length (warm_names rt') \<le> max 1 (rt_max_warm rt) \<and>
      (warm_names rt' = name # take k (warm_names rt) \<or> (\<forall>i. r \<noteq> Ok i) \<and> warm_names rt' = take k (warm_names rt)) \<and>
      (\<forall>i. r = Ok i \<longrightarrow> i = 0) \<and> r \<noteq> Err (UnknownModel name)"
      using w Nil Some
    proof (cases rule: warm_up_miss)
      case (evict kept)
      from kept [OF evict(1)] len show ?thesis using evict by (auto simp: warm_names_def)
    next
      case (shrink kept h1 q ws g2)
      from kept [OF shrink(1)] len rebalance_names [OF shrink(2)] show ?thesis using shrink(4-6)
        by (auto simp: warm_names_def simp flip: length_map [of fst ws])
    next
      case (load kept h1 ws g2)
      from kept [OF load(1)] obtain k where k: "map fst ws = take k (warm_names rt)" "Suc (length kept) \<le> max 1 (rt_max_warm rt)"
        using rebalance_names [OF load(2)] by auto
      have l: "length (take n (map fst ws)) \<le> length kept" for n using arg_cong [OF rebalance_names [OF load(2)], of length] by simp
      from load_and_settle_names [OF load(3)] obtain n where n: "rt_specs rt' = rt_specs rt" "rt_max_warm rt' = rt_max_warm rt"
        "if \<exists>i. r = Ok i then r = Ok 0 \<and> warm_names rt' = name # take n (map fst ws)
         else warm_names rt' = take n (map fst ws) \<or> warm_names rt' = name # take n (map fst ws)" "\<forall>m. r \<noteq> Err (UnknownModel m)" by blast
      have "length (warm_names rt') \<le> Suc (length kept)" using n(3) l [of n] by (auto split: if_splits)
      then show ?thesis using n k by (intro exI [of _ "min n k"]) (auto simp: min.commute split: if_splits)
    qed
    then obtain k where k: "rt_specs rt' = rt_specs rt" "rt_max_warm rt' = rt_max_warm rt" "length (warm_names rt') \<le> max 1 (rt_max_warm rt)"
      "warm_names rt' = name # take k (warm_names rt) \<or> (\<forall>i. r \<noteq> Ok i) \<and> warm_names rt' = take k (warm_names rt)"
      "\<forall>i. r = Ok i \<longrightarrow> i = 0" "r \<noteq> Err (UnknownModel name)" by blast
    have "registry_ok rt'" by (rule registry_okI [OF ok, where k = k and nm = name]) (use k Some rm in auto)
    then show ?thesis using k fresh Some by auto
  qed
qed

text \<open>C31:
  Asking for a model keeps the registry in order: the warm models are distinct, known, and at most
  \<open>max_warm\<close> (one if that is zero). On success the model is at the front; the others keep their order
  of use, all of them when it was warm already (and then nothing else changes), otherwise a first part
  of them. An error keeps a first part, with the new model in front when only the final balancing
  failed. An unknown name changes nothing.\<close>
theorem warm_up_keeps_registry:
  assumes ok: "registry_ok rt" and w: "warm_up A V name rt h = (r, rt', h')"
  shows "registry_ok rt' \<and> rt_specs rt' = rt_specs rt \<and> rt_max_warm rt' = rt_max_warm rt \<and>
    (if name \<in> set (warm_names rt) then r = Ok 0 \<and> h' = h \<and> warm_names rt' = name # remove1 name (warm_names rt)
     else if find_spec (rt_specs rt) name = None then r = Err (UnknownModel name) \<and> rt' = rt \<and> h' = h
     else \<exists>k. (warm_names rt' = name # take k (warm_names rt) \<or> (\<forall>i. r \<noteq> Ok i) \<and> warm_names rt' = take k (warm_names rt)) \<and>
            (\<forall>i. r = Ok i \<longrightarrow> i = 0) \<and> r \<noteq> Err (UnknownModel name))"
  using warm_up_order [OF ok w] .

section \<open>The contract of models on a device\<close>

text \<open>
  \<open>changes g g' given taken lost\<close>: from \<open>g\<close> to \<open>g'\<close> the addresses \<open>given\<close> were freed and \<open>taken\<close>
  and \<open>lost\<close> allocated, and nothing was freed that was not allocated. \<open>held\<close> is what a decoder would free.
\<close>

definition changes :: "gpu \<Rightarrow> gpu \<Rightarrow> u64 list \<Rightarrow> u64 list \<Rightarrow> u64 multiset \<Rightarrow> bool" where
  "changes g g' given taken lost \<longleftrightarrow>
     mset (gp_live g') + mset given = mset (gp_live g) + mset taken + lost \<and> gp_stray g' = gp_stray g"

definition held_all :: "('d \<Rightarrow> u64 list) \<Rightarrow> 'd warm \<Rightarrow> u64 multiset" where
  "held_all held ws = sum_list (map (\<lambda>w. mset (held (en_dec (snd w)))) ws)"

text \<open>The card holds \<open>B\<close> and what the warm models hold.\<close>

definition accounts :: "('d \<Rightarrow> u64 list) \<Rightarrow> u64 multiset \<Rightarrow> nat \<Rightarrow> 'd warm \<Rightarrow> gpu \<Rightarrow> bool" where
  "accounts held B n ws g \<longleftrightarrow> mset (gp_live g) = B + held_all held ws \<and> gp_stray g = n"

lemma held_all_simps [simp]:
  "held_all held [] = {#}" "held_all held (w # ws) = mset (held (en_dec (snd w))) + held_all held ws"
  "held_all held (us @ ws) = held_all held us + held_all held ws" "held_all held (rev ws) = held_all held ws"
  by (simp_all add: held_all_def rev_map [symmetric] sum_list_rev)

lemma accounts_step:
  assumes "accounts held B n (w # ws) g" "changes g g1 (held (en_dec (snd w))) taken lost"
  shows "accounts held (B + mset taken + lost) n ws g1"
  using assms by (simp add: accounts_def changes_def add_ac)

lemma accounts_back: "accounts held (B + mset (held (en_dec (snd w))) + l) n ws g \<longleftrightarrow> accounts held (B + l) n (w # ws) g"
  by (simp add: accounts_def add_ac)

lemma accounts_sub: "accounts held B n (w # ws) g \<Longrightarrow> mset (held (en_dec (snd w))) \<subseteq># mset (gp_live g)"
  by (simp add: accounts_def)

locale device_models =
  fixes api :: "'r \<Rightarrow> ('x, 'd, 'e) model_api" and good :: "'r \<Rightarrow> bool" and held :: "'d \<Rightarrow> u64 list"
  assumes new_law: "good R \<Longrightarrow> ap_new (api R) s n ram reserve g = (r, g') \<Longrightarrow>
      \<exists>lost. changes g g' [] (case r of Ok d \<Rightarrow> held d | _ \<Rightarrow> []) lost \<and> ((\<exists>d. r = Ok d) \<longrightarrow> lost = {#})"
    and resize_law: "good R \<Longrightarrow> mset (held d) \<subseteq># mset (gp_live g) \<Longrightarrow> ap_resize (api R) n d g = (q, d', g') \<Longrightarrow>
      \<exists>lost. changes g g' (held d) (held d') lost \<and> (q = Ok () \<longrightarrow> lost = {#})"
    and size_law: "good R \<Longrightarrow> ap_resize (api R) n d g = (Ok u, d', g') \<Longrightarrow> ap_slots (api R) d' \<le> n"
    and drop_law: "good R \<Longrightarrow> mset (held d) \<subseteq># mset (gp_live g) \<Longrightarrow> changes g (ap_drop (api R) d g) (held d) [] {#}"
    and weight_law: "held (ap_min_weight (api R) x d) = held d"
begin

lemma rebalance_accounts:
  assumes R: "good R"
  shows "accounts held B n ws g \<Longrightarrow> rebalance (api R) specs k ws g = (r, ws', g') \<Longrightarrow>
    \<exists>l. accounts held (B + l) n ws' g' \<and> (r = Ok () \<longrightarrow> l = {#})"
proof (induction ws arbitrary: B g r ws' g')
  case Nil
  then show ?case by (auto intro: exI [of _ "{#}"])
next
  case (Cons w ws)
  obtain nm e where w: "w = (nm, e)" by fastforce
  have stay: "\<exists>l. accounts held (B + l) n (w # ws) g \<and> (r = Ok () \<longrightarrow> l = {#})" using Cons.prems(1) by (intro exI [of _ "{#}"]) simp
  show ?case
  proof (cases "find_spec specs nm")
    case None
    then show ?thesis using stay Cons.prems(2) by (simp add: w)
  next
    case (Some s)
    show ?thesis
    proof (cases "en_cur_slots e = target s k")
      case True
      obtain q ws2 g2 where b: "rebalance (api R) specs k ws g = (q, ws2, g2)" using prod_cases3 by blast
      have "accounts held (B + mset (held (en_dec (snd w)))) n ws g" using accounts_back [of held B w "{#}" n ws g] Cons.prems(1) by simp
      from Cons.IH [OF this b] obtain l where l: "accounts held (B + mset (held (en_dec (snd w))) + l) n ws2 g2" "q = Ok () \<longrightarrow> l = {#}" by blast
      then show ?thesis using Cons.prems(2) Some True b unfolding accounts_back by (auto simp: w)
    next
      case False
      obtain q d g1 where z: "ap_resize (api R) (target s k) (en_dec e) g = (q, d, g1)" using prod_cases3 by blast
      from resize_law [OF R accounts_sub [OF Cons.prems(1)]] z obtain l1 where
          l1: "changes g g1 (held (en_dec (snd w))) (held d) l1" "q = Ok () \<longrightarrow> l1 = {#}" unfolding w by fastforce
      have a: "accounts held (B + mset (held d) + l1) n ws g1" by (rule accounts_step [OF Cons.prems(1) l1(1)])
      show ?thesis
      proof (cases "\<exists>u. q = Ok u")
        case True
        then have q: "q = Ok ()" "l1 = {#}" using l1(2) by auto
        obtain q2 ws2 g2 where b: "rebalance (api R) specs k ws g1 = (q2, ws2, g2)" using prod_cases3 by blast
        let ?w = "(nm, e\<lparr>en_dec := d, en_cur_slots := ap_slots (api R) d\<rparr>)"
        from Cons.IH [OF a b] q obtain l where "accounts held (B + mset (held (en_dec (snd ?w))) + l) n ws2 g2" "q2 = Ok () \<longrightarrow> l = {#}" by auto
        then show ?thesis using Cons.prems(2) Some False z b q unfolding accounts_back by (auto simp: w)
      next
        case err: False
        have "accounts held (B + l1) n ((nm, e\<lparr>en_dec := d\<rparr>) # ws) g1" using a by (simp flip: accounts_back)
        then show ?thesis using Cons.prems(2) Some False z err by (cases q) (auto simp: w)
      qed
    qed
  qed
qed

lemma drop_accounts:
  assumes R: "good R" and a: "accounts held B n (w # ws) g"
  shows "accounts held B n ws (ap_drop (api R) (en_dec (snd w)) g)"
  using accounts_step [OF a drop_law [OF R accounts_sub [OF a]]] by simp

lemma drop_warm_accounts:
  assumes R: "good R"
  shows "accounts held B n ws g \<Longrightarrow> accounts held B n [] (drop_warm (api R) ws g)"
proof (induction ws arbitrary: g)
  case (Cons w ws)
  from Cons.IH [OF drop_accounts [OF R Cons.prems]] show ?case by (simp add: drop_warm_def)
qed (simp add: drop_warm_def)

lemma evict_accounts:
  assumes R: "good R"
  shows "accounts held B n ws (ht_gpu h) \<Longrightarrow> evict_lru (api R) V specs most ws h = (r, kept, h') \<Longrightarrow> accounts held B n kept (ht_gpu h')"
proof (induction ws arbitrary: h)
  case (Cons w ws)
  obtain q h1 where t: "retire (api R) V specs w h = (q, h1)" by fastforce
  have "ht_gpu h1 = ap_drop (api R) (en_dec (snd w)) (ht_gpu h)" using t by (auto simp: retire_def Let_def split: option.splits if_splits)
  then have a: "accounts held B n ws (ht_gpu h1)" using drop_accounts [OF R Cons.prems(1)] by simp
  from Cons.IH [OF a] Cons.prems a show ?case by (auto simp: t split: if_splits res.splits)
qed simp

lemma load_accounts:
  assumes R: "good R" and a: "accounts held B n ws g" and l: "load_engine (api R) V files s slots g = (r, g')"
  shows "case r of Ok e \<Rightarrow> accounts held B n ((nm, e) # ws) g' | _ \<Rightarrow> \<exists>l. accounts held (B + l) n ws g'"
proof (cases "reserve_of s")
  case q: (Some q)
  obtain r1 g1 where z: "ap_new (api R) s slots (sv_gb V (ms_ram_gb s)) q g = (r1, g1)" by fastforce
  from new_law [OF R z] obtain lost where c: "changes g g1 [] (case r1 of Ok d \<Rightarrow> held d | _ \<Rightarrow> []) lost" "(\<exists>d. r1 = Ok d) \<longrightarrow> lost = {#}" by blast
  have stay: "\<exists>l. accounts held (B + l) n ws g" using a by (intro exI [of _ "{#}"]) simp
  have add: "accounts held (B + lost) n ws g1" if "\<forall>d. r1 \<noteq> Ok d" using a c that by (cases r1) (simp_all add: accounts_def changes_def add_ac)
  have ok: "accounts held B n ((nm, e) # ws) g1" if "r1 = Ok d" "held (en_dec e) = held d" for d e
    using a c that by (simp add: accounts_def changes_def add_ac)
  show ?thesis using l q z stay add ok by (cases r1) (auto simp: load_engine_def Let_def weight_law split: if_splits)
next
  case None
  moreover have "\<exists>l. accounts held (B + l) n ws g" using a by (intro exI [of _ "{#}"]) simp
  ultimately show ?thesis using l by (auto simp: load_engine_def Let_def split: if_splits)
qed

text \<open>The whole of \<open>warm_up\<close>: what is lost comes from calls of the decoder that failed.\<close>

lemma settle_accounts:
  assumes R: "good R" and a: "accounts held B n ((name, e) # ws) g" and s: "settle_in (api R) rt name ws files e g = (r, rt', h')"
  shows "\<exists>l. accounts held (B + l) n (rt_warm rt') (ht_gpu h') \<and> ((\<exists>i. r = Ok i) \<longrightarrow> l = {#})"
proof -
  let ?ws = "(name, e\<lparr>en_cur_slots := ap_slots (api R) (en_dec e)\<rparr>) # ws"
  obtain q ws2 g2 where b: "rebalance (api R) (rt_specs rt) (length ?ws) ?ws g = (q, ws2, g2)" using prod_cases3 by blast
  have "accounts held B n ?ws g" using a by (simp add: accounts_def)
  from rebalance_accounts [OF R this b] s b show ?thesis by (cases q) (auto simp: settle_in_def Let_def)
qed

lemma load_and_settle_accounts:
  assumes R: "good R" and a: "accounts held B n ws g"
    and l: "load_and_settle (api R) V rt s name sharers ws files g = (r, rt', h')"
  shows "\<exists>l. accounts held (B + l) n (rt_warm rt') (ht_gpu h') \<and> ((\<exists>i. r = Ok i) \<and> ws = [] \<longrightarrow> l = {#})"
proof -
  obtain r1 g1 where l1: "load_engine (api R) V files s (target s sharers) g = (r1, g1)" by fastforce
  note la = load_accounts [OF R a l1]
  show ?thesis
  proof (cases r1)
    case (Ok e)
    then have s: "settle_in (api R) rt name ws files e g1 = (r, rt', h')" using l l1 by (simp add: load_and_settle_def)
    have "accounts held B n ((name, e) # ws) g1" using la [of name] Ok by simp
    from settle_accounts [OF R this s] show ?thesis by blast
  next
    case (Err x)
    with la obtain k where k: "accounts held (B + k) n ws g1" by auto
    note d = drop_warm_accounts [OF R k]
    obtain r2 g2 where l2: "load_engine (api R) V files s (ms_slots_solo s) (drop_warm (api R) ws g1) = (r2, g2)" by fastforce
    note lb = load_accounts [OF R d l2]
    show ?thesis
    proof (cases "ws = []")
      case True
      then show ?thesis using l l1 Err k by (auto simp: load_and_settle_def)
    next
      case False
      show ?thesis
      proof (cases r2)
        case (Ok e)
        then have s: "settle_in (api R) rt name [] files e g2 = (r, rt', h')" using l l1 l2 Err False by (simp add: load_and_settle_def)
        have "accounts held (B + k) n [(name, e)] g2" using lb [of name] Ok by simp
        from settle_accounts [OF R this s] False show ?thesis by (auto simp: add.assoc)
      qed (use l l1 l2 Err False lb in \<open>auto simp: load_and_settle_def add.assoc\<close>)
    qed
  next
    case Panic
    then show ?thesis using l l1 la by (auto simp: load_and_settle_def)
  qed
qed

lemma warm_up_accounts:
  assumes R: "good R" and a: "accounts held B n (rt_warm rt) (ht_gpu h)" and w: "warm_up (api R) V name rt h = (r, rt', h')"
  shows "\<exists>l. accounts held (B + l) n (rt_warm rt') (ht_gpu h') \<and> ((\<exists>i. r = Ok i) \<and> rt_max_warm rt \<le> 1 \<longrightarrow> l = {#})"
proof (cases "dropWhile (\<lambda>w. fst w \<noteq> name) (rt_warm rt)")
  case (Cons v later)
  with w show ?thesis by (rule warm_up_hit) (use a in \<open>auto intro!: exI [of _ "{#}"] simp: accounts_def add_ac\<close>)
next
  case Nil
  show ?thesis
  proof (cases "find_spec (rt_specs rt) name")
    case None
    then show ?thesis using a w Nil by (intro exI [of _ "{#}"]) (auto simp: warm_up_def)
  next
    case (Some s)
    have a': "accounts held B n (rev (rt_warm rt)) (ht_gpu h)" using a by (simp add: accounts_def)
    have rev: "accounts held B n (rev kept) g \<longleftrightarrow> accounts held B n kept g" for kept g by (simp add: accounts_def)
    show ?thesis using w Nil Some
    proof (cases rule: warm_up_miss)
      case (evict kept)
      from evict_accounts [OF R a' evict(1)] show ?thesis using evict(2,3) by (intro exI [of _ "{#}"]) (simp add: rev)
    next
      case (shrink kept h1 q ws g2)
      have "accounts held B n (rev kept) (ht_gpu h1)" using evict_accounts [OF R a' shrink(1)] by (simp add: rev)
      from rebalance_accounts [OF R this shrink(2)] shrink(4-6) show ?thesis by auto
    next
      case (load kept h1 ws g2)
      have "accounts held B n (rev kept) (ht_gpu h1)" using evict_accounts [OF R a' load(1)] by (simp add: rev)
      from rebalance_accounts [OF R this load(2)] have "accounts held B n ws g2" by auto
      from load_and_settle_accounts [OF R this load(3)] obtain l where
        l: "accounts held (B + l) n (rt_warm rt') (ht_gpu h')" "(\<exists>i. r = Ok i) \<and> ws = [] \<longrightarrow> l = {#}" by blast
      have "ws = []" if "rt_max_warm rt \<le> 1"
        using evict_lru_kept [OF load(1)] arg_cong [OF rebalance_names [OF load(2)], of length] that by auto
      with l show ?thesis by blast
    qed
  qed
qed

lemma rebalance_budget:
  assumes R: "good R"
  shows "rebalance (api R) specs k ws g = (Ok (), ws', g') \<Longrightarrow> \<forall>w \<in> set ws. en_cur_slots (snd w) = ap_slots (api R) (en_dec (snd w)) \<Longrightarrow>
    \<forall>w \<in> set ws'. en_cur_slots (snd w) = ap_slots (api R) (en_dec (snd w)) \<and> (\<exists>s. find_spec specs (fst w) = Some s \<and> ap_slots (api R) (en_dec (snd w)) \<le> target s k)"
proof (induction ws arbitrary: g ws' g')
  case (Cons w ws)
  obtain nm e where w: "w = (nm, e)" by fastforce
  obtain s where s: "find_spec specs nm = Some s" using Cons.prems(1) by (auto simp: w split: option.splits)
  show ?case
  proof (cases "en_cur_slots e = target s k")
    case True
    then obtain ws2 where b: "rebalance (api R) specs k ws g = (Ok (), ws2, g')" "ws' = (nm, e) # ws2"
      using Cons.prems(1) s by (auto simp: w split: prod.splits)
    show ?thesis using Cons.IH [OF b(1)] Cons.prems(2) s True by (simp add: b(2) w)
  next
    case False
    then obtain d g1 ws2 where z: "ap_resize (api R) (target s k) (en_dec e) g = (Ok (), d, g1)"
      "rebalance (api R) specs k ws g1 = (Ok (), ws2, g')" "ws' = (nm, e\<lparr>en_dec := d, en_cur_slots := ap_slots (api R) d\<rparr>) # ws2"
      using Cons.prems(1) s by (auto simp: w split: prod.splits res.splits)
    show ?thesis using Cons.IH [OF z(2)] Cons.prems(2) s size_law [OF R z(1)] by (simp add: z(3) w)
  qed
qed simp

end

section \<open>Budget\<close>

text \<open>Every warm model knows its true cache size, and it is within its target for this many sharers.\<close>

definition in_budget :: "('x, 'd, 'e) model_api \<Rightarrow> ('x, 'd) registry \<Rightarrow> bool" where
  "in_budget A rt \<longleftrightarrow> (\<forall>w \<in> set (rt_warm rt). en_cur_slots (snd w) = ap_slots A (en_dec (snd w)) \<and>
     (\<exists>s. find_spec (rt_specs rt) (fst w) = Some s \<and> ap_slots A (en_dec (snd w)) \<le> target s (length (rt_warm rt))))"

context device_models
begin

lemma settle_in_budget:
  assumes R: "good R" and ws: "\<forall>w \<in> set ws. en_cur_slots (snd w) = ap_slots (api R) (en_dec (snd w))"
    and s: "settle_in (api R) rt name ws files e g = (Ok i, rt', h')"
  shows "in_budget (api R) rt'"
proof -
  let ?ws = "(name, e\<lparr>en_cur_slots := ap_slots (api R) (en_dec e)\<rparr>) # ws"
  obtain q ws2 g2 where b: "rebalance (api R) (rt_specs rt) (length ?ws) ?ws g = (q, ws2, g2)" using prod_cases3 by blast
  have q: "q = Ok ()" "rt' = rt\<lparr>rt_warm := ws2\<rparr>" using s b by (cases q; auto simp: settle_in_def Let_def)+
  have "length ws2 = length ?ws" using arg_cong [OF rebalance_names [OF b], of length] by simp
  with rebalance_budget [OF R b [unfolded q]] ws q(2) show ?thesis by (auto simp: in_budget_def)
qed

lemma warm_up_budget:
  assumes R: "good R" and ok: "in_budget (api R) rt" and w: "warm_up (api R) V name rt h = (Ok i, rt', h')"
  shows "in_budget (api R) rt'"
proof (cases "dropWhile (\<lambda>w. fst w \<noteq> name) (rt_warm rt)")
  case (Cons v later)
  with w show ?thesis by (rule warm_up_hit) (use ok in \<open>auto simp: in_budget_def\<close>)
next
  case Nil
  obtain s where s: "find_spec (rt_specs rt) name = Some s" using w Nil by (auto simp: warm_up_def split: option.splits)
  show ?thesis using w Nil s
  proof (cases rule: warm_up_miss)
    case (load kept h1 ws g2)
    have "set kept \<subseteq> set (rt_warm rt)" using evict_lru_kept [OF load(1)] by (auto dest: in_set_dropD)
    then have "\<forall>w \<in> set (rev kept). en_cur_slots (snd w) = ap_slots (api R) (en_dec (snd w))" using ok by (auto simp: in_budget_def)
    from rebalance_budget [OF R load(2) this] have
      ws: "\<forall>w \<in> set ws. en_cur_slots (snd w) = ap_slots (api R) (en_dec (snd w))" by blast
    obtain e g3 ws3 where "settle_in (api R) rt name ws3 (ht_files h1) e g3 = (Ok i, rt', h')" "ws3 = ws \<or> ws3 = []"
      using load(3) by (auto simp: load_and_settle_def split: prod.splits res.splits if_splits)
    with settle_in_budget [OF R _ this(1)] ws show ?thesis by auto
  qed auto
qed

end

section \<open>Runs\<close>

text \<open>Requests for models, one after the other, under the registry's mutex; a panic poisons it.\<close>

fun requests ::
  "('x, 'd, 'e) model_api \<Rightarrow> 'x serve_env \<Rightarrow> string list \<Rightarrow> ('x, 'd) registry \<Rightarrow> host \<Rightarrow> ('e serve_error, nat) res list \<times> ('x, 'd) registry \<times> host" where
  "requests A V [] rt h = ([], rt, h)"
| "requests A V (n # ns) rt h =
     (case warm_up A V n rt h of
        (Panic, rt1, h1) \<Rightarrow> ([Panic], rt1, h1)
      | (r, rt1, h1) \<Rightarrow> (case requests A V ns rt1 h1 of (rs, rt2, h2) \<Rightarrow> (r # rs, rt2, h2)))"

lemma requests_keep_registry:
  "registry_ok rt \<Longrightarrow> requests A V ns rt h = (rs, rt', h') \<Longrightarrow> registry_ok rt'"
proof (induction ns arbitrary: rt h rs)
  case (Cons n ns)
  obtain r rt1 h1 where w: "warm_up A V n rt h = (r, rt1, h1)" using prod_cases3 by blast
  have ok: "registry_ok rt1" using warm_up_order [OF Cons.prems(1) w] by blast
  show ?case using Cons.prems Cons.IH [OF ok] ok w by (cases r) (auto split: prod.splits)
qed simp

context device_models
begin

lemma requests_accounts:
  assumes R: "good R"
  shows "registry_ok rt \<Longrightarrow> accounts held B n (rt_warm rt) (ht_gpu h) \<Longrightarrow> requests (api R) V ns rt h = (rs, rt', h') \<Longrightarrow>
    \<exists>l. accounts held (B + l) n (rt_warm rt') (ht_gpu h') \<and> ((\<forall>r \<in> set rs. \<exists>i. r = Ok i) \<and> rt_max_warm rt \<le> 1 \<longrightarrow> l = {#})"
proof (induction ns arbitrary: B rt h rs rt' h')
  case (Cons m ns)
  obtain r rt1 h1 where w: "warm_up (api R) V m rt h = (r, rt1, h1)" using prod_cases3 by blast
  from warm_up_accounts [OF R Cons.prems(2) w] obtain l1 where
    l1: "accounts held (B + l1) n (rt_warm rt1) (ht_gpu h1)" "(\<exists>i. r = Ok i) \<and> rt_max_warm rt \<le> 1 \<longrightarrow> l1 = {#}" by blast
  have ok: "registry_ok rt1" "rt_max_warm rt1 = rt_max_warm rt" using warm_up_order [OF Cons.prems(1) w] by blast+
  show ?case
  proof (cases r)
    case Panic
    then show ?thesis using Cons.prems(3) w l1 by auto
  next
    case (Ok i)
    obtain rs2 where z: "requests (api R) V ns rt1 h1 = (rs2, rt', h')" "rs = Ok i # rs2" using Cons.prems(3) w Ok by (auto split: prod.splits)
    from Cons.IH [OF ok(1) l1(1) z(1)] obtain l2 where "accounts held (B + l1 + l2) n (rt_warm rt') (ht_gpu h')"
      "(\<forall>r \<in> set rs2. \<exists>i. r = Ok i) \<and> rt_max_warm rt1 \<le> 1 \<longrightarrow> l2 = {#}" by blast
    with l1 z(2) ok(2) Ok show ?thesis by (intro exI [of _ "l1 + l2"]) (auto simp: add.assoc)
  next
    case (Err x)
    obtain rs2 where z: "requests (api R) V ns rt1 h1 = (rs2, rt', h')" "rs = Err x # rs2" using Cons.prems(3) w Err by (auto split: prod.splits)
    from Cons.IH [OF ok(1) l1(1) z(1)] obtain l2 where "accounts held (B + l1 + l2) n (rt_warm rt') (ht_gpu h')" by blast
    with z(2) show ?thesis by (intro exI [of _ "l1 + l2"]) (auto simp: add.assoc)
  qed
qed (auto intro!: exI [of _ "{#}"])

lemma requests_budget:
  assumes R: "good R"
  shows "in_budget (api R) rt \<Longrightarrow> requests (api R) V ns rt h = (rs, rt', h') \<Longrightarrow> \<forall>r \<in> set rs. \<exists>i. r = Ok i \<Longrightarrow> in_budget (api R) rt'"
proof (induction ns arbitrary: rt h rs)
  case (Cons m ns)
  obtain r rt1 h1 where w: "warm_up (api R) V m rt h = (r, rt1, h1)" using prod_cases3 by blast
  then obtain i where r: "r = Ok i" using Cons.prems(2,3) by (cases r) (auto split: prod.splits)
  then obtain rs2 where z: "requests (api R) V ns rt1 h1 = (rs2, rt', h')" "rs = Ok i # rs2" using Cons.prems(2) w by (auto split: prod.splits)
  from Cons.IH [OF warm_up_budget [OF R Cons.prems(1) w [unfolded r]] z(1)] Cons.prems(3) show ?case by (simp add: z(2))
qed simp

end

end
