(* ===== verification/Any_Decoder.thy ===== *)
theory Any_Decoder
  imports Kimi_Life Registry
begin

text \<open>
  The dispatch over both decoders (\<open>AnyDecoder\<close> of \<open>llmpager-run/src/any.rs\<close>), what the registry is
  given to load and change models, and the proof that it honours the contract \<open>device_models\<close>.
\<close>

section \<open>Both decoders\<close>

datatype 'f any_decoder = Qwen dec_mem | Kimi "'f kimi_mem"

text \<open>
  The files and the environment a decoder is made in: the pack and the core at a path, the arithmetic,
  the parser, and the switch for half-precision caches.
\<close>

record ('f, 'j, 'x) run_env =
  rn_cuda :: cuda
  rn_pack :: "string \<Rightarrow> 'f json pager_env"
  rn_core :: "string \<Rightarrow> file_bytes"
  rn_ops :: "'f f32_ops"
  rn_yarn :: "'f yarn_math"
  rn_parse :: "bytes \<Rightarrow> 'j json option"
  rn_kv_f16 :: bool
  rn_f32_of :: "'f json \<Rightarrow> 'f option"
  rn_eps :: 'f
  rn_theta :: 'f
  rn_f32 :: "'x \<Rightarrow> 'f"

definition any_new ::
  "('f, 'j, 'x) run_env \<Rightarrow> string \<Rightarrow> 'f dec_args \<Rightarrow> gpu \<Rightarrow> (kimi_error, 'f any_decoder) res \<times> gpu" where
  "any_new R core a g =
     (let E = rn_pack R (da_pack a) in
      and_then (map_err (KLife \<circ> LfPack) (open_inner (pe_de E) (pe_pack E) False), g) (\<lambda>r g0.
        if is_kimi (pm_config (r_meta r))
        then and_then (kimi_new (rn_cuda R) E (rn_ops R) (rn_yarn R) (rn_parse R) (rn_core R core) a g0) (\<lambda>d g1. (Ok (Kimi d), g1))
        else and_then (lift_life (decoder_new (rn_cuda R) E (rn_ops R) (rn_parse R) (rn_core R core) a g0)) (\<lambda>d g1. (Ok (Qwen d), g1))))"

definition any_is_kimi :: "'f any_decoder \<Rightarrow> bool" where
  "any_is_kimi d = (case d of Qwen _ \<Rightarrow> False | Kimi _ \<Rightarrow> True)"

definition any_resize ::
  "('f, 'j, 'x) run_env \<Rightarrow> u32 \<Rightarrow> 'f any_decoder \<Rightarrow> gpu \<Rightarrow> (kimi_error, unit) res \<times> 'f any_decoder \<times> gpu" where
  "any_resize R n d g =
     (case d of
        Qwen q \<Rightarrow> (case resize_cache (rn_cuda R) (rn_pack R (dm_pack q)) n q g of (r, q', g') \<Rightarrow> (map_err KLife r, Qwen q', g'))
      | Kimi k \<Rightarrow> (case resize_cache (rn_cuda R) (rn_pack R (dm_pack k)) n k g of (r, k', g') \<Rightarrow> (map_err KLife r, Kimi k', g')))"

definition any_set_reserve :: "u64 \<Rightarrow> 'f any_decoder \<Rightarrow> 'f any_decoder" where
  "any_set_reserve n d = (case d of Qwen q \<Rightarrow> Qwen (set_reserve_bytes n q) | Kimi k \<Rightarrow> Kimi (set_reserve_bytes n k))"

definition any_slots :: "'f any_decoder \<Rightarrow> u32" where
  "any_slots d = (case d of Qwen q \<Rightarrow> slots_per_layer q | Kimi k \<Rightarrow> slots_per_layer k)"

definition any_batch_cap :: "'f any_decoder \<Rightarrow> nat" where
  "any_batch_cap d = (case d of Qwen q \<Rightarrow> dm_batch q | Kimi k \<Rightarrow> dm_batch k)"

text \<open>The fetch counts of the pager; without a pager the \<open>unwrap\<close> panics.\<close>

definition expert_stats :: "'m dev_mem_scheme \<Rightarrow> u64 list option" where
  "expert_stats d = map_option (g_fetch_counts \<circ> fst) (dm_pager d)"

definition any_stats :: "'f any_decoder \<Rightarrow> u64 list option" where
  "any_stats d = (case d of Qwen q \<Rightarrow> expert_stats q | Kimi k \<Rightarrow> expert_stats k)"

definition any_set_min_weight :: "'f \<Rightarrow> 'f any_decoder \<Rightarrow> 'f any_decoder" where
  "any_set_min_weight w d = (case d of Qwen q \<Rightarrow> Qwen q | Kimi k \<Rightarrow> Kimi (k\<lparr>km_min_weight := w\<rparr>))"

definition any_drop :: "('f, 'j, 'x) run_env \<Rightarrow> 'f any_decoder \<Rightarrow> gpu \<Rightarrow> gpu" where
  "any_drop R d g = (case d of Qwen q \<Rightarrow> decoder_drop (rn_cuda R) q g | Kimi k \<Rightarrow> kimi_drop (rn_cuda R) k g)"

text \<open>The arguments \<open>load\<close> passes, and the operations as the registry calls them.\<close>

definition spec_args :: "('f, 'j, 'x) run_env \<Rightarrow> 'x model_spec \<Rightarrow> u32 \<Rightarrow> u64 \<Rightarrow> u64 \<Rightarrow> 'f dec_args" where
  "spec_args R s slots ram reserve =
     \<lparr>da_pack = ms_pack s, da_slots = slots, da_io_threads = ms_io_threads s, da_max_seq = ms_max_seq s, da_core_q4 = ms_core_q4 s,
      da_direct = ms_direct s, da_ram = ram, da_reserve = reserve, da_batch_cap = ms_batch s, da_kv_f16 = rn_kv_f16 R,
      da_f32_of = rn_f32_of R, da_eps = rn_eps R, da_theta = rn_theta R\<rparr>"

definition any_api :: "('f, 'j, 'x) run_env \<Rightarrow> ('x, 'f any_decoder, kimi_error) model_api" where
  "any_api R =
     \<lparr>ap_new = (\<lambda>s slots ram reserve. any_new R (ms_core s) (spec_args R s slots ram reserve)),
      ap_min_weight = (\<lambda>x. any_set_min_weight (rn_f32 R x)), ap_resize = any_resize R, ap_drop = any_drop R,
      ap_slots = any_slots, ap_batch = any_batch_cap, ap_stats = any_stats\<rparr>"

section \<open>The contract holds\<close>

text \<open>What a decoder holds on the device; and the one thing relied on of the driver.\<close>

definition any_held :: "'f any_decoder \<Rightarrow> u64 list" where
  "any_held d = (case d of Qwen q \<Rightarrow> dec_ptrs q @ arenas_of q | Kimi k \<Rightarrow> kimi_ptrs k @ arenas_of k)"

definition fresh_card :: "('f, 'j, 'x) run_env \<Rightarrow> bool" where
  "fresh_card R \<longleftrightarrow> alloc_fresh (rn_cuda R)"

lemma changes_of_owns: "owns g ps d lost g' \<Longrightarrow> changes g g' [] (ps @ arenas_of d) (mset lost)"
  by (simp add: owns_def changes_def)

lemma changes_of_adds: "adds g (r, g') Q \<Longrightarrow> \<exists>lost. changes g g' [] [] lost"
  by (auto simp: adds_def changes_def grows_def)

text \<open>A decoder that was loaded some time ago: what else is allocated now takes the place of \<open>g0\<close>.\<close>

lemma owns_now:
  fixes d :: "'m dev_mem_scheme"
  assumes "mset (ps @ arenas_of d) \<subseteq># mset (gp_live g)"
  obtains g0 where "owns g0 ps d [] g" "\<And>ps' (d' :: 'm dev_mem_scheme) lost g'. owns g0 ps' d' lost g' \<Longrightarrow> changes g g' (ps @ arenas_of d) (ps' @ arenas_of d') (mset lost)"
proof -
  obtain xs where xs: "mset xs = mset (gp_live g) - mset (ps @ arenas_of d)" using ex_mset by blast
  then have m: "mset (gp_live g) = mset xs + mset (ps @ arenas_of d)" using assms by simp
  let ?g0 = "g\<lparr>gp_live := xs\<rparr>"
  show thesis
  proof (rule that [of ?g0])
    show "owns ?g0 ps d [] g" using m by (simp add: owns_def)
    show "changes g g' (ps @ arenas_of d) (ps' @ arenas_of d') (mset lost)" if "owns ?g0 ps' d' lost g'" for ps' lost g' and d' :: "'m dev_mem_scheme"
      using that m by (simp add: owns_def changes_def add_ac)
  qed
qed

lemma kimi_ptrs_pager [simp]: "kimi_ptrs (d\<lparr>dm_pager := x\<rparr>) = kimi_ptrs d"
  by (simp add: kimi_ptrs_def)

lemma dec_ptrs_pager [simp]: "dec_ptrs (d\<lparr>dm_pager := x\<rparr>) = dec_ptrs d"
  by (simp add: dec_ptrs_def)

lemma resize_changes:
  fixes d :: "'m dev_mem_scheme"
  assumes C: "alloc_fresh C" and m: "mset (ps @ arenas_of d) \<subseteq># mset (gp_live g)" and r: "resize_cache C E n d g = (q, d', g')"
  shows "\<exists>lost. changes g g' (ps @ arenas_of d) (ps @ arenas_of d') lost \<and> (q = Ok () \<longrightarrow> lost = {#})"
proof -
  from m obtain g0 where o: "owns g0 ps d [] g"
    "\<And>ps' (d' :: 'm dev_mem_scheme) lost g'. owns g0 ps' d' lost g' \<Longrightarrow> changes g g' (ps @ arenas_of d) (ps' @ arenas_of d') (mset lost)" by (rule owns_now) blast
  from resize_owns [OF C o(1) r] obtain lost where "owns g0 ps d' lost g'" "q = Ok () \<longrightarrow> lost = []" by auto
  with o(2) show ?thesis by (intro exI [of _ "mset lost"]) auto
qed

lemma resize_slots:
  assumes "alloc_fresh C" "resize_cache C E n d g = (Ok u, d', g')"
  shows "slots_per_layer d' \<le> n"
proof -
  have "resize_cache C E n d g = (Ok (), d', g')" using assms(2) by simp
  from resize_facts(2) [OF assms(1) this refl] obtain p arenas where "dm_pager d' = Some (p, arenas)" "g_slots_per_layer p \<le> n" by (elim exE conjE)
  then show ?thesis by (simp add: slots_per_layer_def)
qed

lemma drop_changes:
  assumes "mset (ps @ arenas_of d) \<subseteq># mset (gp_live g)"
  shows "changes g (pager_drop (dm_pager d) (free_all ps (snd (sync C g)))) (ps @ arenas_of d) [] {#}"
proof -
  from assms obtain g0 where o: "owns g0 ps d [] g" by (rule owns_now) blast
  from drop_owned [OF o, of C] o show ?thesis by (simp add: changes_def owns_def Let_def add_ac)
qed

lemma any_new_adds:
  assumes "fresh_card R"
  shows "adds g (any_new R core a g) (\<lambda>_ _ _. True)"
proof -
  have C: "alloc_fresh (rn_cuda R)" using assms by (simp add: fresh_card_def)
  show ?thesis unfolding any_new_def Let_def
    by (rule adds_pure) (auto intro!: adds_then [OF kimi_new_adds [OF C]] adds_then [OF adds_lift_life [OF decoder_new_adds [OF C]]] grow_intros)
qed

lemma any_new_Ok:
  assumes "any_new R core a g = (Ok d, g')" "fresh_card R"
  shows "changes g g' [] (any_held d) {#}"
proof -
  have C: "alloc_fresh (rn_cuda R)" using assms(2) by (simp add: fresh_card_def)
  let ?E = "rn_pack R (da_pack a)"
  from assms(1) consider k where "kimi_new (rn_cuda R) ?E (rn_ops R) (rn_yarn R) (rn_parse R) (rn_core R core) a g = (Ok k, g')" "d = Kimi k"
    | q where "decoder_new (rn_cuda R) ?E (rn_ops R) (rn_parse R) (rn_core R core) a g = (Ok q, g')" "d = Qwen q"
    by (cases "decoder_new (rn_cuda R) ?E (rn_ops R) (rn_parse R) (rn_core R core) a g")
       (auto simp: any_new_def Let_def panic_simps lift_life_def split: if_splits)
  then show ?thesis
    by cases (use changes_of_owns [OF kimi_new_owns [OF C]] changes_of_owns [OF decoder_new_owns [OF C]] in \<open>fastforce simp: any_held_def\<close>)+
qed

interpretation served: device_models "any_api :: ('f, 'j, 'x) run_env \<Rightarrow> _" fresh_card any_held
proof
  fix R :: "('f, 'j, 'x) run_env" and g g' :: gpu and n :: u32 and d d' :: "'f any_decoder"
  assume R: "fresh_card R"
  then have C: "alloc_fresh (rn_cuda R)" by (simp add: fresh_card_def)
  show "\<exists>lost. changes g g' [] (case r of Ok d \<Rightarrow> any_held d | _ \<Rightarrow> []) lost \<and> ((\<exists>d. r = Ok d) \<longrightarrow> lost = {#})"
    if z: "ap_new (any_api R) s slots ram reserve g = (r, g')" for s slots ram reserve r
  proof -
    from z have a: "any_new R (ms_core s) (spec_args R s slots ram reserve) g = (r, g')" by (simp add: any_api_def)
    show ?thesis
    proof (cases r)
      case (Ok x)
      with any_new_Ok [OF a [unfolded Ok] R] show ?thesis by auto
    qed (use changes_of_adds [OF any_new_adds [OF R, of g "ms_core s" "spec_args R s slots ram reserve", unfolded a]] in auto)
  qed
  show "\<exists>lost. changes g g' (any_held d) (any_held d') lost \<and> (q = Ok () \<longrightarrow> lost = {#})"
    if m: "mset (any_held d) \<subseteq># mset (gp_live g)" and z: "ap_resize (any_api R) n d g = (q, d', g')" for q
  proof (cases d)
    case (Qwen x)
    with z obtain q0 x' where y: "resize_cache (rn_cuda R) (rn_pack R (dm_pack x)) n x g = (q0, x', g')" "q = map_err KLife q0" "d' = Qwen x'"
      by (auto simp: any_api_def any_resize_def split: prod.splits)
    have "dec_ptrs x' = dec_ptrs x" using resize_keeps [OF y(1)] dec_ptrs_pager by metis
    then show ?thesis using resize_changes [OF C _ y(1), of "dec_ptrs x"] m y(2,3) Qwen by (cases q0) (auto simp: any_held_def)
  next
    case (Kimi x)
    with z obtain q0 x' where y: "resize_cache (rn_cuda R) (rn_pack R (dm_pack x)) n x g = (q0, x', g')" "q = map_err KLife q0" "d' = Kimi x'"
      by (auto simp: any_api_def any_resize_def split: prod.splits)
    have "kimi_ptrs x' = kimi_ptrs x" using resize_keeps [OF y(1)] kimi_ptrs_pager by metis
    then show ?thesis using resize_changes [OF C _ y(1), of "kimi_ptrs x"] m y(2,3) Kimi by (cases q0) (auto simp: any_held_def)
  qed
  show "ap_slots (any_api R) d' \<le> n" if z: "ap_resize (any_api R) n d g = (Ok u, d', g')" for u
  proof (cases d)
    case (Qwen x)
    with z obtain v x' where "resize_cache (rn_cuda R) (rn_pack R (dm_pack x)) n x g = (Ok v, x', g')" "d' = Qwen x'"
      by (auto simp: any_api_def any_resize_def panic_simps split: prod.splits)
    from resize_slots [OF C this(1)] this(2) show ?thesis by (simp add: any_api_def any_slots_def)
  next
    case (Kimi x)
    with z obtain v x' where "resize_cache (rn_cuda R) (rn_pack R (dm_pack x)) n x g = (Ok v, x', g')" "d' = Kimi x'"
      by (auto simp: any_api_def any_resize_def panic_simps split: prod.splits)
    from resize_slots [OF C this(1)] this(2) show ?thesis by (simp add: any_api_def any_slots_def)
  qed
  show "changes g (ap_drop (any_api R) d g) (any_held d) [] {#}" if m: "mset (any_held d) \<subseteq># mset (gp_live g)"
  proof (cases d)
    case (Qwen x)
    show ?thesis using drop_changes [of "dec_ptrs x" x g "rn_cuda R"] m Qwen by (simp add: any_api_def any_drop_def any_held_def decoder_drop_def)
  next
    case (Kimi x)
    show ?thesis using drop_changes [of "kimi_ptrs x" x g "rn_cuda R"] m Kimi by (simp add: any_api_def any_drop_def any_held_def kimi_drop_def)
  qed
next
  show "any_held (ap_min_weight (any_api R) x d) = any_held d" for R :: "('f, 'j, 'x) run_env" and x and d :: "'f any_decoder"
    by (cases d) (simp_all add: any_api_def any_set_min_weight_def any_held_def kimi_ptrs_def arenas_of_def)
qed

section \<open>Serving\<close>

text \<open>
  The server accounts for its device memory, whatever models are asked for and whatever fails: the
  addresses in use are those in use before, those of the warm models, and some that calls that failed
  left behind (none when every request succeeded and one model is warm at a time); dropping the warm
  models leaves exactly the rest, and no address is freed that is not allocated, so none twice.\<close>
theorem serving_accounts_for_memory:
  assumes R: "fresh_card R" and start: "registry_ok rt" "rt_warm rt = []" and run: "requests (any_api R) V names rt h = (rs, rt', h')"
  shows "\<exists>lost. mset (gp_live (ht_gpu h')) = mset (gp_live (ht_gpu h)) + held_all any_held (rt_warm rt') + lost \<and>
    gp_stray (ht_gpu h') = gp_stray (ht_gpu h) \<and> ((\<forall>r \<in> set rs. \<exists>i. r = Ok i) \<and> rt_max_warm rt \<le> 1 \<longrightarrow> lost = {#}) \<and>
    (let g = drop_warm (any_api R) (rt_warm rt') (ht_gpu h') in
       mset (gp_live g) = mset (gp_live (ht_gpu h)) + lost \<and> gp_stray g = gp_stray (ht_gpu h))"
proof -
  have "accounts any_held (mset (gp_live (ht_gpu h))) (gp_stray (ht_gpu h)) (rt_warm rt) (ht_gpu h)" using start(2) by (simp add: accounts_def)
  from served.requests_accounts [OF R start(1) this run] obtain l where
    l: "accounts any_held (mset (gp_live (ht_gpu h)) + l) (gp_stray (ht_gpu h)) (rt_warm rt') (ht_gpu h')"
       "(\<forall>r \<in> set rs. \<exists>i. r = Ok i) \<and> rt_max_warm rt \<le> 1 \<longrightarrow> l = {#}" by blast
  from served.drop_warm_accounts [OF R l(1)] l show ?thesis by (intro exI [of _ l]) (auto simp: accounts_def Let_def add_ac)
qed

text \<open>C32:
  The budget of slots: after requests that all succeeded, every warm model knows the true size of its
  cache, and that is at most its share: the solo size for a single model, the shared size for several.\<close>
theorem serving_keeps_budget:
  assumes R: "fresh_card R" and start: "rt_warm rt = []" and run: "requests (any_api R) V names rt h = (rs, rt', h')"
    and ok: "\<forall>r \<in> set rs. \<exists>i. r = Ok i"
  shows "\<forall>(name, e) \<in> set (rt_warm rt'). en_cur_slots e = any_slots (en_dec e) \<and>
    (\<exists>s. find_spec (rt_specs rt') name = Some s \<and> any_slots (en_dec e) \<le> (if length (rt_warm rt') \<le> 1 then ms_slots_solo s else ms_slots s))"
proof -
  have "in_budget (any_api R) rt" using start by (simp add: in_budget_def)
  from served.requests_budget [OF R this run ok] have b: "in_budget (any_api R) rt'" .
  have "ap_slots (any_api R) = any_slots" by (simp add: any_api_def)
  with b show ?thesis unfolding in_budget_def target_def by fastforce
qed


end
