(* ===== verification/Admin.thy ===== *)
theory Admin
  imports Any_Decoder Front_End
begin

text \<open>
  The control endpoints of the server (\<open>handle\<close> in \<open>llmpager-serve/src/main.rs\<close>): the list of models,
  the memory of the card, the resizing of every warm model, the list of sessions and their deletion.
  The contract \<open>adjustable_models\<close> adds the reserve to \<open>device_models\<close>; with it the account of device
  memory extends to every mix of requests. Only the order in which sessions are listed is the
  model's own: the code lists them in the order of a hash map.
\<close>

section \<open>The endpoints\<close>

datatype endpoint = GetModels | Complete bool | GetVram | PostSlots | GetSessions | DeleteSession string | NoEndpoint

text \<open>\<open>trim_start_matches\<close> takes the prefix off as often as it is there.\<close>

function trim_prefixes :: "string \<Rightarrow> string \<Rightarrow> string" where
  "trim_prefixes p s = (if p \<noteq> [] \<and> take (length p) s = p then trim_prefixes p (drop (length p) s) else s)"
  by auto
termination
proof (relation "measure (length \<circ> snd)")
  show "((p, drop (length p) s), p, s) \<in> measure (length \<circ> snd)" if "p \<noteq> [] \<and> take (length p) s = p" for p s :: string
    using that by (cases s) (auto intro: diff_less)
qed simp

declare trim_prefixes.simps [simp del]

definition route :: "string \<Rightarrow> string \<Rightarrow> endpoint" where
  "route meth url =
     (let sessions = ''/v1/sessions/'' in
      if meth = ''GET'' \<and> url = ''/v1/models'' then GetModels
      else if meth = ''POST'' \<and> (url = ''/v1/completions'' \<or> url = ''/v1/chat/completions'') then Complete (url = ''/v1/chat/completions'')
      else if meth = ''GET'' \<and> url = ''/v1/admin/vram'' then GetVram
      else if meth = ''POST'' \<and> url = ''/v1/admin/slots'' then PostSlots
      else if meth = ''GET'' \<and> url = ''/v1/sessions'' then GetSessions
      else if meth = ''DELETE'' \<and> take (length sessions) url = sessions then DeleteSession (trim_prefixes sessions url)
      else NoEndpoint)"

datatype 'e admin_error = NoTarget | BadMemInfo | Serving "'e serve_error"

text \<open>What the endpoints call beside \<open>model_api\<close>: the reserve of a decoder, and \<open>mem_info\<close>.\<close>

record 'd admin_api =
  ad_reserve :: "u64 \<Rightarrow> 'd \<Rightarrow> 'd"
  ad_mem :: "gpu \<Rightarrow> (u64 \<times> u64) option"

text \<open>Changing the engine of one warm model.\<close>

fun on_engine :: "string \<Rightarrow> ('d engine \<Rightarrow> gpu \<Rightarrow> 'a \<times> 'd engine \<times> gpu) \<Rightarrow> 'd warm \<Rightarrow> gpu \<Rightarrow> 'a option \<times> 'd warm \<times> gpu" where
  "on_engine nm f [] g = (None, [], g)"
| "on_engine nm f ((n, e) # ws) g =
     (if n = nm then (case f e g of (r, e', g') \<Rightarrow> (Some r, (n, e') # ws, g'))
      else (case on_engine nm f ws g of (r, ws', g') \<Rightarrow> (r, (n, e) # ws', g')))"

definition arm :: "'d admin_api \<Rightarrow> u64 \<Rightarrow> 'd engine \<Rightarrow> 'd engine" where
  "arm D bytes e = e\<lparr>en_reserve := bytes, en_dec := ad_reserve D bytes (en_dec e)\<rparr>"

text \<open>One model: the new reserve, the resize, and on an error the old reserve; \<open>mb * 1_000_000\<close> may overflow.\<close>

definition admin_resize ::
  "('x, 'd, 'e) model_api \<Rightarrow> 'd admin_api \<Rightarrow> u32 \<Rightarrow> u64 option \<Rightarrow> 'd engine \<Rightarrow> gpu \<Rightarrow> ('e admin_error, u32) res \<times> 'd engine \<times> gpu" where
  "admin_resize A D want mb e g =
     (let armed = (case mb of None \<Rightarrow> Some e
                   | Some m \<Rightarrow> if uint m * 1000000 < 2 ^ 64 then Some (arm D (m * 1000000) e) else None) in
      case armed of
        None \<Rightarrow> (Panic, e, g)
      | Some e1 \<Rightarrow>
          (case ap_resize A want (en_dec e1) g of
             (Ok _, d, g1) \<Rightarrow> (Ok (ap_slots A d), e1\<lparr>en_dec := d, en_cur_slots := ap_slots A d\<rparr>, g1)
           | (Err x, d, g1) \<Rightarrow>
               (let e2 = arm D (en_reserve e) (e1\<lparr>en_dec := d\<rparr>) in
                (Err (Serving (Model x)), e2\<lparr>en_cur_slots := ap_slots A (en_dec e2)\<rparr>, g1))
           | (Panic, d, g1) \<Rightarrow> (Panic, e1\<lparr>en_dec := d\<rparr>, g1)))"

fun admin_loop ::
  "('x, 'd, 'e) model_api \<Rightarrow> 'd admin_api \<Rightarrow> 'x model_spec list \<Rightarrow> u32 option \<Rightarrow> u64 option \<Rightarrow> string list \<Rightarrow> 'd warm \<Rightarrow> gpu
     \<Rightarrow> ('e admin_error, (string \<times> u32) list) res \<times> 'd warm \<times> gpu" where
  "admin_loop A D specs tgt mb [] ws g = (Ok [], ws, g)"
| "admin_loop A D specs tgt mb (nm # nms) ws g =
     (case (case tgt of Some t \<Rightarrow> Some t | None \<Rightarrow> map_option ms_slots_solo (find_spec specs nm)) of
        None \<Rightarrow> (Err (Serving (UnknownModel nm)), ws, g)
      | Some want \<Rightarrow>
          (case on_engine nm (admin_resize A D want mb) ws g of
             (None, ws1, g1) \<Rightarrow> admin_loop A D specs tgt mb nms ws1 g1
           | (Some (Ok n), ws1, g1) \<Rightarrow>
               (case admin_loop A D specs tgt mb nms ws1 g1 of (r, ws2, g2) \<Rightarrow> (bind_res r (\<lambda>ps. Ok ((nm, n) # ps)), ws2, g2))
           | (Some (Err x), ws1, g1) \<Rightarrow> (Err x, ws1, g1)
           | (Some Panic, ws1, g1) \<Rightarrow> (Panic, ws1, g1)))"

text \<open>\<open>mem_info\<close> asks the driver once; it is only asked when a model is warm.\<close>

definition card_memory :: "'d admin_api \<Rightarrow> 'd warm \<Rightarrow> gpu \<Rightarrow> (u64 \<times> u64) option \<times> gpu" where
  "card_memory D ws g = (if ws = [] then (Some (0, 0), g) else (ad_mem D g, g\<lparr>gp_calls := gp_calls g + 1\<rparr>))"

definition memory_fields :: "u64 \<times> u64 \<Rightarrow> (string \<times> 'y json) list" where
  "memory_fields m = [(''free_mb'', j_nat (unat (fst m) div 1000000)), (''total_mb'', j_nat (unat (snd m) div 1000000))]"

definition slots_json :: "string \<times> u32 \<Rightarrow> 'y json" where
  "slots_json = (\<lambda>(nm, n). JObj [(''model'', JStr nm), (''slots'', j_nat (unat n))])"

definition admin_slots ::
  "('x, 'd, 'e) model_api \<Rightarrow> 'd admin_api \<Rightarrow> 'j json \<Rightarrow> ('x, 'd) registry \<Rightarrow> host
     \<Rightarrow> ('e admin_error, 'y json) res \<times> ('x, 'd) registry \<times> host" where
  "admin_slots A D req rt h =
     (let tgt = map_option of_nat (j_u64 (jget req ''target'')); mb = map_option of_nat (j_u64 (jget req ''reserve_mb'')) in
      if tgt = None \<and> mb = None then (Err NoTarget, rt, h)
      else case admin_loop A D (rt_specs rt) tgt mb (map fst (rt_warm rt)) (rt_warm rt) (ht_gpu h) of
        (Ok ps, ws, g) \<Rightarrow>
          (case card_memory D ws g of
             (m, g1) \<Rightarrow> (Ok (JObj ((''warm'', JArr (map slots_json ps)) # memory_fields (opt_or (0, 0) m))), rt\<lparr>rt_warm := ws\<rparr>, h\<lparr>ht_gpu := g1\<rparr>))
      | (Err x, ws, g) \<Rightarrow> (Err x, rt\<lparr>rt_warm := ws\<rparr>, h\<lparr>ht_gpu := g\<rparr>)
      | (Panic, ws, g) \<Rightarrow> (Panic, rt\<lparr>rt_warm := ws\<rparr>, h\<lparr>ht_gpu := g\<rparr>))"

definition admin_vram :: "'d admin_api \<Rightarrow> ('x, 'd) registry \<Rightarrow> host \<Rightarrow> ('e admin_error, 'y json) res \<times> host" where
  "admin_vram D rt h =
     (case card_memory D (rt_warm rt) (ht_gpu h) of
        (None, g) \<Rightarrow> (Err BadMemInfo, h\<lparr>ht_gpu := g\<rparr>)
      | (Some m, g) \<Rightarrow>
          (Ok (JObj (memory_fields m @ [(''warm'', JArr (map (\<lambda>(nm, e). slots_json (nm, en_cur_slots e)) (rt_warm rt)))])), h\<lparr>ht_gpu := g\<rparr>))"

definition list_models :: "('x, 'd) registry \<Rightarrow> 'y json" where
  "list_models rt =
     JObj [(''object'', JStr ''list''), (''data'', JArr (map (\<lambda>s.
       let slots = map_option en_cur_slots (map_of (rt_warm rt) (ms_name s)) in
       JObj [(''id'', JStr (ms_name s)), (''object'', JStr ''model''), (''owned_by'', JStr ''llmpager''), (''warm'', JBool (slots \<noteq> None)),
         (''slots'', case slots of None \<Rightarrow> JNull | Some n \<Rightarrow> j_nat (unat n))]) (rt_specs rt)))]"

definition session_json :: "string \<Rightarrow> string \<times> session \<Rightarrow> 'y json" where
  "session_json nm = (\<lambda>(i, s).
     JObj [(''id'', JStr i), (''model'', JStr nm), (''tokens'', j_nat (length (n_tokens s))), (''resident'', JBool (n_slot s \<noteq> None)),
       (''slot'', case n_slot s of None \<Rightarrow> JNull | Some k \<Rightarrow> j_nat k), (''turns'', j_nat (n_turns s)),
       (''parked_bytes'', j_nat (case n_parked s of None \<Rightarrow> 0 | Some b \<Rightarrow> length b))])"

definition list_sessions :: "('x, 'd) registry \<Rightarrow> 'y json" where
  "list_sessions rt =
     JObj [(''object'', JStr ''list''), (''data'', JArr (concat (map (\<lambda>(nm, e). map (session_json nm) (o_map (en_sessions e))) (rt_warm rt))))]"

text \<open>Deleting a session deletes it in every warm model that has one of that name.\<close>

fun forget_all :: "string \<Rightarrow> 'd warm \<Rightarrow> (unit, nat) res \<times> 'd warm" where
  "forget_all i [] = (Ok 0, [])"
| "forget_all i ((nm, e) # ws) =
     (case session_forget i (en_sessions e) of
        (Ok b, st) \<Rightarrow> (case forget_all i ws of (r, ws') \<Rightarrow> (bind_res r (\<lambda>k. Ok (if b then k + 1 else k)), (nm, e\<lparr>en_sessions := st\<rparr>) # ws'))
      | (Err u, st) \<Rightarrow> (Err u, (nm, e\<lparr>en_sessions := st\<rparr>) # ws)
      | (Panic, st) \<Rightarrow> (Panic, (nm, e\<lparr>en_sessions := st\<rparr>) # ws))"

definition delete_session :: "string \<Rightarrow> ('x, 'd) registry \<Rightarrow> (unit, 'y json) res \<times> ('x, 'd) registry" where
  "delete_session i rt =
     (case forget_all i (rt_warm rt) of
        (r, ws) \<Rightarrow> (bind_res r (\<lambda>k. Ok (JObj [(''id'', JStr i), (''deleted'', JBool (0 < k))])), rt\<lparr>rt_warm := ws\<rparr>))"


section \<open>Runs of requests\<close>

text \<open>
  Requests that change which models are warm, how large they are and which sessions they hold: warming
  a model (which every completion does first), the resizing and the memory of the card, deletions. A
  panic ends the run.
\<close>

datatype 'j control = Ask string | Slots "'j json" | Vram | Delete string

datatype outcome_kind = Fine | Failed | Panicked

definition kind_of :: "('e, 'a) res \<Rightarrow> outcome_kind" where
  "kind_of r = (case r of Ok _ \<Rightarrow> Fine | Err _ \<Rightarrow> Failed | Panic \<Rightarrow> Panicked)"

definition control_step ::
  "('x, 'd, 'e) model_api \<Rightarrow> 'x serve_env \<Rightarrow> 'd admin_api \<Rightarrow> 'j control \<Rightarrow> ('x, 'd) registry \<Rightarrow> host
     \<Rightarrow> outcome_kind \<times> ('x, 'd) registry \<times> host" where
  "control_step A V D c rt h =
     (case c of
        Ask nm \<Rightarrow> (case warm_up A V nm rt h of (r, rt', h') \<Rightarrow> (kind_of r, rt', h'))
      | Slots req \<Rightarrow> (case (admin_slots A D req rt h :: ('e admin_error, 'j json) res \<times> _) of (r, rt', h') \<Rightarrow> (kind_of r, rt', h'))
      | Vram \<Rightarrow> (case (admin_vram D rt h :: ('e admin_error, 'j json) res \<times> _) of (r, h') \<Rightarrow> (kind_of r, rt, h'))
      | Delete i \<Rightarrow> (case (delete_session i rt :: (unit, 'j json) res \<times> _) of (r, rt') \<Rightarrow> (kind_of r, rt', h)))"

fun control_run ::
  "('x, 'd, 'e) model_api \<Rightarrow> 'x serve_env \<Rightarrow> 'd admin_api \<Rightarrow> 'j control list \<Rightarrow> ('x, 'd) registry \<Rightarrow> host
     \<Rightarrow> outcome_kind list \<times> ('x, 'd) registry \<times> host" where
  "control_run A V D [] rt h = ([], rt, h)"
| "control_run A V D (c # cs) rt h =
     (case control_step A V D c rt h of
        (k, rt1, h1) \<Rightarrow> if k = Panicked then ([k], rt1, h1)
                        else (case control_run A V D cs rt1 h1 of (ks, rt2, h2) \<Rightarrow> (k # ks, rt2, h2)))"

section \<open>One warm model changes\<close>

lemma on_engine_split:
  "on_engine nm f ws g = (r, ws', g') \<Longrightarrow>
    r = None \<and> ws' = ws \<and> g' = g \<and> nm \<notin> fst ` set ws \<or>
    (\<exists>us e vs x e'. ws = us @ (nm, e) # vs \<and> nm \<notin> fst ` set us \<and> f e g = (x, e', g') \<and> r = Some x \<and> ws' = us @ (nm, e') # vs)"
proof (induction ws arbitrary: ws')
  case (Cons w ws)
  obtain n e where w: "w = (n, e)" by fastforce
  show ?case
  proof (cases "n = nm")
    case True
    then show ?thesis using Cons.prems by (intro disjI2 exI [of _ "[]"]) (auto simp: w split: prod.splits)
  next
    case False
    obtain ws2 where o: "on_engine nm f ws g = (r, ws2, g')" "ws' = w # ws2" using Cons.prems False by (auto simp: w split: prod.splits)
    from Cons.IH [OF o(1)] show ?thesis
    proof (elim disjE exE conjE)
      fix us e1 vs x e'
      assume "ws = us @ (nm, e1) # vs" "nm \<notin> fst ` set us" "f e1 g = (x, e', g')" "r = Some x" "ws2 = us @ (nm, e') # vs"
      then show ?thesis using o(2) False by (intro disjI2 exI [of _ "w # us"]) (auto simp: w)
    qed (use o(2) False in \<open>auto simp: w\<close>)
  qed
qed simp

lemma on_engine_names: "on_engine nm f ws g = (r, ws', g') \<Longrightarrow> map fst ws' = map fst ws"
  by (drule on_engine_split) auto

lemma admin_loop_names: "admin_loop A D specs tgt mb nms ws g = (r, ws', g') \<Longrightarrow> map fst ws' = map fst ws"
proof (induction nms arbitrary: ws g r ws' g')
  case (Cons nm nms)
  show ?case
  proof (cases "case tgt of Some t \<Rightarrow> Some t | None \<Rightarrow> map_option ms_slots_solo (find_spec specs nm)")
    case (Some want)
    obtain q ws1 g1 where o: "on_engine nm (admin_resize A D want mb) ws g = (q, ws1, g1)" using prod_cases3 by blast
    note n = on_engine_names [OF o]
    obtain r2 ws2 g2 where l: "admin_loop A D specs tgt mb nms ws1 g1 = (r2, ws2, g2)" using prod_cases3 by blast
    show ?thesis using Cons.prems n Cons.IH [OF l] by (auto simp: Some o l split: option.splits res.splits)
  qed (use Cons.prems in auto)
qed simp

lemma forget_all_same: "forget_all i ws = (r, ws') \<Longrightarrow> map (\<lambda>w. (fst w, en_dec (snd w), en_cur_slots (snd w))) ws' = map (\<lambda>w. (fst w, en_dec (snd w), en_cur_slots (snd w))) ws"
proof (induction i ws arbitrary: r ws' rule: forget_all.induct)
  case (2 i nm e ws)
  show ?case using 2 by (auto split: prod.splits res.splits)
qed simp

lemma control_step_registry:
  fixes rt :: "('x, 'd) registry"
  assumes ok: "registry_ok rt" and s: "control_step A V D c rt h = (k, rt', h')"
  shows "registry_ok rt' \<and> rt_specs rt' = rt_specs rt \<and> rt_max_warm rt' = rt_max_warm rt"
proof -
  have by_names: "registry_ok rt \<longleftrightarrow> distinct (map fst (rt_warm rt)) \<and> (\<forall>n \<in> set (map fst (rt_warm rt)). find_spec (rt_specs rt) n \<noteq> None) \<and>
    length (map fst (rt_warm rt)) \<le> max 1 (rt_max_warm rt)" for rt :: "('x, 'd) registry"
    by (simp add: registry_ok_def)
  have same: "registry_ok (rt\<lparr>rt_warm := ws\<rparr>)" if "map fst ws = map fst (rt_warm rt)" for ws
    using ok that unfolding by_names by simp
  show ?thesis
  proof (cases c)
    case (Ask nm)
    then show ?thesis using s warm_up_order [OF ok] by (fastforce simp: control_step_def split: prod.splits)
  next
    case (Slots req)
    then show ?thesis using s ok same [OF admin_loop_names] by (auto simp: control_step_def admin_slots_def Let_def split: prod.splits if_splits res.splits)
  next
    case Vram
    then show ?thesis using s ok by (auto simp: control_step_def split: prod.splits)
  next
    case (Delete i)
    obtain r ws where f: "forget_all i (rt_warm rt) = (r, ws)" by fastforce
    have "map fst ws = map fst (rt_warm rt)" using arg_cong [OF forget_all_same [OF f], of "map fst"] by (simp add: comp_def)
    then show ?thesis using s same [of ws] Delete f by (auto simp: control_step_def delete_session_def split: prod.splits)
  qed
qed


section \<open>The account of device memory\<close>

locale adjustable_models = device_models api good held
  for api :: "'r \<Rightarrow> ('x, 'd, 'e) model_api" and good :: "'r \<Rightarrow> bool" and held :: "'d \<Rightarrow> u64 list" +
  fixes admin :: "'r \<Rightarrow> 'd admin_api"
  assumes reserve_law: "held (ad_reserve (admin R) n d) = held d"
    and reserve_slots: "ap_slots (api R) (ad_reserve (admin R) n d) = ap_slots (api R) d"
begin

lemma arm_held [simp]: "held (en_dec (arm (admin R) n e)) = held (en_dec e)"
  by (simp add: arm_def reserve_law)

lemma accounts_same: "held (en_dec e') = held (en_dec e) \<Longrightarrow> accounts held B n ((nm, e') # ws) g \<longleftrightarrow> accounts held B n ((nm, e) # ws) g"
  by (simp add: accounts_def)

lemma admin_resize_accounts:
  assumes R: "good R" and a: "accounts held B n ((nm, e) # ws) g" and z: "admin_resize (api R) (admin R) want mb e g = (r, e', g')"
  shows "\<exists>l. accounts held (B + l) n ((nm, e') # ws) g' \<and> ((\<exists>k. r = Ok k) \<longrightarrow> l = {#})"
proof -
  define armed where "armed = (case mb of None \<Rightarrow> Some e | Some m \<Rightarrow> if uint m * 1000000 < 2 ^ 64 then Some (arm (admin R) (m * 1000000) e) else None)"
  show ?thesis
  proof (cases armed)
    case None
    then have "r = Panic" "e' = e" "g' = g" using z by (simp_all add: admin_resize_def armed_def [symmetric])
    with a show ?thesis by (intro exI [of _ "{#}"]) simp
  next
    case (Some e1)
    then have h: "held (en_dec e1) = held (en_dec e)" by (auto simp: armed_def split: option.splits if_splits)
    obtain q d g1 where p: "ap_resize (api R) want (en_dec e1) g = (q, d, g1)" using prod_cases3 by blast
    have a1: "accounts held B n ((nm, e1) # ws) g" using a accounts_same [OF h] by simp
    from resize_law [OF R accounts_sub [OF a1]] p obtain l where l: "changes g g1 (held (en_dec e1)) (held d) l" "q = Ok () \<longrightarrow> l = {#}" by fastforce
    have acc: "accounts held (B + l) n ((nm, e2) # ws) g1" if "held (en_dec e2) = held d" for e2 :: "'d engine"
      using accounts_step [OF a1, of g1 "held d" l] l(1) that by (simp flip: accounts_back)
    show ?thesis using z p l(2) acc by (intro exI [of _ l], cases q) (auto simp: admin_resize_def Some armed_def [symmetric] Let_def)
  qed
qed

lemma accounts_mid: "accounts held B n (us @ w # vs) g \<longleftrightarrow> accounts held B n (w # us @ vs) g"
  by (simp add: accounts_def add_ac)

lemma admin_loop_accounts:
  assumes R: "good R"
  shows "accounts held B n ws g \<Longrightarrow> admin_loop (api R) (admin R) specs tgt mb nms ws g = (r, ws', g') \<Longrightarrow>
    \<exists>l. accounts held (B + l) n ws' g' \<and> ((\<exists>k. r = Ok k) \<longrightarrow> l = {#})"
proof (induction nms arbitrary: B ws g r ws' g')
  case Nil
  then show ?case by (intro exI [of _ "{#}"]) auto
next
  case (Cons nm nms)
  show ?case
  proof (cases "case tgt of Some t \<Rightarrow> Some t | None \<Rightarrow> map_option ms_slots_solo (find_spec specs nm)")
    case None
    then show ?thesis using Cons.prems by (intro exI [of _ "{#}"]) auto
  next
    case (Some want)
    obtain q ws1 g1 where o: "on_engine nm (admin_resize (api R) (admin R) want mb) ws g = (q, ws1, g1)" using prod_cases3 by blast
    obtain l1 where l1: "accounts held (B + l1) n ws1 g1" "(\<exists>k. q = Some (Ok k)) \<or> q = None \<longrightarrow> l1 = {#}"
      using on_engine_split [OF o]
    proof (elim disjE exE conjE)
      fix us e vs x e'
      assume u: "ws = us @ (nm, e) # vs" "admin_resize (api R) (admin R) want mb e g = (x, e', g1)" "q = Some x" "ws1 = us @ (nm, e') # vs"
      then have "accounts held B n ((nm, e) # us @ vs) g" using Cons.prems(1) by (simp add: accounts_mid)
      from admin_resize_accounts [OF R this u(2)] obtain l where "accounts held (B + l) n ((nm, e') # us @ vs) g1" "(\<exists>k. x = Ok k) \<longrightarrow> l = {#}" by blast
      then show thesis using that [of l] u by (simp add: accounts_mid)
    next
      assume "q = None" "ws1 = ws" "g1 = g"
      then show thesis using that [of "{#}"] Cons.prems(1) by simp
    qed
    obtain r2 ws2 g2 where l: "admin_loop (api R) (admin R) specs tgt mb nms ws1 g1 = (r2, ws2, g2)" using prod_cases3 by blast
    from Cons.IH [OF l1(1) l] obtain l2 where l2: "accounts held (B + l1 + l2) n ws2 g2" "(\<exists>k. r2 = Ok k) \<longrightarrow> l2 = {#}" by blast
    show ?thesis
    proof (cases "q = None \<or> (\<exists>k. q = Some (Ok k))")
      case True
      then have "ws' = ws2" "g' = g2" "(\<exists>k. r = Ok k) \<longrightarrow> (\<exists>k. r2 = Ok k)" using Cons.prems(2) by (auto simp: Some o l panic_simps)
      with l1(2) l2 True show ?thesis by (intro exI [of _ l2]) auto
    next
      case False
      then have "ws' = ws1" "g' = g1" "\<forall>k. r \<noteq> Ok k" using Cons.prems(2) by (auto simp: Some o l split: option.splits res.splits)
      with l1(1) show ?thesis by blast
    qed
  qed
qed

lemma accounts_calls [simp]: "accounts held B n ws (g\<lparr>gp_calls := c\<rparr>) = accounts held B n ws g"
  by (simp add: accounts_def)

lemma control_step_accounts:
  assumes R: "good R" and a: "accounts held B n (rt_warm rt) (ht_gpu h)" and s: "control_step (api R) V (admin R) c rt h = (k, rt', h')"
  shows "\<exists>l. accounts held (B + l) n (rt_warm rt') (ht_gpu h') \<and> (k = Fine \<and> rt_max_warm rt \<le> 1 \<longrightarrow> l = {#})"
proof (cases c)
  case (Ask nm)
  obtain r rt1 h1 where w: "warm_up (api R) V nm rt h = (r, rt1, h1)" using prod_cases3 by blast
  have "k = Fine \<longleftrightarrow> (\<exists>i. r = Ok i)" "rt' = rt1" "h' = h1" using s w by (auto simp: Ask control_step_def kind_of_def split: res.splits)
  with warm_up_accounts [OF R a w] show ?thesis by auto
next
  case (Slots req)
  obtain r ws g where l: "admin_loop (api R) (admin R) (rt_specs rt) (map_option of_nat (j_u64 (jget req ''target'')))
      (map_option of_nat (j_u64 (jget req ''reserve_mb''))) (map fst (rt_warm rt)) (rt_warm rt) (ht_gpu h) = (r, ws, g)" using prod_cases3 by blast
  from admin_loop_accounts [OF R a l] obtain lo where lo: "accounts held (B + lo) n ws g" "(\<exists>k. r = Ok k) \<longrightarrow> lo = {#}" by blast
  show ?thesis
  proof (cases "j_u64 (jget req ''target'') = None \<and> j_u64 (jget req ''reserve_mb'') = None")
    case True
    then have "rt' = rt" "h' = h" using s by (simp_all add: Slots control_step_def admin_slots_def)
    then show ?thesis using a by (intro exI [of _ "{#}"]) simp
  next
    case False
    then show ?thesis using s lo
      by (intro exI [of _ lo], cases r) (auto simp: Slots control_step_def admin_slots_def l kind_of_def card_memory_def Let_def split: if_splits)
  qed
next
  case Vram
  have "accounts held B n (rt_warm rt') (ht_gpu h')" using s a
    by (auto simp: Vram control_step_def admin_vram_def card_memory_def split: if_splits option.splits prod.splits)
  then show ?thesis by (intro exI [of _ "{#}"]) simp
next
  case (Delete i)
  obtain r ws where f: "forget_all i (rt_warm rt) = (r, ws)" by fastforce
  have "held_all held ws = held_all held (rt_warm rt)"
    using arg_cong [OF forget_all_same [OF f], of "\<lambda>xs. sum_list (map (\<lambda>(a, b, c). mset (held b)) xs)"] by (simp add: held_all_def comp_def)
  then show ?thesis using a s f by (intro exI [of _ "{#}"]) (auto simp: Delete control_step_def delete_session_def accounts_def split: prod.splits)
qed

lemma control_run_accounts:
  assumes R: "good R"
  shows "registry_ok rt \<Longrightarrow> accounts held B n (rt_warm rt) (ht_gpu h) \<Longrightarrow> control_run (api R) V (admin R) cs rt h = (ks, rt', h') \<Longrightarrow>
    \<exists>l. accounts held (B + l) n (rt_warm rt') (ht_gpu h') \<and> (set ks \<subseteq> {Fine} \<and> rt_max_warm rt \<le> 1 \<longrightarrow> l = {#})"
proof (induction cs arbitrary: B rt h ks)
  case (Cons c cs)
  obtain k rt1 h1 where s: "control_step (api R) V (admin R) c rt h = (k, rt1, h1)" using prod_cases3 by blast
  from control_step_accounts [OF R Cons.prems(2) s] obtain l1 where
    l1: "accounts held (B + l1) n (rt_warm rt1) (ht_gpu h1)" "k = Fine \<and> rt_max_warm rt \<le> 1 \<longrightarrow> l1 = {#}" by blast
  have ok: "registry_ok rt1" "rt_max_warm rt1 = rt_max_warm rt" using control_step_registry [OF Cons.prems(1) s] by blast+
  show ?case
  proof (cases "k = Panicked")
    case True
    then show ?thesis using Cons.prems(3) s l1(1) by (intro exI [of _ l1]) auto
  next
    case False
    obtain ks2 where z: "control_run (api R) V (admin R) cs rt1 h1 = (ks2, rt', h')" "ks = k # ks2" using Cons.prems(3) s False by (auto split: prod.splits)
    from Cons.IH [OF ok(1) l1(1) z(1)] obtain l2 where "accounts held (B + l1 + l2) n (rt_warm rt') (ht_gpu h')"
      "set ks2 \<subseteq> {Fine} \<and> rt_max_warm rt1 \<le> 1 \<longrightarrow> l2 = {#}" by blast
    with l1 z(2) ok(2) show ?thesis by (intro exI [of _ "l1 + l2"]) (auto simp: add.assoc)
  qed
qed (auto intro!: exI [of _ "{#}"])

end

text \<open>The decoders of \<open>AnyDecoder\<close>.\<close>

definition any_admin :: "('f, 'j, 'x) run_env \<Rightarrow> 'f any_decoder admin_api" where
  "any_admin R = \<lparr>ad_reserve = any_set_reserve, ad_mem = mem_info (rn_cuda R)\<rparr>"

interpretation adjusted: adjustable_models "any_api :: ('f, 'j, 'x) run_env \<Rightarrow> _" fresh_card any_held any_admin
proof
  show "any_held (ad_reserve (any_admin R) n d) = any_held d" for R :: "('f, 'j, 'x) run_env" and n and d :: "'f any_decoder"
    by (cases d) (simp_all add: any_admin_def any_set_reserve_def any_held_def set_reserve_bytes_def dec_ptrs_def kimi_ptrs_def arenas_of_def)
  show "ap_slots (any_api R) (ad_reserve (any_admin R) n d) = ap_slots (any_api R) d" for R :: "('f, 'j, 'x) run_env" and n and d :: "'f any_decoder"
    by (cases d) (simp_all add: any_admin_def any_api_def any_set_reserve_def any_slots_def set_reserve_bytes_def slots_per_layer_def)
qed

text \<open>C38:
  The server accounts for its device memory, whatever is requested (models to be warmed, resizes of
  the warm ones, deletions of sessions) and whatever fails: the addresses in use are those in use
  before, those of the warm models, and some that calls that failed left behind (none when every request
  succeeded and one model is warm at a time); dropping the warm models leaves exactly the rest, and no
  address is freed that is not allocated, so none twice.\<close>
theorem requests_account_for_memory:
  assumes R: "fresh_card R" and start: "registry_ok rt" "rt_warm rt = []"
    and run: "control_run (any_api R) V (any_admin R) cs rt h = (ks, rt', h')"
  shows "\<exists>lost. mset (gp_live (ht_gpu h')) = mset (gp_live (ht_gpu h)) + held_all any_held (rt_warm rt') + lost \<and>
    gp_stray (ht_gpu h') = gp_stray (ht_gpu h) \<and> (set ks \<subseteq> {Fine} \<and> rt_max_warm rt \<le> 1 \<longrightarrow> lost = {#}) \<and>
    (let g = drop_warm (any_api R) (rt_warm rt') (ht_gpu h') in
       mset (gp_live g) = mset (gp_live (ht_gpu h)) + lost \<and> gp_stray g = gp_stray (ht_gpu h))"
proof -
  have "accounts any_held (mset (gp_live (ht_gpu h))) (gp_stray (ht_gpu h)) (rt_warm rt) (ht_gpu h)" using start(2) by (simp add: accounts_def)
  from adjusted.control_run_accounts [OF R start(1) this run] obtain l where
    l: "accounts any_held (mset (gp_live (ht_gpu h)) + l) (gp_stray (ht_gpu h)) (rt_warm rt') (ht_gpu h')"
       "set ks \<subseteq> {Fine} \<and> rt_max_warm rt \<le> 1 \<longrightarrow> l = {#}" by blast
  from served.drop_warm_accounts [OF R l(1)] l show ?thesis by (intro exI [of _ l]) (auto simp: accounts_def Let_def add_ac)
qed


section \<open>What a resize of all models does\<close>

text \<open>A model that was resized: it knows its true size, which is within the target, and the new reserve is armed.\<close>

definition resized :: "('x, 'd, 'e) model_api \<Rightarrow> u32 \<Rightarrow> u64 option \<Rightarrow> string \<times> 'd engine \<Rightarrow> bool" where
  "resized A t mb w \<longleftrightarrow> en_cur_slots (snd w) = ap_slots A (en_dec (snd w)) \<and> ap_slots A (en_dec (snd w)) \<le> t \<and>
     (\<forall>m. mb = Some m \<longrightarrow> en_reserve (snd w) = m * 1000000)"

text \<open>A model whose resize failed: it keeps its reserve and knows its true size.\<close>

definition restored :: "('x, 'd, 'e) model_api \<Rightarrow> string \<times> 'd engine \<Rightarrow> string \<times> 'd engine \<Rightarrow> bool" where
  "restored A w w' \<longleftrightarrow> fst w' = fst w \<and> en_reserve (snd w') = en_reserve (snd w) \<and> en_cur_slots (snd w') = ap_slots A (en_dec (snd w'))"

lemma on_engine_here: "nm \<notin> fst ` set us \<Longrightarrow> on_engine nm f (us @ (nm, e) # vs) g = (case f e g of (r, e', g') \<Rightarrow> (Some r, us @ (nm, e') # vs, g'))"
  by (induction us) (auto split: prod.splits)

context adjustable_models
begin

lemma admin_resize_cases:
  assumes R: "good R" and z: "admin_resize (api R) (admin R) t mb e g = (r, e', g')"
  obtains (Ok) k where "r = Ok k" "resized (api R) t mb (nm, e')" | (Err) x where "r = Err x" "restored (api R) (nm, e) (nm, e')" | (Panic) "r = Panic"
proof (cases r)
  case res: (Ok k)
  then obtain e1 u d where e1: "(case mb of None \<Rightarrow> Some e | Some m \<Rightarrow> if uint m * 1000000 < 2 ^ 64 then Some (arm (admin R) (m * 1000000) e) else None) = Some e1"
    and p: "ap_resize (api R) t (en_dec e1) g = (Ok u, d, g')" "e' = e1\<lparr>en_dec := d, en_cur_slots := ap_slots (api R) d\<rparr>"
    using z by (auto simp: admin_resize_def Let_def split: option.splits prod.splits res.splits)
  from e1 have "\<forall>m. mb = Some m \<longrightarrow> en_reserve e1 = m * 1000000" by (auto simp: arm_def split: option.splits if_splits)
  then show thesis using Ok [OF res] size_law [OF R p(1)] p(2) by (simp add: resized_def)
next
  case res: (Err x)
  then have "restored (api R) (nm, e) (nm, e')"
    using z by (auto simp: admin_resize_def Let_def restored_def arm_def split: option.splits prod.splits res.splits)
  then show thesis using Err res by blast
qed (rule Panic)

lemma admin_loop_cases:
  assumes R: "good R"
  shows "distinct (map fst (dn @ vs)) \<Longrightarrow> admin_loop (api R) (admin R) specs (Some t) mb (map fst vs) (dn @ vs) g = (r, ws', g') \<Longrightarrow>
    (\<exists>ps vs'. r = Ok ps \<and> map fst ps = map fst vs \<and> ws' = dn @ vs' \<and> map fst vs' = map fst vs \<and> (\<forall>w \<in> set vs'. resized (api R) t mb w)) \<or>
    (\<exists>x us us' w w' rest. r = Err x \<and> vs = us @ w # rest \<and> ws' = dn @ us' @ w' # rest \<and> map fst us' = map fst us \<and>
       (\<forall>w \<in> set us'. resized (api R) t mb w) \<and> restored (api R) w w') \<or> r = Panic"
proof (induction vs arbitrary: dn g r ws' g')
  case (Cons v vs)
  obtain nm e where v: "v = (nm, e)" by fastforce
  have nm: "nm \<notin> fst ` set dn" using Cons.prems(1) by (auto simp: v)
  obtain q e1 g1 where z: "admin_resize (api R) (admin R) t mb e g = (q, e1, g1)" using prod_cases3 by blast
  have o: "on_engine nm (admin_resize (api R) (admin R) t mb) (dn @ (nm, e) # vs) g = (Some q, dn @ (nm, e1) # vs, g1)"
    by (simp add: on_engine_here [OF nm] z)
  show ?case
  proof (rule admin_resize_cases [OF R z, where nm = nm])
    fix k assume q: "q = Ok k" and d: "resized (api R) t mb (nm, e1)"
    obtain r2 ws2 g2 where l: "admin_loop (api R) (admin R) specs (Some t) mb (map fst vs) ((dn @ [(nm, e1)]) @ vs) g1 = (r2, ws2, g2)" using prod_cases3 by blast
    have res: "r = bind_res r2 (\<lambda>ps. Ok ((nm, k) # ps))" "ws' = ws2" using Cons.prems(2) o q l by (auto simp: v)
    have "distinct (map fst ((dn @ [(nm, e1)]) @ vs))" using Cons.prems(1) by (simp add: v)
    from Cons.IH [OF this l] show ?thesis
    proof (elim disjE exE conjE)
      fix ps vs' assume "r2 = Ok ps" "map fst ps = map fst vs" "ws2 = (dn @ [(nm, e1)]) @ vs'" "map fst vs' = map fst vs" "\<forall>w \<in> set vs'. resized (api R) t mb w"
      then show ?thesis using d res by (intro disjI1 exI [of _ "(nm, k) # ps"] exI [of _ "(nm, e1) # vs'"]) (simp add: v)
    next
      fix x us us' w w' rest
      assume "r2 = Err x" "vs = us @ w # rest" "ws2 = (dn @ [(nm, e1)]) @ us' @ w' # rest" "map fst us' = map fst us"
        "\<forall>w \<in> set us'. resized (api R) t mb w" "restored (api R) w w'"
      then show ?thesis using d res
        by (intro disjI2 disjI1 exI [of _ x] exI [of _ "v # us"] exI [of _ "(nm, e1) # us'"] exI [of _ w] exI [of _ w'] exI [of _ rest]) (simp add: v)
    qed (use res in simp)
  next
    fix x assume "q = Err x" "restored (api R) (nm, e) (nm, e1)"
    then show ?thesis using Cons.prems(2) o
      by (intro disjI2 disjI1 exI [of _ x] exI [of _ "[]"] exI [of _ v] exI [of _ "(nm, e1)"] exI [of _ vs]) (simp add: v)
  next
    assume "q = Panic"
    then show ?thesis using Cons.prems(2) o by (simp add: v)
  qed
qed simp

end


text \<open>A session whose name starts with the path of the endpoint cannot be deleted by its name.\<close>

lemma prefix_taken_twice: "route ''DELETE'' (''/v1/sessions/'' @ ''/v1/sessions/'' @ i) = route ''DELETE'' (''/v1/sessions/'' @ i)"
  by (simp add: route_def Let_def trim_prefixes.simps)

end
