(* ===== verification/Server.thy ===== *)
theory Server
  imports Admin Session_Faults
begin

text \<open>
  The whole server (\<open>handle\<close> in \<open>llmpager-serve/src/main.rs\<close>): a completion warms its model, is planned,
  and is answered on the model's decoder, within a session, without one, or as a batch. Here a decoder
  is a pair: what \<open>Registry\<close> and \<open>Admin\<close> load, resize and drop, and the KV caches of \<open>Kv_Lanes\<close>. The
  contract \<open>kept_lanes\<close> says that loading gives caches of the batch width and that nothing but steps
  and imports changes them; with it the soundness of the sessions extends to all models and all requests.
  Streams, which a thread of their own answers, are the matter of \<open>Front_End\<close>.
\<close>

section \<open>Completions\<close>

text \<open>
  What differs between models and is not under \<open>src\<close>: tokenizers (by the file they were read from),
  the kernels and the head of a model, the clock. \<open>sm_pick\<close> samples from the logits of an entry.
\<close>

record ('j, 'x, 'f, 'r) serve_model =
  sm_nums :: "('j, 'x, 'f) http_nums"
  sm_encode :: "string \<Rightarrow> string \<Rightarrow> u32 list option"
  sm_decode :: "string \<Rightarrow> u32 list \<Rightarrow> string option"
  sm_kern :: "string \<Rightarrow> kernel"
  sm_head :: "string \<Rightarrow> bytes list list \<Rightarrow> u32"
  sm_eos :: "string \<Rightarrow> u32 list"
  sm_greedy :: "'f sampling \<Rightarrow> bool"
  sm_rng :: "u64 \<Rightarrow> 'r"
  sm_pick :: "'f sampling \<Rightarrow> kv_dec \<Rightarrow> nat \<Rightarrow> 'r \<Rightarrow> u32 list \<Rightarrow> u32 \<times> 'r"
  sm_seconds :: 'x
  sm_rate :: "nat \<Rightarrow> 'x"

datatype reply_error = NotEncoded | NoTokens | Generating "kv_error gen_error" | TextLost

datatype 'e http_error = Starting "'e serve_error" | Planning req_error | Replying reply_error

definition params_of :: "('j, 'x, 'f, 'r) serve_model \<Rightarrow> string \<Rightarrow> 'f completion \<Rightarrow> ('m \<times> kv_dec) engine \<Rightarrow> 'r gen_params" where
  "params_of S nm c e =
     \<lparr>q_chunk_cap = d_chunk_cap (snd (en_dec e)), q_max_seq = en_max_seq e, q_eos = sm_eos S nm,
      q_plain_greedy = sm_greedy S (co_sampling c), q_rng = sm_rng S (s_seed (co_sampling c))\<rparr>"

definition tokenize :: "('j, 'x, 'f, 'r) serve_model \<Rightarrow> 'd engine \<Rightarrow> string \<Rightarrow> (reply_error, u32 list) res" where
  "tokenize S e prompt =
     (case sm_encode S (en_tok e) prompt of None \<Rightarrow> Err NotEncoded | Some ids \<Rightarrow> if ids = [] then Err NoTokens else Ok ids)"

text \<open>The engine with its sessions and caches after a request.\<close>

definition moved :: "('m \<times> kv_dec) engine \<Rightarrow> session_store \<Rightarrow> kv_dec \<Rightarrow> ('m \<times> kv_dec) engine" where
  "moved e st k = e\<lparr>en_sessions := st, en_dec := (fst (en_dec e), k)\<rparr>"

definition outcome_for :: "('j, 'x, 'f, 'r) serve_model \<Rightarrow> nat \<Rightarrow> nat \<Rightarrow> (string \<times> nat \<times> nat \<times> nat) option \<Rightarrow> 'x outcome" where
  "outcome_for S p c info =
     \<lparr>oc_prompt = p, oc_completion = c, oc_seconds = sm_seconds S, oc_rate = sm_rate S c, oc_session = info\<rparr>"

definition session_reply ::
  "('j, 'x, 'f, 'r) serve_model \<Rightarrow> string \<Rightarrow> 'f completion \<Rightarrow> string \<Rightarrow> string \<Rightarrow> ('m \<times> kv_dec) engine
     \<Rightarrow> (reply_error, string \<times> 'x outcome) res \<times> ('m \<times> kv_dec) engine" where
  "session_reply S nm c sid prompt e =
     (case tokenize S e prompt of
        Err x \<Rightarrow> (Err x, e) | Panic \<Rightarrow> (Panic, e)
      | Ok ids \<Rightarrow>
          (case session_acquire kv_export kv_import (en_sessions e) (snd (en_dec e)) sid ids of
             (Err x, st, k) \<Rightarrow> (Err (Generating (Acquire x)), moved e st k) | (Panic, st, k) \<Rightarrow> (Panic, moved e st k)
           | (Ok (slot, reuse), st, k) \<Rightarrow>
               (case generate_session (step_multi (sm_kern S nm) (sm_head S nm)) (\<lambda>k. sm_pick S (co_sampling c) k 0) (params_of S nm c e) k slot reuse
                  ids (co_max_tokens c) of
                  (Err x, k2) \<Rightarrow> (Err (Generating x), moved e st k2) | (Panic, k2) \<Rightarrow> (Panic, moved e st k2)
                | (Ok (out, ctx, prefilled), k2) \<Rightarrow>
                    (case sm_decode S (en_tok e) out of
                       None \<Rightarrow> (Err TextLost, moved e st k2)
                     | Some text \<Rightarrow> (Ok (text, outcome_for S (length ids) (length out) (Some (sid, slot, reuse, prefilled))),
                                    moved e (session_commit sid ctx st) k2)))))"

definition plain_reply ::
  "('j, 'x, 'f, 'r) serve_model \<Rightarrow> string \<Rightarrow> 'f completion \<Rightarrow> string \<Rightarrow> ('m \<times> kv_dec) engine
     \<Rightarrow> (reply_error, string \<times> 'x outcome) res \<times> ('m \<times> kv_dec) engine" where
  "plain_reply S nm c prompt e =
     (case tokenize S e prompt of
        Err x \<Rightarrow> (Err x, e) | Panic \<Rightarrow> (Panic, e)
      | Ok ids \<Rightarrow>
          (case generate (step_chunk (sm_kern S nm) (sm_head S nm)) (step_one (sm_kern S nm) (sm_head S nm)) (\<lambda>k. sm_pick S (co_sampling c) k 0)
             (params_of S nm c e) (snd (en_dec e)) ids (co_max_tokens c) of
             (Err x, k) \<Rightarrow> (Err (Generating x), moved e (en_sessions e) k) | (Panic, k) \<Rightarrow> (Panic, moved e (en_sessions e) k)
           | (Ok (out, p, n), k) \<Rightarrow>
               (case sm_decode S (en_tok e) out of
                  None \<Rightarrow> (Err TextLost, moved e (en_sessions e) k)
                | Some text \<Rightarrow> (Ok (text, outcome_for S p n None), moved e (en_sessions e) k))))"

text \<open>The prompts of a batch are tokenized in order, after its width was checked; texts are decoded in order.\<close>

fun tokenize_all :: "('j, 'x, 'f, 'r) serve_model \<Rightarrow> 'd engine \<Rightarrow> string list \<Rightarrow> (reply_error, u32 list list) res" where
  "tokenize_all S e [] = Ok []"
| "tokenize_all S e (p # ps) = bind_res (tokenize S e p) (\<lambda>ids. bind_res (tokenize_all S e ps) (\<lambda>idss. Ok (ids # idss)))"

fun decode_all :: "('j, 'x, 'f, 'r) serve_model \<Rightarrow> 'd engine \<Rightarrow> 'r stream list \<Rightarrow> (reply_error, (string \<times> nat \<times> nat) list) res" where
  "decode_all S e [] = Ok []"
| "decode_all S e (x # xs) =
     (case sm_decode S (en_tok e) (b_out x) of
        None \<Rightarrow> Err TextLost
      | Some text \<Rightarrow> bind_res (decode_all S e xs) (\<lambda>rs. Ok ((text, length (b_ids x), length (b_out x)) # rs)))"

definition batch_reply ::
  "('j, 'x, 'f, 'r) serve_model \<Rightarrow> string \<Rightarrow> 'f completion \<Rightarrow> string list \<Rightarrow> ('m \<times> kv_dec) engine
     \<Rightarrow> (reply_error, (string \<times> nat \<times> nat) list) res \<times> ('m \<times> kv_dec) engine" where
  "batch_reply S nm c prompts e =
     (let k = snd (en_dec e); cap = d_batch_cap k in
      if cap < length prompts then (Err (Generating (OverCapacity (length prompts) cap)), e)
      else case tokenize_all S e prompts of
        Err x \<Rightarrow> (Err x, e) | Panic \<Rightarrow> (Panic, e)
      | Ok idss \<Rightarrow>
          (case generate_batch (step_multi (sm_kern S nm) (sm_head S nm)) (sm_pick S (co_sampling c)) (params_of S nm c e) cap k
             (map (\<lambda>(i, ids). (ids, sm_rng S (s_seed (co_sampling c) + of_nat i))) (enumerate 0 idss)) (co_max_tokens c) of
             (Err x, k2) \<Rightarrow> (Err (Generating x), moved e (en_sessions e) k2) | (Panic, k2) \<Rightarrow> (Panic, moved e (en_sessions e) k2)
           | (Ok xs, k2) \<Rightarrow> (decode_all S e xs, moved e (en_sessions e) k2)))"

definition reply ::
  "('j, 'x, 'f, 'r) serve_model \<Rightarrow> string \<Rightarrow> 'f completion \<Rightarrow> plan \<Rightarrow> ('m \<times> kv_dec) engine
     \<Rightarrow> ('e http_error, 'x json) res \<times> ('m \<times> kv_dec) engine" where
  "reply S nm c p e =
     (case p of
        Batched ps \<Rightarrow>
          (case batch_reply S nm c ps e of
             (r, e') \<Rightarrow> (bind_res (map_err Replying r) (\<lambda>rs.
                Ok (batch_body (co_model c) (sm_seconds S) (sm_rate S (sum_list (map (\<lambda>(t, p, n). n) rs))) rs)), e'))
      | Single prompt \<Rightarrow>
          (case (case co_session c of Some sid \<Rightarrow> session_reply S nm c sid prompt e | None \<Rightarrow> plain_reply S nm c prompt e) of
             (r, e') \<Rightarrow> (bind_res (map_err Replying r) (\<lambda>(text, oc). Ok (completion_body (co_chat c) (co_model c) text oc)), e')))"

text \<open>\<open>warm_up\<close>, then the first warm model; indexing an empty list panics.\<close>

definition with_model ::
  "('x, 'd, 'e) model_api \<Rightarrow> 'x serve_env \<Rightarrow> string \<Rightarrow> (string \<Rightarrow> 'd engine \<Rightarrow> ('e http_error, 'a) res \<times> 'd engine) \<Rightarrow> ('x, 'd) registry \<Rightarrow> host
     \<Rightarrow> ('e http_error, 'a) res \<times> ('x, 'd) registry \<times> host" where
  "with_model A V nm f rt h =
     (case warm_up A V nm rt h of
        (Err x, rt1, h1) \<Rightarrow> (Err (Starting x), rt1, h1) | (Panic, rt1, h1) \<Rightarrow> (Panic, rt1, h1)
      | (Ok _, rt1, h1) \<Rightarrow>
          (case rt_warm rt1 of
             [] \<Rightarrow> (Panic, rt1, h1)
           | (n, e) # ws \<Rightarrow> (case f n e of (r, e') \<Rightarrow> (r, rt1\<lparr>rt_warm := (n, e') # ws\<rparr>, h1))))"

text \<open>A completion that is not streamed; \<open>kimi\<close> tells which template the decoder takes.\<close>

definition complete ::
  "('x, 'm \<times> kv_dec, 'e) model_api \<Rightarrow> 'x serve_env \<Rightarrow> ('j, 'x, 'f, 'r) serve_model \<Rightarrow> ('m \<Rightarrow> bool) \<Rightarrow> string \<Rightarrow> bool \<Rightarrow> 'j json
     \<Rightarrow> ('x, 'm \<times> kv_dec) registry \<Rightarrow> host \<Rightarrow> ('e http_error, 'x json) res \<times> ('x, 'm \<times> kv_dec) registry \<times> host" where
  "complete A V S kimi dflt chat req rt h =
     (let c = completion_of (sm_nums S) dflt chat req in
      case with_model A V (co_model c) (\<lambda>_ e. (Ok (kimi (fst (en_dec e))), e)) rt h of
        (Err x, rt1, h1) \<Rightarrow> (Err x, rt1, h1) | (Panic, rt1, h1) \<Rightarrow> (Panic, rt1, h1)
      | (Ok km, rt1, h1) \<Rightarrow>
          (case plan_request km c req of
             Err x \<Rightarrow> (Err (Planning x), rt1, h1) | Panic \<Rightarrow> (Panic, rt1, h1)
           | Ok p \<Rightarrow> with_model A V (co_model c) (\<lambda>nm e. reply S nm c p e) rt1 h1))"

text \<open>Requests in the order the main loop takes them.\<close>

datatype 'j http_request = Completion bool "'j json" | Control "'j control"

definition serve_step where
  "serve_step A V S D kimi dflt q rt h =
     (case q of
        Completion chat req \<Rightarrow> (case complete A V S kimi dflt chat req rt h of (r, rt', h') \<Rightarrow> (kind_of r, rt', h'))
      | Control c \<Rightarrow> control_step A V D c rt h)"

fun serve_all ::
  "('x, 'm \<times> kv_dec, 'e) model_api \<Rightarrow> 'x serve_env \<Rightarrow> ('j, 'x, 'f, 'r) serve_model \<Rightarrow> ('m \<times> kv_dec) admin_api \<Rightarrow> ('m \<Rightarrow> bool) \<Rightarrow> string
     \<Rightarrow> 'j http_request list \<Rightarrow> ('x, 'm \<times> kv_dec) registry \<Rightarrow> host \<Rightarrow> outcome_kind list \<times> ('x, 'm \<times> kv_dec) registry \<times> host" where
  "serve_all A V S D kimi dflt [] rt h = ([], rt, h)"
| "serve_all A V S D kimi dflt (q # qs) rt h =
     (case serve_step A V S D kimi dflt q rt h of
        (k, rt1, h1) \<Rightarrow> if k = Panicked then ([k], rt1, h1)
                        else (case serve_all A V S D kimi dflt qs rt1 h1 of (ks, rt2, h2) \<Rightarrow> (k # ks, rt2, h2)))"


section \<open>The lanes a model has\<close>

text \<open>The sessions and caches of the warm models, by name.\<close>

definition lanes :: "string \<times> ('m \<times> kv_dec) engine \<Rightarrow> string \<times> session_store \<times> kv_dec" where
  "lanes w = (fst w, en_sessions (snd w), snd (en_dec (snd w)))"

definition fresh_lanes :: "string \<times> session_store \<times> kv_dec \<Rightarrow> bool" where
  "fresh_lanes = (\<lambda>(nm, st, k). \<exists>budget. st = store_new (d_batch_cap k) budget \<and> 0 < d_batch_cap k)"

locale kept_lanes =
  fixes A :: "('x, 'm \<times> kv_dec, 'e) model_api" and D :: "('m \<times> kv_dec) admin_api"
  assumes new_lanes: "ap_new A s n ram reserve g = (Ok d, g') \<Longrightarrow> 0 < d_batch_cap (snd d)"
    and batch_lanes: "ap_batch A d = d_batch_cap (snd d)"
    and weight_lanes: "snd (ap_min_weight A x d) = snd d"
    and resize_lanes: "ap_resize A n d g = (q, d', g') \<Longrightarrow> snd d' = snd d"
    and reserve_lanes: "snd (ad_reserve D b d) = snd d"
begin

lemma rebalance_lanes: "rebalance A specs k ws g = (r, ws', g') \<Longrightarrow> map lanes ws' = map lanes ws"
proof (induction ws arbitrary: g r ws' g')
  case (Cons w ws)
  obtain nm e where w: "w = (nm, e)" by fastforce
  have moved: "lanes (nm, e\<lparr>en_dec := d, en_cur_slots := c\<rparr>) = lanes (nm, e)" "lanes (nm, e\<lparr>en_dec := d\<rparr>) = lanes (nm, e)"
    if "ap_resize A n (en_dec e) g = (q, d, g1)" for n q d g1 c
    using resize_lanes [OF that] by (simp_all add: lanes_def)
  show ?case
  proof (cases "find_spec specs nm")
    case None
    then show ?thesis using Cons.prems by (simp add: w)
  next
    case (Some s)
    obtain q d g1 where z: "ap_resize A (target s k) (en_dec e) g = (q, d, g1)" using prod_cases3 by blast
    show ?thesis using Cons.prems Cons.IH moved [OF z] z Some by (auto simp: w split: if_splits prod.splits res.splits)
  qed
qed simp

lemma load_lanes:
  assumes "load_engine A V files s slots g = (Ok e, g')"
  shows "fresh_lanes (lanes (nm, e))"
proof -
  from assms obtain reserve d g1 where n: "ap_new A s slots (sv_gb V (ms_ram_gb s)) reserve g = (Ok d, g1)"
    and e: "en_sessions e = store_new (ap_batch A d) (unat (sv_gb V (ms_session_ram_gb s)))" "en_dec e = ap_min_weight A (ms_min_weight s) d"
    by (auto simp: load_engine_def Let_def split: if_splits option.splits prod.splits res.splits)
  show ?thesis using new_lanes [OF n] by (auto simp: fresh_lanes_def lanes_def e weight_lanes batch_lanes)
qed

lemma settle_lanes:
  assumes "settle_in A rt name ws files e g = (r, rt', h')"
  shows "map lanes (rt_warm rt') = lanes (name, e) # map lanes ws"
proof -
  let ?ws = "(name, e\<lparr>en_cur_slots := ap_slots A (en_dec e)\<rparr>) # ws"
  obtain q ws2 g2 where b: "rebalance A (rt_specs rt) (length ?ws) ?ws g = (q, ws2, g2)" using prod_cases3 by blast
  have "rt_warm rt' = ws2" using assms unfolding settle_in_def Let_def b by auto
  then show ?thesis using rebalance_lanes [OF b] by (simp add: lanes_def)
qed

text \<open>Warming a model keeps the lanes of those that stay, and a model that was not warm starts with new ones.\<close>

lemma load_and_settle_lanes:
  assumes "load_and_settle A V rt s name sharers ws files g = (r, rt', h')" "w \<in> set (rt_warm rt')"
  shows "lanes w \<in> lanes ` set ws \<or> fresh_lanes (lanes w)"
proof -
  have settled: "lanes w \<in> lanes ` set us \<or> fresh_lanes (lanes w)"
    if "settle_in A rt name us files e g1 = (r, rt', h')" "load_engine A V files s slots g0 = (Ok e, g1)" for us e g1 slots g0
  proof -
    have "lanes w \<in> set (map lanes (rt_warm rt'))" using assms(2) by simp
    then show ?thesis unfolding settle_lanes [OF that(1)] using load_lanes [OF that(2)] by auto
  qed
  obtain r1 g1 where l1: "load_engine A V files s (target s sharers) g = (r1, g1)" by fastforce
  show ?thesis
  proof (cases r1)
    case (Ok e)
    then show ?thesis using settled [of ws e g1] l1 assms(1) by (simp add: load_and_settle_def)
  next
    case (Err x)
    obtain r2 g2 where l2: "load_engine A V files s (ms_slots_solo s) (drop_warm A ws g1) = (r2, g2)" by fastforce
    show ?thesis using settled [of "[]" _ g2] assms l1 l2 Err by (cases r2) (auto simp: load_and_settle_def split: if_splits)
  next
    case Panic
    then show ?thesis using assms l1 by (auto simp: load_and_settle_def)
  qed
qed

lemma warm_up_lanes:
  assumes u: "warm_up A V name rt h = (r, rt', h')" and w: "w \<in> set (rt_warm rt')"
  shows "lanes w \<in> lanes ` set (rt_warm rt) \<or> fresh_lanes (lanes w)"
proof (cases "dropWhile (\<lambda>w. fst w \<noteq> name) (rt_warm rt)")
  case (Cons v later)
  with u show ?thesis by (rule warm_up_hit) (use w in auto)
next
  case Nil
  show ?thesis
  proof (cases "find_spec (rt_specs rt) name")
    case None
    then show ?thesis using u w Nil by (auto simp: warm_up_def)
  next
    case (Some s)
    have sub: "set (rev kept) \<subseteq> set (rt_warm rt)" if "evict_lru A V (rt_specs rt) most (rev (rt_warm rt)) h = (q, kept, h1)" for q kept h1 most
      using evict_lru_kept [OF that] by (auto dest: in_set_dropD)
    show ?thesis using u Nil Some
    proof (cases rule: warm_up_miss)
      case (evict kept)
      then show ?thesis using w sub [OF evict(1)] by auto
    next
      case (shrink kept h1 q ws g2)
      then have "lanes w \<in> set (map lanes ws)" using w by simp
      then show ?thesis using sub [OF shrink(1)] unfolding rebalance_lanes [OF shrink(2)] by auto
    next
      case (load kept h1 ws g2)
      have "lanes ` set ws = lanes ` set (rev kept)" using arg_cong [OF rebalance_lanes [OF load(2)], of set] by simp
      then show ?thesis using load_and_settle_lanes [OF load(3) w] sub [OF load(1)] by auto
    qed
  qed
qed

lemma admin_resize_lanes: "admin_resize A D want mb e g = (r, e', g') \<Longrightarrow> lanes (nm, e') = lanes (nm, e)"
  by (auto simp: admin_resize_def Let_def lanes_def arm_def reserve_lanes split: option.splits if_splits prod.splits res.splits dest: resize_lanes)

lemma admin_loop_lanes: "admin_loop A D specs tgt mb nms ws g = (r, ws', g') \<Longrightarrow> map lanes ws' = map lanes ws"
proof (induction nms arbitrary: ws g r ws' g')
  case (Cons nm nms)
  show ?case
  proof (cases "case tgt of Some t \<Rightarrow> Some t | None \<Rightarrow> map_option ms_slots_solo (find_spec specs nm)")
    case (Some want)
    obtain q ws1 g1 where o: "on_engine nm (admin_resize A D want mb) ws g = (q, ws1, g1)" using prod_cases3 by blast
    have l: "map lanes ws1 = map lanes ws" using on_engine_split [OF o] admin_resize_lanes by auto
    obtain r2 ws2 g2 where l2: "admin_loop A D specs tgt mb nms ws1 g1 = (r2, ws2, g2)" using prod_cases3 by blast
    show ?thesis using Cons.prems l Cons.IH [OF l2] by (auto simp: Some o l2 split: option.splits res.splits)
  qed (use Cons.prems in auto)
qed simp

end

section \<open>Sound sessions\<close>

text \<open>The sessions of a model are sound over its caches, and there are fewer session lanes than lanes.\<close>

definition sound_lanes :: "('j, 'x, 'f, 'r) serve_model \<Rightarrow> string \<times> session_store \<times> kv_dec \<Rightarrow> bool" where
  "sound_lanes S = (\<lambda>(nm, st, k). sess_ok kv_geo (covers (sm_kern S nm)) kv_export st k \<and> length (o_owner st) < d_batch_cap k)"

definition sound_models :: "('j, 'x, 'f, 'r) serve_model \<Rightarrow> ('m \<times> kv_dec) warm \<Rightarrow> bool" where
  "sound_models S ws \<longleftrightarrow> (\<forall>w \<in> set ws. sound_lanes S (lanes w))"

lemma sound_models_lanes: "sound_models S ws \<longleftrightarrow> (\<forall>l \<in> set (map lanes ws). sound_lanes S l)"
  by (simp add: sound_models_def)

lemma fresh_sound: "fresh_lanes l \<Longrightarrow> sound_lanes S l"
  by (auto simp: fresh_lanes_def sound_lanes_def store_new_ok) (simp add: store_new_def)

lemma moved_lanes [simp]: "lanes (nm, moved e st k) = (nm, st, k)"
  by (simp add: lanes_def moved_def)

text \<open>What a request leaves of its model, unless it panics.\<close>

lemma plain_reply_sound:
  assumes s: "sound_lanes S (lanes (nm, e))" and r: "plain_reply S nm c prompt e = (r, e')"
  shows "sound_lanes S (lanes (nm, e'))"
proof (cases "tokenize S e prompt")
  case (Ok ids)
  obtain q k where g: "generate (step_chunk (sm_kern S nm) (sm_head S nm)) (step_one (sm_kern S nm) (sm_head S nm)) (\<lambda>k. sm_pick S (co_sampling c) k 0)
     (params_of S nm c e) (snd (en_dec e)) ids (co_max_tokens c) = (q, k)" by fastforce
  have k: "kv_geo k = kv_geo (snd (en_dec e))" using generate_spares [OF g] by (simp add: spares_def)
  have e': "e' = moved e (en_sessions e) k" using r Ok g by (auto simp: plain_reply_def split: res.splits option.splits prod.splits)
  have "sess_ok kv_geo (covers (sm_kern S nm)) kv_export (en_sessions e) k"
    by (rule sess_ok_spared [OF _ generate_spares [OF g]]) (use s in \<open>simp add: sound_lanes_def lanes_def\<close>)
  moreover have "d_batch_cap k = d_batch_cap (snd (en_dec e))" using k by (simp add: kv_geo_def)
  ultimately show ?thesis using s by (simp add: e') (simp add: sound_lanes_def lanes_def)
qed (use s r in \<open>auto simp: plain_reply_def\<close>)


lemma session_reply_sound:
  assumes s: "sound_lanes S (lanes (nm, e))" and r: "session_reply S nm c sid prompt e = (r, e')"
  shows "sound_lanes S (lanes (nm, e'))"
proof (cases "tokenize S e prompt")
  case (Ok ids)
  let ?st = "en_sessions e" and ?k = "snd (en_dec e)" and ?kern = "sm_kern S nm"
  have ok: "sess_ok kv_geo (covers ?kern) kv_export ?st ?k" and cap: "length (o_owner ?st) < d_batch_cap ?k"
    using s by (simp_all add: sound_lanes_def lanes_def)
  show ?thesis
  proof (cases "o_owner ?st = []")
    case True
    then have "lanes (nm, e') = lanes (nm, e)" using r Ok by (simp add: session_reply_def session_acquire_def lanes_def moved_def)
    with s show ?thesis by simp
  next
    case False
    obtain slot reuse st1 k1 where acq: "session_acquire kv_export kv_import ?st ?k sid ids = (Ok (slot, reuse), st1, k1)"
      and a: "kv.acquired ?kern ?st sid ids (slot, reuse) st1 ?k k1"
      using kv_acquired [OF ok False cap] by blast
    then obtain x where x: "sget st1 sid = Some x" "n_slot x = Some slot" "n_tokens x = take reuse ids"
      and ok1: "sess_ok kv_geo (covers ?kern) kv_export st1 k1" "covers ?kern k1 slot (take reuse ids)" "kv_geo k1 = kv_geo ?k"
        "length (o_owner st1) = length (o_owner ?st)" by (auto simp: kv.acquired_def)
    obtain gr k2 where g: "generate_session (step_multi ?kern (sm_head S nm)) (\<lambda>k. sm_pick S (co_sampling c) k 0) (params_of S nm c e) k1 slot reuse
       ids (co_max_tokens c) = (gr, k2)" by fastforce
    note K = kv.generate_session_keeps [OF g ok1(2)]
    have ok2: "sess_ok kv_geo (covers ?kern) kv_export st1 k2"
      by (rule kv.decoder_moves [OF ok1(1) x(1,2)]) (use K x(3) in simp)
    have geo: "kv_geo k2 = kv_geo ?k" using K ok1(3) by (simp add: kv.keeps_def)
    have fin: "sound_lanes S (lanes (nm, moved e st k2))"
      if "sess_ok kv_geo (covers ?kern) kv_export st k2" "length (o_owner st) = length (o_owner ?st)" for st
      using that geo cap by (simp add: sound_lanes_def kv_geo_def)
    have commit: "sound_lanes S (lanes (nm, moved e (session_commit sid ctx st1) k2))" if "gr = Ok (out, ctx, p)" for out ctx p
    proof (rule fin)
      have "covers ?kern k2 slot ctx" using K that by (simp add: kv.keeps_def)
      then show "sess_ok kv_geo (covers ?kern) kv_export (session_commit sid ctx st1) k2" by (rule kv.commit_ok [OF ok2 x(1,2)])
      show "length (o_owner (session_commit sid ctx st1)) = length (o_owner ?st)" using ok1(4) by (simp add: session_commit_def store_tick_def)
    qed
    show ?thesis using r Ok acq g fin [OF ok2 ok1(4)] commit by (cases gr) (auto simp: session_reply_def split: option.splits prod.splits)
  qed
qed (use s r in \<open>auto simp: session_reply_def\<close>)

text \<open>A batch writes into the lanes of sessions; every other plan leaves its model sound.\<close>

lemma reply_sound:
  assumes s: "sound_lanes S (lanes (nm, e))" and r: "reply S nm c (Single prompt) e = (r, e')"
  shows "sound_lanes S (lanes (nm, e'))"
proof (cases "co_session c")
  case None
  obtain q e1 where p: "plain_reply S nm c prompt e = (q, e1)" by fastforce
  have "e' = e1" using r by (simp add: reply_def None p)
  with plain_reply_sound [OF s p] show ?thesis by simp
next
  case (Some sid)
  obtain q e1 where p: "session_reply S nm c sid prompt e = (q, e1)" by fastforce
  have "e' = e1" using r by (simp add: reply_def Some p)
  with session_reply_sound [OF s p] show ?thesis by simp
qed

lemma forget_all_sound:
  "sound_models S ws \<Longrightarrow> forget_all i ws = (r, ws') \<Longrightarrow> r \<noteq> Panic \<and> sound_models S ws'"
proof (induction ws arbitrary: r ws')
  case (Cons w ws)
  obtain nm e where w: "w = (nm, e)" by fastforce
  let ?k = "snd (en_dec e)"
  obtain q st where f: "session_forget i (en_sessions e) = (q, st)" by fastforce
  have s: "sess_ok kv_geo (covers (sm_kern S nm)) kv_export (en_sessions e) ?k" "length (o_owner (en_sessions e)) < d_batch_cap ?k"
    using Cons.prems(1) by (simp_all add: w sound_models_def sound_lanes_def lanes_def)
  have q: "q \<noteq> Panic" "sess_ok kv_geo (covers (sm_kern S nm)) kv_export st ?k" using forget_ok [OF s(1), of i] f by simp_all
  have l: "length (o_owner st) = length (o_owner (en_sessions e))"
    using f by (auto simp: session_forget_def Let_def split: option.splits if_splits)
  have e': "sound_lanes S (lanes (nm, e\<lparr>en_sessions := st\<rparr>))" using q(2) l s(2) by (simp add: sound_lanes_def lanes_def)
  have ws: "sound_models S ws" using Cons.prems(1) by (simp add: sound_models_def)
  show ?case
  proof (cases q)
    case (Ok b)
    obtain r2 ws2 where a: "forget_all i ws = (r2, ws2)" by fastforce
    from Cons.IH [OF ws a] Cons.prems(2) f Ok a e' show ?thesis by (cases r2) (auto simp: w sound_models_def)
  next
    case (Err u)
    then show ?thesis using Cons.prems(2) f e' ws by (auto simp: w sound_models_def)
  qed (use q in simp)
qed (simp add: sound_models_def)

section \<open>The server keeps sessions sound\<close>

text \<open>Requests that are neither batches nor streams.\<close>

definition calm :: "('j, 'x, 'f, 'r) serve_model \<Rightarrow> string \<Rightarrow> 'j http_request \<Rightarrow> bool" where
  "calm S dflt q = (case q of
     Completion chat req \<Rightarrow> (let c = completion_of (sm_nums S) dflt chat req in \<not> co_stream c \<and> batch_prompts chat (co_stream c) req = None)
   | Control _ \<Rightarrow> True)"

context kept_lanes
begin

lemma warm_up_sound:
  assumes s: "sound_models S (rt_warm rt)" and u: "warm_up A V nm rt h = (r, rt', h')"
  shows "sound_models S (rt_warm rt')"
  unfolding sound_models_def
proof
  fix w assume w: "w \<in> set (rt_warm rt')"
  from warm_up_lanes [OF u w] show "sound_lanes S (lanes w)"
    using s fresh_sound [of "lanes w" S] by (auto simp: sound_models_def)
qed

lemma with_model_sound:
  assumes s: "sound_models S (rt_warm rt)" and w: "with_model A V nm f rt h = (r, rt', h')"
    and f: "\<And>n e q e'. f n e = (q, e') \<Longrightarrow> sound_lanes S (lanes (n, e)) \<Longrightarrow> sound_lanes S (lanes (n, e'))"
  shows "sound_models S (rt_warm rt')"
proof -
  obtain q rt1 h1 where u: "warm_up A V nm rt h = (q, rt1, h1)" using prod_cases3 by blast
  have s1: "sound_models S (rt_warm rt1)" by (rule warm_up_sound [OF s u])
  show ?thesis
  proof (cases q)
    case (Ok i)
    show ?thesis
    proof (cases "rt_warm rt1")
      case Nil
      then show ?thesis using w u Ok s1 by (auto simp: with_model_def)
    next
      case (Cons v ws)
      obtain n e where v: "v = (n, e)" by fastforce
      obtain x e' where x: "f n e = (x, e')" by fastforce
      have "sound_lanes S (lanes (n, e'))" by (rule f [OF x]) (use s1 Cons v in \<open>simp add: sound_models_def\<close>)
      then show ?thesis using w u Ok s1 Cons v x by (auto simp: with_model_def sound_models_def)
    qed
  qed (use w u s1 in \<open>auto simp: with_model_def\<close>)
qed

lemma complete_sound:
  assumes s: "sound_models S (rt_warm rt)" and c: "calm S dflt (Completion chat req)"
    and r: "complete A V S kimi dflt chat req rt h = (r, rt', h')"
  shows "sound_models S (rt_warm rt')"
proof -
  let ?c = "completion_of (sm_nums S) dflt chat req"
  obtain q rt1 h1 where w: "with_model A V (co_model ?c) (\<lambda>_ e. (Ok (kimi (fst (en_dec e))), e)) rt h = (q, rt1, h1)" using prod_cases3 by blast
  have s1: "sound_models S (rt_warm rt1)" by (rule with_model_sound [OF s w]) simp
  show ?thesis
  proof (cases q)
    case (Ok km)
    show ?thesis
    proof (cases "plan_request km ?c req")
      case p: (Ok p)
      have chat: "co_chat ?c = chat" by (simp add: completion_of_def)
      obtain prompt where p': "p = Single prompt"
        using p c by (auto simp: plan_request_def calm_def Let_def chat split: option.splits if_splits)
      have "with_model A V (co_model ?c) (\<lambda>nm e. reply S nm ?c p e) rt1 h1 = (r, rt', h')"
        using r w Ok p by (simp add: complete_def Let_def)
      from with_model_sound [OF s1 this] show ?thesis using reply_sound unfolding p' by blast
    qed (use r w Ok s1 in \<open>auto simp: complete_def Let_def\<close>)
  qed (use r w s1 in \<open>auto simp: complete_def Let_def\<close>)
qed

lemma control_step_sound:
  assumes s: "sound_models S (rt_warm rt)" and c: "control_step A V D c rt h = (k, rt', h')"
  shows "sound_models S (rt_warm rt')"
proof (cases c)
  case (Ask nm)
  then show ?thesis using c warm_up_sound [OF s] by (auto simp: control_step_def split: prod.splits)
next
  case (Slots req)
  obtain r ws g where l: "admin_loop A D (rt_specs rt) (map_option of_nat (j_u64 (jget req ''target'')))
      (map_option of_nat (j_u64 (jget req ''reserve_mb''))) (map fst (rt_warm rt)) (rt_warm rt) (ht_gpu h) = (r, ws, g)" using prod_cases3 by blast
  have "sound_models S ws" using s unfolding sound_models_lanes admin_loop_lanes [OF l] .
  then show ?thesis using c s by (auto simp: Slots control_step_def admin_slots_def l Let_def split: if_splits res.splits prod.splits)
next
  case Vram
  then show ?thesis using c s by (auto simp: control_step_def split: prod.splits)
next
  case (Delete i)
  obtain r ws where f: "forget_all i (rt_warm rt) = (r, ws)" by fastforce
  show ?thesis using c forget_all_sound [OF s f] by (auto simp: Delete control_step_def delete_session_def f)
qed

lemma serve_all_sound:
  "sound_models S (rt_warm rt) \<Longrightarrow> \<forall>q \<in> set qs. calm S dflt q \<Longrightarrow> serve_all A V S D kimi dflt qs rt h = (ks, rt', h') \<Longrightarrow>
    sound_models S (rt_warm rt')"
proof (induction qs arbitrary: rt h ks)
  case (Cons q qs)
  obtain k rt1 h1 where st: "serve_step A V S D kimi dflt q rt h = (k, rt1, h1)" using prod_cases3 by blast
  have s1: "sound_models S (rt_warm rt1)"
  proof (cases q)
    case (Completion chat req)
    obtain r rt2 h2 where c: "complete A V S kimi dflt chat req rt h = (r, rt2, h2)" using prod_cases3 by blast
    have "rt2 = rt1" using st c by (simp add: serve_step_def Completion)
    then show ?thesis using complete_sound [OF Cons.prems(1) _ c] Cons.prems(2) Completion by simp
  next
    case (Control c)
    then show ?thesis using st control_step_sound [OF Cons.prems(1)] by (simp add: serve_step_def)
  qed
  then show ?case using Cons.IH [OF s1] Cons.prems(2,3) st by (auto split: if_splits prod.splits)
qed simp

end


section \<open>Decoders of the first engine\<close>

text \<open>
  The caches a decoder is made with: their shape is that of the model and the arguments, their contents
  are whatever the memory held, here \<open>mem\<close>. The configuration is the one \<open>decoder_new\<close> has read.
\<close>

definition qwen_conf :: "('f, 'j, 'x) run_env \<Rightarrow> 'f dec_args \<Rightarrow> 'f config option" where
  "qwen_conf R a =
     (case open_inner (pe_de (rn_pack R (da_pack a))) (pe_pack (rn_pack R (da_pack a))) False of
        Ok r \<Rightarrow> (case config_from_json (da_f32_of a) (da_eps a) (da_theta a) (pm_config (r_meta r)) of Ok c \<Rightarrow> Some c | _ \<Rightarrow> None)
      | _ \<Rightarrow> None)"

definition qwen_kv :: "'f config \<Rightarrow> 'f dec_args \<Rightarrow> (nat \<Rightarrow> nat \<Rightarrow> u8) \<Rightarrow> kv_dec" where
  "qwen_kv c a mem =
     \<lparr>d_layers = cf_layers c, d_kv_heads = cf_kv_heads c, d_head_dim = cf_head_dim c, d_kv_f16 = da_kv_f16 a, d_max_seq = da_max_seq a,
      d_batch_cap = max 1 (da_batch_cap a), d_chunk_cap = 64, d_mem = mem\<rparr>"

definition qwen_new ::
  "('f, 'j, 'x) run_env \<Rightarrow> (nat \<Rightarrow> nat \<Rightarrow> u8) \<Rightarrow> string \<Rightarrow> 'f dec_args \<Rightarrow> gpu \<Rightarrow> (kimi_error, dec_mem \<times> kv_dec) res \<times> gpu" where
  "qwen_new R mem core a g =
     and_then (lift_life (decoder_new (rn_cuda R) (rn_pack R (da_pack a)) (rn_ops R) (rn_parse R) (rn_core R core) a g)) (\<lambda>d g1.
       (case qwen_conf R a of Some c \<Rightarrow> Ok (d, qwen_kv c a mem) | None \<Rightarrow> Panic, g1))"

lemma qwen_conf_read: "decoder_new C (rn_pack R (da_pack a)) F parse core a g = (Ok d, g') \<Longrightarrow> qwen_conf R a \<noteq> None"
  by (auto simp: decoder_new_def qwen_conf_def panic_simps)

text \<open>So a decoder that was loaded has its caches: the last case of \<open>qwen_new\<close> never happens.\<close>

lemma qwen_new_result:
  "qwen_new R mem core a g =
     (case lift_life (decoder_new (rn_cuda R) (rn_pack R (da_pack a)) (rn_ops R) (rn_parse R) (rn_core R core) a g) of
        (Ok d, g1) \<Rightarrow> (Ok (d, qwen_kv (the (qwen_conf R a)) a mem), g1) | (Err x, g1) \<Rightarrow> (Err x, g1) | (Panic, g1) \<Rightarrow> (Panic, g1))"
proof -
  obtain q g1 where d: "decoder_new (rn_cuda R) (rn_pack R (da_pack a)) (rn_ops R) (rn_parse R) (rn_core R core) a g = (q, g1)" by fastforce
  show ?thesis using qwen_conf_read [of "rn_cuda R" R a "rn_ops R" "rn_parse R" "rn_core R core" g _ g1] d
    by (cases q) (auto simp: qwen_new_def lift_life_def)
qed

definition qwen_api :: "('f, 'j, 'x) run_env \<Rightarrow> (nat \<Rightarrow> nat \<Rightarrow> u8) \<Rightarrow> ('x, dec_mem \<times> kv_dec, kimi_error) model_api" where
  "qwen_api R mem =
     \<lparr>ap_new = (\<lambda>s slots ram reserve. qwen_new R mem (ms_core s) (spec_args R s slots ram reserve)),
      ap_min_weight = (\<lambda>x d. d),
      ap_resize = (\<lambda>n d g. case resize_cache (rn_cuda R) (rn_pack R (dm_pack (fst d))) n (fst d) g of (r, d', g') \<Rightarrow> (map_err KLife r, (d', snd d), g')),
      ap_drop = (\<lambda>d. decoder_drop (rn_cuda R) (fst d)), ap_slots = (\<lambda>d. slots_per_layer (fst d)),
      ap_batch = (\<lambda>d. d_batch_cap (snd d)), ap_stats = (\<lambda>d. expert_stats (fst d))\<rparr>"

definition qwen_admin :: "('f, 'j, 'x) run_env \<Rightarrow> (dec_mem \<times> kv_dec) admin_api" where
  "qwen_admin R = \<lparr>ad_reserve = (\<lambda>n d. (set_reserve_bytes n (fst d), snd d)), ad_mem = mem_info (rn_cuda R)\<rparr>"

interpretation qwen: kept_lanes "qwen_api R mem" "qwen_admin R" for R :: "('f, 'j, 'x) run_env" and mem
proof
  show "0 < d_batch_cap (snd d)" if "ap_new (qwen_api R mem) s n ram reserve g = (Ok d, g')" for s n ram reserve g d g'
    using that by (auto simp: qwen_api_def qwen_new_result qwen_kv_def split: prod.splits res.splits)
  show "snd d' = snd d" if "ap_resize (qwen_api R mem) n d g = (q, d', g')" for n d g q d' g'
    using that by (auto simp: qwen_api_def split: prod.splits)
qed (simp_all add: qwen_api_def qwen_admin_def)


end
