(* ===== verification/Serve_Examples.thy ===== *)
theory Serve_Examples
  imports Server Life_Examples
begin

text \<open>
  A server with room for one warm model and two models to choose from: the inputs on which the theorems
  about the registry are applied.
\<close>

section \<open>Two small models\<close>

definition int_yarn :: "int yarn_math" where
  "int_yarn = \<lparr>y_num = floor, y_json = (\<lambda>v. map_option int (j_u64 v)), y_add = (+), y_sub = (-), y_mul = (*), y_div = (div), y_pow = (\<lambda>_ _. 1), y_ln = id,
     y_floor = id, y_ceil = id, y_min = min, y_max = max, y_gt = (>), y_pi = 3\<rparr>"

definition small_run :: "(int, unit, int) run_env" where
  "small_run = \<lparr>rn_cuda = roomy, rn_pack = (\<lambda>_. small_env 1), rn_core = (\<lambda>_. core_bytes), rn_ops = int_ops, rn_yarn = int_yarn,
     rn_parse = core_json, rn_kv_f16 = True, rn_f32_of = (\<lambda>_. None), rn_eps = 0, rn_theta = 1, rn_f32 = id\<rparr>"

definition small_spec :: "string \<Rightarrow> int model_spec" where
  "small_spec n = \<lparr>ms_name = n, ms_pack = [], ms_core = [], ms_tokenizer = ''tok.json'', ms_slots = 1, ms_slots_solo = 1, ms_io_threads = 1,
     ms_direct = True, ms_ram_gb = 0, ms_core_q4 = False, ms_max_seq = 4, ms_batch = 1, ms_min_weight = 0, ms_prewarm = None,
     ms_session_ram_gb = 0, ms_reserve_mb = 0\<rparr>"

definition small_host :: host where
  "small_host = \<lparr>ht_gpu = no_gpu, ht_files = (\<lambda>_. None)\<rparr>"

definition small_serve :: "int serve_env" where
  "small_serve = \<lparr>sv_dir = (\<lambda>_. False), sv_tok = (\<lambda>_. True), sv_writable = (\<lambda>_. True), sv_gb = (\<lambda>_. 0)\<rparr>"

definition two_models :: "(int, int any_decoder) registry" where
  "two_models = \<lparr>rt_specs = [small_spec ''a'', small_spec ''b''], rt_max_warm = 1, rt_warm = []\<rparr>"

lemma small_fresh: "fresh_card small_run"
  using card_fresh by (simp add: fresh_card_def small_run_def)

lemma small_slots:
  assumes "decoder_new roomy (small_env 1) int_ops core_json core_bytes small_args g = (Ok d, g')"
  shows "slots_per_layer d = 1"
proof -
  let ?cfg = "pager_conf (da_io_threads small_args) (da_direct small_args) (da_ram small_args) (da_slots small_args) (da_reserve small_args)"
  obtain pg g1 g2 where b: "pager_build roomy (small_env 1) ?cfg g1 = (Ok pg, g2)" "dm_pager d = Some pg"
    using assms by (auto simp: decoder_new_def panic_simps)
  obtain p arenas where pg: "pg = (p, arenas)" by fastforce
  from b(1) pager_build_adds [OF card_fresh, of g1 None "small_env 1" ?cfg] have "pager_of (small_env 1) ?cfg (mem_info roomy g1) (p, arenas)"
    by (auto simp: adds_def pg)
  from pager_of_slots(2) [OF this] b(2) show ?thesis by (simp add: pg pager_conf_def small_args_def slots_per_layer_def)
qed

lemma small_new:
  assumes "length (gp_live g) < 900"
  obtains d g' where "any_new small_run [] small_args g = (Ok (Qwen d), g')" "slots_per_layer d = 1" "length (gp_live g') = length (gp_live g) + 33"
proof -
  obtain r where r: "open_inner (pe_de (small_env 1)) (pe_pack (small_env 1)) False = Ok r" "r_meta r = life_meta 1"
    using small_open [of 1] by auto
  have k: "\<not> is_kimi small_json" by (simp add: is_kimi_def small_json_def)
  obtain d g' where d: "decoder_new roomy (small_env 1) int_ops core_json core_bytes small_args g = (Ok d, g')" "length (gp_live g') = length (gp_live g) + 33"
    using fine_decoder [OF assms] by (auto simp: fine_def)
  show thesis by (rule that [of d g']) (use d small_slots [OF d(1)] r k in \<open>simp_all add: any_new_def Let_def small_run_def lift_life_def small_env_simps\<close>)
qed

lemma small_warm_up:
  assumes n: "n = ''a'' \<or> n = ''b''" and rt: "rt_specs rt = rt_specs two_models" "rt_max_warm rt = 1" "n \<notin> set (warm_names rt)" "length (rt_warm rt) \<le> 1"
    and w: "\<forall>w \<in> set (rt_warm rt). fst w = ''a''" and a: "accounts any_held {#} 0 (rt_warm rt) (ht_gpu h)"
  shows "\<exists>e h'. warm_up (any_api small_run) small_serve n rt h = (Ok 0, rt\<lparr>rt_warm := [(n, e)]\<rparr>, h') \<and> length (gp_live (ht_gpu h')) = 33"
proof -
  let ?A = "any_api small_run" and ?V = small_serve
  have s: "find_spec (rt_specs rt) n = Some (small_spec n)" using n by (auto simp: rt(1) find_spec_def two_models_def small_spec_def)
  obtain q kept h1 where e: "evict_lru ?A ?V (rt_specs rt) 1 (rev (rt_warm rt)) h = (q, kept, h1)" using prod_cases3 by blast
  have k: "kept = []" "q = Ok ()"
    using e rt(4) w by (cases "rt_warm rt"; auto simp: retire_def Let_def rt(1) two_models_def find_spec_def small_spec_def)+
  have "accounts any_held {#} 0 [] (ht_gpu h1)"
    using served.evict_accounts [OF small_fresh _ e] a k by (simp add: accounts_def)
  then have live: "gp_live (ht_gpu h1) = []" by (simp add: accounts_def)
  obtain d g2 where d: "any_new small_run [] small_args (ht_gpu h1) = (Ok (Qwen d), g2)" "slots_per_layer d = 1" "length (gp_live g2) = 33"
    using small_new [of "ht_gpu h1"] live by auto
  have args: "spec_args small_run (small_spec n) 1 0 0 = small_args" by (simp add: spec_args_def small_run_def small_spec_def small_args_def)
  have l: "\<exists>e. load_engine ?A ?V (ht_files h1) (small_spec n) 1 (ht_gpu h1) = (Ok e, g2) \<and> en_dec e = Qwen d"
    using d(1) args by (simp add: load_engine_def Let_def small_serve_def any_api_def reserve_of_def) (simp add: small_spec_def any_set_min_weight_def)
  then obtain e where l: "load_engine ?A ?V (ht_files h1) (small_spec n) 1 (ht_gpu h1) = (Ok e, g2)" "en_dec e = Qwen d" by blast
  have cold: "dropWhile (\<lambda>w. fst w \<noteq> n) (rt_warm rt) = []" using rt(3) by (auto simp: warm_names_def dropWhile_eq_Nil_conv)
  have t: "target (small_spec n) m = 1" for m by (simp add: target_def small_spec_def)
  have sl: "ap_slots ?A (en_dec e) = 1" using d(2) l(2) by (simp add: any_api_def any_slots_def)
  have "warm_up ?A ?V n rt h = (Ok 0, rt\<lparr>rt_warm := [(n, e\<lparr>en_cur_slots := 1\<rparr>)]\<rparr>, \<lparr>ht_gpu = g2, ht_files = ht_files h1\<rparr>)"
    unfolding warm_up_def cold using e k rt(2) s l t sl by (simp add: load_and_settle_def settle_in_def)
  with d(3) show ?thesis by auto
qed

text \<open>The second model is loaded in place of the first.\<close>

lemma small_warm_ups:
  obtains e1 h1 e2 h2 where
    "warm_up (any_api small_run) small_serve ''a'' two_models small_host = (Ok 0, two_models\<lparr>rt_warm := [(''a'', e1)]\<rparr>, h1)"
    "warm_up (any_api small_run) small_serve ''b'' (two_models\<lparr>rt_warm := [(''a'', e1)]\<rparr>) h1 = (Ok 0, two_models\<lparr>rt_warm := [(''b'', e2)]\<rparr>, h2)"
    "length (gp_live (ht_gpu h2)) = 33"
proof -
  have a: "accounts any_held {#} 0 (rt_warm two_models) (ht_gpu small_host)" by (simp add: accounts_def two_models_def small_host_def no_gpu_def)
  obtain e1 h1 where w1: "warm_up (any_api small_run) small_serve ''a'' two_models small_host = (Ok 0, two_models\<lparr>rt_warm := [(''a'', e1)]\<rparr>, h1)"
    using small_warm_up [OF _ refl _ _ _ _ a, of "''a''"] by (auto simp: two_models_def warm_names_def)
  let ?rt = "two_models\<lparr>rt_warm := [(''a'', e1)]\<rparr>"
  have a1: "accounts any_held {#} 0 (rt_warm ?rt) (ht_gpu h1)"
    using served.warm_up_accounts [OF small_fresh a w1] by (auto simp: two_models_def)
  obtain e2 h2 where "warm_up (any_api small_run) small_serve ''b'' ?rt h1 = (Ok 0, ?rt\<lparr>rt_warm := [(''b'', e2)]\<rparr>, h2)"
      "length (gp_live (ht_gpu h2)) = 33"
    using small_warm_up [OF _ _ _ _ _ _ a1, of "''b''"] by (auto simp: two_models_def warm_names_def)
  with w1 show thesis by (intro that [of e1 h1 e2 h2]) simp_all
qed

lemma small_requests:
  obtains e h where "requests (any_api small_run) small_serve [''a'', ''b''] two_models small_host =
    ([Ok 0, Ok 0], two_models\<lparr>rt_warm := [(''b'', e)]\<rparr>, h)" "length (gp_live (ht_gpu h)) = 33"
  by (rule small_warm_ups) simp

section \<open>Witnesses\<close>

lemma two_models_ok: "registry_ok two_models"
  by (simp add: registry_ok_def two_models_def)

lemma serving_accounts_for_memory_witness:
  "\<exists>e h. requests (any_api small_run) small_serve [''a'', ''b''] two_models small_host = ([Ok 0, Ok 0], two_models\<lparr>rt_warm := [(''b'', e)]\<rparr>, h) \<and>
     mset (gp_live (ht_gpu h)) = mset (any_held (en_dec e)) \<and> length (gp_live (ht_gpu h)) = 33 \<and> gp_stray (ht_gpu h) = 0 \<and>
     gp_live (any_drop small_run (en_dec e) (ht_gpu h)) = []"
proof -
  obtain e h where r: "requests (any_api small_run) small_serve [''a'', ''b''] two_models small_host =
    ([Ok 0, Ok 0], two_models\<lparr>rt_warm := [(''b'', e)]\<rparr>, h)" "length (gp_live (ht_gpu h)) = 33" by (rule small_requests)
  have "rt_warm two_models = []" "rt_max_warm two_models = 1" "gp_live (ht_gpu small_host) = []" "gp_stray (ht_gpu small_host) = 0"
    by (simp_all add: two_models_def small_host_def no_gpu_def)
  with serving_accounts_for_memory [OF small_fresh two_models_ok _ r(1)] r show ?thesis
    by (intro exI [of _ e] exI [of _ h]) (auto simp: drop_warm_def any_api_def Let_def)
qed

lemma serving_keeps_budget_witness:
  "\<exists>e h. requests (any_api small_run) small_serve [''a'', ''b''] two_models small_host = ([Ok 0, Ok 0], two_models\<lparr>rt_warm := [(''b'', e)]\<rparr>, h) \<and>
     en_cur_slots e = any_slots (en_dec e) \<and> any_slots (en_dec e) \<le> 1"
proof -
  obtain e h where r: "requests (any_api small_run) small_serve [''a'', ''b''] two_models small_host =
    ([Ok 0, Ok 0], two_models\<lparr>rt_warm := [(''b'', e)]\<rparr>, h)" by (rule small_requests)
  have "rt_warm two_models = []" by (simp add: two_models_def)
  from serving_keeps_budget [OF small_fresh this r] r show ?thesis
    by (intro exI [of _ e] exI [of _ h]) (auto simp: two_models_def find_spec_def small_spec_def)
qed

lemma warm_up_keeps_registry_witness:
  "\<exists>e1 h1 e2 h2. warm_up (any_api small_run) small_serve ''a'' two_models small_host = (Ok 0, two_models\<lparr>rt_warm := [(''a'', e1)]\<rparr>, h1) \<and>
     warm_up (any_api small_run) small_serve ''b'' (two_models\<lparr>rt_warm := [(''a'', e1)]\<rparr>) h1 = (Ok 0, two_models\<lparr>rt_warm := [(''b'', e2)]\<rparr>, h2) \<and>
     registry_ok (two_models\<lparr>rt_warm := [(''b'', e2)]\<rparr>)"
proof -
  obtain e1 h1 e2 h2 where w: "warm_up (any_api small_run) small_serve ''a'' two_models small_host = (Ok 0, two_models\<lparr>rt_warm := [(''a'', e1)]\<rparr>, h1)"
    "warm_up (any_api small_run) small_serve ''b'' (two_models\<lparr>rt_warm := [(''a'', e1)]\<rparr>) h1 = (Ok 0, two_models\<lparr>rt_warm := [(''b'', e2)]\<rparr>, h2)"
    by (rule small_warm_ups)
  from warm_up_keeps_registry [OF two_models_ok w(1)] have "registry_ok (two_models\<lparr>rt_warm := [(''a'', e1)]\<rparr>)" by blast
  from warm_up_keeps_registry [OF this w(2)] w show ?thesis by blast
qed

text \<open>A deletion and two requests for models.\<close>

lemma requests_account_for_memory_witness:
  "\<exists>e h. control_run (any_api small_run) small_serve (any_admin small_run) [Delete ''s'', Ask ''a'', Ask ''b''] two_models small_host =
       ([Fine, Fine, Fine], two_models\<lparr>rt_warm := [(''b'', e)]\<rparr>, h) \<and>
     mset (gp_live (ht_gpu h)) = mset (any_held (en_dec e)) \<and> length (gp_live (ht_gpu h)) = 33 \<and> gp_stray (ht_gpu h) = 0 \<and>
     gp_live (any_drop small_run (en_dec e) (ht_gpu h)) = []"
proof -
  have a: "accounts any_held {#} 0 (rt_warm two_models) (ht_gpu small_host)" by (simp add: accounts_def two_models_def small_host_def no_gpu_def)
  have del: "two_models\<lparr>rt_warm := []\<rparr> = two_models" by (simp add: two_models_def)
  obtain e1 h1 where w1: "warm_up (any_api small_run) small_serve ''a'' two_models small_host = (Ok 0, two_models\<lparr>rt_warm := [(''a'', e1)]\<rparr>, h1)"
    using small_warm_up [OF _ refl _ _ _ _ a, of "''a''"] by (auto simp: two_models_def warm_names_def)
  let ?rt = "two_models\<lparr>rt_warm := [(''a'', e1)]\<rparr>"
  have a1: "accounts any_held {#} 0 (rt_warm ?rt) (ht_gpu h1)"
    using served.warm_up_accounts [OF small_fresh a w1] by (auto simp: two_models_def)
  obtain e2 h2 where w2: "warm_up (any_api small_run) small_serve ''b'' ?rt h1 = (Ok 0, ?rt\<lparr>rt_warm := [(''b'', e2)]\<rparr>, h2)"
      "length (gp_live (ht_gpu h2)) = 33"
    using small_warm_up [OF _ _ _ _ _ _ a1, of "''b''"] by (auto simp: two_models_def warm_names_def)
  have run: "control_run (any_api small_run) small_serve (any_admin small_run) [Delete ''s'', Ask ''a'', Ask ''b''] two_models small_host =
       ([Fine, Fine, Fine], two_models\<lparr>rt_warm := [(''b'', e2)]\<rparr>, h2)"
    using w1 w2 del by (simp add: control_step_def delete_session_def kind_of_def two_models_def)
  have "rt_warm two_models = []" "rt_max_warm two_models = 1" "gp_live (ht_gpu small_host) = []" "gp_stray (ht_gpu small_host) = 0"
    by (simp_all add: two_models_def small_host_def no_gpu_def)
  with requests_account_for_memory [OF small_fresh two_models_ok _ run] w2(2) run show ?thesis
    by (intro exI [of _ e2] exI [of _ h2]) (auto simp: drop_warm_def any_api_def Let_def)
qed

text \<open>A model without a pager, as a failed resize leaves it (theory \<open>Life_Examples\<close>).\<close>

definition dead_dec :: dec_mem where
  "dead_dec = \<lparr>dm_pager = None, dm_pack = [], dm_io_threads = 1, dm_direct = True, dm_ram = 0, dm_reserve = 0, dm_group = 64, dm_batch = 1,
     dm_bufs = [], dm_kcache = [], dm_vcache = [],
     dm_core = \<lparr>cw_embed = 0, cw_final_norm = 0, cw_lm_head = \<lparr>mt_dev = 0, mt_rows = 0, mt_cols = 0, mt_q4 = False\<rparr>, cw_layers = []\<rparr>\<rparr>"

definition dead_engine :: "int any_decoder engine" where
  "dead_engine = \<lparr>en_dec = Qwen dead_dec, en_tok = ''tok.json'', en_cur_slots = 1, en_max_seq = 4, en_sessions = store_new 1 0,
     en_reserve = 0, en_warmed = None\<rparr>"

definition one_dead :: "(int, int any_decoder) registry" where
  "one_dead = \<lparr>rt_specs = [(small_spec ''a'')\<lparr>ms_prewarm := Some ''profile.json''\<rparr>, small_spec ''b''], rt_max_warm = 1,
     rt_warm = [(''a'', dead_engine)]\<rparr>"





section \<open>A completion\<close>

text \<open>The first model, loaded on request and then asked to complete a prompt.\<close>

definition two_qwen :: "(int, dec_mem \<times> kv_dec) registry" where
  "two_qwen = \<lparr>rt_specs = [small_spec ''a'', small_spec ''b''], rt_max_warm = 1, rt_warm = []\<rparr>"

definition small_model :: "(unit, int, int, unit) serve_model" where
  "small_model = \<lparr>sm_nums = \<lparr>hn_f64 = (\<lambda>_. None), hn_zero = 0, hn_one = 1, hn_eight = 8, hn_f32 = id\<rparr>,
     sm_encode = (\<lambda>_ p. Some (map (\<lambda>_. 1) p)), sm_decode = (\<lambda>_ ts. Some (map (\<lambda>_. CHR ''x'') ts)),
     sm_kern = (\<lambda>_ rows t b h x. ucast t), sm_head = (\<lambda>_ rows. 7), sm_eos = (\<lambda>_. []), sm_greedy = (\<lambda>_. True), sm_rng = (\<lambda>_. ()),
     sm_pick = (\<lambda>_ _ _ r _. (0, r)), sm_seconds = 0, sm_rate = int\<rparr>"

definition ask_a :: "unit json" where
  "ask_a = JObj [(''model'', JStr ''a''), (''prompt'', JStr ''hi''), (''max_tokens'', JInt 2)]"

lemma qwen_warm:
  obtains e h where "warm_up (qwen_api small_run mem) small_serve ''a'' two_qwen small_host = (Ok 0, two_qwen\<lparr>rt_warm := [(''a'', e)]\<rparr>, h)"
proof -
  let ?A = "qwen_api small_run mem" and ?V = small_serve
  have s: "find_spec (rt_specs two_qwen) ''a'' = Some (small_spec ''a'')" by (simp add: find_spec_def two_qwen_def small_spec_def)
  obtain d g2 where d: "decoder_new roomy (small_env 1) int_ops core_json core_bytes small_args no_gpu = (Ok d, g2)"
    using fine_decoder [of no_gpu] by (auto simp: fine_def no_gpu_def)
  have args: "spec_args small_run (small_spec ''a'') 1 0 0 = small_args" by (simp add: spec_args_def small_run_def small_spec_def small_args_def)
  let ?d = "(d, qwen_kv (the (qwen_conf small_run small_args)) small_args mem)"
  have new: "qwen_new small_run mem [] small_args no_gpu = (Ok ?d, g2)" using d by (simp add: qwen_new_result lift_life_def small_run_def)
  have "\<exists>e. load_engine ?A ?V (\<lambda>_. None) (small_spec ''a'') 1 no_gpu = (Ok e, g2) \<and> en_dec e = ?d"
    using new args by (simp add: load_engine_def Let_def small_serve_def qwen_api_def reserve_of_def) (simp add: small_spec_def)
  then obtain e where l: "load_engine ?A ?V (\<lambda>_. None) (small_spec ''a'') 1 no_gpu = (Ok e, g2)" "en_dec e = ?d" by blast
  have t: "target (small_spec ''a'') m = 1" for m by (simp add: target_def small_spec_def)
  have sl: "ap_slots ?A (en_dec e) = 1" using small_slots [OF d] l(2) by (simp add: qwen_api_def)
  have "warm_up ?A ?V ''a'' two_qwen small_host = (Ok 0, two_qwen\<lparr>rt_warm := [(''a'', e\<lparr>en_cur_slots := 1\<rparr>)]\<rparr>, \<lparr>ht_gpu = g2, ht_files = \<lambda>_. None\<rparr>)"
    unfolding warm_up_def using s l t sl by (simp add: two_qwen_def small_host_def load_and_settle_def settle_in_def)
  then show thesis by (rule that)
qed


end
