(* ===== verification/Selftest.thy ===== *)
theory Selftest
  imports Session_Faults
begin

text \<open>
  The command line program (\<open>llmpager-run/src/main.rs\<close>): its self-tests, its perplexity mode and its
  generation loop, run on the decoder of \<open>Kv_Lanes\<close>. The self-tests are checks the program makes of
  itself; the theorems say that they cannot fail on a decoder that keeps its lanes apart. Parsing of
  the arguments, the tokenizer, timing and printing are not modelled.
\<close>

section \<open>Runs\<close>

text \<open>The checks that can fail, beside an error of the decoder.\<close>

datatype 'e self_error = SelfDecoder 'e | Diverged nat "u32 list" | ShortPrompt nat | OneSlot | NextChanged | ReuseMoved | CopyMoved | TokensDiffer
  | RunDiverged nat | ShortText

text \<open>A call of the decoder that returns the new state; on an error the old one stays.\<close>

fun call :: "('e, 'a \<times> 'd) res \<Rightarrow> 'd \<Rightarrow> ('e self_error, 'a) res \<times> 'd" where
  "call (Ok (x, d')) d = (Ok x, d')"
| "call (Err e) d = (Err (SelfDecoder e), d)"
| "call Panic d = (Panic, d)"

section \<open>The batch self-test\<close>

fun self_fill ::
  "('d \<Rightarrow> (u32 \<times> nat \<times> nat) list \<Rightarrow> bool \<Rightarrow> ('e, u32 list \<times> 'd) res) \<Rightarrow> nat \<Rightarrow> nat \<Rightarrow> u32 list list \<Rightarrow> nat \<Rightarrow> u32 \<Rightarrow> 'd
   \<Rightarrow> ('e self_error, u32) res \<times> 'd" where
  "self_fill stp s n [] pos nxt d = (Ok nxt, d)"
| "self_fill stp s n (c # cs) pos nxt d =
     and_then (call (stp d (run_entries s pos c) (pos + length c = n)) d) (\<lambda>out d'.
       if pos + length c = n then
         (if out = [] then (Panic, d') else self_fill stp s n cs (pos + length c) (last out) d')
       else self_fill stp s n cs (pos + length c) nxt d')"

fun fill_all ::
  "('d \<Rightarrow> (u32 \<times> nat \<times> nat) list \<Rightarrow> bool \<Rightarrow> ('e, u32 list \<times> 'd) res) \<Rightarrow> nat \<Rightarrow> u32 list \<Rightarrow> nat list \<Rightarrow> 'd
   \<Rightarrow> ('e self_error, u32 list) res \<times> 'd" where
  "fill_all stp cap ids [] d = (Ok [], d)"
| "fill_all stp cap ids (s # ss) d =
     and_then (self_fill stp s (length ids) (chunks cap ids) 0 0 d) (\<lambda>t d1.
     and_then (fill_all stp cap ids ss d1) (\<lambda>ts d2. (Ok (t # ts), d2)))"

definition differs :: "u32 list \<Rightarrow> bool" where
  "differs out \<longleftrightarrow> list_ex (\<lambda>(a, b). a \<noteq> b) (zip out (tl out))"

fun self_lock ::
  "nat \<Rightarrow> ('d \<Rightarrow> (u32 \<times> nat \<times> nat) list \<Rightarrow> bool \<Rightarrow> ('e, u32 list \<times> 'd) res) \<Rightarrow> u32 list \<Rightarrow> nat \<Rightarrow> nat \<Rightarrow> nat \<Rightarrow> u32 list \<Rightarrow> nat \<Rightarrow> 'd
   \<Rightarrow> ('e self_error, nat) res \<times> 'd" where
  "self_lock 0 stp eos m lanes pos nxt sofar d = (Ok sofar, d)"
| "self_lock (Suc n) stp eos m lanes pos nxt sofar d =
     (if list_ex (\<lambda>t. t \<in> set eos) nxt \<or> m \<le> pos then (Ok sofar, d)
      else and_then (call (stp d (map (\<lambda>s. (nxt ! s, pos, s)) [0..<length nxt]) True) d) (\<lambda>out d'.
        if differs out then (Err (Diverged pos out), d')
        else self_lock n stp eos m lanes (pos + 1) out (sofar + lanes) d'))"

definition batch_selftest ::
  "('d \<Rightarrow> (u32 \<times> nat \<times> nat) list \<Rightarrow> bool \<Rightarrow> ('e, u32 list \<times> 'd) res) \<Rightarrow> u32 list \<Rightarrow> nat \<Rightarrow> nat \<Rightarrow> u32 list \<Rightarrow> nat \<Rightarrow> nat \<Rightarrow> 'd
   \<Rightarrow> ('e self_error, nat) res \<times> 'd" where
  "batch_selftest stp eos m cap ids lanes max_tokens d =
     and_then (fill_all stp cap ids [0..<lanes] d) (\<lambda>nxt d1. self_lock max_tokens stp eos m lanes (length ids) nxt 0 d1)"

section \<open>The serial self-test and plain generation\<close>

fun chunk_fill ::
  "('d \<Rightarrow> u32 list \<Rightarrow> nat \<Rightarrow> bool \<Rightarrow> ('e, u32 \<times> 'd) res) \<Rightarrow> nat \<Rightarrow> u32 list list \<Rightarrow> nat \<Rightarrow> u32 \<Rightarrow> 'd \<Rightarrow> ('e self_error, u32) res \<times> 'd" where
  "chunk_fill chk n [] pos nxt d = (Ok nxt, d)"
| "chunk_fill chk n (c # cs) pos nxt d =
     and_then (call (chk d c pos (pos + length c = n)) d) (\<lambda>t d'. chunk_fill chk n cs (pos + length c) t d')"

text \<open>The decode loop; \<open>pick\<close> is the choice of the next token, given the greedy one.\<close>

fun cli_decode ::
  "nat \<Rightarrow> ('d \<Rightarrow> u32 \<Rightarrow> nat \<Rightarrow> bool \<Rightarrow> ('e, u32 \<times> 'd) res) \<Rightarrow> ('d \<Rightarrow> 'r \<Rightarrow> u32 list \<Rightarrow> u32 \<Rightarrow> u32 \<times> 'r) \<Rightarrow> u32 list \<Rightarrow> nat \<Rightarrow> nat \<Rightarrow> u32 list \<Rightarrow> u32
   \<Rightarrow> 'r \<Rightarrow> 'd \<Rightarrow> ('e self_error, u32 list) res \<times> 'd" where
  "cli_decode 0 one pick eos m p out nxt r d = (Ok out, d)"
| "cli_decode (Suc n) one pick eos m p out nxt r d =
     (if nxt \<in> set eos then (Ok out, d)
      else if m \<le> p then (Ok (out @ [nxt]), d)
      else and_then (call (one d nxt p True) d) (\<lambda>g d'.
        case pick d' r (out @ [nxt]) g of (t, r') \<Rightarrow> cli_decode n one pick eos m (p + 1) (out @ [nxt]) t r' d'))"

definition cli_generate ::
  "('d \<Rightarrow> u32 list \<Rightarrow> nat \<Rightarrow> bool \<Rightarrow> ('e, u32 \<times> 'd) res) \<Rightarrow> ('d \<Rightarrow> u32 \<Rightarrow> nat \<Rightarrow> bool \<Rightarrow> ('e, u32 \<times> 'd) res)
   \<Rightarrow> ('d \<Rightarrow> 'r \<Rightarrow> u32 list \<Rightarrow> u32 \<Rightarrow> u32 \<times> 'r) \<Rightarrow> u32 list \<Rightarrow> nat \<Rightarrow> nat \<Rightarrow> nat option \<Rightarrow> u32 list \<Rightarrow> nat \<Rightarrow> 'r \<Rightarrow> 'd \<Rightarrow> ('e self_error, u32 list) res \<times> 'd" where
  "cli_generate chk one pick eos m cap chunk ids max_tokens r d =
     (let width = (case chunk of None \<Rightarrow> cap | Some c \<Rightarrow> min (max c 1) cap) in
      and_then (chunk_fill chk (length ids) (chunks width ids) 0 0 d) (\<lambda>g d1.
        case pick d1 r [] g of (t, r') \<Rightarrow> cli_decode max_tokens one pick eos m (length ids) [] t r' d1))"

text \<open>One run after the other on one decoder; all must equal the first.\<close>

fun serial_runs ::
  "('d \<Rightarrow> u32 list \<Rightarrow> nat \<Rightarrow> bool \<Rightarrow> ('e, u32 \<times> 'd) res) \<Rightarrow> ('d \<Rightarrow> u32 \<Rightarrow> nat \<Rightarrow> bool \<Rightarrow> ('e, u32 \<times> 'd) res) \<Rightarrow> u32 list \<Rightarrow> nat \<Rightarrow> nat \<Rightarrow> u32 list \<Rightarrow> nat
   \<Rightarrow> nat \<Rightarrow> nat \<Rightarrow> u32 list option \<Rightarrow> 'd \<Rightarrow> ('e self_error, u32 list option) res \<times> 'd" where
  "serial_runs chk one eos m cap ids max_tokens k 0 first d = (Ok first, d)"
| "serial_runs chk one eos m cap ids max_tokens k (Suc n) first d =
     and_then (cli_generate chk one (\<lambda>_ r _ g. (g, r)) eos m cap None ids max_tokens () d) (\<lambda>out d'.
       case first of
         None \<Rightarrow> serial_runs chk one eos m cap ids max_tokens (k + 1) n (Some out) d'
       | Some f \<Rightarrow> if f = out then serial_runs chk one eos m cap ids max_tokens (k + 1) n first d' else (Err (RunDiverged (k + 1)), d'))"

definition serial_selftest where
  "serial_selftest chk one eos m cap ids max_tokens rounds d = serial_runs chk one eos m cap ids max_tokens 0 rounds None d"

section \<open>Perplexity\<close>

text \<open>
  The logits of a step are read back after it; \<open>nll\<close> subtracts one target's log-probability from the
  sum, and panics where the target is no index of the logits.
\<close>

fun ppl_loop ::
  "('d \<Rightarrow> u32 \<Rightarrow> nat \<Rightarrow> bool \<Rightarrow> ('e, u32 \<times> 'd) res) \<Rightarrow> ('d \<Rightarrow> 'l) \<Rightarrow> ('a \<Rightarrow> 'l \<Rightarrow> u32 \<Rightarrow> 'a option) \<Rightarrow> u32 list \<Rightarrow> nat list \<Rightarrow> 'a \<Rightarrow> 'd
   \<Rightarrow> ('e self_error, 'a) res \<times> 'd" where
  "ppl_loop one look nll ids [] a d = (Ok a, d)"
| "ppl_loop one look nll ids (p # ps) a d =
     and_then (call (one d (ids ! p) p True) d) (\<lambda>_ d'.
       case nll a (look d') (ids ! (p + 1)) of None \<Rightarrow> (Panic, d') | Some a' \<Rightarrow> ppl_loop one look nll ids ps a' d')"

definition ppl_mode where
  "ppl_mode one look nll zero m ids d =
     (let n = min (length ids) m in
      if n < 2 then (Err ShortText, d) else ppl_loop one look nll ids [0..<n - 1] zero d)"

section \<open>The session self-test\<close>

text \<open>
  The arithmetic on logits: the largest difference, the likeliest token, the larger of two numbers, the
  bound \<open>2.0 * spread + 1e-3\<close>, the comparison, and \<open>!= 0.0\<close>.
\<close>

record ('l, 'f) logit_math =
  lm_delta :: "'l \<Rightarrow> 'l \<Rightarrow> 'f"
  lm_best :: "'l \<Rightarrow> u32"
  lm_max :: "'f \<Rightarrow> 'f \<Rightarrow> 'f"
  lm_bound :: "'f \<Rightarrow> 'f"
  lm_gt :: "'f \<Rightarrow> 'f \<Rightarrow> bool"
  lm_nonzero :: "'f \<Rightarrow> bool"

fun fill_chunks ::
  "('d \<Rightarrow> (u32 \<times> nat \<times> nat) list \<Rightarrow> bool \<Rightarrow> ('e, u32 list \<times> 'd) res) \<Rightarrow> nat \<Rightarrow> nat \<Rightarrow> u32 list list \<Rightarrow> nat \<Rightarrow> 'd \<Rightarrow> ('e self_error, unit) res \<times> 'd" where
  "fill_chunks stp s n [] pos d = (Ok (), d)"
| "fill_chunks stp s n (c # cs) pos d =
     and_then (call (stp d (run_entries s pos c) (pos + length c = n)) d) (\<lambda>_ d'. fill_chunks stp s n cs (pos + length c) d')"

text \<open>\<open>limit = None\<close> stands for \<open>usize::MAX\<close>; the slice from \<open>start\<close> panics beyond the end.\<close>

definition prefill_logits ::
  "('d \<Rightarrow> (u32 \<times> nat \<times> nat) list \<Rightarrow> bool \<Rightarrow> ('e, u32 list \<times> 'd) res) \<Rightarrow> ('d \<Rightarrow> 'l) \<Rightarrow> nat \<Rightarrow> nat \<Rightarrow> u32 list \<Rightarrow> nat \<Rightarrow> nat option \<Rightarrow> 'd
   \<Rightarrow> ('e self_error, 'l) res \<times> 'd" where
  "prefill_logits stp look cap s ids start limit d =
     (let width = max (case limit of None \<Rightarrow> cap | Some l \<Rightarrow> min l cap) 1 in
      if length ids < start then (Panic, d)
      else and_then (fill_chunks stp s (length ids) (chunks width (drop start ids)) start d) (\<lambda>_ d'. (Ok (look d'), d')))"

fun decode_from ::
  "nat \<Rightarrow> ('d \<Rightarrow> (u32 \<times> nat \<times> nat) list \<Rightarrow> bool \<Rightarrow> ('e, u32 list \<times> 'd) res) \<Rightarrow> u32 list \<Rightarrow> nat \<Rightarrow> nat \<Rightarrow> nat \<Rightarrow> u32 list \<Rightarrow> u32 \<Rightarrow> 'd
   \<Rightarrow> ('e self_error, u32 list) res \<times> 'd" where
  "decode_from 0 stp eos m s p got nxt d = (Ok got, d)"
| "decode_from (Suc n) stp eos m s p got nxt d =
     (if nxt \<in> set eos then (Ok got, d)
      else if m \<le> p + 1 then (Ok (got @ [nxt]), d)
      else and_then (call (stp d [(nxt, p, s)] True) d) (\<lambda>out d'.
        if out = [] then (Panic, d') else decode_from n stp eos m s (p + 1) (got @ [nxt]) (out ! 0) d'))"

text \<open>
  The engine's own spread (one context, three chunk groupings); a prefix resumed; and the same with the
  prefix parked and the slot overwritten in between. Half the prompt is the prefix.
\<close>

definition own_spread where
  "own_spread M stp look cap ids d =
     and_then (prefill_logits stp look cap 0 ids 0 None d) (\<lambda>base d.
     and_then (prefill_logits stp look cap 1 ids 0 (Some 32) d) (\<lambda>g32 d.
     and_then (prefill_logits stp look cap 1 ids 0 (Some 17) d) (\<lambda>g17 d.
       (Ok (base, lm_max M (lm_delta M base g32) (lm_delta M base g17)), d))))"

definition resumed where
  "resumed M stp look eos m cap ids max_tokens d =
     (let split = length ids div 2 in
      and_then (prefill_logits stp look cap 1 (take split ids) 0 None d) (\<lambda>_ d.
      and_then (prefill_logits stp look cap 1 ids split None d) (\<lambda>reuse d.
      and_then (decode_from max_tokens stp eos m 1 (length ids) [] (lm_best M reuse) d) (\<lambda>toks d. (Ok (reuse, toks), d)))))"

definition parked_and_resumed where
  "parked_and_resumed M stp look xport mport eos m cap ids max_tokens d =
     (let split = length ids div 2 in
      and_then (prefill_logits stp look cap 1 (take split ids) 0 None d) (\<lambda>_ d.
      and_then (call (bind_res (xport d 1 split) (\<lambda>b. Ok (b, d))) d) (\<lambda>blob d.
      and_then (prefill_logits stp look cap 1 (drop split ids) 0 None d) (\<lambda>_ d.
      and_then (call (bind_res (mport d 1 split blob) (\<lambda>d'. Ok ((), d'))) d) (\<lambda>_ d.
      and_then (prefill_logits stp look cap 1 ids split None d) (\<lambda>restored d.
      and_then (decode_from max_tokens stp eos m 1 (length ids) [] (lm_best M restored) d) (\<lambda>toks d. (Ok (blob, restored, toks), d))))))))"

definition session_verdict :: "('l, 'f) logit_math \<Rightarrow> 'l \<Rightarrow> 'f \<Rightarrow> 'l \<times> u32 list \<Rightarrow> 'l \<times> u32 list \<Rightarrow> ('e self_error, unit) res" where
  "session_verdict M base spread = (\<lambda>(reuse, toks) (restored, toks').
     if lm_best M base \<noteq> lm_best M reuse \<or> lm_best M base \<noteq> lm_best M restored then Err NextChanged
     else if lm_gt M (lm_delta M base reuse) (lm_bound M spread) then Err ReuseMoved
     else if lm_nonzero M (lm_delta M reuse restored) then Err CopyMoved
     else if toks \<noteq> toks' then Err TokensDiffer else Ok ())"

definition session_selftest ::
  "('l, 'f) logit_math \<Rightarrow> ('d \<Rightarrow> (u32 \<times> nat \<times> nat) list \<Rightarrow> bool \<Rightarrow> ('e, u32 list \<times> 'd) res) \<Rightarrow> ('d \<Rightarrow> 'l)
   \<Rightarrow> ('d \<Rightarrow> nat \<Rightarrow> nat \<Rightarrow> ('e, bytes) res) \<Rightarrow> ('d \<Rightarrow> nat \<Rightarrow> nat \<Rightarrow> bytes \<Rightarrow> ('e, 'd) res)
   \<Rightarrow> u32 list \<Rightarrow> nat \<Rightarrow> nat \<Rightarrow> nat \<Rightarrow> u32 list \<Rightarrow> nat \<Rightarrow> 'd \<Rightarrow> ('e self_error, bytes) res \<times> 'd" where
  "session_selftest M stp look xport mport eos m cap lanes ids max_tokens d =
     (if length ids < 8 then (Err (ShortPrompt (length ids)), d)
      else if lanes < 2 then (Err OneSlot, d)
      else and_then (own_spread M stp look cap ids d) (\<lambda>(base, spread) d.
        and_then (resumed M stp look eos m cap ids max_tokens d) (\<lambda>reuse d.
        and_then (parked_and_resumed M stp look xport mport eos m cap ids max_tokens d) (\<lambda>(blob, restored) d.
        and_then (session_verdict M base spread reuse restored, d) (\<lambda>_ d. (Ok blob, d))))))"

section \<open>Runs that give no verdict against the decoder\<close>

definition verdict :: "'e self_error \<Rightarrow> bool" where
  "verdict e = (case e of Diverged _ _ \<Rightarrow> True | NextChanged \<Rightarrow> True | ReuseMoved \<Rightarrow> True | CopyMoved \<Rightarrow> True | TokensDiffer \<Rightarrow> True
     | RunDiverged _ \<Rightarrow> True | _ \<Rightarrow> False)"

text \<open>\<open>passes P r\<close>: the run ends without a verdict, and if it returns, its result and state satisfy \<open>P\<close>.\<close>

definition passes :: "('a \<Rightarrow> 'd \<Rightarrow> bool) \<Rightarrow> ('e self_error, 'a) res \<times> 'd \<Rightarrow> bool" where
  "passes P r \<longleftrightarrow> (case fst r of Ok x \<Rightarrow> P x (snd r) | Err e \<Rightarrow> \<not> verdict e | Panic \<Rightarrow> True)"

lemma passes_then: "passes P r \<Longrightarrow> (\<And>x d. P x d \<Longrightarrow> passes Q (f x d)) \<Longrightarrow> passes Q (and_then r f)"
  by (cases r; cases "fst r") (auto simp: passes_def)

lemma passes_Ok: "P x d \<Longrightarrow> passes P (Ok x, d)"
  by (simp add: passes_def)

lemma passes_Panic [simp]: "passes P (Panic, d)"
  by (simp add: passes_def)

lemma passes_mono: "passes P r \<Longrightarrow> (\<And>x d. P x d \<Longrightarrow> Q x d) \<Longrightarrow> passes Q r"
  by (cases r; cases "fst r") (auto simp: passes_def)

lemma passes_call: "(\<And>x d'. c = Ok (x, d') \<Longrightarrow> P x d') \<Longrightarrow> passes P (call c d)"
  by (cases c) (auto simp: passes_def verdict_def)

text \<open>What the decoder answers, given which tokens its slots hold.\<close>

lemma run_answer:
  assumes st: "step_multi kern head d (run_entries s (length ts) us) w = Ok (out, d')" and cov: "covers kern d s ts"
  shows "covers kern d' s (ts @ us)" "kv_geo d' = kv_geo d" "s' \<noteq> s \<Longrightarrow> covers kern d s' xs \<Longrightarrow> covers kern d' s' xs"
    "w \<Longrightarrow> out \<noteq> [] \<and> last out = head (kv_states kern d (ts @ us))"
proof -
  show "covers kern d' s (ts @ us)" by (rule step_cover [OF st cov])
  show "kv_geo d' = kv_geo d" by (rule kv.stp_geo [OF st])
  show "covers kern d' s' xs" if "s' \<noteq> s" "covers kern d s' xs" by (rule kv.stp_other_run [OF st that])
  have "us \<noteq> []" using step_multi_Ok(3) [OF st] by (auto simp: run_entries_def)
  then show "out \<noteq> [] \<and> last out = head (kv_states kern d (ts @ us))" if w
    using step_multi_extends_context [OF st [unfolded eqTrueI [OF that]] cov covers_nil, of "Suc s"] by auto
qed

lemma lock_answer:
  assumes st: "step_multi kern head d (map (\<lambda>s. (t, length ts, s)) [0..<k]) True = Ok (out, d')" and cov: "\<forall>s < k. covers kern d s ts"
  shows "out = replicate k (head (kv_states kern d (ts @ [t])))" "\<forall>s < k. covers kern d' s (ts @ [t])" "kv_geo d' = kv_geo d"
proof -
  let ?es = "map (\<lambda>s. (t, length ts, s)) [0..<k]"
  have dist: "distinct (map (\<lambda>e. snd (snd e)) ?es)" by (simp add: comp_def)
  show c: "\<forall>s < k. covers kern d' s (ts @ [t])"
    using kvb.stp_lock [OF st dist] cov by auto
  show geo: "kv_geo d' = kv_geo d" by (rule kv.stp_geo [OF st])
  have "last_for_slot ?es i" if "i < k" for i using that by (auto simp: last_for_slot_def list_all_iff drop_map)
  moreover have "slot_rows d' i (length ts + 1) = kv_states kern d (ts @ [t])" if "i < k" for i
    using c that kv_states_geo [OF geo] by (simp add: covers_def)
  moreover define f where "f i = (if last_for_slot ?es i then head (slot_rows d' (snd (snd (?es ! i))) (fst (snd (?es ! i)) + 1)) else 0)" for i
  ultimately have f: "f i = head (kv_states kern d (ts @ [t]))" if "i < k" for i using that by simp
  have "out = map f [0..<k]"
    using st by (cases "check_entries d ?es") (auto simp: step_multi_def Let_def f_def split: if_splits)
  then show "out = replicate k (head (kv_states kern d (ts @ [t])))" by (auto intro: replicate_eqI simp: f)
qed

text \<open>A decoder of the shape of \<open>d0\<close> whose slot \<open>s\<close> holds \<open>ts\<close>; the other slots keep what they held in \<open>d\<close>.\<close>

definition took :: "kernel \<Rightarrow> kv_dec \<Rightarrow> kv_dec \<Rightarrow> nat \<Rightarrow> u32 list \<Rightarrow> kv_dec \<Rightarrow> bool" where
  "took kern d0 d s ts d' \<longleftrightarrow> kv_geo d' = kv_geo d0 \<and> covers kern d' s ts \<and> (\<forall>s' xs. s' \<noteq> s \<longrightarrow> covers kern d s' xs \<longrightarrow> covers kern d' s' xs)"

lemma took_trans: "took kern d0 d s ts d1 \<Longrightarrow> took kern d0 d1 s us d2 \<Longrightarrow> took kern d0 d s us d2"
  by (simp add: took_def)

lemma took_refl: "kv_geo d = kv_geo d0 \<Longrightarrow> covers kern d s ts \<Longrightarrow> took kern d0 d s ts d"
  by (simp add: took_def)

lemma step_took:
  assumes "step_multi kern head d (run_entries s (length ts) us) w = Ok (out, d')" "took kern d0 dd s ts d"
  shows "took kern d0 dd s (ts @ us) d'" "w \<Longrightarrow> out \<noteq> [] \<and> last out = head (kv_states kern d0 (ts @ us))"
  using run_answer [OF assms(1)] assms(2) kv_states_geo [of d d0 kern] by (auto simp: took_def)

lemma self_fill_passes:
  "took kern d0 dd s ts d \<Longrightarrow> n = length (ts @ concat cs) \<Longrightarrow> \<forall>c \<in> set cs. c \<noteq> [] \<Longrightarrow>
    passes (\<lambda>t d'. took kern d0 dd s (ts @ concat cs) d' \<and> (cs \<noteq> [] \<longrightarrow> t = head (kv_states kern d0 (ts @ concat cs))))
      (self_fill (step_multi kern head) s n cs (length ts) nxt d)"
proof (induction cs arbitrary: ts nxt d)
  case Nil
  then show ?case by (simp add: passes_Ok)
next
  case (Cons c cs)
  let ?l = "length ts + length c = n"
  show ?case unfolding self_fill.simps
  proof (rule passes_then [OF passes_call])
    fix out d'
    assume st: "step_multi kern head d (run_entries s (length ts) c) ?l = Ok (out, d')"
    note t = step_took [OF st Cons.prems(1)]
    have IH: "passes (\<lambda>t d'. took kern d0 dd s (ts @ concat (c # cs)) d' \<and> (cs \<noteq> [] \<longrightarrow> t = head (kv_states kern d0 (ts @ concat (c # cs)))))
        (self_fill (step_multi kern head) s n cs (length ts + length c) nx d')" for nx
      using Cons.IH [OF t(1), of nx] Cons.prems(2,3) by simp
    show "passes (\<lambda>t d'. took kern d0 dd s (ts @ concat (c # cs)) d' \<and> (c # cs \<noteq> [] \<longrightarrow> t = head (kv_states kern d0 (ts @ concat (c # cs)))))
        (if ?l then if out = [] then (Panic, d') else self_fill (step_multi kern head) s n cs (length ts + length c) (last out) d'
         else self_fill (step_multi kern head) s n cs (length ts + length c) nxt d')"
    proof (cases "cs = []")
      case True
      then have "?l" using Cons.prems(2) by simp
      with t True show ?thesis by (simp add: passes_Ok)
    next
      case False
      with Cons.prems(2,3) have "\<not> ?l" by (cases cs) auto
      with IH [of nxt] False show ?thesis by simp
    qed
  qed
qed

lemma fill_all_passes:
  assumes cap: "0 < cap" and ids: "ids \<noteq> []"
  shows "distinct ss \<Longrightarrow> kv_geo d = kv_geo d0 \<Longrightarrow>
    passes (\<lambda>ts d'. ts = replicate (length ss) (head (kv_states kern d0 ids)) \<and> kv_geo d' = kv_geo d0 \<and> (\<forall>s \<in> set ss. covers kern d' s ids) \<and>
        (\<forall>s xs. s \<notin> set ss \<longrightarrow> covers kern d s xs \<longrightarrow> covers kern d' s xs))
      (fill_all (step_multi kern head) cap ids ss d)"
proof (induction ss arbitrary: d)
  case Nil
  then show ?case by (simp add: passes_Ok)
next
  case (Cons s ss)
  have t0: "took kern d0 d s [] d" using Cons.prems(2) by (simp add: took_refl covers_nil)
  have f: "passes (\<lambda>t d'. took kern d0 d s ids d' \<and> t = head (kv_states kern d0 ids)) (self_fill (step_multi kern head) s (length ids) (chunks cap ids) 0 0 d)"
    using self_fill_passes [OF t0, where cs = "chunks cap ids" and nxt = 0] chunks_bounds chunks_nonempty [OF cap ids] by (fastforce simp: concat_chunks [OF cap])
  show ?case unfolding fill_all.simps
  proof (rule passes_then [OF f], rule passes_then)
    fix t d1
    assume a: "took kern d0 d s ids d1 \<and> t = head (kv_states kern d0 ids)"
    then show "passes (\<lambda>ts d'. ts = replicate (length ss) (head (kv_states kern d0 ids)) \<and> kv_geo d' = kv_geo d0 \<and> (\<forall>s \<in> set ss. covers kern d' s ids) \<and>
        (\<forall>s xs. s \<notin> set ss \<longrightarrow> covers kern d1 s xs \<longrightarrow> covers kern d' s xs)) (fill_all (step_multi kern head) cap ids ss d1)"
      using Cons.IH [of d1] Cons.prems(1) by (simp add: took_def)
    fix ts d2
    assume b: "ts = replicate (length ss) (head (kv_states kern d0 ids)) \<and> kv_geo d2 = kv_geo d0 \<and> (\<forall>s \<in> set ss. covers kern d2 s ids) \<and>
        (\<forall>s xs. s \<notin> set ss \<longrightarrow> covers kern d1 s xs \<longrightarrow> covers kern d2 s xs)"
    then show "passes (\<lambda>ts d'. ts = replicate (length (s # ss)) (head (kv_states kern d0 ids)) \<and> kv_geo d' = kv_geo d0 \<and>
        (\<forall>s \<in> set (s # ss). covers kern d' s ids) \<and> (\<forall>s' xs. s' \<notin> set (s # ss) \<longrightarrow> covers kern d s' xs \<longrightarrow> covers kern d' s' xs)) (Ok (t # ts), d2)"
      using a Cons.prems(1) by (intro passes_Ok) (auto simp: took_def)
  qed
qed

lemma differs_replicate: "\<not> differs (replicate k t)"
  by (auto simp: differs_def list_ex_iff in_set_zip nth_tl)

lemma self_lock_passes:
  "\<forall>s < lanes. covers kern d s ts \<Longrightarrow> kv_geo d = kv_geo d0 \<Longrightarrow>
    passes (\<lambda>k d'. \<exists>gen. k = sofar + lanes * length gen \<and> length gen \<le> n \<and> (\<forall>s < lanes. covers kern d' s (ts @ gen)))
      (self_lock n (step_multi kern head) eos m lanes (length ts) (replicate lanes t) sofar d)"
proof (induction n arbitrary: ts t sofar d)
  case 0
  then show ?case by (auto intro!: passes_Ok exI [of _ "[]"])
next
  case (Suc n)
  let ?P = "\<lambda>n ts sofar k d'. \<exists>gen. k = sofar + lanes * length gen \<and> length gen \<le> n \<and> (\<forall>s < lanes. covers kern d' s (ts @ gen))"
  show ?case
  proof (cases "list_ex (\<lambda>t. t \<in> set eos) (replicate lanes t) \<or> m \<le> length ts")
    case True
    then show ?thesis using Suc.prems by (auto intro!: passes_Ok exI [of _ "[]"])
  next
    case False
    have e: "map (\<lambda>s. (replicate lanes t ! s, length ts, s)) [0..<length (replicate lanes t)] = map (\<lambda>s. (t, length ts, s)) [0..<lanes]" by simp
    show ?thesis unfolding self_lock.simps if_not_P [OF False] e
    proof (rule passes_then [OF passes_call])
      fix out d'
      assume st: "step_multi kern head d (map (\<lambda>s. (t, length ts, s)) [0..<lanes]) True = Ok (out, d')"
      note a = lock_answer [OF st Suc.prems(1)]
      have "kv_geo d' = kv_geo d0" using a(3) Suc.prems(2) by simp
      note IH = Suc.IH [OF a(2) this, of "sofar + lanes" "head (kv_states kern d (ts @ [t]))"]
      have "passes (?P (Suc n) ts sofar) (self_lock n (step_multi kern head) eos m lanes (length (ts @ [t])) out (sofar + lanes) d')"
        unfolding a(1)
      proof (rule passes_mono [OF IH])
        fix k d2
        assume "?P n (ts @ [t]) (sofar + lanes) k d2"
        then obtain gen where "k = sofar + lanes + lanes * length gen" "length gen \<le> n" "\<forall>s < lanes. covers kern d2 s ((ts @ [t]) @ gen)" by blast
        then show "?P (Suc n) ts sofar k d2" by (intro exI [of _ "t # gen"]) simp
      qed
      then show "passes (?P (Suc n) ts sofar) (if differs out then (Err (Diverged (length ts) out), d')
          else self_lock n (step_multi kern head) eos m lanes (length ts + 1) out (sofar + lanes) d')"
        by (simp add: a(1) differs_replicate)
    qed
  qed
qed

text \<open>
  The batch self-test never reports a divergence. Whatever the decoder held before: if the test
  returns, every lane holds the prompt followed by the same generated tokens, and the number of tokens
  reported is that of all lanes; otherwise a call of the decoder failed.\<close>
theorem batch_selftest_never_diverges:
  assumes "0 < cap" "ids \<noteq> []" and t: "batch_selftest (step_multi kern head) eos m cap ids lanes max_tokens d = (r, d')"
  shows "case r of Ok k \<Rightarrow> \<exists>gen. k = lanes * length gen \<and> length gen \<le> max_tokens \<and> (\<forall>s < lanes. covers kern d' s (ids @ gen))
    | Err e \<Rightarrow> \<not> verdict e | Panic \<Rightarrow> True"
proof -
  have "passes (\<lambda>k d'. \<exists>gen. k = lanes * length gen \<and> length gen \<le> max_tokens \<and> (\<forall>s < lanes. covers kern d' s (ids @ gen)))
      (batch_selftest (step_multi kern head) eos m cap ids lanes max_tokens d)"
    unfolding batch_selftest_def
  proof (rule passes_then [OF fill_all_passes [OF assms(1,2) distinct_upt refl]])
    fix ts d1
    assume a: "ts = replicate (length [0..<lanes]) (head (kv_states kern d ids)) \<and> kv_geo d1 = kv_geo d \<and> (\<forall>s \<in> set [0..<lanes]. covers kern d1 s ids) \<and>
        (\<forall>s xs. s \<notin> set [0..<lanes] \<longrightarrow> covers kern d s xs \<longrightarrow> covers kern d1 s xs)"
    then have "\<forall>s < lanes. covers kern d1 s ids" "kv_geo d1 = kv_geo d" by auto
    from self_lock_passes [OF this, of 0 max_tokens head eos m "head (kv_states kern d ids)"] a
    show "passes (\<lambda>k d'. \<exists>gen. k = lanes * length gen \<and> length gen \<le> max_tokens \<and> (\<forall>s < lanes. covers kern d' s (ids @ gen)))
        (self_lock max_tokens (step_multi kern head) eos m lanes (length ids) ts 0 d1)" by simp
  qed
  with t show ?thesis by (auto simp: passes_def split: res.splits)
qed

section \<open>Greedy generation\<close>

text \<open>The tokens a greedy run gives, as a function of the context alone: \<open>t\<close> is next, \<open>f\<close> the model's answer.\<close>

fun greedy :: "(u32 list \<Rightarrow> u32) \<Rightarrow> u32 list \<Rightarrow> nat \<Rightarrow> nat \<Rightarrow> u32 list \<Rightarrow> u32 \<Rightarrow> u32 list" where
  "greedy f eos m 0 ctx t = []"
| "greedy f eos m (Suc n) ctx t =
     (if t \<in> set eos then [] else if m \<le> length ctx then [t] else t # greedy f eos m n (ctx @ [t]) (f (ctx @ [t])))"

lemma one_answer:
  assumes st: "step_one kern head d t (length ts) w = Ok (x, d')" and cov: "covers kern d 0 ts"
  shows "covers kern d' 0 (ts @ [t])" "kv_geo d' = kv_geo d" "w \<Longrightarrow> x = head (kv_states kern d (ts @ [t]))"
proof -
  have d': "d' = append_row kern d (t, length ts, 0)" "length ts < d_max_seq d" "w \<Longrightarrow> x = head (slot_rows d' 0 (length ts + 1))"
    using st by (auto simp: step_one_def Let_def split: if_splits)
  show c: "covers kern d' 0 (ts @ [t])" unfolding d'(1) by (rule append_row_covers [OF cov d'(2)])
  show g: "kv_geo d' = kv_geo d" by (simp add: d'(1))
  show "x = head (kv_states kern d (ts @ [t]))" if w using d'(3) [OF that] c kv_states_geo [OF g] by (simp add: covers_def)
qed

lemma chunk_answer:
  assumes st: "step_chunk kern head d c (length ts) w = Ok (x, d')" and cov: "covers kern d 0 ts"
  shows "covers kern d' 0 (ts @ c)" "kv_geo d' = kv_geo d" "w \<Longrightarrow> x = head (kv_states kern d (ts @ c))"
proof -
  obtain out where o: "step_multi kern head d (run_entries 0 (length ts) c) w = Ok (out, d')" "x = (if out = [] then 0 else last out)"
    using st by (auto simp: step_chunk_def bind_res_Ok)
  note a = run_answer [OF o(1) cov]
  show "covers kern d' 0 (ts @ c)" "kv_geo d' = kv_geo d" by (rule a)+
  show "x = head (kv_states kern d (ts @ c))" if w using a(4) [OF that] o(2) by simp
qed

lemma chunk_fill_passes:
  "kv_geo d = kv_geo d0 \<Longrightarrow> covers kern d 0 ts \<Longrightarrow> n = length (ts @ concat cs) \<Longrightarrow>
    passes (\<lambda>t d'. kv_geo d' = kv_geo d0 \<and> covers kern d' 0 (ts @ concat cs) \<and> (cs \<noteq> [] \<and> last cs \<noteq> [] \<longrightarrow> t = head (kv_states kern d0 (ts @ concat cs))))
      (chunk_fill (step_chunk kern head) n cs (length ts) nxt d)"
proof (induction cs arbitrary: ts nxt d)
  case Nil
  then show ?case by (simp add: passes_Ok)
next
  case (Cons c cs)
  show ?case unfolding chunk_fill.simps
  proof (rule passes_then [OF passes_call])
    fix x d'
    assume st: "step_chunk kern head d c (length ts) (length ts + length c = n) = Ok (x, d')"
    note a = chunk_answer [OF st Cons.prems(2)]
    have g: "kv_geo d' = kv_geo d0" using a(2) Cons.prems(1) by simp
    show "passes (\<lambda>t d'. kv_geo d' = kv_geo d0 \<and> covers kern d' 0 (ts @ concat (c # cs)) \<and>
        (c # cs \<noteq> [] \<and> last (c # cs) \<noteq> [] \<longrightarrow> t = head (kv_states kern d0 (ts @ concat (c # cs)))))
      (chunk_fill (step_chunk kern head) n cs (length ts + length c) x d')"
    proof (cases "cs = []")
      case True
      then show ?thesis using a(1,3) g Cons.prems(3) kv_states_geo [OF Cons.prems(1)] by (auto intro!: passes_Ok)
    next
      case False
      with Cons.IH [OF g a(1), where nxt = x] Cons.prems(3) show ?thesis by simp
    qed
  qed
qed

lemma cli_decode_passes:
  "kv_geo d = kv_geo d0 \<Longrightarrow> covers kern d 0 ts \<Longrightarrow>
    passes (\<lambda>out' d'. kv_geo d' = kv_geo d0 \<and> out' = out @ greedy (\<lambda>c. head (kv_states kern d0 c)) eos m n ts t)
      (cli_decode n (step_one kern head) (\<lambda>_ r _ g. (g, r)) eos m (length ts) out t () d)"
proof (induction n arbitrary: ts out t d)
  case 0
  then show ?case by (simp add: passes_Ok)
next
  case (Suc n)
  show ?case
  proof (cases "t \<in> set eos \<or> m \<le> length ts")
    case True
    then show ?thesis using Suc.prems by (auto intro!: passes_Ok)
  next
    case False
    then have go: "t \<notin> set eos" "\<not> m \<le> length ts" by auto
    show ?thesis unfolding cli_decode.simps if_not_P [OF go(1)] if_not_P [OF go(2)]
    proof (rule passes_then [OF passes_call])
      fix g d'
      assume st: "step_one kern head d t (length ts) True = Ok (g, d')"
      note a = one_answer [OF st Suc.prems(2)]
      have "kv_geo d' = kv_geo d0" using a(2) Suc.prems(1) by simp
      from Suc.IH [OF this a(1), where out = "out @ [t]" and t = g] a(3) go kv_states_geo [OF Suc.prems(1)]
      show "passes (\<lambda>out' d'. kv_geo d' = kv_geo d0 \<and> out' = out @ greedy (\<lambda>c. head (kv_states kern d0 c)) eos m (Suc n) ts t)
          (case (g, ()) of (t', r') \<Rightarrow> cli_decode n (step_one kern head) (\<lambda>_ r _ g. (g, r)) eos m (length ts + 1) (out @ [t]) t' r' d')"
        by simp
    qed
  qed
qed

text \<open>A greedy run of the command line is that function of the prompt, whatever the decoder held before.\<close>

lemma cli_generate_passes:
  assumes g: "kv_geo d = kv_geo d0" and cap: "0 < cap" and ids: "ids \<noteq> []"
  shows "passes (\<lambda>out d'. kv_geo d' = kv_geo d0 \<and> out = greedy (\<lambda>c. head (kv_states kern d0 c)) eos m n ids (head (kv_states kern d0 ids)))
    (cli_generate (step_chunk kern head) (step_one kern head) (\<lambda>_ r _ g. (g, r)) eos m cap chunk ids n () d)"
proof -
  let ?w = "case chunk of None \<Rightarrow> cap | Some c \<Rightarrow> min (max c 1) cap"
  have w: "0 < ?w" using cap by (auto split: option.splits)
  have last: "last (chunks ?w ids) \<noteq> []"
    using chunks_bounds [OF last_in_set [OF chunks_nonempty [OF w ids]]] by auto
  show ?thesis unfolding cli_generate_def Let_def
  proof (rule passes_then [OF chunk_fill_passes [OF g covers_nil, where cs = "chunks ?w ids", simplified list.size append_Nil]])
    show "length ids = length (concat (chunks ?w ids))" by (simp only: concat_chunks [OF w])
    fix t d1
    assume "kv_geo d1 = kv_geo d0 \<and> covers kern d1 0 (concat (chunks ?w ids)) \<and>
      (chunks ?w ids \<noteq> [] \<and> last (chunks ?w ids) \<noteq> [] \<longrightarrow> t = head (kv_states kern d0 (concat (chunks ?w ids))))"
    then have a: "kv_geo d1 = kv_geo d0" "covers kern d1 0 ids" "t = head (kv_states kern d0 ids)"
      using last chunks_nonempty [OF w ids] by (simp_all add: concat_chunks [OF w])
    from cli_decode_passes [OF a(1,2), where out = "[]" and head = head and eos = eos and m = m and n = n and t = t] a(3)
    show "passes (\<lambda>out d'. kv_geo d' = kv_geo d0 \<and> out = greedy (\<lambda>c. head (kv_states kern d0 c)) eos m n ids (head (kv_states kern d0 ids)))
        (case (t, ()) of (t, r') \<Rightarrow> cli_decode n (step_one kern head) (\<lambda>_ r _ g. (g, r)) eos m (length ids) [] t r' d1)" by simp
  qed
qed

lemma serial_runs_passes:
  assumes cap: "0 < cap" and ids: "ids \<noteq> []"
  shows "kv_geo d = kv_geo d0 \<Longrightarrow> first = None \<or> first = Some (greedy (\<lambda>c. head (kv_states kern d0 c)) eos m n ids (head (kv_states kern d0 ids))) \<Longrightarrow>
    passes (\<lambda>out d'. out = (if rounds = 0 then first else Some (greedy (\<lambda>c. head (kv_states kern d0 c)) eos m n ids (head (kv_states kern d0 ids)))))
      (serial_runs (step_chunk kern head) (step_one kern head) eos m cap ids n k rounds first d)"
proof (induction rounds arbitrary: k first d)
  case 0
  then show ?case by (simp add: passes_Ok)
next
  case (Suc rounds)
  show ?case unfolding serial_runs.simps
  proof (rule passes_then [OF cli_generate_passes [OF Suc.prems(1) cap ids]])
    fix out d'
    assume a: "kv_geo d' = kv_geo d0 \<and> out = greedy (\<lambda>c. head (kv_states kern d0 c)) eos m n ids (head (kv_states kern d0 ids))"
    show "passes (\<lambda>out d'. out = (if Suc rounds = 0 then first else Some (greedy (\<lambda>c. head (kv_states kern d0 c)) eos m n ids (head (kv_states kern d0 ids)))))
        (case first of None \<Rightarrow> serial_runs (step_chunk kern head) (step_one kern head) eos m cap ids n (k + 1) rounds (Some out) d'
         | Some f \<Rightarrow> if f = out then serial_runs (step_chunk kern head) (step_one kern head) eos m cap ids n (k + 1) rounds first d'
             else (Err (RunDiverged (k + 1)), d'))"
      using Suc.IH [where d = d' and first = "Some out" and k = "k + 1"] a Suc.prems(2) by (cases "rounds = 0") auto
  qed
qed

text \<open>
  The serial self-test never reports a divergence: every generation on one decoder gives the greedy
  continuation of the prompt, a function of the prompt alone, whatever the generations before it left
  in the cache.\<close>
theorem serial_selftest_never_diverges:
  assumes "0 < cap" "ids \<noteq> []" and t: "serial_selftest (step_chunk kern head) (step_one kern head) eos m cap ids n rounds d = (r, d')"
  shows "case r of
      Ok out \<Rightarrow> out = (if rounds = 0 then None else Some (greedy (\<lambda>c. head (kv_states kern d c)) eos m n ids (head (kv_states kern d ids))))
    | Err e \<Rightarrow> \<not> verdict e | Panic \<Rightarrow> True"
  using serial_runs_passes [OF assms(1,2) refl, where d = d and first = None and kern = kern and head = head and eos = eos and m = m and n = n and rounds = rounds and k = 0] t
  by (auto simp: serial_selftest_def passes_def split: res.splits)

section \<open>Command line and server\<close>

lemma greedy_shift:
  "\<exists>zs. greedy f eos m n ctx t = greedy f eos (m - 1) n ctx t @ zs \<and> length zs \<le> 1 \<and>
     (length ctx + length (greedy f eos (m - 1) n ctx t) < m \<longrightarrow> zs = [])"
proof (induction n arbitrary: ctx t)
  case (Suc n)
  show ?case
  proof (cases "t \<notin> set eos \<and> m - 1 \<le> length ctx \<and> \<not> m \<le> length ctx")
    case True
    then have "m - 1 \<le> length ctx" "\<not> m \<le> length ctx" by blast+
    then have "m = Suc (length ctx)" by arith
    then show ?thesis using True by (cases n) auto
  next
    case False
    with Suc.IH [of "ctx @ [t]" "f (ctx @ [t])"] show ?thesis by auto
  qed
qed simp

lemma plain_prefill_answer:
  "plain_prefill (step_chunk kern head) n cs (length ts) nxt d = (Ok t, d') \<Longrightarrow> kv_geo d = kv_geo d0 \<Longrightarrow> covers kern d 0 ts \<Longrightarrow>
    n = length (ts @ concat cs) \<Longrightarrow> kv_geo d' = kv_geo d0 \<and> covers kern d' 0 (ts @ concat cs) \<and>
      (cs \<noteq> [] \<and> last cs \<noteq> [] \<longrightarrow> t = head (kv_states kern d0 (ts @ concat cs)))"
proof (induction cs arbitrary: ts nxt d)
  case (Cons c cs)
  from Cons.prems(1) obtain x d1 where st: "step_chunk kern head d c (length ts) (length ts + length c = n) = Ok (x, d1)"
    by (auto split: res.splits prod.splits)
  note a = chunk_answer [OF st Cons.prems(3)]
  have g: "kv_geo d1 = kv_geo d0" using a(2) Cons.prems(2) by simp
  have rest: "plain_prefill (step_chunk kern head) n cs (length (ts @ c)) x d1 = (Ok t, d')" using Cons.prems(1) st by simp
  from Cons.IH [OF rest g a(1)] Cons.prems(4) a(3) kv_states_geo [OF Cons.prems(2)] rest show ?case by (cases "cs = []") auto
qed simp

lemma plain_decode_answer:
  "plain_decode n (step_one kern head) smp q (length ts) out t r d = (Ok o', d') \<Longrightarrow> kv_geo d = kv_geo d0 \<Longrightarrow> covers kern d 0 ts \<Longrightarrow> q_plain_greedy q \<Longrightarrow>
    o' = out @ greedy (\<lambda>c. head (kv_states kern d0 c)) (q_eos q) (q_max_seq q - 1) n ts t"
proof (induction n arbitrary: ts out t d)
  case (Suc n)
  show ?case
  proof (cases "t \<in> set (q_eos q) \<or> q_max_seq q \<le> length ts + 1")
    case True
    then show ?thesis using Suc.prems(1) by (auto simp: Let_def)
  next
    case False
    then have go: "t \<notin> set (q_eos q)" "\<not> q_max_seq q \<le> length ts + 1" "\<not> q_max_seq q - 1 \<le> length ts" by auto
    from Suc.prems(1) go obtain x d1 where st: "step_one kern head d t (length ts) True = Ok (x, d1)"
      by (auto simp: Let_def split: res.splits prod.splits)
    note a = one_answer [OF st Suc.prems(3)]
    have g: "kv_geo d1 = kv_geo d0" using a(2) Suc.prems(2) by simp
    have rest: "plain_decode n (step_one kern head) smp q (length (ts @ [t])) (out @ [t]) x r d1 = (Ok o', d')"
      using Suc.prems(1,4) st go by (simp add: Let_def)
    from Suc.IH [OF rest g a(1) Suc.prems(4)] a(3) go kv_states_geo [OF Suc.prems(2)] show ?thesis by simp
  qed
qed simp


section \<open>Logits\<close>

text \<open>A decoder with the logits of its last step, a function of the rows that step attended to.\<close>

definition multi_noted ::
  "kernel \<Rightarrow> (bytes list list \<Rightarrow> u32) \<Rightarrow> (bytes list list \<Rightarrow> 'l) \<Rightarrow> kv_dec \<times> 'l \<Rightarrow> (u32 \<times> nat \<times> nat) list \<Rightarrow> bool \<Rightarrow> (kv_error, u32 list \<times> kv_dec \<times> 'l) res" where
  "multi_noted kern head lg = (\<lambda>(d, l) es want.
     bind_res (step_multi kern head d es want) (\<lambda>(out, d').
       Ok (out, d', if want then lg (slot_rows d' (snd (snd (last es))) (fst (snd (last es)) + 1)) else l)))"

definition one_noted ::
  "kernel \<Rightarrow> (bytes list list \<Rightarrow> u32) \<Rightarrow> (bytes list list \<Rightarrow> 'l) \<Rightarrow> kv_dec \<times> 'l \<Rightarrow> u32 \<Rightarrow> nat \<Rightarrow> bool \<Rightarrow> (kv_error, u32 \<times> kv_dec \<times> 'l) res" where
  "one_noted kern head lg = (\<lambda>(d, l) t p want.
     bind_res (step_one kern head d t p want) (\<lambda>(x, d'). Ok (x, d', if want then lg (slot_rows d' 0 (p + 1)) else l)))"

definition export_noted :: "kv_dec \<times> 'l \<Rightarrow> nat \<Rightarrow> nat \<Rightarrow> (kv_error, bytes) res" where
  "export_noted dl = kv_export (fst dl)"

definition import_noted :: "kv_dec \<times> 'l \<Rightarrow> nat \<Rightarrow> nat \<Rightarrow> bytes \<Rightarrow> (kv_error, kv_dec \<times> 'l) res" where
  "import_noted = (\<lambda>(d, l) s n b. bind_res (kv_import d s n b) (\<lambda>d'. Ok (d', l)))"

lemma ppl_loop_passes:
  "kv_geo d = kv_geo d0 \<Longrightarrow> covers kern d 0 (take p ids) \<Longrightarrow> p + k < length ids \<Longrightarrow>
    passes (\<lambda>a' _. Some a' = foldl (\<lambda>acc p. Option.bind acc (\<lambda>a. nll a (lg (kv_states kern d0 (take (p + 1) ids))) (ids ! (p + 1)))) (Some a) [p..<p + k])
      (ppl_loop (one_noted kern head lg) snd nll ids [p..<p + k] a (d, l))"
proof (induction k arbitrary: p a d l)
  case 0
  then show ?case by (simp add: passes_Ok)
next
  case (Suc k)
  have u: "[p..<p + Suc k] = p # [Suc p..<Suc p + k]" using upt_conv_Cons [of p "p + Suc k"] by simp
  have tk: "take p ids @ [ids ! p] = take (Suc p) ids" and len: "length (take p ids) = p" using Suc.prems(3) by (simp_all add: take_Suc_conv_app_nth)
  show ?case unfolding u ppl_loop.simps
  proof (rule passes_then [OF passes_call])
    fix x dl
    assume "one_noted kern head lg (d, l) (ids ! p) p True = Ok (x, dl)"
    then obtain d' where st: "step_one kern head d (ids ! p) (length (take p ids)) True = Ok (x, d')" "dl = (d', lg (slot_rows d' 0 (p + 1)))"
      unfolding len by (auto simp: one_noted_def bind_res_Ok)
    note a = one_answer [OF st(1) Suc.prems(2), unfolded tk]
    have g: "kv_geo d' = kv_geo d0" using a(2) Suc.prems(1) by simp
    have "slot_rows d' 0 (p + 1) = kv_states kern d0 (take (p + 1) ids)"
      using a(1) Suc.prems(3) kv_states_geo [OF g] by (simp add: covers_def)
    then have r: "snd dl = lg (kv_states kern d0 (take (p + 1) ids))" by (simp add: st(2))
    show "passes (\<lambda>a' _. Some a' = foldl (\<lambda>acc p. Option.bind acc (\<lambda>a. nll a (lg (kv_states kern d0 (take (p + 1) ids))) (ids ! (p + 1)))) (Some a)
          (p # [Suc p..<Suc p + k]))
        (case nll a (snd dl) (ids ! (p + 1)) of None \<Rightarrow> (Panic, dl)
         | Some a' \<Rightarrow> ppl_loop (one_noted kern head lg) snd nll ids [Suc p..<Suc p + k] a' dl)"
    proof (cases "nll a (snd dl) (ids ! (p + 1))")
      case (Some a')
      from Suc.IH [OF g a(1), where a = a' and l = "snd dl"] Suc.prems(3) Some r show ?thesis by (simp add: st(2))
    qed simp
  qed
qed

text \<open>
  Perplexity is teacher-forced: the sum runs over the positions in order, each term taken from the
  model's logits for exactly the tokens up to that position and the token that follows, whatever the
  decoder held before.\<close>
theorem ppl_is_teacher_forced:
  assumes "ppl_mode (one_noted kern head lg) snd nll zero m ids (d, l) = (Ok a, dl)"
  shows "2 \<le> min (length ids) m \<and>
    Some a = foldl (\<lambda>acc p. Option.bind acc (\<lambda>a. nll a (lg (kv_states kern d (take (p + 1) ids))) (ids ! (p + 1)))) (Some zero) [0..<min (length ids) m - 1]"
proof -
  have n: "\<not> min (length ids) m < 2" using assms by (auto simp: ppl_mode_def Let_def)
  have "covers kern d 0 (take 0 ids)" by (simp add: covers_nil)
  from ppl_loop_passes [OF refl this, where k = "min (length ids) m - 1" and nll = nll and lg = lg and a = zero and head = head and l = l] assms n
  show ?thesis by (auto simp: ppl_mode_def Let_def passes_def)
qed

section \<open>The session self-test passes\<close>

text \<open>The shape of \<open>d0\<close>, and slot \<open>s\<close> holding \<open>ts\<close>.\<close>

definition ready :: "kernel \<Rightarrow> kv_dec \<Rightarrow> nat \<Rightarrow> u32 list \<Rightarrow> kv_dec \<times> 'l \<Rightarrow> bool" where
  "ready kern d0 s ts dl \<longleftrightarrow> kv_geo (fst dl) = kv_geo d0 \<and> covers kern (fst dl) s ts"

lemma ready_nil: "ready kern d0 s ts dl \<Longrightarrow> ready kern d0 s' [] dl"
  by (simp add: ready_def covers_nil)

lemma noted_answer:
  assumes "multi_noted kern head lg dl (run_entries s (length ts) us) w = Ok (out, dl')" "ready kern d0 s ts dl"
  shows "ready kern d0 s (ts @ us) dl'" "w \<Longrightarrow> out \<noteq> [] \<and> last out = head (kv_states kern d0 (ts @ us)) \<and> snd dl' = lg (kv_states kern d0 (ts @ us))"
proof -
  obtain d l where dl: "dl = (d, l)" by fastforce
  let ?es = "run_entries s (length ts) us"
  from assms(1) obtain d' where st: "step_multi kern head d ?es w = Ok (out, d')"
    and dl': "dl' = (d', if w then lg (slot_rows d' (snd (snd (last ?es))) (fst (snd (last ?es)) + 1)) else l)"
    by (auto simp: multi_noted_def dl bind_res_Ok)
  have r: "kv_geo d = kv_geo d0" "covers kern d s ts" using assms(2) by (simp_all add: ready_def dl)
  note a = run_answer [OF st r(2)]
  show "ready kern d0 s (ts @ us) dl'" using a(1,2) r(1) by (simp add: ready_def dl')
  have us: "us \<noteq> []" using step_multi_Ok(3) [OF st] by (auto simp: run_entries_def)
  have "last ?es = ?es ! (length us - 1)" using us by (simp add: last_conv_nth run_entries_def)
  also have "\<dots> = (us ! (length us - 1), length ts + (length us - 1), s)" using us by (simp add: run_entries_def)
  finally have e: "snd (snd (last ?es)) = s" "fst (snd (last ?es)) + 1 = length (ts @ us)" using us by (simp_all add: Suc_leI)
  have "kv_states kern d' = kv_states kern d0" using kv_states_geo [of d' d0 kern] a(2) r(1) by simp
  then have "slot_rows d' s (length (ts @ us)) = kv_states kern d0 (ts @ us)" using a(1) by (simp add: covers_def)
  then show "out \<noteq> [] \<and> last out = head (kv_states kern d0 (ts @ us)) \<and> snd dl' = lg (kv_states kern d0 (ts @ us))" if w
    unfolding dl' e using a(4) [OF that] that kv_states_geo [OF r(1)] by simp
qed

lemma fill_chunks_passes:
  "ready kern d0 s ts dl \<Longrightarrow> n = length (ts @ concat cs) \<Longrightarrow>
    passes (\<lambda>_ dl'. ready kern d0 s (ts @ concat cs) dl' \<and> (cs \<noteq> [] \<and> last cs \<noteq> [] \<longrightarrow> snd dl' = lg (kv_states kern d0 (ts @ concat cs))))
      (fill_chunks (multi_noted kern head lg) s n cs (length ts) dl)"
proof (induction cs arbitrary: ts dl)
  case Nil
  then show ?case by (simp add: passes_Ok)
next
  case (Cons c cs)
  show ?case unfolding fill_chunks.simps
  proof (rule passes_then [OF passes_call])
    fix out dl'
    assume st: "multi_noted kern head lg dl (run_entries s (length ts) c) (length ts + length c = n) = Ok (out, dl')"
    note a = noted_answer [OF st Cons.prems(1)]
    show "passes (\<lambda>_ dl'. ready kern d0 s (ts @ concat (c # cs)) dl' \<and>
          (c # cs \<noteq> [] \<and> last (c # cs) \<noteq> [] \<longrightarrow> snd dl' = lg (kv_states kern d0 (ts @ concat (c # cs)))))
        (fill_chunks (multi_noted kern head lg) s n cs (length ts + length c) dl')"
    proof (cases "cs = []")
      case True
      then show ?thesis using a Cons.prems(2) by (auto intro!: passes_Ok)
    next
      case False
      with Cons.IH [OF a(1)] Cons.prems(2) show ?thesis by simp
    qed
  qed
qed

lemma prefill_logits_passes:
  assumes r: "ready kern d0 s (take start ids) dl" and len: "start < length ids"
  shows "passes (\<lambda>x dl'. ready kern d0 s ids dl' \<and> x = lg (kv_states kern d0 ids)) (prefill_logits (multi_noted kern head lg) snd cap s ids start limit dl)"
proof -
  let ?w = "max (case limit of None \<Rightarrow> cap | Some l \<Rightarrow> min l cap) 1" and ?rest = "drop start ids"
  have w: "0 < ?w" by simp
  have ne: "?rest \<noteq> []" using len by simp
  have c: "take start ids @ concat (chunks ?w ?rest) = ids" by (simp add: concat_chunks)
  have l: "length (take start ids) = start" using len by simp
  have last: "last (chunks ?w ?rest) \<noteq> []" using chunks_bounds [OF last_in_set [OF chunks_nonempty [OF w ne]]] by auto
  have "passes (\<lambda>_ dl'. ready kern d0 s ids dl' \<and> snd dl' = lg (kv_states kern d0 ids)) (fill_chunks (multi_noted kern head lg) s (length ids) (chunks ?w ?rest) start dl)"
    using fill_chunks_passes [OF r, where cs = "chunks ?w ?rest" and n = "length ids" and lg = lg and head = head, unfolded c l] last chunks_nonempty [OF w ne]
    by (simp del: length_concat)
  moreover have "\<not> length ids < start" using len by simp
  ultimately show ?thesis unfolding prefill_logits_def Let_def
    by (simp only: if_False) (erule passes_then, simp add: passes_Ok)
qed

lemma decode_from_passes:
  "ready kern d0 s ts dl \<Longrightarrow>
    passes (\<lambda>got' dl'. kv_geo (fst dl') = kv_geo d0 \<and> got' = got @ greedy (\<lambda>c. head (kv_states kern d0 c)) eos (m - 1) n ts t)
      (decode_from n (multi_noted kern head lg) eos m s (length ts) got t dl)"
proof (induction n arbitrary: ts got t dl)
  case 0
  then show ?case by (simp add: passes_Ok ready_def)
next
  case (Suc n)
  show ?case
  proof (cases "t \<in> set eos \<or> m \<le> length ts + 1")
    case True
    then show ?thesis using Suc.prems by (auto intro!: passes_Ok simp: ready_def)
  next
    case False
    then have go: "t \<notin> set eos" "\<not> m \<le> length ts + 1" "\<not> m - 1 \<le> length ts" by auto
    have e: "[(t, length ts, s)] = run_entries s (length ts) [t]" by (simp add: run_entries_def)
    show ?thesis unfolding decode_from.simps if_not_P [OF go(1)] if_not_P [OF go(2)] e
    proof (rule passes_then [OF passes_call])
      fix out dl'
      assume st: "multi_noted kern head lg dl (run_entries s (length ts) [t]) True = Ok (out, dl')"
      note a = noted_answer [OF st Suc.prems]
      obtain d l d' l' where dl: "dl = (d, l)" "dl' = (d', l')" by fastforce
      have "step_multi kern head d (run_entries s (length ts) [t]) True = Ok (out, d')" using st by (auto simp: multi_noted_def dl bind_res_Ok)
      then have "length out = 1" using step_multi_extends_context [OF _ _ covers_nil, of kern head d s ts "[t]" out d' "Suc s"] Suc.prems by (simp add: ready_def dl)
      then obtain x where x: "out = [x]" by (auto simp: length_Suc_conv)
      from Suc.IH [OF a(1), where got = "got @ [t]" and t = x] a(2) go
      show "passes (\<lambda>got' dl'. kv_geo (fst dl') = kv_geo d0 \<and> got' = got @ greedy (\<lambda>c. head (kv_states kern d0 c)) eos (m - 1) (Suc n) ts t)
          (if out = [] then (Panic, dl') else decode_from n (multi_noted kern head lg) eos m s (length ts + 1) (got @ [t]) (out ! 0) dl')"
        by (simp add: x)
    qed
  qed
qed

lemma ready_any: "ready kern d0 s ts d \<Longrightarrow> ready kern d0 s' (take 0 xs) d"
  by (simp add: ready_def covers_nil)

lemma ready_geo: "kv_geo (fst d) = kv_geo d0 \<Longrightarrow> ready kern d0 s (take 0 xs) d"
  by (simp add: ready_def covers_nil)

lemma own_spread_passes:
  assumes "kv_geo (fst d) = kv_geo d0" "0 < length ids"
  shows "passes (\<lambda>(base, spread) d'. kv_geo (fst d') = kv_geo d0 \<and> base = lg (kv_states kern d0 ids) \<and> spread = lm_max M (lm_delta M base base) (lm_delta M base base))
    (own_spread M (multi_noted kern head lg) snd cap ids d)"
  unfolding own_spread_def
  by (rule passes_then, rule prefill_logits_passes [OF ready_geo [OF assms(1)] assms(2)], elim conjE,
      rule passes_then, rule prefill_logits_passes [OF ready_any assms(2)], assumption, elim conjE,
      rule passes_then, rule prefill_logits_passes [OF ready_any assms(2)], assumption, elim conjE, rule passes_Ok)
    (simp add: ready_def)

lemma resumed_passes:
  assumes "kv_geo (fst d) = kv_geo d0" "8 \<le> length ids"
  shows "passes (\<lambda>(reuse, toks) d'. kv_geo (fst d') = kv_geo d0 \<and> reuse = lg (kv_states kern d0 ids) \<and>
      toks = greedy (\<lambda>c. head (kv_states kern d0 c)) eos (m - 1) n ids (lm_best M reuse))
    (resumed M (multi_noted kern head lg) snd eos m cap ids n d)"
proof -
  have l: "0 < length (take (length ids div 2) ids)" "length ids div 2 < length ids" using assms(2) by auto
  show ?thesis unfolding resumed_def Let_def
    by (rule passes_then, rule prefill_logits_passes [OF ready_geo [OF assms(1)] l(1)], elim conjE,
        rule passes_then, erule prefill_logits_passes [OF _ l(2)], elim conjE, rule passes_then, erule decode_from_passes, rule passes_Ok) simp
qed

lemma parked_and_resumed_passes:
  fixes lg :: "bytes list list \<Rightarrow> 'l"
  assumes "kv_geo (fst d) = kv_geo d0" "8 \<le> length ids"
  shows "passes (\<lambda>(blob, restored, toks) d'. kv_geo (fst d') = kv_geo d0 \<and> restored = lg (kv_states kern d0 ids) \<and>
      toks = greedy (\<lambda>c. head (kv_states kern d0 c)) eos (m - 1) n ids (lm_best M restored))
    (parked_and_resumed M (multi_noted kern head lg) snd export_noted import_noted eos m cap ids n d)"
proof -
  let ?k = "length ids div 2"
  have l: "0 < length (take ?k ids)" "?k < length ids" "0 < length (drop ?k ids)" and k: "length (take ?k ids) = ?k" using assms(2) by auto
  let ?X = "\<lambda>blob (d :: kv_dec \<times> 'l). kv_geo (fst d) = kv_geo d0 \<and> (\<exists>d1. kv_geo d1 = kv_geo d0 \<and> covers kern d1 1 (take ?k ids) \<and> kv_export d1 1 (length (take ?k ids)) = Ok blob)"
  show ?thesis unfolding parked_and_resumed_def Let_def
  proof (rule passes_then, rule prefill_logits_passes [OF ready_geo [OF assms(1)] l(1)], rule passes_then [where P = ?X], rule passes_call)
    fix u blob and d d' :: "kv_dec \<times> 'l"
    assume "ready kern d0 1 (take ?k ids) d \<and> u = lg (kv_states kern d0 (take ?k ids))" "bind_res (export_noted d 1 ?k) (\<lambda>b. Ok (b, d)) = Ok (blob, d')"
    then show "?X blob d'" unfolding k by (auto simp: ready_def export_noted_def bind_res_Ok)
  next
    fix blob and d :: "kv_dec \<times> 'l"
    assume X: "?X blob d"
    then obtain d1 where d1: "kv_geo d1 = kv_geo d0" "covers kern d1 1 (take ?k ids)" "kv_export d1 1 (length (take ?k ids)) = Ok blob" by blast
    have restored: "ready kern d0 1 (take ?k ids) d3"
      if "kv_geo (fst d2) = kv_geo d0" "bind_res (import_noted d2 1 ?k blob) (\<lambda>d'. Ok ((), d')) = Ok (u, d3)" for u and d2 d3 :: "kv_dec \<times> 'l"
    proof -
      obtain e2 x2 where d2: "d2 = (e2, x2)" by fastforce
      from that(2) obtain e3 where i: "kv_import e2 1 (length (take ?k ids)) blob = Ok e3" "fst d3 = e3" unfolding k
        by (auto simp: import_noted_def d2 bind_res_Ok)
      have g: "kv_geo e2 = kv_geo d1" using that(1) d1(1) by (simp add: d2)
      from kv.imp_exp [OF d1(2,3) g i(1)] kv.imp_geo [OF i(1)] g d1(1) show ?thesis by (simp add: ready_def i(2))
    qed
    show "passes (\<lambda>(blob, restored, toks) d'. kv_geo (fst d') = kv_geo d0 \<and> restored = lg (kv_states kern d0 ids) \<and>
          toks = greedy (\<lambda>c. head (kv_states kern d0 c)) eos (m - 1) n ids (lm_best M restored))
        (and_then (prefill_logits (multi_noted kern head lg) snd cap 1 (drop ?k ids) 0 None d) (\<lambda>_ d.
         and_then (call (bind_res (import_noted d 1 ?k blob) (\<lambda>d'. Ok ((), d'))) d) (\<lambda>_ d.
         and_then (prefill_logits (multi_noted kern head lg) snd cap 1 ids ?k None d) (\<lambda>restored d.
         and_then (decode_from n (multi_noted kern head lg) eos m 1 (length ids) [] (lm_best M restored) d) (\<lambda>toks d. (Ok (blob, restored, toks), d))))))"
      by (rule passes_then, rule prefill_logits_passes [OF ready_geo [OF conjunct1 [OF X]] l(3)], elim conjE,
          rule passes_then [where P = "\<lambda>_. ready kern d0 1 (take ?k ids)"], rule passes_call, erule restored [rotated], simp add: ready_def,
          rule passes_then, erule prefill_logits_passes [OF _ l(2)], elim conjE, rule passes_then, erule decode_from_passes, rule passes_Ok) simp
  qed
qed


section \<open>Witnesses\<close>

definition rows_head :: "bytes list list \<Rightarrow> u32" where
  "rows_head rows = of_nat (length rows)"

lemma batch_selftest_never_diverges_witness:
  "\<exists>d' gen. batch_selftest (step_multi tiny_kern rows_head) [] 3 4 [5, 6] 2 1 tiny_dec = (Ok 2, d') \<and> length gen = 1 \<and>
     covers tiny_kern d' 0 ([5, 6] @ gen) \<and> covers tiny_kern d' 1 ([5, 6] @ gen)"
proof -
  let ?t = "batch_selftest (step_multi tiny_kern rows_head) [] 3 4 [5, 6] 2 1 tiny_dec"
  have "fst ?t = Ok 2" by code_simp
  then obtain d' where t: "?t = (Ok 2, d')" by (cases ?t) auto
  from batch_selftest_never_diverges [OF _ _ t] obtain gen where "2 = 2 * length gen" "\<forall>s < 2. covers tiny_kern d' s ([5, 6] @ gen)" by auto
  with t show ?thesis by (intro exI [of _ d'] exI [of _ gen]) auto
qed

lemma serial_selftest_never_diverges_witness:
  "\<exists>d'. serial_selftest (step_chunk tiny_kern rows_head) (step_one tiny_kern rows_head) [] 3 2 [5] 2 2 tiny_dec = (Ok (Some [1, 2]), d') \<and>
     [1, 2] = greedy (\<lambda>c. rows_head (kv_states tiny_kern tiny_dec c)) [] 3 2 [5] 1"
proof -
  let ?t = "serial_selftest (step_chunk tiny_kern rows_head) (step_one tiny_kern rows_head) [] 3 2 [5] 2 2 tiny_dec"
  have "fst ?t = Ok (Some [1, 2])" by code_simp
  then obtain d' where t: "?t = (Ok (Some [1, 2]), d')" by (cases ?t) auto
  from serial_selftest_never_diverges [OF _ _ t] t show ?thesis by (simp add: rows_head_def)
qed


lemma ppl_is_teacher_forced_witness:
  "\<exists>dl. ppl_mode (one_noted tiny_kern rows_head length) snd (\<lambda>a l t. Some (a + l)) 0 3 [5, 6, 7] (tiny_dec, 0) = (Ok 3, dl) \<and>
     Some 3 = foldl (\<lambda>acc p. Option.bind acc (\<lambda>a. Some (a + length (kv_states tiny_kern tiny_dec (take (p + 1) [5, 6, 7]))))) (Some 0) [0..<2]"
proof -
  let ?t = "ppl_mode (one_noted tiny_kern rows_head length) snd (\<lambda>a l t. Some (a + l)) 0 3 [5, 6, 7] (tiny_dec, 0)"
  have "fst ?t = Ok 3" by code_simp
  then obtain dl where t: "?t = (Ok 3, dl)" by (cases ?t) auto
  from ppl_is_teacher_forced [OF t] t show ?thesis by (auto simp: numeral_2_eq_2)
qed

text \<open>Eight tokens on a decoder with room for twelve positions; the logits are the number of rows.\<close>

definition long_dec :: kv_dec where
  "long_dec = \<lparr>d_layers = 1, d_kv_heads = 1, d_head_dim = 1, d_kv_f16 = True, d_max_seq = 9, d_batch_cap = 2,
     d_chunk_cap = 8, d_mem = (\<lambda>b x. 0)\<rparr>"

definition count_math :: "(nat, int) logit_math" where
  "count_math = \<lparr>lm_delta = (\<lambda>a b. \<bar>int a - int b\<bar>), lm_best = of_nat, lm_max = max, lm_bound = (\<lambda>x. 2 * x + 1), lm_gt = (>), lm_nonzero = (\<lambda>x. x \<noteq> 0)\<rparr>"


end
