(* ===== verification/Spec2Isabelle.thy ===== *)
theory Spec2Isabelle
  imports Prelude Expert_Cache Cache_Safety Pager Pager_Machine Pager_Safety Pager_Props Pager_Request Ram_Tier
    Kv_Lanes Sessions Session_Safety Generation Session_Props Batch Session_Faults Pack Quant Sampling Routing Safetensors Checkpoint
    Convert Convert_Kimi Convert_Examples Gguf Gguf_Props Layer_Sweep Model Decode_Step Decode_Waves Decode_Props Kimi_Step Kimi_Props
    Release_Ring Wave_Requests Kimi_Kv Device Core_Load Lifecycle Life_Examples
    Kimi_Core Kimi_Life Registry Any_Decoder Front_End Admin Server Serve_Examples Selftest
begin

text \<open>
  llmpager runs mixture-of-experts models that do not fit the graphics card. The weights every token
  needs (the core) stay on the device; the experts lie in a pack file and are paged into a cache of
  device slots as the router picks them. A converter writes the pack and the core from a checkpoint,
  and a server parks and restores the KV contexts of chat sessions. This library models the Rust
  crates under \<open>src/crates\<close> and proves what each part promises.

  \<^bold>\<open>The parts and their theories.\<close>

  \<^item> \<open>Prelude\<close>: fallible results (\<open>Ok\<close>, \<open>Err\<close>, \<open>Panic\<close>) and their binds, bytes and little-endian
    numbers, files as byte lists, first minimum, blocks of lists, the collection \<open>panic_simps\<close>.
  \<^item> The expert cache, \<open>llmpager-core/src/cache.rs\<close>. \<open>Expert_Cache\<close> has the slots, partitions and
    operations and the interfaces \<open>expert_pool\<close> and \<open>read_through_pool\<close>, interpreted on them; \<open>Cache_Safety\<close> proves over all runs
    that an expert sits in one slot and that a pinned one is never evicted.
  \<^item> The pager, \<open>llmpager-cuda/src/pager.rs\<close>. \<open>Pager\<close> has one function per critical section;
    \<open>Pager_Machine\<close> the step relation of client calls, worker copies and completions over device memory;
    \<open>Pager_Safety\<close> the invariant \<open>minv\<close>; \<open>Pager_Props\<close> its consequences (a handle waited for reads its
    own expert; a wait can finish while a worker lives); \<open>Pager_Request\<close> a whole \<open>request\<close> and the
    arenas. \<open>Ram_Tier\<close> has the host-memory tier and pre-warming.
  \<^item> The files. \<open>Pack\<close> (\<open>pack.rs\<close>), \<open>Quant\<close> (\<open>quant.rs\<close>), \<open>Safetensors\<close> (\<open>st.rs\<close>), \<open>Checkpoint\<close> and
    \<open>Convert\<close> (\<open>llmpager-convert/src/lib.rs\<close>), \<open>Convert_Kimi\<close> (\<open>llmpager-convert/src/kimi.rs\<close>), \<open>Gguf\<close>
    (\<open>gguf.rs\<close>): writers, readers and their round trips; \<open>converted_pack_serves_experts\<close> composes the
    converter, the writer and the reader the pager uses.
  \<^item> The decoders, \<open>llmpager-run/src\<close>. \<open>Sampling\<close> and \<open>Routing\<close> (\<open>sample.rs\<close> and the two routers);
    \<open>Model\<close> and \<open>Core_Load\<close> (\<open>model.rs\<close>); \<open>Layer_Sweep\<close>, \<open>Decode_Step\<close>, \<open>Decode_Waves\<close>, \<open>Decode_Props\<close>
    (\<open>step\<close>, \<open>step_chunk\<close>, \<open>step_multi\<close> of \<open>decode.rs\<close>), \<open>Kimi_Step\<close>, \<open>Kimi_Props\<close> (those of \<open>kimi.rs\<close>);
    \<open>Kv_Lanes\<close>, \<open>Kimi_Kv\<close> (export and import of KV state, with the interface \<open>kv_lanes\<close> the server's sessions use); \<open>Release_Ring\<close> (the deferred release of handles);
    \<open>Wave_Requests\<close> (the waves of \<open>step_multi\<close> on the pager); \<open>Device\<close>, \<open>Lifecycle\<close>, \<open>Life_Examples\<close>
    (loading, resizing and unloading a model as device memory).
  \<^item> The server, \<open>llmpager-serve/src/main.rs\<close>. \<open>Sessions\<close> and \<open>Session_Safety\<close> (the store that parks
    contexts and its invariant), \<open>Generation\<close> and \<open>Session_Props\<close> (a turn of a session), \<open>Batch\<close> and
    \<open>Session_Faults\<close> (lockstep batches over the interface \<open>kv_batch\<close>, and what they do to sessions).

  \<^bold>\<open>How to read the models.\<close> Functions carry the names of the source. A function that can fail returns
  a \<open>res\<close>: \<open>Err\<close> for an error value, \<open>Panic\<close> for a Rust panic (index out of range, failed assertion,
  division by zero). Values of type \<open>u16\<close>, \<open>u32\<close> and \<open>u64\<close> are words where the source wraps, casts or
  compares at the width; \<open>usize\<close> lengths and file offsets are natural numbers, and where the source
  adds numbers read from a file an overflow is written out as \<open>Panic\<close>, the behaviour of a build with
  overflow checks. Files are byte lists; maps are association lists where order matters.

  \<^bold>\<open>Parameters.\<close> What is not under \<open>src\<close> is an argument: the arithmetic of \<open>f32\<close> (records \<open>f32_ops\<close>,
  \<open>f32_math\<close>) and the CUDA kernels (record \<open>kernels\<close>), the JSON parser and emitter, zstd, the lossy
  UTF-8 conversion, and the answers of the CUDA driver (\<open>rc\<close> in \<open>Release_Ring\<close>, record \<open>cuda\<close> in
  \<open>Device\<close>). Each law relied on is a hypothesis of the theorems that use it: what was
  written parses back, decompression inverts compression, an allocation returns an address not in use,
  addition is exact where sums are split into waves.

  \<^bold>\<open>Loops.\<close> Recursions are structural or come with a measure. Two have fuel: \<open>Pager::request\<close> waits in
  a loop, and its fuel counts the wake-ups (\<open>request_with_room_succeeds\<close> gives the fuel that suffices
  and shows that none is spent on waiting); skipping a nested GGUF value has a depth, and
  \<open>skip_value_terminates\<close> shows that one more than the bytes left is always enough.

  \<^bold>\<open>Not modelled.\<close> The CUDA and PTX kernels and their launch wrappers (\<open>kernels.rs\<close>), opening the
  driver library and the kernel module, threads and sockets as such (the server's request queue and
  HTTP parsing; the pager's threads are the steps of its machine), command lines, benchmarks, logging,
  timing and the generators of test checkpoints. GPU execution is asynchronous: the decoders are
  modelled as the functions the kernels compute in stream order, and that no slot is reused under a
  running kernel is what \<open>Release_Ring\<close> shows separately.
\<close>

end
